(* ===== verification/Prelude.thy ===== *)
theory Prelude
  imports Main "HOL-Library.Word"
begin

text \<open>
  Shared vocabulary of the development: the faults a C statement can raise, results that are a
  fault or a value, a heap of typed cells with \<open>malloc\<close>, \<open>free\<close>, pointer reads and pointer
  writes, singly linked chains in such a heap, and the integer types of the x86-64 ABI.

  A pointer is an optional address; \<open>None\<close> is \<open>NULL\<close>. The block that a call of \<open>malloc\<close>
  returns is an argument of the operation that calls it (\<open>None\<close> when the allocator is out of
  memory); \<open>fresh\<close> states what the C standard promises about it, namely that it is disjoint
  from every live block. Reading or writing through a pointer that is \<open>NULL\<close> or whose block
  was freed is a \<open>fault\<close>, so that a proof that an operation returns \<open>Inr\<close> is also a proof
  that it is memory safe.
\<close>

named_theorems res_simps \<open>computation rules of results\<close>
named_theorems heap_simps \<open>computation rules of the heap operations\<close>
named_theorems inv_intros \<open>preservation of component invariants\<close>

section \<open>Faults and results\<close>

datatype fault =
    NullDeref
  | UseAfterFree
  | DoubleFree
  | AssertFail
  | AbortCall
  | ExitCall int
  | OutOfBounds
  | DivByZero
  | BadUnlock

type_synonym 'a res = "fault + 'a"

definition rbind :: "'a res \<Rightarrow> ('a \<Rightarrow> 'b res) \<Rightarrow> 'b res" where
  "rbind r f = (case r of Inl e \<Rightarrow> Inl e | Inr x \<Rightarrow> f x)"

lemma rbind_Inl [simp, res_simps]: "rbind (Inl e) f = Inl e"
  by (simp add: rbind_def)

lemma rbind_Inr [simp, res_simps]: "rbind (Inr x) f = f x"
  by (simp add: rbind_def)

lemma rbind_eq_Inr: "rbind r f = Inr y \<longleftrightarrow> (\<exists>x. r = Inr x \<and> f x = Inr y)"
  by (cases r) auto

lemma rbind_assoc: "rbind (rbind r f) g = rbind r (\<lambda>x. rbind (f x) g)"
  by (cases r) auto

definition is_ok :: "'a res \<Rightarrow> bool" where
  "is_ok r = (case r of Inl _ \<Rightarrow> False | Inr _ \<Rightarrow> True)"

lemma is_ok_simps [simp, res_simps]: "is_ok (Inr x)" "\<not> is_ok (Inl e)"
  by (simp_all add: is_ok_def)

lemma is_ok_iff: "is_ok r \<longleftrightarrow> (\<exists>x. r = Inr x)"
  by (cases r) auto

text \<open>Results of code with loops: \<open>None\<close> is a loop that never ends.\<close>

definition tbind :: "'a res option \<Rightarrow> ('a \<Rightarrow> 'b res option) \<Rightarrow> 'b res option" where
  "tbind r f = (case r of None \<Rightarrow> None | Some (Inl e) \<Rightarrow> Some (Inl e) | Some (Inr x) \<Rightarrow> f x)"

lemma tbind_simps [simp, res_simps]:
  "tbind None f = None"
  "tbind (Some (Inl e)) f = Some (Inl e)"
  "tbind (Some (Inr x)) f = f x"
  by (simp_all add: tbind_def)

section \<open>Heaps\<close>

type_synonym addr = nat
type_synonym ptr = "addr option"
type_synonym 'c heap = "addr \<rightharpoonup> 'c"

definition deref :: "'c heap \<Rightarrow> ptr \<Rightarrow> 'c res" where
  "deref h p = (case p of None \<Rightarrow> Inl NullDeref
     | Some a \<Rightarrow> (case h a of None \<Rightarrow> Inl UseAfterFree | Some c \<Rightarrow> Inr c))"

definition store :: "'c heap \<Rightarrow> ptr \<Rightarrow> ('c \<Rightarrow> 'c) \<Rightarrow> 'c heap res" where
  "store h p f = (case p of None \<Rightarrow> Inl NullDeref
     | Some a \<Rightarrow> (case h a of None \<Rightarrow> Inl UseAfterFree | Some c \<Rightarrow> Inr (h(a \<mapsto> f c))))"

definition free_at :: "'c heap \<Rightarrow> ptr \<Rightarrow> 'c heap res" where
  "free_at h p = (case p of None \<Rightarrow> Inr h
     | Some a \<Rightarrow> (case h a of None \<Rightarrow> Inl DoubleFree | Some _ \<Rightarrow> Inr (h(a := None))))"

definition fresh :: "'c heap \<Rightarrow> ptr \<Rightarrow> bool" where
  "fresh h m = (case m of None \<Rightarrow> False | Some a \<Rightarrow> h a = None)"

lemma deref_simps [simp, heap_simps]:
  "deref h None = Inl NullDeref"
  "h a = None \<Longrightarrow> deref h (Some a) = Inl UseAfterFree"
  "h a = Some c \<Longrightarrow> deref h (Some a) = Inr c"
  by (simp_all add: deref_def)

lemma store_simps [simp, heap_simps]:
  "store h None f = Inl NullDeref"
  "h a = None \<Longrightarrow> store h (Some a) f = Inl UseAfterFree"
  "h a = Some c \<Longrightarrow> store h (Some a) f = Inr (h(a \<mapsto> f c))"
  by (simp_all add: store_def)

lemma free_at_simps [simp, heap_simps]:
  "free_at h None = Inr h"
  "h a = None \<Longrightarrow> free_at h (Some a) = Inl DoubleFree"
  "h a = Some c \<Longrightarrow> free_at h (Some a) = Inr (h(a := None))"
  by (simp_all add: free_at_def)

lemma fresh_simps [simp, heap_simps]:
  "\<not> fresh h None"
  "fresh h (Some a) \<longleftrightarrow> h a = None"
  by (simp_all add: fresh_def)

lemma freshE:
  assumes "fresh h m"
  obtains a where "m = Some a" "h a = None"
  using assms by (cases m) auto

text \<open>An allocator: the least address that is not in use, for heaps with finitely many cells.\<close>

definition least_free :: "'c heap \<Rightarrow> ptr" where
  "least_free h = Some (LEAST a. h a = None)"

lemma fresh_least_free: "finite (dom h) \<Longrightarrow> fresh h (least_free h)"
proof -
  assume "finite (dom h)"
  then obtain a where "a \<notin> dom h" using ex_new_if_finite infinite_UNIV_nat by blast
  then have "h a = None" by auto
  then have "h (LEAST a. h a = None) = None" by (rule LeastI [of "\<lambda>a. h a = None"])
  then show ?thesis by (simp add: least_free_def)
qed

section \<open>Linked chains\<close>

text \<open>
  \<open>chain nx h p as\<close>: following the link field \<open>nx\<close> from the pointer \<open>p\<close> visits exactly the
  live addresses \<open>as\<close>, in this order, and then reaches \<open>NULL\<close>.
\<close>

primrec segment :: "('c \<Rightarrow> ptr) \<Rightarrow> 'c heap \<Rightarrow> ptr \<Rightarrow> addr list \<Rightarrow> ptr \<Rightarrow> bool" where
  "segment nx h p [] q = (p = q)"
| "segment nx h p (a # as) q =
     (p = Some a \<and> (case h a of None \<Rightarrow> False | Some c \<Rightarrow> segment nx h (nx c) as q))"

definition chain :: "('c \<Rightarrow> ptr) \<Rightarrow> 'c heap \<Rightarrow> ptr \<Rightarrow> addr list \<Rightarrow> bool" where
  "chain nx h p as = segment nx h p as None"

lemma chain_simps [simp]:
  "chain nx h p [] \<longleftrightarrow> p = None"
  "chain nx h p (a # as) \<longleftrightarrow> p = Some a \<and> (\<exists>c. h a = Some c \<and> chain nx h (nx c) as)"
  by (auto simp: chain_def split: option.splits)

lemma chain_NULL [simp]: "chain nx h None as \<longleftrightarrow> as = []"
  by (cases as) auto

lemma segment_append:
  "segment nx h p (as @ bs) q \<longleftrightarrow> (\<exists>r. segment nx h p as r \<and> segment nx h r bs q)"
  by (induction as arbitrary: p) (auto split: option.splits)

lemma segment_cong:
  "(\<And>a. a \<in> set as \<Longrightarrow> h' a = h a) \<Longrightarrow> segment nx h' p as q = segment nx h p as q"
  by (induction as arbitrary: p) (auto split: option.splits)

lemma chain_cong: "(\<And>a. a \<in> set as \<Longrightarrow> h' a = h a) \<Longrightarrow> chain nx h' p as = chain nx h p as"
  unfolding chain_def by (rule segment_cong)

lemma segment_dom: "segment nx h p as q \<Longrightarrow> set as \<subseteq> dom h"
  by (induction as arbitrary: p) (auto split: option.splits)

lemma chain_dom: "chain nx h p as \<Longrightarrow> set as \<subseteq> dom h"
  unfolding chain_def by (rule segment_dom)

lemma chain_unique: "chain nx h p as \<Longrightarrow> chain nx h p bs \<Longrightarrow> as = bs"
proof (induction as arbitrary: p bs)
  case Nil
  then show ?case by (cases bs) auto
next
  case (Cons a as)
  then show ?case by (cases bs) auto
qed

lemma chain_suffix: "chain nx h p (as @ a # bs) \<Longrightarrow> chain nx h (Some a) (a # bs)"
  by (auto simp: chain_def segment_append)

lemma chain_head_notin: "chain nx h p (a # as) \<Longrightarrow> a \<notin> set as"
proof
  assume c: "chain nx h p (a # as)" and "a \<in> set as"
  then obtain us vs where as: "as = us @ a # vs" by (auto simp: in_set_conv_decomp)
  with c have "chain nx h p ((a # us) @ a # vs)" by simp
  then have "chain nx h (Some a) (a # vs)" by (rule chain_suffix)
  moreover from c have "chain nx h (Some a) (a # as)" by auto
  ultimately have "a # vs = a # as" by (rule chain_unique)
  with as show False by simp
qed

lemma chain_distinct: "chain nx h p as \<Longrightarrow> distinct as"
proof (induction as arbitrary: p)
  case (Cons a as)
  then have "a \<notin> set as" by (blast dest: chain_head_notin)
  moreover from Cons have "distinct as" by auto
  ultimately show ?case by simp
qed simp

lemma chain_null_iff: "chain nx h p as \<Longrightarrow> p = None \<longleftrightarrow> as = []"
  by (cases as) auto

lemma chain_update_other:
  "chain nx h p as \<Longrightarrow> a \<notin> set as \<Longrightarrow> chain nx (h(a := v)) p as"
  by (subst chain_cong [of as "h(a := v)" h]) auto

text \<open>Pushing a cell in front, taking the first cell off, and linking a cell behind the last.\<close>

lemma chain_push:
  assumes "chain nx h p as" "h n = None" "nx c = p"
  shows "chain nx (h(n \<mapsto> c)) (Some n) (n # as)"
proof -
  from assms(1,2) have "n \<notin> set as" by (auto dest: chain_dom)
  with assms show ?thesis by (simp add: chain_update_other)
qed

lemma chain_pop:
  assumes "chain nx h (Some a) (a # as)" "h a = Some c"
  shows "chain nx (h(a := None)) (nx c) as"
  using assms chain_head_notin [OF assms(1)] by (auto simp: chain_update_other)

lemma chain_relink:
  assumes "chain nx h p as" "h a = Some c" "nx c' = nx c"
  shows "chain nx (h(a \<mapsto> c')) p as"
  using assms by (induction as arbitrary: p) auto

lemma chain_snoc:
  assumes "chain nx h p as" "as \<noteq> []" "h (last as) = Some c" "h n = None"
    and "nx c' = Some n" "nx d = None"
  shows "chain nx (h(last as \<mapsto> c', n \<mapsto> d)) p (as @ [n])"
  using assms
proof (induction as arbitrary: p)
  case (Cons a as)
  from Cons.prems have a: "p = Some a" "a \<noteq> n" "n \<notin> set as"
    by (auto dest: chain_dom)
  from Cons.prems(1) have anot: "a \<notin> set as" by (rule chain_head_notin)
  show ?case
  proof (cases "as = []")
    case True
    with Cons.prems a show ?thesis by simp
  next
    case False
    from Cons.prems obtain c0 where c0: "h a = Some c0" "chain nx h (nx c0) as" by auto
    from False have "last as \<in> set as" by simp
    with anot have "a \<noteq> last as" by blast
    with c0 False Cons a show ?thesis by simp
  qed
qed simp

lemma chain_link_behind:
  assumes "chain nx h p as" "as \<noteq> []" "h (last as) = Some c" "h n = None"
    and "nx c' = Some n" "nx d = None"
  shows "chain nx (h(n \<mapsto> d, last as \<mapsto> c')) p (as @ [n])"
proof -
  from assms(3,4) have "n \<noteq> last as" by auto
  then have "h(n \<mapsto> d, last as \<mapsto> c') = h(last as \<mapsto> c', n \<mapsto> d)"
    by (rule fun_upd_twist)
  with chain_snoc [OF assms] show ?thesis by simp
qed

lemma chain_last_live:
  "chain nx h p as \<Longrightarrow> as \<noteq> [] \<Longrightarrow> \<exists>c. h (last as) = Some c \<and> nx c = None"
proof (induction as arbitrary: p)
  case (Cons a as)
  then show ?case by (cases as) auto
qed simp

text \<open>
  The loop that frees a chain: read the link, free the cell, go on. It is defined for every heap
  (\<open>None\<close> would be a loop that never ends); on a chain it ends and frees exactly its cells.
\<close>

partial_function (option) free_chain :: "('c \<Rightarrow> ptr) \<Rightarrow> 'c heap \<Rightarrow> ptr \<Rightarrow> 'c heap res option" where
  "free_chain nx h p = (case p of None \<Rightarrow> Some (Inr h)
     | Some a \<Rightarrow> (case h a of None \<Rightarrow> Some (Inl UseAfterFree)
         | Some c \<Rightarrow> free_chain nx (h(a := None)) (nx c)))"

lemma free_chain_simps [simp]:
  "free_chain nx h None = Some (Inr h)"
  "h a = None \<Longrightarrow> free_chain nx h (Some a) = Some (Inl UseAfterFree)"
  "h a = Some c \<Longrightarrow> free_chain nx h (Some a) = free_chain nx (h(a := None)) (nx c)"
  by (subst free_chain.simps; simp)+

lemma free_chain_chain:
  "chain nx h p as \<Longrightarrow> free_chain nx h p = Some (Inr (h |` (- set as)))"
proof (induction as arbitrary: h p)
  case Nil
  then show ?case by (simp add: restrict_map_def)
next
  case (Cons a as)
  then obtain c where c: "p = Some a" "h a = Some c" "chain nx h (nx c) as" by auto
  from Cons.prems c have "chain nx (h(a := None)) (nx c) as" by (auto intro: chain_pop)
  then have "free_chain nx (h(a := None)) (nx c) = Some (Inr ((h(a := None)) |` (- set as)))"
    by (rule Cons.IH)
  moreover have "(h(a := None)) |` (- set as) = h |` (- set (a # as))"
    by (auto simp: restrict_map_def fun_eq_iff)
  ultimately show ?case using c by simp
qed

lemma restrict_dom_empty: "dom h \<subseteq> A \<Longrightarrow> h |` (- A) = Map.empty"
  by (auto simp: restrict_map_def fun_eq_iff)

section \<open>Machine integers\<close>

type_synonym i32 = "32 word"
type_synonym i64 = "64 word"
type_synonym usize = "64 word"

lemma of_nat_Suc_word: "(of_nat (Suc n) :: 'a::len word) = of_nat n + 1"
  by (simp add: add.commute)

lemma word_of_unat: "unat w = n \<Longrightarrow> (w :: 'a::len word) = of_nat n"
  by auto

section \<open>Lists\<close>

lemma last_map_conv: "xs \<noteq> [] \<Longrightarrow> last (map f xs) = f (last xs)"
  by (simp add: last_map)

lemma find_SomeD: "find P xs = Some x \<Longrightarrow> x \<in> set xs \<and> P x"
  by (induction xs) (auto split: if_splits)

lemma option_eqI: "(\<And>x. p = Some x \<longleftrightarrow> q = Some x) \<Longrightarrow> p = q"
  by (cases p; cases q) auto

lemma take_then_rest: "take m (drop n xs) @ drop (n + length (take m (drop n xs))) xs = drop n xs"
proof -
  have "take m ys @ drop (length (take m ys)) ys = ys" for ys :: "'a list"
    by (cases "m \<le> length ys") simp_all
  from this [of "drop n xs"] show ?thesis by (simp add: add.commute)
qed

lemma nth_append_self: "(xs @ ys) ! length xs = ys ! 0"
  by (simp add: nth_append)

end
