(* ===== verification/Queue_Spec.thy ===== *)
theory Queue_Spec
  imports Prelude
begin

text \<open>
  The contract of a bounded first-in first-out queue whose operations work on a heap, as a locale,
  and what every client may conclude from it. The queues of \<open>sync/\<close> and the coroutine queue of
  \<open>threads/lab1.8\<close> are interpretations of it in their own theories.
\<close>

text \<open>
  A client's calls as a sequence: \<open>Some v\<close> adds \<open>v\<close>, \<open>None\<close> takes a value; \<open>alloc\<close> is the
  allocator. \<open>serve\<close> makes the calls and collects the values accepted and the values delivered.
\<close>

fun serve :: "('q \<Rightarrow> 'v \<Rightarrow> ptr \<Rightarrow> (bool \<times> 'q) res) \<Rightarrow> ('q \<Rightarrow> ('v option \<times> 'q) res) \<Rightarrow> ('q \<Rightarrow> ptr)
    \<Rightarrow> 'q \<Rightarrow> 'v option list \<Rightarrow> ('v list \<times> 'v list \<times> 'q) res" where
  "serve enq deq alloc q [] = Inr ([], [], q)"
| "serve enq deq alloc q (Some v # cs) =
     rbind (enq q v (alloc q)) (\<lambda>(ok, q1). rbind (serve enq deq alloc q1 cs)
       (\<lambda>(ins, outs, q2). Inr (if ok then v # ins else ins, outs, q2)))"
| "serve enq deq alloc q (None # cs) =
     rbind (deq q) (\<lambda>(r, q1). rbind (serve enq deq alloc q1 cs)
       (\<lambda>(ins, outs, q2). Inr (ins, case r of None \<Rightarrow> outs | Some v \<Rightarrow> v # outs, q2)))"

text \<open>
  \<open>rep q vs\<close>: the representation \<open>q\<close> holds the values \<open>vs\<close>, oldest first. \<open>enq q v m\<close> adds
  \<open>v\<close>, with \<open>m\<close> the block its call of \<open>malloc\<close> returned, and reports whether it was added;
  \<open>deq q\<close> takes the oldest value, if any. \<open>room\<close> says whether a value is accepted, \<open>grant\<close>
  what is asked of the allocator.
\<close>

locale fifo_queue =
  fixes rep :: "'q \<Rightarrow> 'v list \<Rightarrow> bool"
    and enq :: "'q \<Rightarrow> 'v \<Rightarrow> ptr \<Rightarrow> (bool \<times> 'q) res"
    and deq :: "'q \<Rightarrow> ('v option \<times> 'q) res"
    and room :: "'q \<Rightarrow> bool"
    and grant :: "'q \<Rightarrow> ptr \<Rightarrow> bool"
  assumes enq_room: "rep q vs \<Longrightarrow> room q \<Longrightarrow> grant q m \<Longrightarrow>
      \<exists>q'. enq q v m = Inr (True, q') \<and> rep q' (vs @ [v])"
    and enq_full: "rep q vs \<Longrightarrow> \<not> room q \<Longrightarrow> \<exists>q'. enq q v m = Inr (False, q') \<and> rep q' vs"
    and deq_empty: "rep q [] \<Longrightarrow> \<exists>q'. deq q = Inr (None, q') \<and> rep q' []"
    and deq_nonempty: "rep q (v # vs) \<Longrightarrow> \<exists>q'. deq q = Inr (Some v, q') \<and> rep q' vs"
begin

text \<open>Any sequence of calls is served without a fault, and values leave in the order they came.\<close>

lemma serve_fifo:
  assumes "rep q vs" "\<And>q vs. rep q vs \<Longrightarrow> grant q (alloc q)"
  shows "\<exists>ins outs q' ws. serve enq deq alloc q cs = Inr (ins, outs, q') \<and> rep q' ws
           \<and> vs @ ins = outs @ ws"
  using assms(1)
proof (induction cs arbitrary: q vs)
  case Nil
  then show ?case by auto
next
  case (Cons c cs)
  show ?case
  proof (cases c)
    case None
    show ?thesis
    proof (cases vs)
      case Nil
      with Cons.prems deq_empty obtain q1 where q1: "deq q = Inr (None, q1)" "rep q1 []" by blast
      from Cons.IH [OF q1(2)] None Nil q1(1) show ?thesis by fastforce
    next
      case vs: (Cons w ws)
      with Cons.prems deq_nonempty obtain q1 where q1: "deq q = Inr (Some w, q1)" "rep q1 ws"
        by blast
      from Cons.IH [OF q1(2)] None vs q1(1) show ?thesis by fastforce
    qed
  next
    case (Some v)
    show ?thesis
    proof (cases "room q")
      case True
      with Cons.prems enq_room assms(2) obtain q1
        where q1: "enq q v (alloc q) = Inr (True, q1)" "rep q1 (vs @ [v])" by blast
      from Cons.IH [OF q1(2)] Some q1(1) show ?thesis by fastforce
    next
      case False
      with Cons.prems enq_full obtain q1
        where q1: "enq q v (alloc q) = Inr (False, q1)" "rep q1 vs" by blast
      from Cons.IH [OF q1(2)] Some q1(1) show ?thesis by fastforce
    qed
  qed
qed

end

end
