(* ===== verification/Queue_Plain.thy ===== *)
theory Queue_Plain
  imports Queue_Spec
begin

text \<open>
  The queue of \<open>sync/queue.h\<close> and its first implementation, \<open>sync/queue.c\<close> (of which
  \<open>sync/2.1a.c\<close> is a copy): a singly linked list with pointers to its first and last node, a
  bound on its length and counters of attempts and successes. The other implementations of the
  header (theory \<open>Queue_Sync\<close>) add locks to the same statements.
\<close>

section \<open>The data structure\<close>

text \<open>
  \<open>qnode_t\<close> and \<open>queue_t\<close> of \<open>queue.h\<close>, with the nodes the queue has allocated as a field.
  \<open>count\<close> and \<open>max_count\<close> are \<open>int\<close>: the invariant keeps them between 0 and the argument
  of \<open>queue_init\<close>, so they never overflow. The statistics are \<open>long\<close> and wrap around.
  A lock is held or not; a semaphore is its value.
\<close>

record qnode_t =
  nval :: i32
  nnext :: ptr

record queue_t =
  first :: ptr
  lastp :: ptr
  nodes :: "qnode_t heap"
  qmonitor_tid :: nat
  spinlock :: bool
  mutex :: bool
  sem_empty :: nat
  sem_full :: nat
  count :: int
  max_count :: int
  add_attempts :: i64
  get_attempts :: i64
  add_count :: i64
  get_count :: i64

section \<open>Operations\<close>

text \<open>
  \<open>malloc_ok\<close> says whether \<open>malloc(sizeof(queue_t))\<close> succeeded; \<open>err\<close> and \<open>tid\<close> are what
  \<open>pthread_create\<close> returned for the monitor thread. Both failures end in \<open>abort()\<close>.
\<close>

definition queue_init :: "int \<Rightarrow> bool \<Rightarrow> int \<Rightarrow> nat \<Rightarrow> queue_t res" where
  "queue_init maxc malloc_ok err tid =
     (if \<not> malloc_ok then Inl AbortCall
      else let q = \<lparr>first = None, lastp = None, nodes = Map.empty, qmonitor_tid = 0,
                    spinlock = False, mutex = False, sem_empty = 0, sem_full = 0,
                    count = 0, max_count = maxc,
                    add_attempts = 0, get_attempts = 0, add_count = 0, get_count = 0\<rparr>
           in if err \<noteq> 0 then Inl AbortCall else Inr (q\<lparr>qmonitor_tid := tid\<rparr>))"

text \<open>
  \<open>queue_destroy\<close>: the cancellation and the join of the monitor only print their errors; then
  every node is freed. The result is what is left of the nodes.
\<close>

definition queue_destroy :: "queue_t option \<Rightarrow> qnode_t heap res option" where
  "queue_destroy q = (case q of None \<Rightarrow> Some (Inr Map.empty)
     | Some q \<Rightarrow> free_chain nnext (nodes q) (first q))"

text \<open>Statements that all implementations share: filling the new node and linking it.\<close>

definition link_node :: "queue_t \<Rightarrow> i32 \<Rightarrow> addr \<Rightarrow> queue_t res" where
  "link_node q v n =
     (let h = (nodes q)(n \<mapsto> \<lparr>nval = v, nnext = None\<rparr>) in
      if first q = None then Inr (q\<lparr>nodes := h, first := Some n, lastp := Some n\<rparr>)
      else rbind (store h (lastp q) (\<lambda>c. c\<lparr>nnext := Some n\<rparr>))
             (\<lambda>h. rbind (deref h (lastp q)) (\<lambda>c. Inr (q\<lparr>nodes := h, lastp := nnext c\<rparr>))))"

definition queue_add :: "queue_t \<Rightarrow> i32 \<Rightarrow> ptr \<Rightarrow> (int \<times> queue_t) res" where
  "queue_add q v m =
     (let q = q\<lparr>add_attempts := add_attempts q + 1\<rparr> in
      if \<not> count q \<le> max_count q then Inl AssertFail
      else if count q = max_count q then Inr (0, q)
      else (case m of None \<Rightarrow> Inl AbortCall
        | Some n \<Rightarrow> rbind (link_node q v n)
            (\<lambda>q. Inr (1, q\<lparr>count := count q + 1, add_count := add_count q + 1\<rparr>))))"

text \<open>\<open>*val\<close> is the second argument; it comes back unchanged when the queue is empty.\<close>

definition queue_get :: "queue_t \<Rightarrow> i32 \<Rightarrow> (int \<times> i32 \<times> queue_t) res" where
  "queue_get q v =
     (let q = q\<lparr>get_attempts := get_attempts q + 1\<rparr> in
      if \<not> 0 \<le> count q then Inl AssertFail
      else if count q = 0 then Inr (0, v, q)
      else let tmp = first q in
        rbind (deref (nodes q) tmp) (\<lambda>c.
          let q = q\<lparr>first := nnext c\<rparr> in
          rbind (free_at (nodes q) tmp) (\<lambda>h.
            Inr (1, nval c, q\<lparr>nodes := h, count := count q - 1, get_count := get_count q + 1\<rparr>))))"

text \<open>The six numbers that \<open>queue_print_stats\<close> prints, in its order.\<close>

definition queue_print_stats :: "queue_t \<Rightarrow> int \<times> i64 \<times> i64 \<times> i64 \<times> i64 \<times> i64 \<times> i64" where
  "queue_print_stats q =
     (count q, add_attempts q, get_attempts q, add_attempts q - get_attempts q,
      add_count q, get_count q, add_count q - get_count q)"

text \<open>The program \<open>queue-example.c\<close>: what its calls of \<open>queue_add\<close> and \<open>queue_get\<close> return, in order.\<close>

fun example_adds :: "(queue_t \<Rightarrow> ptr) \<Rightarrow> i32 list \<Rightarrow> queue_t \<Rightarrow> ((int \<times> i32) list \<times> queue_t) res" where
  "example_adds alloc [] q = Inr ([], q)"
| "example_adds alloc (i # is) q = rbind (queue_add q i (alloc q)) (\<lambda>(ok, q).
     rbind (example_adds alloc is q) (\<lambda>(oks, q). Inr ((ok, i) # oks, q)))"

fun example_gets :: "nat \<Rightarrow> queue_t \<Rightarrow> ((int \<times> i32) list \<times> queue_t) res" where
  "example_gets 0 q = Inr ([], q)"
| "example_gets (Suc k) q = rbind (queue_get q (-1)) (\<lambda>(ok, val, q).
     rbind (example_gets k q) (\<lambda>(oks, q). Inr ((ok, val) # oks, q)))"

definition queue_example :: "(queue_t \<Rightarrow> ptr) \<Rightarrow> ((int \<times> i32) list \<times> (int \<times> i32) list \<times> qnode_t heap option) res" where
  "queue_example alloc = rbind (queue_init 1000 True 0 1) (\<lambda>q.
     rbind (example_adds alloc (map of_nat [0..<10]) q) (\<lambda>(adds, q).
     rbind (example_gets 12 q) (\<lambda>(gets, q).
       case queue_destroy (Some q) of None \<Rightarrow> Inr (adds, gets, None)
       | Some r \<Rightarrow> rbind r (\<lambda>h. Inr (adds, gets, Some h)))))"

section \<open>Representation\<close>

text \<open>
  \<open>queue_rep q vs\<close>: the nodes reachable from \<open>first\<close> hold \<open>vs\<close>, every live node is one of
  them (nothing leaks), \<open>count\<close> is their number and within the bound, and \<open>lastp\<close> points to
  the last of them. When the queue is empty \<open>lastp\<close> may point to a freed node: \<open>queue_get\<close>
  of \<open>queue.c\<close> leaves it there.
\<close>

definition vals_at :: "qnode_t heap \<Rightarrow> addr list \<Rightarrow> i32 list" where
  "vals_at h as = map (\<lambda>a. nval (the (h a))) as"

definition queue_at :: "queue_t \<Rightarrow> addr list \<Rightarrow> i32 list \<Rightarrow> bool" where
  "queue_at q as vs \<longleftrightarrow>
     chain nnext (nodes q) (first q) as \<and> vs = vals_at (nodes q) as \<and> dom (nodes q) = set as
     \<and> (as \<noteq> [] \<longrightarrow> lastp q = Some (last as))
     \<and> count q = int (length as) \<and> count q \<le> max_count q
     \<and> add_count q - get_count q = of_nat (length as)"

definition queue_rep :: "queue_t \<Rightarrow> i32 list \<Rightarrow> bool" where
  "queue_rep q vs \<longleftrightarrow> (\<exists>as. queue_at q as vs)"

lemma vals_at_simps [simp]:
  "vals_at h [] = []"
  "vals_at h (a # as) = nval (the (h a)) # vals_at h as"
  "vals_at h (as @ bs) = vals_at h as @ vals_at h bs"
  "length (vals_at h as) = length as"
  by (simp_all add: vals_at_def)

lemma vals_at_other [simp]: "a \<notin> set as \<Longrightarrow> vals_at (h(a := v)) as = vals_at h as"
  by (auto simp: vals_at_def)

lemma vals_at_relink:
  "h a = Some c \<Longrightarrow> nval c' = nval c \<Longrightarrow> vals_at (h(a \<mapsto> c')) as = vals_at h as"
  by (auto simp: vals_at_def)

lemma queue_rep_length:
  "queue_rep q vs \<Longrightarrow> count q = int (length vs) \<and> int (length vs) \<le> max_count q"
  by (auto simp: queue_rep_def queue_at_def)

lemma queue_rep_finite: "queue_rep q vs \<Longrightarrow> finite (dom (nodes q))"
  by (auto simp: queue_rep_def queue_at_def)

lemma queue_rep_unique: "queue_rep q vs \<Longrightarrow> queue_rep q ws \<Longrightarrow> vs = ws"
  by (auto simp: queue_rep_def queue_at_def dest: chain_unique)

lemma queue_rep_cong:
  assumes "first q' = first q" "lastp q' = lastp q" "nodes q' = nodes q" "count q' = count q"
    and "max_count q' = max_count q" "add_count q' - get_count q' = add_count q - get_count q"
  shows "queue_rep q' vs = queue_rep q vs"
  using assms by (simp add: queue_rep_def queue_at_def)

lemma queue_rep_field_simps [simp]:
  "queue_rep (q\<lparr>add_attempts := x\<rparr>) vs = queue_rep q vs"
  "queue_rep (q\<lparr>get_attempts := x\<rparr>) vs = queue_rep q vs"
  "queue_rep (q\<lparr>spinlock := b\<rparr>) vs = queue_rep q vs"
  "queue_rep (q\<lparr>mutex := b\<rparr>) vs = queue_rep q vs"
  "queue_rep (q\<lparr>sem_empty := k\<rparr>) vs = queue_rep q vs"
  "queue_rep (q\<lparr>sem_full := k\<rparr>) vs = queue_rep q vs"
  by (rule queue_rep_cong; simp)+

lemma queue_rep_init:
  "0 \<le> maxc \<Longrightarrow> \<exists>q. queue_init maxc True 0 tid = Inr q \<and> queue_rep q [] \<and> max_count q = maxc"
  by (auto simp: queue_init_def queue_rep_def queue_at_def intro!: exI [of _ "[]"])

text \<open>Linking a fresh node appends its value, and only the count is then left to be raised.\<close>

lemma link_node_rep:
  assumes "queue_at q as vs" "nodes q n = None"
  shows "\<exists>q1. link_node q v n = Inr q1
    \<and> chain nnext (nodes q1) (first q1) (as @ [n]) \<and> vals_at (nodes q1) (as @ [n]) = vs @ [v]
    \<and> dom (nodes q1) = set (as @ [n]) \<and> lastp q1 = Some n
    \<and> count q1 = count q \<and> max_count q1 = max_count q
    \<and> add_count q1 = add_count q \<and> get_count q1 = get_count q"
proof (cases "as = []")
  case True
  with assms show ?thesis by (auto simp: queue_at_def link_node_def)
next
  case False
  from assms have c: "chain nnext (nodes q) (first q) as" and d: "dom (nodes q) = set as"
    and l: "lastp q = Some (last as)" and vs: "vs = vals_at (nodes q) as"
    using False by (auto simp: queue_at_def)
  from c False have f: "first q \<noteq> None" by (simp add: chain_null_iff)
  from chain_last_live [OF c False] obtain c0 where c0: "nodes q (last as) = Some c0" by auto
  from assms(2) d c0 have n: "n \<notin> set as" "n \<noteq> last as" by auto
  let ?h = "(nodes q)(n \<mapsto> \<lparr>nval = v, nnext = None\<rparr>, last as \<mapsto> c0\<lparr>nnext := Some n\<rparr>)"
  have link: "link_node q v n = Inr (q\<lparr>nodes := ?h, lastp := Some n\<rparr>)"
    using f l c0 n by (cases "first q") (auto simp: link_node_def Let_def)
  have ch: "chain nnext ?h (first q) (as @ [n])"
    by (rule chain_link_behind [OF c False c0 assms(2)]) simp_all
  have vals: "vals_at ?h as = vs"
    using n c0 vs by (auto simp: vals_at_def)
  from ch link vals n d False c0 show ?thesis by auto
qed

lemma queue_add_room:
  assumes "queue_rep q vs" "count q \<noteq> max_count q" "nodes q n = None"
  shows "\<exists>q'. queue_add q v (Some n) = Inr (1, q') \<and> queue_rep q' (vs @ [v])
    \<and> max_count q' = max_count q"
proof -
  let ?q = "q\<lparr>add_attempts := add_attempts q + 1\<rparr>"
  from assms(1) have "queue_rep ?q vs" by simp
  then obtain as where as: "queue_at ?q as vs" by (auto simp: queue_rep_def)
  with assms(3) link_node_rep [of ?q as vs n v] obtain q1 where
    q1: "link_node ?q v n = Inr q1"
      "chain nnext (nodes q1) (first q1) (as @ [n])" "vals_at (nodes q1) (as @ [n]) = vs @ [v]"
      "dom (nodes q1) = set (as @ [n])" "lastp q1 = Some n"
      "count q1 = count q" "max_count q1 = max_count q"
      "add_count q1 = add_count q" "get_count q1 = get_count q"
    by auto
  let ?q2 = "q1\<lparr>count := count q1 + 1, add_count := add_count q1 + 1\<rparr>"
  from as assms(2) have le: "count q < max_count q" by (auto simp: queue_at_def)
  have "queue_at ?q2 (as @ [n]) (vs @ [v])"
    using q1 as le by (auto simp: queue_at_def algebra_simps)
  with q1 le show ?thesis
    by (auto simp: queue_add_def Let_def queue_rep_def)
qed

lemma queue_add_full:
  assumes "queue_rep q vs" "count q = max_count q"
  shows "queue_add q v m = Inr (0, q\<lparr>add_attempts := add_attempts q + 1\<rparr>)"
  using assms by (simp add: queue_add_def)

lemma queue_get_empty:
  assumes "queue_rep q []"
  shows "queue_get q v = Inr (0, v, q\<lparr>get_attempts := get_attempts q + 1\<rparr>)"
  using queue_rep_length [OF assms] by (simp add: queue_get_def)

lemma queue_get_nonempty:
  assumes "queue_rep q (w # vs)"
  shows "\<exists>q'. queue_get q v = Inr (1, w, q') \<and> queue_rep q' vs \<and> max_count q' = max_count q"
proof -
  from assms obtain a as where at: "queue_at q (a # as) (w # vs)"
    by (auto simp: queue_rep_def queue_at_def vals_at_def)
  then obtain c where c: "first q = Some a" "nodes q a = Some c" "chain nnext (nodes q) (first q) (a # as)"
    by (auto simp: queue_at_def)
  from chain_head_notin [OF c(3)] have na: "a \<notin> set as" .
  from chain_pop [of nnext "nodes q" a as c] c have ch: "chain nnext ((nodes q)(a := None)) (nnext c) as"
    by auto
  let ?q = "q\<lparr>get_attempts := get_attempts q + 1, first := nnext c, nodes := (nodes q)(a := None),
              count := count q - 1, get_count := get_count q + 1\<rparr>"
  have "queue_at ?q as vs"
    using at ch na c by (auto simp: queue_at_def algebra_simps)
  moreover have "queue_get q v = Inr (1, w, ?q)"
    using at c by (auto simp: queue_get_def Let_def queue_at_def)
  ultimately show ?thesis by (auto simp: queue_rep_def)
qed

section \<open>The queue of \<open>queue.c\<close> keeps the FIFO contract\<close>

definition plain_enq :: "queue_t \<Rightarrow> i32 \<Rightarrow> ptr \<Rightarrow> (bool \<times> queue_t) res" where
  "plain_enq q v m = rbind (queue_add q v m) (\<lambda>(ok, q). Inr (ok \<noteq> 0, q))"

definition plain_deq :: "queue_t \<Rightarrow> (i32 option \<times> queue_t) res" where
  "plain_deq q = rbind (queue_get q (-1)) (\<lambda>(ok, v, q). Inr (if ok \<noteq> 0 then Some v else None, q))"

interpretation plainq: fifo_queue "\<lambda>q vs. queue_rep q vs \<and> max_count q = N" plain_enq plain_deq
  "\<lambda>q. count q \<noteq> max_count q" "\<lambda>q m. fresh (nodes q) m" for N :: int
proof unfold_locales
  fix q vs m v
  assume "queue_rep q vs \<and> max_count q = N" "count q \<noteq> max_count q" "fresh (nodes q) m"
  then show "\<exists>q'. plain_enq q v m = Inr (True, q') \<and> queue_rep q' (vs @ [v]) \<and> max_count q' = N"
    by (auto elim!: freshE simp: plain_enq_def dest: queue_add_room [of q vs _ v])
next
  fix q vs v m
  assume "queue_rep q vs \<and> max_count q = N" "\<not> count q \<noteq> max_count q"
  then show "\<exists>q'. plain_enq q v m = Inr (False, q') \<and> queue_rep q' vs \<and> max_count q' = N"
    by (auto simp: plain_enq_def queue_add_full)
next
  fix q
  assume "queue_rep q [] \<and> max_count q = N"
  then show "\<exists>q'. plain_deq q = Inr (None, q') \<and> queue_rep q' [] \<and> max_count q' = N"
    by (auto simp: plain_deq_def queue_get_empty)
next
  fix q v vs
  assume "queue_rep q (v # vs) \<and> max_count q = N"
  then show "\<exists>q'. plain_deq q = Inr (Some v, q') \<and> queue_rep q' vs \<and> max_count q' = N"
    by (auto simp: plain_deq_def dest!: queue_get_nonempty [of q v vs "-1"])
qed

lemma queue_destroy_rep: "queue_rep q vs \<Longrightarrow> queue_destroy (Some q) = Some (Inr Map.empty)"
  by (auto simp: queue_destroy_def queue_rep_def queue_at_def free_chain_chain restrict_dom_empty)

section \<open>The example program\<close>

lemma example_adds_run:
  assumes "\<And>h. finite (dom h) \<Longrightarrow> fresh h (alloc h)" "queue_rep q vs" "int (length vs + length is) \<le> max_count q"
  shows "\<exists>q'. example_adds (\<lambda>q. alloc (nodes q)) is q = Inr (map (\<lambda>i. (1, i)) is, q') \<and> queue_rep q' (vs @ is)"
  using assms(2,3)
proof (induction "is" arbitrary: q vs)
  case (Cons i "is")
  have "fresh (nodes q) (alloc (nodes q))" using assms(1) queue_rep_finite [OF Cons.prems(1)] by blast
  then obtain n where n: "alloc (nodes q) = Some n" "nodes q n = None" by (rule freshE)
  have "count q \<noteq> max_count q" using queue_rep_length [OF Cons.prems(1)] Cons.prems(2) by auto
  from queue_add_room [OF Cons.prems(1) this n(2), of i] obtain q1 where
    q1: "queue_add q i (Some n) = Inr (1, q1)" "queue_rep q1 (vs @ [i])" "max_count q1 = max_count q" by blast
  from Cons.IH [OF q1(2)] Cons.prems(2) q1(1,3) n(1) show ?case by auto
qed simp

lemma example_gets_run:
  assumes "queue_rep q vs"
  shows "\<exists>q'. example_gets k q = Inr (map (\<lambda>v. (1, v)) (take k vs) @ replicate (k - length vs) (0, -1), q') \<and> queue_rep q' (drop k vs)"
  using assms
proof (induction k arbitrary: q vs)
  case (Suc k)
  show ?case
  proof (cases vs)
    case Nil
    from Suc.IH [of "q\<lparr>get_attempts := get_attempts q + 1\<rparr>" "[]"] Suc.prems Nil show ?thesis
      by (auto simp: queue_get_empty)
  next
    case (Cons w ws)
    with Suc.prems queue_get_nonempty [of q w ws "-1"] obtain q1 where
      q1: "queue_get q (-1) = Inr (1, w, q1)" "queue_rep q1 ws" by blast
    with Suc.IH [OF q1(2)] Cons show ?thesis by auto
  qed
qed auto

lemma queue_example_output:
  assumes "\<And>h. finite (dom h) \<Longrightarrow> fresh h (alloc h)"
  shows "queue_example (\<lambda>q. alloc (nodes q)) = Inr (map (\<lambda>i. (1, of_nat i)) [0..<10],
    map (\<lambda>i. (1, of_nat i)) [0..<10] @ [(0, -1), (0, -1)], Some Map.empty)"
proof -
  from queue_rep_init [of 1000 1] obtain q where q: "queue_init 1000 True 0 1 = Inr q" "queue_rep q []" "max_count q = 1000" by auto
  from example_adds_run [OF assms q(2), of "map of_nat [0..<10]"] q(3) obtain q1 where
    q1: "example_adds (\<lambda>q. alloc (nodes q)) (map of_nat [0..<10]) q = Inr (map (\<lambda>i. (1, of_nat i)) [0..<10], q1)"
      "queue_rep q1 (map of_nat [0..<10])" by (auto simp: comp_def)
  from example_gets_run [OF q1(2), of 12] obtain q2 where
    q2: "example_gets 12 q1 = Inr (map (\<lambda>i. (1, of_nat i)) [0..<10] @ replicate 2 (0, -1), q2)" "queue_rep q2 []"
    by (auto simp: comp_def)
  from queue_destroy_rep [OF q2(2)] q(1) q1(1) q2(1) show ?thesis
    by (simp add: queue_example_def numeral_2_eq_2)
qed

section \<open>Properties\<close>

text \<open>
  Property C11. On a queue made by \<open>queue_init\<close>, any sequence of \<open>queue_add\<close> and \<open>queue_get\<close>
  calls runs without an assertion failure, a null or dangling access or a double free, delivers
  exactly the accepted values in the order they were accepted, and never holds more than
  \<open>max_count\<close> values; \<open>queue_destroy\<close> then ends, frees every node exactly once and leaves none allocated.
\<close>

theorem queue_calls_fifo:
  assumes "0 \<le> maxc" "queue_init maxc True 0 tid = Inr q"
    and "\<And>h. finite (dom h) \<Longrightarrow> fresh h (alloc h)"
  shows "\<exists>ins outs q' ws. serve plain_enq plain_deq (\<lambda>q. alloc (nodes q)) q cs = Inr (ins, outs, q')
    \<and> queue_rep q' ws \<and> ins = outs @ ws \<and> int (length ws) \<le> maxc
    \<and> queue_destroy (Some q') = Some (Inr Map.empty)"
proof -
  from queue_rep_init [OF assms(1), of tid] assms(2) have "queue_rep q [] \<and> max_count q = maxc" by auto
  moreover have "fresh (nodes q) (alloc (nodes q))" if "queue_rep q vs \<and> max_count q = maxc" for q vs
    using that assms(3) queue_rep_finite by blast
  ultimately have "\<exists>ins outs q' ws. serve plain_enq plain_deq (\<lambda>q. alloc (nodes q)) q cs = Inr (ins, outs, q')
      \<and> (queue_rep q' ws \<and> max_count q' = maxc) \<and> [] @ ins = outs @ ws"
    by (rule plainq.serve_fifo)
  then obtain ins outs q' ws where *: "serve plain_enq plain_deq (\<lambda>q. alloc (nodes q)) q cs = Inr (ins, outs, q')"
    "queue_rep q' ws" "max_count q' = maxc" "ins = outs @ ws" by auto
  with queue_rep_length [OF *(2)] queue_destroy_rep [OF *(2)] show ?thesis by auto
qed

theorem queue_calls_fifo_witness:
  "\<exists>q ins outs q' ws. queue_init 2 True 0 7 = Inr q
    \<and> serve plain_enq plain_deq (\<lambda>q. least_free (nodes q)) q [Some 5, Some 6, Some 8, None, None, None]
        = Inr (ins, outs, q') \<and> queue_rep q' ws \<and> ins = outs @ ws \<and> int (length ws) \<le> 2
    \<and> queue_destroy (Some q') = Some (Inr Map.empty)"
proof -
  obtain q where q: "queue_init 2 True 0 7 = Inr q" by (simp add: queue_init_def)
  from queue_calls_fifo [OF _ q fresh_least_free, of "[Some 5, Some 6, Some 8, None, None, None]"] q
  show ?thesis by auto
qed

end
