(* ===== verification/Queue_Sync.thy ===== *)
theory Queue_Sync
  imports Queue_Plain
begin

text \<open>
  The synchronised implementations of \<open>queue.h\<close>, one call at a time: \<open>2.2a-c.c\<close> (a spin
  lock), \<open>2.2e.c\<close> (a mutex), \<open>2.2f.c\<close> (a mutex and two condition variables) and \<open>2.2g.c\<close>
  (a mutex and two semaphores). A call that would wait (a held lock, a full or an empty queue, a
  semaphore at 0) is \<open>None\<close>: it makes no progress in this state. What concurrent callers do is
  the subject of \<open>Queue_Threads\<close>, \<open>Queue_Blocking\<close> and \<open>Queue_Blocking_Laws\<close>.
\<close>

section \<open>Spin lock: \<open>2.2a-c.c\<close>\<close>

definition queue_init_spin :: "int \<Rightarrow> bool \<Rightarrow> int \<Rightarrow> int \<Rightarrow> nat \<Rightarrow> queue_t res" where
  "queue_init_spin maxc malloc_ok spin_err err tid =
     (if \<not> malloc_ok then Inl AbortCall
      else let q = \<lparr>first = None, lastp = None, nodes = Map.empty, qmonitor_tid = 0,
                    spinlock = False, mutex = False, sem_empty = 0, sem_full = 0,
                    count = 0, max_count = maxc,
                    add_attempts = 0, get_attempts = 0, add_count = 0, get_count = 0\<rparr>
           in if spin_err \<noteq> 0 then Inl AbortCall
              else if err \<noteq> 0 then Inl AbortCall else Inr (q\<lparr>qmonitor_tid := tid\<rparr>))"

definition queue_destroy_spin :: "queue_t option \<Rightarrow> qnode_t heap res option" where
  "queue_destroy_spin q = (case q of None \<Rightarrow> Some (Inr Map.empty)
     | Some q \<Rightarrow> free_chain nnext (nodes q) (first q))"

definition queue_add_spin :: "queue_t \<Rightarrow> i32 \<Rightarrow> ptr \<Rightarrow> (int \<times> queue_t) res option" where
  "queue_add_spin q v m =
     (if spinlock q then None else Some (
      let q = q\<lparr>spinlock := True\<rparr>; q = q\<lparr>add_attempts := add_attempts q + 1\<rparr> in
      if \<not> count q \<le> max_count q then Inl AssertFail
      else if count q = max_count q then Inr (0, q\<lparr>spinlock := False\<rparr>)
      else (case m of None \<Rightarrow> Inl AbortCall
        | Some n \<Rightarrow> rbind (link_node q v n)
            (\<lambda>q. let q = q\<lparr>count := count q + 1, add_count := add_count q + 1\<rparr>
                 in Inr (1, q\<lparr>spinlock := False\<rparr>)))))"

definition queue_get_spin :: "queue_t \<Rightarrow> i32 \<Rightarrow> (int \<times> i32 \<times> queue_t) res option" where
  "queue_get_spin q v =
     (if spinlock q then None else Some (
      let q = q\<lparr>spinlock := True\<rparr>; q = q\<lparr>get_attempts := get_attempts q + 1\<rparr> in
      if \<not> 0 \<le> count q then Inl AssertFail
      else if count q = 0 then Inr (0, v, q\<lparr>spinlock := False\<rparr>)
      else let tmp = first q in
        rbind (deref (nodes q) tmp) (\<lambda>c.
          let q = q\<lparr>first := nnext c\<rparr> in
          rbind (free_at (nodes q) tmp) (\<lambda>h.
            let q = q\<lparr>nodes := h, count := count q - 1, get_count := get_count q + 1\<rparr>
            in Inr (1, nval c, q\<lparr>spinlock := False\<rparr>)))))"

definition queue_print_stats_spin ::
  "queue_t \<Rightarrow> ((int \<times> i64 \<times> i64 \<times> i64 \<times> i64 \<times> i64 \<times> i64) \<times> queue_t) option" where
  "queue_print_stats_spin q =
     (if spinlock q then None
      else let q = q\<lparr>spinlock := True\<rparr>;
               out = (count q, add_attempts q, get_attempts q, add_attempts q - get_attempts q,
                      add_count q, get_count q, add_count q - get_count q)
           in Some (out, q\<lparr>spinlock := False\<rparr>))"

section \<open>Mutex: \<open>2.2e.c\<close>\<close>

definition queue_init_mtx :: "int \<Rightarrow> bool \<Rightarrow> int \<Rightarrow> int \<Rightarrow> nat \<Rightarrow> queue_t res" where
  "queue_init_mtx maxc malloc_ok mtx_err err tid =
     (if \<not> malloc_ok then Inl AbortCall
      else let q = \<lparr>first = None, lastp = None, nodes = Map.empty, qmonitor_tid = 0,
                    spinlock = False, mutex = False, sem_empty = 0, sem_full = 0,
                    count = 0, max_count = maxc,
                    add_attempts = 0, get_attempts = 0, add_count = 0, get_count = 0\<rparr>
           in if mtx_err \<noteq> 0 then Inl AbortCall
              else if err \<noteq> 0 then Inl AbortCall else Inr (q\<lparr>qmonitor_tid := tid\<rparr>))"

text \<open>Destroying a mutex that is locked fails (\<open>EBUSY\<close>, 16), and then the process exits.\<close>

definition queue_destroy_mtx :: "queue_t option \<Rightarrow> qnode_t heap res option" where
  "queue_destroy_mtx q = (case q of None \<Rightarrow> Some (Inr Map.empty)
     | Some q \<Rightarrow> (let err = (if mutex q then 16 else 0) in
         if err \<noteq> 0 then Some (Inl (ExitCall err))
         else free_chain nnext (nodes q) (first q)))"

definition queue_add_mtx :: "queue_t \<Rightarrow> i32 \<Rightarrow> ptr \<Rightarrow> (int \<times> queue_t) res option" where
  "queue_add_mtx q v m =
     (if mutex q then None else Some (
      let q = q\<lparr>mutex := True\<rparr>; q = q\<lparr>add_attempts := add_attempts q + 1\<rparr> in
      if \<not> count q \<le> max_count q then Inl AssertFail
      else if count q = max_count q then Inr (0, q\<lparr>mutex := False\<rparr>)
      else (case m of None \<Rightarrow> Inl AbortCall
        | Some n \<Rightarrow> rbind (link_node q v n)
            (\<lambda>q. let q = q\<lparr>count := count q + 1, add_count := add_count q + 1\<rparr>
                 in Inr (1, q\<lparr>mutex := False\<rparr>)))))"

definition queue_get_mtx :: "queue_t \<Rightarrow> i32 \<Rightarrow> (int \<times> i32 \<times> queue_t) res option" where
  "queue_get_mtx q v =
     (if mutex q then None else Some (
      let q = q\<lparr>mutex := True\<rparr>; q = q\<lparr>get_attempts := get_attempts q + 1\<rparr> in
      if \<not> 0 \<le> count q then Inl AssertFail
      else if count q = 0 then Inr (0, v, q\<lparr>mutex := False\<rparr>)
      else let tmp = first q in
        rbind (deref (nodes q) tmp) (\<lambda>c.
          let q = q\<lparr>first := nnext c\<rparr> in
          rbind (free_at (nodes q) tmp) (\<lambda>h.
            let q = q\<lparr>nodes := h, count := count q - 1, get_count := get_count q + 1\<rparr>
            in Inr (1, nval c, q\<lparr>mutex := False\<rparr>)))))"

definition queue_print_stats_mtx ::
  "queue_t \<Rightarrow> ((int \<times> i64 \<times> i64 \<times> i64 \<times> i64 \<times> i64 \<times> i64) \<times> queue_t) option" where
  "queue_print_stats_mtx q =
     (if mutex q then None
      else let q = q\<lparr>mutex := True\<rparr>;
               out = (count q, add_attempts q, get_attempts q, add_attempts q - get_attempts q,
                      add_count q, get_count q, add_count q - get_count q)
           in Some (out, q\<lparr>mutex := False\<rparr>))"

section \<open>Condition variables: \<open>2.2f.c\<close>\<close>

definition queue_init_cond :: "int \<Rightarrow> bool \<Rightarrow> int \<Rightarrow> int \<Rightarrow> int \<Rightarrow> int \<Rightarrow> nat \<Rightarrow> queue_t res" where
  "queue_init_cond maxc malloc_ok mtx_err ne_err nf_err err tid =
     (if \<not> malloc_ok then Inl AbortCall
      else let q = \<lparr>first = None, lastp = None, nodes = Map.empty, qmonitor_tid = 0,
                    spinlock = False, mutex = False, sem_empty = 0, sem_full = 0,
                    count = 0, max_count = maxc,
                    add_attempts = 0, get_attempts = 0, add_count = 0, get_count = 0\<rparr>
           in if mtx_err \<noteq> 0 then Inl AbortCall
              else if ne_err \<noteq> 0 then Inl AbortCall
              else if nf_err \<noteq> 0 then Inl AbortCall
              else if err \<noteq> 0 then Inl AbortCall else Inr (q\<lparr>qmonitor_tid := tid\<rparr>))"

definition queue_destroy_cond :: "queue_t option \<Rightarrow> qnode_t heap res option" where
  "queue_destroy_cond q = (case q of None \<Rightarrow> Some (Inr Map.empty)
     | Some q \<Rightarrow> free_chain nnext (nodes q) (first q))"

text \<open>
  The part after the waiting loop, run with the mutex held: \<open>2.2f.c\<close> and \<open>2.2g.c\<close> have the
  same statements here. \<open>take_node\<close> also resets \<open>lastp\<close> when the queue gets empty.
\<close>

definition add_body :: "queue_t \<Rightarrow> i32 \<Rightarrow> ptr \<Rightarrow> queue_t res" where
  "add_body q v m =
     (let q = q\<lparr>add_attempts := add_attempts q + 1\<rparr> in
      if \<not> count q \<le> max_count q then Inl AssertFail
      else (case m of None \<Rightarrow> Inl AbortCall
        | Some n \<Rightarrow> rbind (link_node q v n)
            (\<lambda>q. Inr (q\<lparr>count := count q + 1, add_count := add_count q + 1\<rparr>))))"

definition get_body :: "queue_t \<Rightarrow> (i32 \<times> queue_t) res" where
  "get_body q =
     (let q = q\<lparr>get_attempts := get_attempts q + 1\<rparr> in
      if \<not> 0 \<le> count q then Inl AssertFail
      else let tmp = first q in
        rbind (deref (nodes q) tmp) (\<lambda>c.
          let q = q\<lparr>first := nnext c\<rparr>;
              q = (if first q = None then q\<lparr>lastp := None\<rparr> else q) in
          rbind (free_at (nodes q) tmp) (\<lambda>h.
            Inr (nval c, q\<lparr>nodes := h, count := count q - 1, get_count := get_count q + 1\<rparr>))))"

definition queue_add_cond :: "queue_t \<Rightarrow> i32 \<Rightarrow> ptr \<Rightarrow> (int \<times> queue_t) res option" where
  "queue_add_cond q v m =
     (if mutex q then None
      else let q = q\<lparr>mutex := True\<rparr> in
        if count q = max_count q then None
        else Some (rbind (add_body q v m) (\<lambda>q. Inr (1, q\<lparr>mutex := False\<rparr>))))"

definition queue_get_cond :: "queue_t \<Rightarrow> (int \<times> i32 \<times> queue_t) res option" where
  "queue_get_cond q =
     (if mutex q then None
      else let q = q\<lparr>mutex := True\<rparr> in
        if count q = 0 then None
        else Some (rbind (get_body q) (\<lambda>(v, q). Inr (1, v, q\<lparr>mutex := False\<rparr>))))"

section \<open>Semaphores: \<open>2.2g.c\<close>\<close>

text \<open>\<open>sem_init\<close> takes an \<open>unsigned\<close>: a negative \<open>max_count\<close> is refused there.\<close>

definition queue_init_sem :: "int \<Rightarrow> bool \<Rightarrow> int \<Rightarrow> int \<Rightarrow> int \<Rightarrow> int \<Rightarrow> nat \<Rightarrow> queue_t res" where
  "queue_init_sem maxc malloc_ok mtx_err empty_err full_err err tid =
     (if \<not> malloc_ok then Inl AbortCall
      else let q = \<lparr>first = None, lastp = None, nodes = Map.empty, qmonitor_tid = 0,
                    spinlock = False, mutex = False, sem_empty = 0, sem_full = 0,
                    count = 0, max_count = maxc,
                    add_attempts = 0, get_attempts = 0, add_count = 0, get_count = 0\<rparr>
           in if mtx_err \<noteq> 0 then Inl AbortCall
              else if empty_err \<noteq> 0 \<or> maxc < 0 then Inl AbortCall
              else let q = q\<lparr>sem_empty := nat maxc\<rparr> in
                if full_err \<noteq> 0 then Inl AbortCall
                else if err \<noteq> 0 then Inl AbortCall else Inr (q\<lparr>qmonitor_tid := tid\<rparr>))"

definition queue_destroy_sem :: "queue_t option \<Rightarrow> qnode_t heap res option" where
  "queue_destroy_sem q = (case q of None \<Rightarrow> Some (Inr Map.empty)
     | Some q \<Rightarrow> free_chain nnext (nodes q) (first q))"

definition queue_add_sem :: "queue_t \<Rightarrow> i32 \<Rightarrow> ptr \<Rightarrow> (int \<times> queue_t) res option" where
  "queue_add_sem q v m =
     (if sem_empty q = 0 then None
      else let q = q\<lparr>sem_empty := sem_empty q - 1\<rparr> in
        if mutex q then None
        else let q = q\<lparr>mutex := True\<rparr> in
          Some (rbind (add_body q v m) (\<lambda>q.
            let q = q\<lparr>mutex := False\<rparr> in Inr (1, q\<lparr>sem_full := sem_full q + 1\<rparr>))))"

definition queue_get_sem :: "queue_t \<Rightarrow> (int \<times> i32 \<times> queue_t) res option" where
  "queue_get_sem q =
     (if sem_full q = 0 then None
      else let q = q\<lparr>sem_full := sem_full q - 1\<rparr> in
        if mutex q then None
        else let q = q\<lparr>mutex := True\<rparr> in
          Some (rbind (get_body q) (\<lambda>(v, q).
            let q = q\<lparr>mutex := False\<rparr> in Inr (1, v, q\<lparr>sem_empty := sem_empty q + 1\<rparr>))))"

section \<open>What a call does when it does not wait\<close>

text \<open>The lock fields do not take part in linking and unlinking nodes.\<close>

lemma link_node_lock_fields:
  "link_node (q\<lparr>spinlock := b\<rparr>) v n = rbind (link_node q v n) (\<lambda>q. Inr (q\<lparr>spinlock := b\<rparr>))"
  "link_node (q\<lparr>mutex := b\<rparr>) v n = rbind (link_node q v n) (\<lambda>q. Inr (q\<lparr>mutex := b\<rparr>))"
  by (cases q; simp add: link_node_def Let_def rbind_def split: sum.splits)+

lemma link_node_keeps:
  assumes "link_node q v n = Inr q'"
  shows "spinlock q' = spinlock q" "mutex q' = mutex q" "sem_empty q' = sem_empty q"
    "sem_full q' = sem_full q" "count q' = count q" "max_count q' = max_count q"
    "add_attempts q' = add_attempts q" "get_attempts q' = get_attempts q"
    "add_count q' = add_count q" "get_count q' = get_count q"
  using assms by (auto simp: link_node_def Let_def rbind_eq_Inr split: if_splits)

text \<open>With the lock free, a locked operation is the unlocked one, and leaves the lock free.\<close>

lemma queue_add_spin_free:
  "\<not> spinlock q \<Longrightarrow> queue_add_spin q v m = Some (queue_add q v m)"
  by (cases q; cases m)
    (simp_all add: queue_add_spin_def queue_add_def Let_def link_node_def rbind_assoc)

lemma queue_add_mtx_free:
  "\<not> mutex q \<Longrightarrow> queue_add_mtx q v m = Some (queue_add q v m)"
  by (cases q; cases m)
    (simp_all add: queue_add_mtx_def queue_add_def Let_def link_node_def rbind_assoc)

lemma queue_get_spin_free:
  "\<not> spinlock q \<Longrightarrow> queue_get_spin q v = Some (queue_get q v)"
  by (cases q) (simp add: queue_get_spin_def queue_get_def Let_def)

lemma queue_get_mtx_free:
  "\<not> mutex q \<Longrightarrow> queue_get_mtx q v = Some (queue_get q v)"
  by (cases q) (simp add: queue_get_mtx_def queue_get_def Let_def)

lemmas queue_locked_free =
  queue_add_spin_free queue_add_mtx_free queue_get_spin_free queue_get_mtx_free

text \<open>
  The bodies of \<open>2.2f.c\<close> and \<open>2.2g.c\<close> rely on the wait before them: there is room, or there is
  a value. They also keep \<open>lastp\<close> from dangling, which \<open>queue.c\<close> does not.
\<close>

definition tail_ok :: "queue_t \<Rightarrow> bool" where
  "tail_ok q \<longleftrightarrow> (first q = None \<longrightarrow> lastp q = None)"

lemma add_body_queue_add:
  "count q \<noteq> max_count q \<Longrightarrow> add_body q v m = rbind (queue_add q v m) (\<lambda>(r, q). Inr q)"
  by (cases m) (simp_all add: add_body_def queue_add_def Let_def rbind_assoc)

lemma add_body_rep:
  assumes "queue_rep q vs" "count q \<noteq> max_count q" "fresh (nodes q) m"
  shows "\<exists>q'. add_body q v m = Inr q' \<and> queue_rep q' (vs @ [v]) \<and> max_count q' = max_count q"
proof -
  from assms(3) obtain n where n: "m = Some n" "nodes q n = None" by (rule freshE)
  with queue_add_room [OF assms(1,2) n(2), of v] assms(2) show ?thesis
    by (auto simp: add_body_queue_add)
qed

lemma add_body_keeps:
  assumes "add_body q v m = Inr q'"
  shows "mutex q' = mutex q" "sem_empty q' = sem_empty q" "sem_full q' = sem_full q"
    "spinlock q' = spinlock q" "max_count q' = max_count q"
  using assms
  by (auto simp: add_body_def Let_def rbind_eq_Inr link_node_keeps split: if_splits option.splits)

lemma get_body_rep:
  assumes "queue_rep q (w # vs)"
  shows "\<exists>q'. get_body q = Inr (w, q') \<and> queue_rep q' vs \<and> max_count q' = max_count q \<and> tail_ok q'"
proof -
  from assms obtain q1 where q1: "queue_get q 0 = Inr (1, w, q1)" "queue_rep q1 vs"
    "max_count q1 = max_count q"
    using queue_get_nonempty by blast
  from queue_rep_length [OF assms] have "0 < count q" by simp
  with q1(1) have eq: "get_body q = Inr (w, if first q1 = None then q1\<lparr>lastp := None\<rparr> else q1)"
    by (auto simp: queue_get_def get_body_def Let_def rbind_eq_Inr)
  from q1(2) have "first q1 = None \<Longrightarrow> queue_rep (q1\<lparr>lastp := None\<rparr>) vs"
    by (auto simp: queue_rep_def queue_at_def chain_null_iff)
  with q1 eq show ?thesis by (auto simp: tail_ok_def)
qed

lemma get_body_keeps:
  assumes "get_body q = Inr (v, q')"
  shows "mutex q' = mutex q" "sem_empty q' = sem_empty q" "sem_full q' = sem_full q"
    "spinlock q' = spinlock q" "max_count q' = max_count q"
  using assms by (auto simp: get_body_def Let_def rbind_eq_Inr split: if_splits)

lemma queue_rep_init_locked:
  "0 \<le> maxc \<Longrightarrow> \<exists>q. queue_init_spin maxc True 0 0 tid = Inr q \<and> queue_rep q [] \<and> max_count q = maxc \<and> \<not> spinlock q"
  "0 \<le> maxc \<Longrightarrow> \<exists>q. queue_init_mtx maxc True 0 0 tid = Inr q \<and> queue_rep q [] \<and> max_count q = maxc \<and> \<not> mutex q"
  by (auto simp: queue_init_spin_def queue_init_mtx_def queue_rep_def queue_at_def intro!: exI [of _ "[]"])

text \<open>The semaphores of \<open>2.2g.c\<close> count the free places and the values.\<close>

definition sem_rep :: "queue_t \<Rightarrow> i32 list \<Rightarrow> bool" where
  "sem_rep q vs \<longleftrightarrow> queue_rep q vs \<and> tail_ok q \<and> \<not> mutex q
     \<and> sem_full q = length vs \<and> int (sem_empty q + sem_full q) = max_count q"

lemma link_node_tail_ok: "link_node q v n = Inr q' \<Longrightarrow> first q' \<noteq> None"
  by (auto simp: link_node_def Let_def rbind_eq_Inr split: if_splits)

lemma add_body_tail_ok: "add_body q v m = Inr q' \<Longrightarrow> tail_ok q'"
  by (auto simp: add_body_def tail_ok_def Let_def rbind_eq_Inr split: if_splits option.splits
      dest: link_node_tail_ok)

lemma tail_ok_fields [simp]:
  "tail_ok (q\<lparr>mutex := b\<rparr>) = tail_ok q" "tail_ok (q\<lparr>sem_empty := x\<rparr>) = tail_ok q"
  "tail_ok (q\<lparr>sem_full := x\<rparr>) = tail_ok q"
  by (simp_all add: tail_ok_def)

section \<open>Properties\<close>

text \<open>
  With its lock free, an operation of \<open>2.2a-c.c\<close> or \<open>2.2e.c\<close> does to the queue what
  the operation of \<open>queue.c\<close> does, on every path, and its lock is free again afterwards; while
  the lock is held it makes no progress.
\<close>

theorem locked_operations_equal_plain:
  "queue_add_spin q v m = (if spinlock q then None else Some (queue_add q v m))
   \<and> queue_get_spin q v = (if spinlock q then None else Some (queue_get q v))
   \<and> queue_add_mtx q v m = (if mutex q then None else Some (queue_add q v m))
   \<and> queue_get_mtx q v = (if mutex q then None else Some (queue_get q v))
   \<and> (case queue_add q v m of Inl e \<Rightarrow> True
        | Inr (ok, q') \<Rightarrow> spinlock q' = spinlock q \<and> mutex q' = mutex q)
   \<and> (case queue_get q v of Inl e \<Rightarrow> True
        | Inr (ok, w, q') \<Rightarrow> spinlock q' = spinlock q \<and> mutex q' = mutex q)"
proof -
  have 1: "spinlock q' = spinlock q \<and> mutex q' = mutex q" if "queue_add q v m = Inr (ok, q')" for ok q'
    using that by (auto simp: queue_add_def Let_def rbind_eq_Inr link_node_keeps split: if_splits option.splits)
  have 2: "spinlock q' = spinlock q \<and> mutex q' = mutex q" if "queue_get q v = Inr (ok, w, q')" for ok w q'
    using that by (auto simp: queue_get_def Let_def rbind_eq_Inr split: if_splits)
  have 3: "spinlock q \<Longrightarrow> queue_add_spin q v m = None \<and> queue_get_spin q v = None"
    "mutex q \<Longrightarrow> queue_add_mtx q v m = None \<and> queue_get_mtx q v = None"
    by (simp_all add: queue_add_spin_def queue_get_spin_def queue_add_mtx_def queue_get_mtx_def)
  from 1 2 3 show ?thesis by (simp add: queue_locked_free split: sum.splits prod.splits)
qed

text \<open>
  The semaphores of \<open>2.2g.c\<close>: \<open>queue_add\<close> waits exactly when the queue is full and
  otherwise appends its value, \<open>queue_get\<close> waits exactly when it is empty and otherwise returns
  the oldest value; \<open>empty\<close> and \<open>full\<close> always count the free places and the values.
\<close>

lemma semaphore_calls:
  assumes "sem_rep q vs" "fresh (nodes q) m"
  shows "(case queue_add_sem q v m of None \<Rightarrow> int (length vs) = max_count q
            | Some r \<Rightarrow> int (length vs) < max_count q
                \<and> (\<exists>q'. r = Inr (1, q') \<and> sem_rep q' (vs @ [v]) \<and> max_count q' = max_count q))
       \<and> (case queue_get_sem q of None \<Rightarrow> vs = []
            | Some r \<Rightarrow> \<exists>w ws q'. vs = w # ws \<and> r = Inr (1, w, q') \<and> sem_rep q' ws
                \<and> max_count q' = max_count q)"
proof
  from assms(1) have rep: "queue_rep q vs" and nm: "\<not> mutex q" and full: "sem_full q = length vs"
    and sum: "int (sem_empty q + sem_full q) = max_count q" by (auto simp: sem_rep_def)
  have cnt: "count q = int (length vs)" using queue_rep_length [OF rep] by simp
  show "case queue_add_sem q v m of None \<Rightarrow> int (length vs) = max_count q
      | Some r \<Rightarrow> int (length vs) < max_count q
          \<and> (\<exists>q'. r = Inr (1, q') \<and> sem_rep q' (vs @ [v]) \<and> max_count q' = max_count q)"
  proof (cases "sem_empty q = 0")
    case True
    with full sum show ?thesis by (simp add: queue_add_sem_def)
  next
    case False
    let ?q = "q\<lparr>sem_empty := sem_empty q - 1, mutex := True\<rparr>"
    from False sum full cnt have "count ?q \<noteq> max_count ?q" by simp
    with add_body_rep [of ?q vs m v] rep assms(2) obtain q' where
      q': "add_body ?q v m = Inr q'" "queue_rep q' (vs @ [v])" "max_count q' = max_count q" by auto
    from add_body_keeps [OF q'(1)] add_body_tail_ok [OF q'(1)] q' False nm full sum
    show ?thesis by (auto simp: queue_add_sem_def Let_def sem_rep_def)
  qed
  show "case queue_get_sem q of None \<Rightarrow> vs = []
      | Some r \<Rightarrow> \<exists>w ws q'. vs = w # ws \<and> r = Inr (1, w, q') \<and> sem_rep q' ws
          \<and> max_count q' = max_count q"
  proof (cases vs)
    case Nil
    with full show ?thesis by (simp add: queue_get_sem_def)
  next
    case (Cons w ws)
    let ?q = "q\<lparr>sem_full := sem_full q - 1, mutex := True\<rparr>"
    from get_body_rep [of ?q w ws] rep Cons obtain q' where
      q': "get_body ?q = Inr (w, q')" "queue_rep q' ws" "max_count q' = max_count q" "tail_ok q'" by auto
    from get_body_keeps [OF q'(1)] q' Cons nm full sum
    show ?thesis by (auto simp: queue_get_sem_def Let_def sem_rep_def)
  qed
qed

end
