(* ===== verification/Locked_Threads.thy ===== *)
theory Locked_Threads
  imports Prelude
begin

text \<open>
  Threads that share one object. Each thread runs a loop: thread-local code chooses a call, the
  call executes its statements on the shared object one at a time, thread-local code uses the
  result. In a \<open>locking\<close> program a lock is taken before the first statement and released after
  the last, as the operations of \<open>sync/2.2a-c.c\<close> and \<open>sync/2.2e.c\<close> do; otherwise, as in
  \<open>sync/queue.c\<close>, the statements of different threads interleave freely.

  The main result is a reduction: a property of the object and the threads' local states that
  every whole call keeps holds in every reachable state, once the call in progress, if any, is
  run to its end. It is proved once, inside a locale.
\<close>

section \<open>Programs, configurations, steps\<close>

record ('t, 'l, 's, 'r) prog =
  locking :: bool
  begin_call :: "'t \<Rightarrow> 'l \<Rightarrow> 'r"
  statements :: "'t \<Rightarrow> 'l \<Rightarrow> ('s \<times> 'r \<Rightarrow> 's \<times> 'r) list"
  end_call :: "'t \<Rightarrow> 'l \<Rightarrow> 'r \<Rightarrow> 'l"

text \<open>A thread is in its local code, waiting for the lock, or before the k-th statement.\<close>

datatype ('l, 'r) phase = Local 'l | Waiting 'l | Inside 'l nat 'r

primrec local_of :: "('l, 'r) phase \<Rightarrow> 'l" where
  "local_of (Local l) = l"
| "local_of (Waiting l) = l"
| "local_of (Inside l k r) = l"

primrec inside :: "('l, 'r) phase \<Rightarrow> bool" where
  "inside (Local l) = False"
| "inside (Waiting l) = False"
| "inside (Inside l k r) = True"

record ('t, 'l, 's, 'r) conf =
  object :: 's
  owner :: "'t option"
  phase_of :: "'t \<Rightarrow> ('l, 'r) phase"

definition start_conf :: "'s \<Rightarrow> ('t \<Rightarrow> 'l) \<Rightarrow> ('t, 'l, 's, 'r) conf" where
  "start_conf s ls = \<lparr>object = s, owner = None, phase_of = (\<lambda>t. Local (ls t))\<rparr>"

inductive thread_step ::
  "('t, 'l, 's, 'r) prog \<Rightarrow> ('t, 'l, 's, 'r) conf \<Rightarrow> ('t, 'l, 's, 'r) conf \<Rightarrow> bool"
  for P :: "('t, 'l, 's, 'r) prog" where
  call: "phase_of c t = Local l \<Longrightarrow>
    thread_step P c (c\<lparr>phase_of := (phase_of c)(t := Waiting l)\<rparr>)"
| enter: "phase_of c t = Waiting l \<Longrightarrow> (locking P \<longrightarrow> owner c = None) \<Longrightarrow>
    thread_step P c (c\<lparr>owner := (if locking P then Some t else None),
                       phase_of := (phase_of c)(t := Inside l 0 (begin_call P t l))\<rparr>)"
| exec: "phase_of c t = Inside l k r \<Longrightarrow> k < length (statements P t l) \<Longrightarrow>
    (statements P t l ! k) (object c, r) = (s', r') \<Longrightarrow>
    thread_step P c (c\<lparr>object := s', phase_of := (phase_of c)(t := Inside l (Suc k) r')\<rparr>)"
| leave: "phase_of c t = Inside l k r \<Longrightarrow> k = length (statements P t l) \<Longrightarrow>
    thread_step P c (c\<lparr>owner := None, phase_of := (phase_of c)(t := Local (end_call P t l r))\<rparr>)"

inductive reaches ::
  "('t, 'l, 's, 'r) prog \<Rightarrow> ('t, 'l, 's, 'r) conf \<Rightarrow> ('t, 'l, 's, 'r) conf \<Rightarrow> bool"
  for P :: "('t, 'l, 's, 'r) prog" and c0 :: "('t, 'l, 's, 'r) conf" where
  reaches_start: "reaches P c0 c0"
| reaches_step: "reaches P c0 c \<Longrightarrow> thread_step P c d \<Longrightarrow> reaches P c0 d"

section \<open>Whole calls\<close>

definition run :: "('s \<times> 'r \<Rightarrow> 's \<times> 'r) list \<Rightarrow> 's \<times> 'r \<Rightarrow> 's \<times> 'r" where
  "run fs x = fold (\<lambda>f. f) fs x"

lemma run_simps [simp]: "run [] x = x" "run (f # fs) x = run fs (f x)"
  by (simp_all add: run_def)

definition whole_call ::
  "('t, 'l, 's, 'r) prog \<Rightarrow> 't \<Rightarrow> 's \<times> ('t \<Rightarrow> 'l) \<Rightarrow> 's \<times> ('t \<Rightarrow> 'l)" where
  "whole_call P t x = (case x of (s, ls) \<Rightarrow>
     case run (statements P t (ls t)) (s, begin_call P t (ls t)) of
       (s', r') \<Rightarrow> (s', ls(t := end_call P t (ls t) r')))"

text \<open>The state a configuration gets to when the call in progress is run to its end.\<close>

definition completed :: "('t, 'l, 's, 'r) prog \<Rightarrow> ('t, 'l, 's, 'r) conf \<Rightarrow> 's \<times> ('t \<Rightarrow> 'l)" where
  "completed P c = (let ls = (\<lambda>t. local_of (phase_of c t)) in
     case owner c of None \<Rightarrow> (object c, ls)
     | Some t \<Rightarrow> (case phase_of c t of
         Inside l k r \<Rightarrow> (case run (drop k (statements P t l)) (object c, r) of
                           (s', r') \<Rightarrow> (s', ls(t := end_call P t l r')))
       | _ \<Rightarrow> (object c, ls)))"

section \<open>Mutual exclusion and reduction to whole calls\<close>

definition lock_ok :: "('t, 'l, 's, 'r) conf \<Rightarrow> bool" where
  "lock_ok c \<longleftrightarrow> (\<forall>t. inside (phase_of c t) \<longleftrightarrow> owner c = Some t)"

lemma lock_ok_start: "lock_ok (start_conf s ls)"
  by (simp add: lock_ok_def start_conf_def)

lemma lock_okD: "lock_ok c \<Longrightarrow> inside (phase_of c t) = (owner c = Some t)"
  by (simp add: lock_ok_def)

lemma lock_ok_owner: "lock_ok c \<Longrightarrow> phase_of c t = Inside l k r \<Longrightarrow> owner c = Some t"
  using lock_okD [of c t] by simp

lemma lock_ok_not_owner: "lock_ok c \<Longrightarrow> \<not> inside (phase_of c t) \<Longrightarrow> owner c \<noteq> Some t"
  using lock_okD [of c t] by simp

lemma lock_ok_step:
  assumes "thread_step P c d" "locking P" "lock_ok c"
  shows "lock_ok d"
  using assms
proof (induction rule: thread_step.induct)
  case (call c t l)
  from lock_ok_not_owner [OF call(3)] call(1) have "owner c \<noteq> Some t" by simp
  with call(3) show ?case by (auto simp: lock_ok_def)
next
  case (enter c t l)
  then show ?case by (auto simp: lock_ok_def)
next
  case (exec c t l k r s' r')
  then have "owner c = Some t" by (blast intro: lock_ok_owner)
  with exec show ?case by (auto simp: lock_ok_def)
next
  case (leave c t l k r)
  then have "owner c = Some t" by (blast intro: lock_ok_owner)
  with leave show ?case by (auto simp: lock_ok_def)
qed

lemma lock_ok_reaches:
  "reaches P c0 c \<Longrightarrow> locking P \<Longrightarrow> lock_ok c0 \<Longrightarrow> lock_ok c"
  by (induction rule: reaches.induct) (auto intro: lock_ok_step)

lemma completed_step:
  assumes "thread_step P c d" "locking P" "lock_ok c"
  shows "completed P d = completed P c \<or> (\<exists>t. completed P d = whole_call P t (completed P c))"
  using assms
proof (induction rule: thread_step.induct)
  case (call c t l)
  from lock_ok_not_owner [OF call(3)] call(1) have o: "owner c \<noteq> Some t" by simp
  have "(\<lambda>u. local_of (((phase_of c)(t := Waiting l)) u)) = (\<lambda>u. local_of (phase_of c u))"
    using call by (auto simp: fun_eq_iff)
  with o show ?case by (auto simp: completed_def Let_def split: option.splits phase.splits)
next
  case (enter c t l)
  then have "owner c = None" by simp
  moreover have "(\<lambda>u. local_of (((phase_of c)(t := Inside l 0 (begin_call P t l))) u))
      = (\<lambda>u. local_of (phase_of c u))"
    using enter by (auto simp: fun_eq_iff)
  ultimately show ?case using enter
    by (intro disjI2 exI [of _ t])
      (auto simp: completed_def whole_call_def Let_def split: prod.splits)
next
  case (exec c t l k r s' r')
  then have o: "owner c = Some t" by (blast intro: lock_ok_owner)
  have "(\<lambda>u. local_of (((phase_of c)(t := Inside l (Suc k) r')) u)) = (\<lambda>u. local_of (phase_of c u))"
    using exec by (auto simp: fun_eq_iff)
  moreover have "drop k (statements P t l) = (statements P t l ! k) # drop (Suc k) (statements P t l)"
    using exec by (simp add: Cons_nth_drop_Suc)
  ultimately show ?case using exec o by (simp add: completed_def Let_def)
next
  case (leave c t l k r)
  then have o: "owner c = Some t" by (blast intro: lock_ok_owner)
  then show ?case using leave
    by (auto simp: completed_def Let_def fun_eq_iff)
qed

text \<open>
  A property of whole calls, as an interface: \<open>inv\<close> speaks of the object and of the local state
  of every thread, holds at the start, and every whole call keeps it.
\<close>

locale call_invariant =
  fixes P :: "('t, 'l, 's, 'r) prog"
    and inv :: "'s \<times> ('t \<Rightarrow> 'l) \<Rightarrow> bool"
    and s0 :: 's
    and ls0 :: "'t \<Rightarrow> 'l"
  assumes uses_lock: "locking P"
    and inv_start: "inv (s0, ls0)"
    and inv_call: "inv x \<Longrightarrow> inv (whole_call P t x)"
begin

lemma reaches_lock_ok: "reaches P (start_conf s0 ls0) c \<Longrightarrow> lock_ok c"
  by (rule lock_ok_reaches [OF _ uses_lock lock_ok_start])

lemma reaches_inv: "reaches P (start_conf s0 ls0) c \<Longrightarrow> inv (completed P c)"
proof (induction rule: reaches.induct)
  case reaches_start
  show ?case using inv_start by (simp add: completed_def start_conf_def)
next
  case (reaches_step c d)
  then have "lock_ok c" by (blast intro: reaches_lock_ok)
  from completed_step [OF reaches_step.hyps(2) uses_lock this] show ?case
  proof
    assume "completed P d = completed P c"
    with reaches_step.IH show ?thesis by simp
  next
    assume "\<exists>t. completed P d = whole_call P t (completed P c)"
    with inv_call [OF reaches_step.IH] show ?thesis by auto
  qed
qed

text \<open>At most one thread is between its first and its last statement.\<close>

lemma reaches_exclusive:
  assumes "reaches P (start_conf s0 ls0) c"
    and "phase_of c t = Inside l k r" "phase_of c u = Inside l' k' r'"
  shows "t = u"
proof -
  from assms(1) have "lock_ok c" by (rule reaches_lock_ok)
  from lock_ok_owner [OF this assms(2)] lock_ok_owner [OF this assms(3)] show ?thesis by simp
qed

text \<open>Between calls the property holds of the object as it is.\<close>

lemma reaches_free:
  assumes "reaches P (start_conf s0 ls0) c" "owner c = None"
  shows "inv (object c, \<lambda>t. local_of (phase_of c t))"
  using reaches_inv [OF assms(1)] assms(2) by (simp add: completed_def)

end

section \<open>Schedules\<close>

text \<open>A schedule names the thread that takes each step; running it gives a reachable state.\<close>

definition step_by :: "('t, 'l, 's, 'r) prog \<Rightarrow> 't \<Rightarrow> ('t, 'l, 's, 'r) conf \<Rightarrow> ('t, 'l, 's, 'r) conf option" where
  "step_by P t c = (case phase_of c t of
     Local l \<Rightarrow> Some (c\<lparr>phase_of := (phase_of c)(t := Waiting l)\<rparr>)
   | Waiting l \<Rightarrow> (if locking P \<and> owner c \<noteq> None then None
       else Some (c\<lparr>owner := (if locking P then Some t else None),
                    phase_of := (phase_of c)(t := Inside l 0 (begin_call P t l))\<rparr>))
   | Inside l k r \<Rightarrow> (if k < length (statements P t l)
       then (case (statements P t l ! k) (object c, r) of (s', r') \<Rightarrow>
               Some (c\<lparr>object := s', phase_of := (phase_of c)(t := Inside l (Suc k) r')\<rparr>))
       else if k = length (statements P t l)
       then Some (c\<lparr>owner := None, phase_of := (phase_of c)(t := Local (end_call P t l r))\<rparr>)
       else None))"

primrec run_schedule :: "('t, 'l, 's, 'r) prog \<Rightarrow> 't list \<Rightarrow> ('t, 'l, 's, 'r) conf \<Rightarrow> ('t, 'l, 's, 'r) conf option" where
  "run_schedule P [] c = Some c"
| "run_schedule P (t # ts) c = (case step_by P t c of None \<Rightarrow> None | Some d \<Rightarrow> run_schedule P ts d)"

lemma step_by_step:
  assumes "step_by P t c = Some d"
  shows "thread_step P c d"
proof (cases "phase_of c t")
  case (Local l)
  with assms show ?thesis by (auto simp: step_by_def intro: thread_step.call)
next
  case (Waiting l)
  with assms thread_step.enter [of c t l P] show ?thesis
    by (auto simp: step_by_def split: if_splits)
next
  case (Inside l k r)
  with assms thread_step.exec [of c t l k r P] thread_step.leave [of c t l k r P] show ?thesis
    by (auto simp: step_by_def split: if_splits prod.splits)
qed

lemma run_schedule_reaches:
  "run_schedule P ts c = Some d \<Longrightarrow> reaches P c0 c \<Longrightarrow> reaches P c0 d"
proof (induction ts arbitrary: c)
  case (Cons t ts)
  from Cons.prems(1) obtain e where "step_by P t c = Some e" "run_schedule P ts e = Some d"
    by (auto split: option.splits)
  with Cons show ?case by (blast intro: reaches_step step_by_step)
qed simp

end
