(* ===== verification/Queue_Threads.thy ===== *)
theory Queue_Threads
  imports Queue_Sync Locked_Threads
begin

text \<open>
  The test programs \<open>queue-threads.c\<close>, \<open>2.1b.c\<close> and \<open>2.2d.c\<close>: a writer thread that adds 0, 1,
  2, ..., a reader thread that takes values and reports an \<open>ERROR\<close> when one is not the successor
  of the last, and the monitor thread that prints the statistics. Linked with \<open>queue.c\<close> the
  statements of the operations interleave; linked with \<open>2.2a-c.c\<close> or \<open>2.2e.c\<close> they run under a
  lock. The operations are given statement by statement here and shown equal to the functions of
  \<open>Queue_Plain\<close>.
\<close>

section \<open>The operations, statement by statement\<close>

text \<open>
  The local variables of a call. \<open>r_ret\<close> is set when the function has returned, \<open>r_fault\<close> when a
  statement has faulted; after either, the rest of the statements does nothing. \<open>count++\<close> is a
  read and a write.
\<close>

record regs =
  r_val :: i32
  r_new :: ptr
  r_first_null :: bool
  r_cnt :: int
  r_ret :: "int option"
  r_fault :: "fault option"

definition call_regs :: "i32 \<Rightarrow> regs" where
  "call_regs v = \<lparr>r_val = v, r_new = None, r_first_null = False, r_cnt = 0, r_ret = None, r_fault = None\<rparr>"

definition stmt :: "(queue_t \<times> regs \<Rightarrow> queue_t \<times> regs) \<Rightarrow> queue_t \<times> regs \<Rightarrow> queue_t \<times> regs" where
  "stmt f x = (if r_ret (snd x) \<noteq> None \<or> r_fault (snd x) \<noteq> None then x else f x)"

definition on_res :: "queue_t \<times> regs \<Rightarrow> 'a res \<Rightarrow> ('a \<Rightarrow> queue_t \<times> regs) \<Rightarrow> queue_t \<times> regs" where
  "on_res x e f = (case e of Inl flt \<Rightarrow> (fst x, (snd x)\<lparr>r_fault := Some flt\<rparr>) | Inr y \<Rightarrow> f y)"

lemma on_res_simps [simp]:
  "on_res x (Inl e) f = (fst x, (snd x)\<lparr>r_fault := Some e\<rparr>)" "on_res x (Inr y) f = f y"
  by (simp_all add: on_res_def)

definition add_statements :: "(qnode_t heap \<Rightarrow> ptr) \<Rightarrow> (queue_t \<times> regs \<Rightarrow> queue_t \<times> regs) list" where
  "add_statements alloc = map stmt [
     \<lambda>(q, r). (q\<lparr>add_attempts := add_attempts q + 1\<rparr>, r),
     \<lambda>(q, r). if \<not> count q \<le> max_count q then (q, r\<lparr>r_fault := Some AssertFail\<rparr>)
              else if count q = max_count q then (q, r\<lparr>r_ret := Some 0\<rparr>) else (q, r),
     \<lambda>(q, r). (case alloc (nodes q) of None \<Rightarrow> (q, r\<lparr>r_fault := Some AbortCall\<rparr>)
               | Some n \<Rightarrow> (q\<lparr>nodes := (nodes q)(n \<mapsto> \<lparr>nval = r_val r, nnext = None\<rparr>)\<rparr>, r\<lparr>r_new := Some n\<rparr>)),
     \<lambda>(q, r). (q, r\<lparr>r_first_null := (first q = None)\<rparr>),
     \<lambda>(q, r). if r_first_null r then (q\<lparr>first := r_new r, lastp := r_new r\<rparr>, r)
              else on_res (q, r) (store (nodes q) (lastp q) (\<lambda>c. c\<lparr>nnext := r_new r\<rparr>))
                     (\<lambda>h. (q\<lparr>nodes := h\<rparr>, r)),
     \<lambda>(q, r). if r_first_null r then (q, r)
              else on_res (q, r) (deref (nodes q) (lastp q)) (\<lambda>c. (q\<lparr>lastp := nnext c\<rparr>, r)),
     \<lambda>(q, r). (q, r\<lparr>r_cnt := count q\<rparr>),
     \<lambda>(q, r). (q\<lparr>count := r_cnt r + 1\<rparr>, r),
     \<lambda>(q, r). (q\<lparr>add_count := add_count q + 1\<rparr>, r),
     \<lambda>(q, r). (q, r\<lparr>r_ret := Some 1\<rparr>)]"

definition get_statements :: "(queue_t \<times> regs \<Rightarrow> queue_t \<times> regs) list" where
  "get_statements = map stmt [
     \<lambda>(q, r). (q\<lparr>get_attempts := get_attempts q + 1\<rparr>, r),
     \<lambda>(q, r). if \<not> 0 \<le> count q then (q, r\<lparr>r_fault := Some AssertFail\<rparr>)
              else if count q = 0 then (q, r\<lparr>r_ret := Some 0\<rparr>) else (q, r),
     \<lambda>(q, r). (q, r\<lparr>r_new := first q\<rparr>),
     \<lambda>(q, r). on_res (q, r) (deref (nodes q) (r_new r)) (\<lambda>c. (q, r\<lparr>r_val := nval c\<rparr>)),
     \<lambda>(q, r). on_res (q, r) (deref (nodes q) (first q)) (\<lambda>c. (q\<lparr>first := nnext c\<rparr>, r)),
     \<lambda>(q, r). on_res (q, r) (free_at (nodes q) (r_new r)) (\<lambda>h. (q\<lparr>nodes := h\<rparr>, r)),
     \<lambda>(q, r). (q, r\<lparr>r_cnt := count q\<rparr>),
     \<lambda>(q, r). (q\<lparr>count := r_cnt r - 1\<rparr>, r),
     \<lambda>(q, r). (q\<lparr>get_count := get_count q + 1\<rparr>, r),
     \<lambda>(q, r). (q, r\<lparr>r_ret := Some 1\<rparr>)]"

lemma stmt_stopped:
  "r_fault (snd x) \<noteq> None \<or> r_ret (snd x) \<noteq> None \<Longrightarrow> run (map stmt fs) x = x"
  by (induction fs arbitrary: x) (auto simp: stmt_def)

lemma stmt_go [simp]: "r_ret r = None \<Longrightarrow> r_fault r = None \<Longrightarrow> stmt f (q, r) = f (q, r)"
  by (simp add: stmt_def)

lemma stmt_stop [simp]: "r_ret r \<noteq> None \<or> r_fault r \<noteq> None \<Longrightarrow> stmt f (q, r) = (q, r)"
  by (auto simp: stmt_def)

text \<open>Run without interruption, the statements are the function.\<close>

lemma run_add_statements:
  assumes "queue_add q v (alloc (nodes q)) = Inr (ret, q')"
  shows "\<exists>r. run (add_statements alloc) (q, call_regs v) = (q', r) \<and> r_ret r = Some ret \<and> r_fault r = None"
proof (cases "alloc (nodes q)")
  case None
  with assms show ?thesis
    by (auto simp: queue_add_def add_statements_def call_regs_def Let_def split: if_splits)
next
  case (Some n)
  show ?thesis
  proof (cases "count q = max_count q \<or> first q = None")
    case True
    with assms Some show ?thesis
      by (cases q) (auto simp: queue_add_def add_statements_def call_regs_def link_node_def Let_def
          split: if_splits)
  next
    case False
    with assms Some show ?thesis
      by (cases q; cases "lastp q")
        (auto simp: queue_add_def add_statements_def call_regs_def link_node_def Let_def rbind_eq_Inr
          split: if_splits)
  qed
qed

lemma run_get_statements:
  assumes "queue_get q v = Inr (ret, w, q')"
  shows "\<exists>r. run get_statements (q, call_regs v) = (q', r) \<and> r_ret r = Some ret \<and> r_val r = w \<and> r_fault r = None"
proof (cases "count q = 0")
  case True
  with assms show ?thesis
    by (cases q) (auto simp: queue_get_def get_statements_def call_regs_def Let_def)
next
  case False
  with assms show ?thesis
    by (cases q; cases "first q")
      (auto simp: queue_get_def get_statements_def call_regs_def Let_def rbind_eq_Inr split: if_splits)
qed

section \<open>The threads\<close>

datatype thread = Reader | Writer | Monitor

text \<open>
  The local variables: the writer's \<open>i\<close>, the reader's \<open>expected\<close>, the number of \<open>ERROR\<close> lines
  the reader has printed, and the fault that ended the thread, if any. \<open>int\<close> arithmetic wraps
  at 32 bits.
\<close>

record locals =
  wi :: i32
  expected :: i32
  errors :: nat
  crashed :: "fault option"

definition init_locals :: locals where
  "init_locals = \<lparr>wi = 0, expected = 0, errors = 0, crashed = None\<rparr>"

text \<open>One iteration of \<open>writer\<close>: call \<open>queue_add(q, i)\<close>; count on when it returned 1.\<close>

definition writer_call :: "locals \<Rightarrow> regs" where
  "writer_call l = call_regs (wi l)"

definition writer_after :: "locals \<Rightarrow> regs \<Rightarrow> locals" where
  "writer_after l r = (case r_fault r of Some e \<Rightarrow> l\<lparr>crashed := Some e\<rparr>
     | None \<Rightarrow> (let ok = the (r_ret r) in if ok = 0 then l else l\<lparr>wi := wi l + 1\<rparr>))"

text \<open>One iteration of \<open>reader\<close>: \<open>int val = -1; int ok = queue_get(q, &val)\<close>, then the check.\<close>

definition reader_call :: "locals \<Rightarrow> regs" where
  "reader_call l = call_regs (-1)"

definition reader_after :: "locals \<Rightarrow> regs \<Rightarrow> locals" where
  "reader_after l r = (case r_fault r of Some e \<Rightarrow> l\<lparr>crashed := Some e\<rparr>
     | None \<Rightarrow> (let ok = the (r_ret r); val = r_val r in
         if ok = 0 then l
         else let l = (if expected l \<noteq> val then l\<lparr>errors := errors l + 1\<rparr> else l)
              in l\<lparr>expected := val + 1\<rparr>))"

text \<open>\<open>qmonitor\<close> calls \<open>queue_print_stats\<close>, which only reads.\<close>

definition stats_statements :: "(queue_t \<times> regs \<Rightarrow> queue_t \<times> regs) list" where
  "stats_statements = map stmt [\<lambda>(q, r). (q, r\<lparr>r_cnt := count q\<rparr>)]"

definition queue_program :: "bool \<Rightarrow> (qnode_t heap \<Rightarrow> ptr) \<Rightarrow> (thread, locals, queue_t, regs) prog" where
  "queue_program locked alloc = \<lparr>locking = locked,
     begin_call = (\<lambda>t l. case t of Writer \<Rightarrow> writer_call l | Reader \<Rightarrow> reader_call l | Monitor \<Rightarrow> call_regs 0),
     statements = (\<lambda>t l. case t of Writer \<Rightarrow> add_statements alloc | Reader \<Rightarrow> get_statements
                                | Monitor \<Rightarrow> stats_statements),
     end_call = (\<lambda>t l r. case t of Writer \<Rightarrow> writer_after l r | Reader \<Rightarrow> reader_after l r
                                | Monitor \<Rightarrow> l)\<rparr>"

definition init_program :: "queue_t \<Rightarrow> (thread, locals, queue_t, regs) conf" where
  "init_program q = start_conf q (\<lambda>_. init_locals)"

section \<open>Under a lock the reader sees every value, once, in order\<close>

primrec consecutive :: "i32 \<Rightarrow> i32 list \<Rightarrow> bool" where
  "consecutive e [] = True"
| "consecutive e (v # vs) = (v = e \<and> consecutive (e + 1) vs)"

lemma consecutive_append:
  "consecutive e (vs @ ws) \<longleftrightarrow> consecutive e vs \<and> consecutive (e + of_nat (length vs)) ws"
  by (induction vs arbitrary: e) (auto simp: algebra_simps)

definition stream_inv :: "queue_t \<times> (thread \<Rightarrow> locals) \<Rightarrow> bool" where
  "stream_inv x = (case x of (q, ls) \<Rightarrow>
     (\<exists>vs. queue_rep q vs \<and> consecutive (expected (ls Reader)) vs
        \<and> wi (ls Writer) = expected (ls Reader) + of_nat (length vs))
     \<and> errors (ls Reader) = 0 \<and> (\<forall>t. crashed (ls t) = None))"

lemma stream_inv_writer:
  assumes alloc: "\<And>h. finite (dom h) \<Longrightarrow> fresh h (alloc h)" and inv: "stream_inv (q, ls)"
  shows "stream_inv (whole_call (queue_program locked alloc) Writer (q, ls))"
proof -
  from inv obtain vs where vs: "queue_rep q vs" "consecutive (expected (ls Reader)) vs"
    "wi (ls Writer) = expected (ls Reader) + of_nat (length vs)"
    and rest: "errors (ls Reader) = 0" "\<forall>t. crashed (ls t) = None"
    by (auto simp: stream_inv_def)
  show ?thesis
  proof (cases "count q = max_count q")
    case True
    from run_add_statements [where alloc = alloc, OF queue_add_full [OF vs(1) True, of "wi (ls Writer)" "alloc (nodes q)"]]
    obtain r where "run (add_statements alloc) (q, call_regs (wi (ls Writer)))
        = (q\<lparr>add_attempts := add_attempts q + 1\<rparr>, r)" "r_ret r = Some 0" "r_fault r = None"
      by blast
    with vs rest show ?thesis
      by (auto simp: stream_inv_def whole_call_def queue_program_def writer_call_def writer_after_def
          intro!: exI [of _ vs])
  next
    case False
    from alloc [OF queue_rep_finite [OF vs(1)]] obtain n where
      n: "alloc (nodes q) = Some n" "nodes q n = None" by (rule freshE)
    from queue_add_room [OF vs(1) False n(2), of "wi (ls Writer)"] n(1) obtain q' where
      q': "queue_add q (wi (ls Writer)) (alloc (nodes q)) = Inr (1, q')" "queue_rep q' (vs @ [wi (ls Writer)])"
      by auto
    from run_add_statements [where alloc = alloc, OF q'(1)] obtain r where
      "run (add_statements alloc) (q, call_regs (wi (ls Writer))) = (q', r)" "r_ret r = Some 1" "r_fault r = None"
      by blast
    with vs rest q' show ?thesis
      by (auto simp: stream_inv_def whole_call_def queue_program_def writer_call_def writer_after_def
          consecutive_append intro!: exI [of _ "vs @ [wi (ls Writer)]"])
  qed
qed

lemma stream_inv_reader:
  assumes inv: "stream_inv (q, ls)"
  shows "stream_inv (whole_call (queue_program locked alloc) Reader (q, ls))"
proof -
  from inv obtain vs where vs: "queue_rep q vs" "consecutive (expected (ls Reader)) vs"
    "wi (ls Writer) = expected (ls Reader) + of_nat (length vs)"
    and rest: "errors (ls Reader) = 0" "\<forall>t. crashed (ls t) = None"
    by (auto simp: stream_inv_def)
  show ?thesis
  proof (cases vs)
    case Nil
    with vs(1) have "queue_rep q []" by simp
    from run_get_statements [OF queue_get_empty [OF this, of "-1"]] obtain r where
      "run get_statements (q, call_regs (-1)) = (q\<lparr>get_attempts := get_attempts q + 1\<rparr>, r)"
      "r_ret r = Some 0" "r_fault r = None" by blast
    with Nil vs rest show ?thesis
      by (auto simp: stream_inv_def whole_call_def queue_program_def reader_call_def reader_after_def
          intro!: exI [of _ vs])
  next
    case (Cons w ws)
    with vs(1) queue_get_nonempty [of q w ws "-1"] obtain q' where
      q': "queue_get q (-1) = Inr (1, w, q')" "queue_rep q' ws" by auto
    from run_get_statements [OF q'(1)] obtain r where
      "run get_statements (q, call_regs (-1)) = (q', r)" "r_ret r = Some 1" "r_val r = w" "r_fault r = None"
      by blast
    with Cons vs rest q' show ?thesis
      by (auto simp: stream_inv_def whole_call_def queue_program_def reader_call_def reader_after_def
          Let_def algebra_simps intro!: exI [of _ ws])
  qed
qed

lemma stream_inv_monitor:
  "stream_inv (q, ls) \<Longrightarrow> stream_inv (whole_call (queue_program locked alloc) Monitor (q, ls))"
  by (auto simp: stream_inv_def whole_call_def queue_program_def stats_statements_def call_regs_def)

lemma stream_inv_init: "queue_rep q [] \<Longrightarrow> stream_inv (q, \<lambda>_. init_locals)"
  by (auto simp: stream_inv_def init_locals_def intro!: exI [of _ "[]"])

lemma queue_program_call_invariant:
  assumes "\<And>h. finite (dom h) \<Longrightarrow> fresh h (alloc h)" "queue_rep q []"
  shows "call_invariant (queue_program True alloc) stream_inv q (\<lambda>_. init_locals)"
proof unfold_locales
  show "locking (queue_program True alloc)" by (simp add: queue_program_def)
  show "stream_inv (q, \<lambda>_. init_locals)" using assms(2) by (rule stream_inv_init)
  fix x t
  assume "stream_inv x"
  then show "stream_inv (whole_call (queue_program True alloc) t x)"
    using stream_inv_writer [OF assms(1)] stream_inv_reader stream_inv_monitor
    by (cases x; cases t) auto
qed

text \<open>The program as \<open>main\<close> sets it up, with the allocator that reuses the least free address.\<close>

definition main_queue :: queue_t where
  "main_queue = projr (queue_init_spin 1000000 True 0 0 1)"

lemma main_queue_rep: "queue_rep main_queue []"
  using queue_rep_init_locked(1) [of 1000000 1] by (auto simp: main_queue_def)

interpretation main_run: call_invariant "queue_program True least_free" stream_inv main_queue
  "\<lambda>_. init_locals"
  by (rule queue_program_call_invariant) (simp_all add: fresh_least_free main_queue_rep)

text \<open>The locals of a thread in mid-call are those it had when it made the call.\<close>

lemma reader_after_errors: "errors l \<le> errors (reader_after l r)"
  by (simp add: reader_after_def Let_def split: option.splits)

lemma writer_after_crashed: "crashed (writer_after l r) = None \<Longrightarrow> crashed l = None \<and> r_fault r = None"
  by (auto simp: writer_after_def Let_def split: option.splits if_splits)

lemma reader_after_crashed: "crashed (reader_after l r) = None \<Longrightarrow> crashed l = None \<and> r_fault r = None"
  by (auto simp: reader_after_def Let_def split: option.splits if_splits)

lemma stream_inv_errors:
  assumes "stream_inv (completed (queue_program locked alloc) c)"
  shows "errors (local_of (phase_of c Reader)) = 0"
proof -
  let ?P = "queue_program locked alloc"
  have "errors (local_of (phase_of c Reader)) \<le> errors (snd (completed ?P c) Reader)"
  proof (cases "owner c")
    case None
    then show ?thesis by (simp add: completed_def)
  next
    case (Some t)
    then show ?thesis
      by (cases t; cases "phase_of c t")
        (auto simp: completed_def Let_def queue_program_def reader_after_errors split: prod.splits)
  qed
  with assms show ?thesis by (auto simp: stream_inv_def split: prod.splits)
qed

section \<open>Without a lock\<close>

lemma least_free_0: "h 0 = None \<Longrightarrow> least_free h = Some 0"
  by (simp add: least_free_def Least_eq_0)

lemma least_free_1: "h 0 \<noteq> None \<Longrightarrow> h (Suc 0) = None \<Longrightarrow> least_free h = Some (Suc 0)"
  unfolding least_free_def by (rule arg_cong [of _ _ Some], rule Least_equality) (auto simp: Suc_le_eq intro: gr0I)

text \<open>
  The interleaving that breaks \<open>queue.c\<close>: the writer adds a value; in its second call it has seen
  a non-empty list when the reader takes the only node and frees it; the writer then writes
  through \<open>q->last\<close>.
\<close>

definition race :: "thread list" where
  "race = replicate 13 Writer @ replicate 6 Writer @ replicate 12 Reader @ [Writer]"

section \<open>Properties\<close>

text \<open>
  Property C7. Linked with a queue that locks (\<open>2.2a-c.c\<close>, \<open>2.2e.c\<close>), whatever way the statements
  of reader, writer and monitor interleave: at most one thread is inside an operation, no thread
  faults, the reader never prints \<open>ERROR\<close>, and when the lock is free the queue holds exactly the
  values from the reader's \<open>expected\<close> up to the writer's \<open>i\<close>.
\<close>

theorem locked_program_never_errs:
  assumes "queue_rep q []" "\<And>h. finite (dom h) \<Longrightarrow> fresh h (alloc h)"
    and "reaches (queue_program True alloc) (init_program q) c"
  shows "errors (local_of (phase_of c Reader)) = 0
    \<and> (\<forall>t u. inside (phase_of c t) \<and> inside (phase_of c u) \<longrightarrow> t = u)
    \<and> (owner c = None \<longrightarrow> (\<forall>t. crashed (local_of (phase_of c t)) = None)
        \<and> (\<exists>vs. queue_rep (object c) vs \<and> consecutive (expected (local_of (phase_of c Reader))) vs
            \<and> wi (local_of (phase_of c Writer)) = expected (local_of (phase_of c Reader)) + of_nat (length vs)))"
proof -
  note ci = queue_program_call_invariant [where alloc = alloc, OF assms(2,1)]
  from assms(3) have r: "reaches (queue_program True alloc) (start_conf q (\<lambda>_. init_locals)) c"
    by (simp add: init_program_def)
  from call_invariant.reaches_inv [OF ci r] have "errors (local_of (phase_of c Reader)) = 0"
    by (rule stream_inv_errors)
  moreover from call_invariant.reaches_lock_ok [OF ci r]
  have "inside (phase_of c t) \<Longrightarrow> inside (phase_of c u) \<Longrightarrow> t = u" for t u
    by (simp add: lock_okD)
  moreover have "stream_inv (object c, \<lambda>t. local_of (phase_of c t))" if "owner c = None"
    using call_invariant.reaches_free [OF ci r that] .
  ultimately show ?thesis by (auto simp: stream_inv_def)
qed

definition handover :: "thread list" where
  "handover = replicate 13 Writer @ [Monitor] @ replicate 13 Reader"

theorem locked_program_never_errs_witness:
  "\<exists>q c. queue_init_spin 1000000 True 0 0 7 = Inr q
    \<and> run_schedule (queue_program True least_free) handover (init_program q) = Some c
    \<and> expected (local_of (phase_of c Reader)) = 1 \<and> errors (local_of (phase_of c Reader)) = 0"
proof -
  obtain q where q: "queue_init_spin 1000000 True 0 0 7 = Inr q" "queue_rep q []"
    using queue_rep_init_locked(1) [of 1000000 7] by auto
  obtain c where c: "run_schedule (queue_program True least_free) handover (init_program q) = Some c"
    "expected (local_of (phase_of c Reader)) = 1"
    using q(1) by (auto simp: queue_init_spin_def handover_def init_program_def start_conf_def step_by_def
        queue_program_def add_statements_def get_statements_def call_regs_def writer_call_def
        reader_call_def writer_after_def reader_after_def init_locals_def least_free_0 least_free_1
        stmt_def eval_nat_numeral)
  from run_schedule_reaches [OF c(1) reaches_start]
  have "reaches (queue_program True least_free) (init_program q) c" .
  from locked_program_never_errs [OF q(2) fresh_least_free this] c q(1) show ?thesis by auto
qed

text \<open>
  Property C40. Linked with \<open>queue.c\<close>, which takes no lock, the same program has an interleaving in
  which the writer stores through a pointer to a node the reader has freed.
\<close>

theorem unlocked_program_use_after_free:
  "\<exists>q c l k r. queue_init 1000000 True 0 7 = Inr q
    \<and> reaches (queue_program False least_free) (init_program q) c
    \<and> phase_of c Writer = Inside l k r \<and> r_fault r = Some UseAfterFree"
proof -
  obtain q c l k r where "queue_init 1000000 True 0 7 = Inr q"
    "run_schedule (queue_program False least_free) race (init_program q) = Some c"
    "phase_of c Writer = Inside l k r" "r_fault r = Some UseAfterFree"
    by (simp add: queue_init_def race_def init_program_def start_conf_def step_by_def
        queue_program_def add_statements_def get_statements_def call_regs_def writer_call_def
        reader_call_def writer_after_def reader_after_def init_locals_def least_free_0 least_free_1
        stmt_def eval_nat_numeral)
  then show ?thesis by (blast intro: run_schedule_reaches reaches_start)
qed

end
