(* ===== verification/Queue_Blocking.thy ===== *)
theory Queue_Blocking
  imports Queue_Sync
begin

text \<open>
  Any number of threads that call the operations of \<open>2.2f.c\<close> (a mutex and two condition variables) and \<open>2.2g.c\<close> (a mutex and
  two semaphores) again and again, as the writer, reader and monitor threads of the test programs do.

  A step is one operation on a mutex, a condition variable or a semaphore, one test of the waiting loop, or the
  statements between them that use the queue, which every function executes with the mutex held. The kernel's
  side of a condition variable is the set of the threads asleep on it: \<open>pthread_cond_wait\<close> releases the mutex and puts
  the thread to sleep in one step, \<open>pthread_cond_signal\<close> wakes one sleeper, if there is one, and if \<open>spur\<close> says so a sleeper
  may also wake up spuriously.
\<close>

section \<open>Calls and threads\<close>

text \<open>What a call may have to wait for (free places and values), and what it provides.\<close>

datatype cv = NotFull | NotEmpty

datatype qcall = Add i32 | Get | Stats

fun takes :: "qcall \<Rightarrow> cv option" where
  "takes (Add v) = Some NotFull"
| "takes Get = Some NotEmpty"
| "takes Stats = None"

fun gives :: "qcall \<Rightarrow> cv option" where
  "gives (Add v) = Some NotEmpty"
| "gives Get = Some NotFull"
| "gives Stats = None"

text \<open>
  Where a thread is: outside of the library, at \<open>sem_wait\<close>, at \<open>pthread_mutex_lock\<close>, at the test of the waiting loop, at
  \<open>pthread_cond_wait\<close>, asleep in it, before the statements that use the queue, at \<open>pthread_cond_signal\<close>, at \<open>pthread_mutex_unlock\<close>,
  at \<open>sem_post\<close>.
\<close>

datatype bpc =
    BOut
  | BSem qcall
  | BLock qcall
  | BTest qcall
  | BWait qcall
  | BSleep qcall
  | BBody qcall
  | BSignal qcall
  | BUnlock qcall
  | BPost qcall

fun call_of :: "bpc \<Rightarrow> qcall option" where
  "call_of BOut = None"
| "call_of (BSem c) = Some c"
| "call_of (BLock c) = Some c"
| "call_of (BTest c) = Some c"
| "call_of (BWait c) = Some c"
| "call_of (BSleep c) = Some c"
| "call_of (BBody c) = Some c"
| "call_of _ = None"

fun in_cs :: "bpc \<Rightarrow> bool" where
  "in_cs (BTest c) = True"
| "in_cs (BWait c) = True"
| "in_cs (BBody c) = True"
| "in_cs (BSignal c) = True"
| "in_cs (BUnlock c) = True"
| "in_cs _ = False"

text \<open>A producer adds the values \<open>f 0\<close>, \<open>f 1\<close>, ...: \<open>writer\<close> adds \<open>0, 1, 2, ...\<close>\<close>

datatype qrole = Producer "nat \<Rightarrow> i32" | Consumer | Watcher

text \<open>
  \<open>turns\<close> is the local variable \<open>i\<close> of a writer; \<open>accepted\<close> and \<open>delivered\<close> are the values the calls have put into
  and taken out of the queue, with the calling thread, in the order in which they did; \<open>broken\<close> is a fault.
\<close>

record bstate =
  bqueue :: queue_t
  bpcs :: "nat \<Rightarrow> bpc"
  asleep :: "cv \<Rightarrow> nat set"
  turns :: "nat \<Rightarrow> nat"
  accepted :: "(nat \<times> i32) list"
  delivered :: "(nat \<times> i32) list"
  broken :: "fault option"

definition bstart :: "queue_t \<Rightarrow> bstate" where
  "bstart q = \<lparr>bqueue = q, bpcs = \<lambda>_. BOut, asleep = \<lambda>_. {}, turns = \<lambda>_. 0, accepted = [], delivered = [], broken = None\<rparr>"

definition next_call :: "(nat \<Rightarrow> qrole) \<Rightarrow> bstate \<Rightarrow> nat \<Rightarrow> qcall" where
  "next_call roles s t = (case roles t of Producer f \<Rightarrow> Add (f (turns s t)) | Consumer \<Rightarrow> Get | Watcher \<Rightarrow> Stats)"

definition goto :: "nat \<Rightarrow> bpc \<Rightarrow> bstate \<Rightarrow> bstate" where
  "goto t k s = s\<lparr>bpcs := (bpcs s)(t := k)\<rparr>"

definition set_mutex :: "bool \<Rightarrow> bstate \<Rightarrow> bstate" where
  "set_mutex b s = s\<lparr>bqueue := (bqueue s)\<lparr>mutex := b\<rparr>\<rparr>"

text \<open>The statements that use the queue, and what the caller has of them.\<close>

fun call_body :: "(qnode_t heap \<Rightarrow> ptr) \<Rightarrow> qcall \<Rightarrow> queue_t \<Rightarrow> (i32 option \<times> queue_t) res" where
  "call_body al (Add v) q = rbind (add_body q v (al (nodes q))) (\<lambda>q. Inr (None, q))"
| "call_body al Get q = rbind (get_body q) (\<lambda>(v, q). Inr (Some v, q))"
| "call_body al Stats q = Inr (None, q)"

fun log_call :: "nat \<Rightarrow> qcall \<Rightarrow> i32 option \<Rightarrow> bstate \<Rightarrow> bstate" where
  "log_call t (Add v) r s = s\<lparr>accepted := accepted s @ [(t, v)], turns := (turns s)(t := Suc (turns s t))\<rparr>"
| "log_call t Get r s = s\<lparr>delivered := delivered s @ [(t, the r)]\<rparr>"
| "log_call t Stats r s = s"

definition run_body :: "(qnode_t heap \<Rightarrow> ptr) \<Rightarrow> nat \<Rightarrow> qcall \<Rightarrow> bpc \<Rightarrow> bstate \<Rightarrow> bstate" where
  "run_body al t c k s = (case call_body al c (bqueue s) of Inl e \<Rightarrow> s\<lparr>broken := Some e\<rparr>
     | Inr (r, q) \<Rightarrow> goto t k (log_call t c r (s\<lparr>bqueue := q\<rparr>)))"

section \<open>Condition variables\<close>

fun must_wait :: "qcall \<Rightarrow> queue_t \<Rightarrow> bool" where
  "must_wait (Add v) q = (count q = max_count q)"
| "must_wait Get q = (count q = 0)"
| "must_wait Stats q = False"

definition sleep_on :: "nat \<Rightarrow> cv \<Rightarrow> bstate \<Rightarrow> bstate" where
  "sleep_on t x s = s\<lparr>asleep := (asleep s)(x := insert t (asleep s x))\<rparr>"

definition wake_up :: "nat \<Rightarrow> cv \<Rightarrow> bstate \<Rightarrow> bstate" where
  "wake_up u x s = s\<lparr>asleep := (asleep s)(x := asleep s x - {u})\<rparr>"

inductive cond_step :: "(qnode_t heap \<Rightarrow> ptr) \<Rightarrow> bool \<Rightarrow> (nat \<Rightarrow> qrole) \<Rightarrow> nat \<Rightarrow> bstate \<Rightarrow> bstate \<Rightarrow> bool"
  for al spur roles n where
  c_call: "t < n \<Longrightarrow> bpcs s t = BOut \<Longrightarrow> cond_step al spur roles n s (goto t (BLock (next_call roles s t)) s)"
| c_lock: "t < n \<Longrightarrow> bpcs s t = BLock c \<Longrightarrow> \<not> mutex (bqueue s) \<Longrightarrow>
    cond_step al spur roles n s (goto t (if takes c = None then BBody c else BTest c) (set_mutex True s))"
| c_test: "t < n \<Longrightarrow> bpcs s t = BTest c \<Longrightarrow>
    cond_step al spur roles n s (goto t (if must_wait c (bqueue s) then BWait c else BBody c) s)"
| c_wait: "t < n \<Longrightarrow> bpcs s t = BWait c \<Longrightarrow> takes c = Some x \<Longrightarrow>
    cond_step al spur roles n s (goto t (BSleep c) (sleep_on t x (set_mutex False s)))"
| c_woken: "t < n \<Longrightarrow> bpcs s t = BSleep c \<Longrightarrow> takes c = Some x \<Longrightarrow> t \<notin> asleep s x \<Longrightarrow>
    cond_step al spur roles n s (goto t (BLock c) s)"
| c_spurious: "t < n \<Longrightarrow> bpcs s t = BSleep c \<Longrightarrow> takes c = Some x \<Longrightarrow> spur \<Longrightarrow>
    cond_step al spur roles n s (goto t (BLock c) (wake_up t x s))"
| c_body: "t < n \<Longrightarrow> bpcs s t = BBody c \<Longrightarrow>
    cond_step al spur roles n s (run_body al t c (if gives c = None then BUnlock c else BSignal c) s)"
| c_signal_one: "t < n \<Longrightarrow> bpcs s t = BSignal c \<Longrightarrow> gives c = Some x \<Longrightarrow> u \<in> asleep s x \<Longrightarrow>
    cond_step al spur roles n s (goto t (BUnlock c) (wake_up u x s))"
| c_signal_none: "t < n \<Longrightarrow> bpcs s t = BSignal c \<Longrightarrow> gives c = Some x \<Longrightarrow> asleep s x = {} \<Longrightarrow>
    cond_step al spur roles n s (goto t (BUnlock c) s)"
| c_unlock: "t < n \<Longrightarrow> bpcs s t = BUnlock c \<Longrightarrow> cond_step al spur roles n s (goto t BOut (set_mutex False s))"

section \<open>Semaphores\<close>

primrec sem_of :: "cv \<Rightarrow> queue_t \<Rightarrow> nat" where
  "sem_of NotFull q = sem_empty q"
| "sem_of NotEmpty q = sem_full q"

primrec set_sem :: "cv \<Rightarrow> nat \<Rightarrow> bstate \<Rightarrow> bstate" where
  "set_sem NotFull v s = s\<lparr>bqueue := (bqueue s)\<lparr>sem_empty := v\<rparr>\<rparr>"
| "set_sem NotEmpty v s = s\<lparr>bqueue := (bqueue s)\<lparr>sem_full := v\<rparr>\<rparr>"

inductive sem_step :: "(qnode_t heap \<Rightarrow> ptr) \<Rightarrow> (nat \<Rightarrow> qrole) \<Rightarrow> nat \<Rightarrow> bstate \<Rightarrow> bstate \<Rightarrow> bool"
  for al roles n where
  s_call: "t < n \<Longrightarrow> bpcs s t = BOut \<Longrightarrow> c = next_call roles s t \<Longrightarrow>
    sem_step al roles n s (goto t (if takes c = None then BLock c else BSem c) s)"
| s_wait: "t < n \<Longrightarrow> bpcs s t = BSem c \<Longrightarrow> takes c = Some x \<Longrightarrow> 0 < sem_of x (bqueue s) \<Longrightarrow>
    sem_step al roles n s (goto t (BLock c) (set_sem x (sem_of x (bqueue s) - 1) s))"
| s_lock: "t < n \<Longrightarrow> bpcs s t = BLock c \<Longrightarrow> \<not> mutex (bqueue s) \<Longrightarrow>
    sem_step al roles n s (goto t (BBody c) (set_mutex True s))"
| s_body: "t < n \<Longrightarrow> bpcs s t = BBody c \<Longrightarrow> sem_step al roles n s (run_body al t c (BUnlock c) s)"
| s_unlock: "t < n \<Longrightarrow> bpcs s t = BUnlock c \<Longrightarrow>
    sem_step al roles n s (goto t (if gives c = None then BOut else BPost c) (set_mutex False s))"
| s_post: "t < n \<Longrightarrow> bpcs s t = BPost c \<Longrightarrow> gives c = Some x \<Longrightarrow>
    sem_step al roles n s (goto t BOut (set_sem x (sem_of x (bqueue s) + 1) s))"

inductive_cases cond_stepE: "cond_step al spur roles n s s'"
inductive_cases sem_stepE: "sem_step al roles n s s'"

end
