(* ===== verification/Queue_Blocking_Laws.thy ===== *)
theory Queue_Blocking_Laws
  imports Queue_Blocking
begin

text \<open>
  What the blocking queues promise in every interleaving. The locale \<open>blocking_queue\<close> is the contract that both
  protocols satisfy, with what its clients conclude from it; the invariants that show it count the threads that are
  on their way to use a free place or a value.
\<close>

section \<open>What both protocols keep\<close>

definition values_of :: "nat \<Rightarrow> (nat \<times> i32) list \<Rightarrow> i32 list" where
  "values_of t xs = map snd (filter (\<lambda>x. fst x = t) xs)"

lemma values_of_simps [simp]:
  "values_of t [] = []"
  "values_of t (xs @ ys) = values_of t xs @ values_of t ys"
  "values_of t [(u, v)] = (if u = t then [v] else [])"
  by (simp_all add: values_of_def)

lemma values_of_all: "(\<And>x. x \<in> set xs \<Longrightarrow> fst x = t) \<Longrightarrow> values_of t xs = map snd xs"
  by (simp add: values_of_def)

definition data_ok :: "(nat \<Rightarrow> qrole) \<Rightarrow> int \<Rightarrow> bstate \<Rightarrow> bool" where
  "data_ok roles mx s \<longleftrightarrow> broken s = None \<and> tail_ok (bqueue s) \<and> max_count (bqueue s) = mx
     \<and> (\<exists>vs. queue_rep (bqueue s) vs \<and> map snd (accepted s) = map snd (delivered s) @ vs)
     \<and> (\<forall>t f. roles t = Producer f \<longrightarrow> values_of t (accepted s) = map f [0..<turns s t])
     \<and> (\<forall>x \<in> set (accepted s). \<exists>f. roles (fst x) = Producer f)"

definition locks_ok :: "bstate \<Rightarrow> bool" where
  "locks_ok s \<longleftrightarrow> (mutex (bqueue s) \<longleftrightarrow> (\<exists>t. in_cs (bpcs s t)))
     \<and> (\<forall>t u. in_cs (bpcs s t) \<longrightarrow> in_cs (bpcs s u) \<longrightarrow> t = u)"

definition calls_ok :: "(nat \<Rightarrow> qrole) \<Rightarrow> nat \<Rightarrow> bstate \<Rightarrow> bool" where
  "calls_ok roles n s \<longleftrightarrow> (\<forall>t \<ge> n. bpcs s t = BOut)
     \<and> (\<forall>t c. call_of (bpcs s t) = Some c \<longrightarrow> c = next_call roles s t)"

definition base_inv :: "nat \<Rightarrow> (nat \<Rightarrow> qrole) \<Rightarrow> int \<Rightarrow> bstate \<Rightarrow> bool" where
  "base_inv n roles mx s \<longleftrightarrow> data_ok roles mx s \<and> locks_ok s \<and> calls_ok roles n s"

fun room :: "cv \<Rightarrow> queue_t \<Rightarrow> nat" where
  "room NotFull q = nat (max_count q - count q)"
| "room NotEmpty q = nat (count q)"

text \<open>A thread inside of the library that can do its next step.\<close>

definition moves :: "(bstate \<Rightarrow> bstate \<Rightarrow> bool) \<Rightarrow> bstate \<Rightarrow> nat \<Rightarrow> bool" where
  "moves step s t \<longleftrightarrow> bpcs s t \<noteq> BOut \<and> (\<exists>s'. step s s' \<and> bpcs s' t \<noteq> bpcs s t)"

lemma goto_fields [simp]:
  "bpcs (goto t k s) = (bpcs s)(t := k)" "bqueue (goto t k s) = bqueue s" "asleep (goto t k s) = asleep s"
  "turns (goto t k s) = turns s" "accepted (goto t k s) = accepted s" "delivered (goto t k s) = delivered s"
  "broken (goto t k s) = broken s"
  by (simp_all add: goto_def)

lemma set_mutex_fields [simp]:
  "bpcs (set_mutex b s) = bpcs s" "mutex (bqueue (set_mutex b s)) = b" "asleep (set_mutex b s) = asleep s"
  "turns (set_mutex b s) = turns s" "room x (bqueue (set_mutex b s)) = room x (bqueue s)"
  "sem_of x (bqueue (set_mutex b s)) = sem_of x (bqueue s)"
  by (cases x; simp add: set_mutex_def)+

lemma set_sem_fields [simp]:
  "bpcs (set_sem x v s) = bpcs s" "mutex (bqueue (set_sem x v s)) = mutex (bqueue s)"
  "turns (set_sem x v s) = turns s" "room y (bqueue (set_sem x v s)) = room y (bqueue s)"
  "sem_of y (bqueue (set_sem x v s)) = (if x = y then v else sem_of y (bqueue s))"
  by (cases x; cases y; simp)+

lemma next_call_cong: "turns s' = turns s \<Longrightarrow> next_call roles s' = next_call roles s"
  by (rule ext) (simp add: next_call_def split: qrole.split)

lemma data_ok_fields [simp]:
  "data_ok roles mx (goto t k s) = data_ok roles mx s"
  "data_ok roles mx (set_mutex b s) = data_ok roles mx s"
  "data_ok roles mx (s\<lparr>asleep := A\<rparr>) = data_ok roles mx s"
  "data_ok roles mx (set_sem x v s) = data_ok roles mx s"
  by (cases x; simp add: data_ok_def goto_def set_mutex_def)+

lemma base_inv_room:
  assumes "base_inv n roles mx s"
  shows "count (bqueue s) = max_count (bqueue s) \<longleftrightarrow> room NotFull (bqueue s) = 0"
    "count (bqueue s) = 0 \<longleftrightarrow> room NotEmpty (bqueue s) = 0"
    "int (room NotFull (bqueue s) + room NotEmpty (bqueue s)) = mx"
proof -
  from assms obtain vs where "queue_rep (bqueue s) vs" "max_count (bqueue s) = mx"
    by (auto simp: base_inv_def data_ok_def)
  with queue_rep_length [OF this(1)] show
    "count (bqueue s) = max_count (bqueue s) \<longleftrightarrow> room NotFull (bqueue s) = 0"
    "count (bqueue s) = 0 \<longleftrightarrow> room NotEmpty (bqueue s) = 0"
    "int (room NotFull (bqueue s) + room NotEmpty (bqueue s)) = mx" by auto
qed

lemma base_call:
  assumes "base_inv n roles mx s" "call_of (bpcs s t) = Some c"
  shows "next_call roles s t = c"
  using assms by (simp add: base_inv_def calls_ok_def)

text \<open>Steps that leave the mutex alone, take it, and release it.\<close>

lemma base_goto:
  assumes "base_inv n roles mx s" "t < n" "in_cs k = in_cs (bpcs s t)" "\<And>c. call_of k = Some c \<Longrightarrow> c = next_call roles s t"
  shows "base_inv n roles mx (goto t k s)"
proof -
  have "in_cs (((bpcs s)(t := k)) u) = in_cs (bpcs s u)" for u using assms(3) by simp
  then have "locks_ok (goto t k s)" using assms(1) by (simp add: base_inv_def locks_ok_def)
  with assms show ?thesis
    by (auto simp: base_inv_def calls_ok_def next_call_cong [of "goto t k s" s])
qed

lemma base_acquire:
  assumes "base_inv n roles mx s" "t < n" "\<not> mutex (bqueue s)" "in_cs k" "\<And>c. call_of k = Some c \<Longrightarrow> c = next_call roles s t"
  shows "base_inv n roles mx (goto t k (set_mutex True s))"
proof -
  from assms(1,3) have "\<not> in_cs (bpcs s u)" for u by (auto simp: base_inv_def locks_ok_def)
  with assms(4) have "locks_ok (goto t k (set_mutex True s))" by (auto simp: locks_ok_def)
  with assms show ?thesis
    by (auto simp: base_inv_def calls_ok_def next_call_cong [of "goto t k (set_mutex True s)" s])
qed

lemma base_release:
  assumes "base_inv n roles mx s" "t < n" "in_cs (bpcs s t)" "\<not> in_cs k" "\<And>c. call_of k = Some c \<Longrightarrow> c = next_call roles s t"
  shows "base_inv n roles mx (goto t k (set_mutex False s))"
proof -
  from assms(1,3) have "in_cs (bpcs s u) \<Longrightarrow> u = t" for u by (auto simp: base_inv_def locks_ok_def)
  with assms(4) have "locks_ok (goto t k (set_mutex False s))" by (auto simp: locks_ok_def)
  with assms show ?thesis
    by (auto simp: base_inv_def calls_ok_def next_call_cong [of "goto t k (set_mutex False s)" s])
qed

lemma base_asleep [simp]: "base_inv n roles mx (s\<lparr>asleep := A\<rparr>) = base_inv n roles mx s"
  by (simp add: base_inv_def locks_ok_def calls_ok_def next_call_cong [of "s\<lparr>asleep := A\<rparr>" s])

lemma base_sem [simp]: "base_inv n roles mx (set_sem x v s) = base_inv n roles mx s"
  by (simp add: base_inv_def locks_ok_def calls_ok_def next_call_cong [of "set_sem x v s" s])

text \<open>The statements that use the queue, when there is what the call needs.\<close>

lemma data_body:
  assumes d: "data_ok roles mx s" and c: "c = next_call roles s t"
    and room: "\<And>x. takes c = Some x \<Longrightarrow> 0 < room x (bqueue s)"
    and al: "\<And>h. finite (dom h) \<Longrightarrow> fresh h (al h)"
  shows "\<exists>r q. call_body al c (bqueue s) = Inr (r, q) \<and> data_ok roles mx (log_call t c r (s\<lparr>bqueue := q\<rparr>))
    \<and> (\<forall>x. room x q + (if takes c = Some x then 1 else 0) = room x (bqueue s) + (if gives c = Some x then 1 else 0))
    \<and> (\<forall>x. sem_of x q = sem_of x (bqueue s)) \<and> mutex q = mutex (bqueue s)"
proof -
  from d obtain vs where vs: "queue_rep (bqueue s) vs" "map snd (accepted s) = map snd (delivered s) @ vs"
    and ok: "broken s = None" "max_count (bqueue s) = mx" "tail_ok (bqueue s)"
      "\<And>t f. roles t = Producer f \<Longrightarrow> values_of t (accepted s) = map f [0..<turns s t]"
      "\<And>x. x \<in> set (accepted s) \<Longrightarrow> \<exists>f. roles (fst x) = Producer f"
    by (auto simp: data_ok_def)
  note cnt = queue_rep_length [OF vs(1)]
  show ?thesis
  proof (cases c)
    case (Add v)
    with c obtain f where f: "roles t = Producer f" "v = f (turns s t)"
      by (auto simp: next_call_def split: qrole.splits)
    from room [of NotFull] Add cnt have "count (bqueue s) \<noteq> max_count (bqueue s)" by simp
    with add_body_rep [OF vs(1) this al, of v] queue_rep_finite [OF vs(1)] obtain q where
      q: "add_body (bqueue s) v (al (nodes (bqueue s))) = Inr q" "queue_rep q (vs @ [v])" "max_count q = max_count (bqueue s)"
      by auto
    have sems: "sem_of x q = sem_of x (bqueue s)" for x by (cases x) (simp_all add: add_body_keeps [OF q(1)])
    have rooms: "room x q + (if takes c = Some x then 1 else 0) = room x (bqueue s) + (if gives c = Some x then 1 else 0)" for x
      using Add cnt queue_rep_length [OF q(2)] q(3) room [of NotFull] by (cases x) auto
    have "data_ok roles mx (log_call t c None (s\<lparr>bqueue := q\<rparr>))"
      using Add f q(2,3) vs(2) ok add_body_tail_ok [OF q(1)] by (auto simp: data_ok_def intro!: exI [of _ "vs @ [v]"])
    with Add q(1) sems rooms add_body_keeps [OF q(1)] show ?thesis by simp
  next
    case Get
    with room [of NotEmpty] cnt obtain w ws where ws: "vs = w # ws" by (cases vs) auto
    with get_body_rep [of "bqueue s" w ws] vs(1) obtain q where
      q: "get_body (bqueue s) = Inr (w, q)" "queue_rep q ws" "max_count q = max_count (bqueue s)" "tail_ok q" by auto
    have sems: "sem_of x q = sem_of x (bqueue s)" for x by (cases x) (simp_all add: get_body_keeps [OF q(1)])
    have rooms: "room x q + (if takes c = Some x then 1 else 0) = room x (bqueue s) + (if gives c = Some x then 1 else 0)" for x
      using Get cnt queue_rep_length [OF q(2)] q(3) ws by (cases x) auto
    have "data_ok roles mx (log_call t c (Some w) (s\<lparr>bqueue := q\<rparr>))"
      using Get q(2-4) vs(2) ws ok by (auto simp: data_ok_def)
    with Get q(1) sems rooms get_body_keeps [OF q(1)] show ?thesis by simp
  next
    case Stats
    with d show ?thesis by (simp add: data_ok_def)
  qed
qed

lemma log_call_fields [simp]:
  "bpcs (log_call t c r s) = bpcs s" "bqueue (log_call t c r s) = bqueue s" "asleep (log_call t c r s) = asleep s"
  "u \<noteq> t \<Longrightarrow> turns (log_call t c r s) u = turns s u"
  by (cases c; simp)+

lemma base_body:
  assumes b: "base_inv n roles mx s" and t: "t < n" "bpcs s t = BBody c" and k: "in_cs k" "call_of k = None"
    and room: "\<And>x. takes c = Some x \<Longrightarrow> 0 < room x (bqueue s)"
    and al: "\<And>h. finite (dom h) \<Longrightarrow> fresh h (al h)"
  shows "base_inv n roles mx (run_body al t c k s)" "bpcs (run_body al t c k s) = (bpcs s)(t := k)"
    "asleep (run_body al t c k s) = asleep s"
    "room x (bqueue (run_body al t c k s)) + (if takes c = Some x then 1 else 0) = room x (bqueue s) + (if gives c = Some x then 1 else 0)"
    "sem_of x (bqueue (run_body al t c k s)) = sem_of x (bqueue s)"
proof -
  from base_call [OF b, of t c] t(2) have c: "c = next_call roles s t" by simp
  from b have d: "data_ok roles mx s" by (simp add: base_inv_def)
  from data_body [OF d c room al] obtain r q where q: "call_body al c (bqueue s) = Inr (r, q)"
    "data_ok roles mx (log_call t c r (s\<lparr>bqueue := q\<rparr>))" "mutex q = mutex (bqueue s)"
    "\<And>x. room x q + (if takes c = Some x then 1 else 0) = room x (bqueue s) + (if gives c = Some x then 1 else 0)"
    "\<And>x. sem_of x q = sem_of x (bqueue s)" by blast
  let ?s = "run_body al t c k s"
  from q(1) have eq: "?s = goto t k (log_call t c r (s\<lparr>bqueue := q\<rparr>))" by (simp add: run_body_def)
  have "in_cs (((bpcs s)(t := k)) u) = in_cs (bpcs s u)" for u using k(1) t(2) by simp
  with b q(3) eq have "locks_ok ?s" by (simp add: base_inv_def locks_ok_def)
  moreover have "next_call roles ?s u = next_call roles s u" if "u \<noteq> t" for u
    using that eq by (simp add: next_call_def split: qrole.split)
  with b t k(2) eq have "calls_ok roles n ?s" by (auto simp: base_inv_def calls_ok_def)
  ultimately show "base_inv n roles mx ?s" using q(2) eq by (simp add: base_inv_def)
  from eq q(4,5) show "bpcs ?s = (bpcs s)(t := k)" "asleep ?s = asleep s" "sem_of x (bqueue ?s) = sem_of x (bqueue s)"
    "room x (bqueue ?s) + (if takes c = Some x then 1 else 0) = room x (bqueue s) + (if gives c = Some x then 1 else 0)"
    by simp_all
qed

section \<open>The contract\<close>

text \<open>
  Both protocols keep an invariant that gives \<open>base_inv\<close>; and when no thread inside of the library can move, every
  call in progress waits for something the queue does not have.
\<close>

locale blocking_queue =
  fixes step :: "bstate \<Rightarrow> bstate \<Rightarrow> bool"
    and inv :: "bstate \<Rightarrow> bool"
    and n :: nat
    and roles :: "nat \<Rightarrow> qrole"
    and mx :: int
  assumes inv_step: "inv s \<Longrightarrow> step s s' \<Longrightarrow> inv s'"
    and inv_base: "inv s \<Longrightarrow> base_inv n roles mx s"
    and inv_stuck: "inv s \<Longrightarrow> (\<And>u. \<not> moves step s u) \<Longrightarrow> bpcs s t \<noteq> BOut \<Longrightarrow>
      \<exists>x. takes (next_call roles s t) = Some x \<and> room x (bqueue s) = 0"
begin

lemma inv_reach: "step\<^sup>*\<^sup>* s0 s \<Longrightarrow> inv s0 \<Longrightarrow> inv s"
  by (induction rule: rtranclp_induct) (auto intro: inv_step)

text \<open>What is asleep or waiting when nothing moves: only writers of a full queue, or only readers of an empty one.\<close>

lemma stuck_calls:
  assumes "inv s" "0 < mx" "\<And>u. \<not> moves step s u"
  shows "(\<forall>t. bpcs s t \<noteq> BOut \<longrightarrow> (\<exists>f. roles t = Producer f) \<and> count (bqueue s) = mx)
    \<or> (\<forall>t. bpcs s t \<noteq> BOut \<longrightarrow> roles t = Consumer \<and> count (bqueue s) = 0)"
proof -
  note b = inv_base [OF assms(1)]
  have mx: "max_count (bqueue s) = mx" using b by (simp add: base_inv_def data_ok_def)
  have P: "(\<exists>f. roles t = Producer f) \<and> room NotFull (bqueue s) = 0 \<or> roles t = Consumer \<and> room NotEmpty (bqueue s) = 0"
    if t: "bpcs s t \<noteq> BOut" for t
    using inv_stuck [OF assms(1,3) t] by (cases "roles t") (auto simp: next_call_def)
  show ?thesis
  proof (cases "room NotFull (bqueue s) = 0")
    case True
    with base_inv_room(3) [OF b] assms(2) have "room NotEmpty (bqueue s) \<noteq> 0" by (simp del: room.simps)
    with P True base_inv_room(1) [OF b] mx show ?thesis by metis
  next
    case False
    with P base_inv_room(2) [OF b] show ?thesis by metis
  qed
qed

lemma correct:
  assumes "step\<^sup>*\<^sup>* s0 s" "inv s0" "0 < mx"
  shows "broken s = None
    \<and> (\<forall>t u. in_cs (bpcs s t) \<and> in_cs (bpcs s u) \<longrightarrow> t = u)
    \<and> (\<exists>vs. queue_rep (bqueue s) vs \<and> int (length vs) \<le> mx \<and> map snd (accepted s) = map snd (delivered s) @ vs)
    \<and> (\<forall>t f. roles t = Producer f \<longrightarrow> values_of t (accepted s) = map f [0..<turns s t])
    \<and> ((\<exists>t. moves step s t)
       \<or> (\<forall>t. bpcs s t \<noteq> BOut \<longrightarrow> (\<exists>f. roles t = Producer f) \<and> count (bqueue s) = mx)
       \<or> (\<forall>t. bpcs s t \<noteq> BOut \<longrightarrow> roles t = Consumer \<and> count (bqueue s) = 0))"
proof -
  from inv_reach [OF assms(1,2)] have i: "inv s" .
  from inv_base [OF this] have "data_ok roles mx s" "locks_ok s" by (simp_all add: base_inv_def)
  moreover from this obtain vs where "queue_rep (bqueue s) vs" "map snd (accepted s) = map snd (delivered s) @ vs"
    "max_count (bqueue s) = mx" by (auto simp: data_ok_def)
  moreover from queue_rep_length [OF this(1)] this(3) have "int (length vs) \<le> mx" by simp
  moreover note stuck_calls [OF i assms(3)]
  ultimately show ?thesis unfolding data_ok_def locks_ok_def by blast
qed

text \<open>One writer: the readers get its values in order, none twice, none missing.\<close>

lemma single_writer:
  assumes "step\<^sup>*\<^sup>* s0 s" "inv s0" "roles w = Producer f" "\<And>u g. roles u = Producer g \<Longrightarrow> u = w"
  shows "map snd (delivered s) = map f [0..<length (delivered s)]"
proof -
  from inv_base [OF inv_reach [OF assms(1,2)]] have d: "data_ok roles mx s" by (simp add: base_inv_def)
  then obtain vs where vs: "map snd (accepted s) = map snd (delivered s) @ vs" by (auto simp: data_ok_def)
  from d assms(4) have "fst x = w" if "x \<in> set (accepted s)" for x using that by (force simp: data_ok_def)
  then have "values_of w (accepted s) = map snd (accepted s)" by (rule values_of_all)
  with d assms(3) vs have eq: "map snd (delivered s) @ vs = map f [0..<turns s w]" by (simp add: data_ok_def)
  then have "length (delivered s) + length vs = turns s w" by (metis length_append length_map length_upt diff_zero)
  then have le: "length (delivered s) \<le> turns s w" by simp
  from eq have "map snd (delivered s) = take (length (delivered s)) (map f [0..<turns s w])"
    by (metis append_eq_conv_conj length_map)
  with le show ?thesis by (simp add: take_map)
qed

end

section \<open>Condition variables\<close>

text \<open>\<open>on_way\<close>: threads that will use a free place (a value), or wake a thread that will.\<close>

fun on_way :: "(cv \<Rightarrow> nat set) \<Rightarrow> nat \<Rightarrow> bpc \<Rightarrow> cv \<Rightarrow> bool" where
  "on_way A t (BLock c) x = (takes c = Some x)"
| "on_way A t (BTest c) x = (takes c = Some x)"
| "on_way A t (BBody c) x = (takes c = Some x)"
| "on_way A t (BSleep c) x = (takes c = Some x \<and> t \<notin> A x)"
| "on_way A t (BSignal c) x = (gives c = Some x)"
| "on_way A t _ x = False"

definition way :: "nat \<Rightarrow> bstate \<Rightarrow> cv \<Rightarrow> nat set" where
  "way n s x = {t. t < n \<and> on_way (asleep s) t (bpcs s t) x}"

fun cond_pc :: "queue_t \<Rightarrow> bpc \<Rightarrow> bool" where
  "cond_pc q (BSem c) = False"
| "cond_pc q (BPost c) = False"
| "cond_pc q (BTest c) = (takes c \<noteq> None)"
| "cond_pc q (BSleep c) = (takes c \<noteq> None)"
| "cond_pc q (BSignal c) = (gives c \<noteq> None)"
| "cond_pc q (BWait c) = (\<exists>x. takes c = Some x \<and> room x q = 0)"
| "cond_pc q (BBody c) = (\<forall>x. takes c = Some x \<longrightarrow> 0 < room x q)"
| "cond_pc q _ = True"

definition sleeps_ok :: "nat \<Rightarrow> bstate \<Rightarrow> bool" where
  "sleeps_ok n s \<longleftrightarrow> (\<forall>x. \<forall>t \<in> asleep s x. t < n \<and> (\<exists>c. bpcs s t = BSleep c \<and> takes c = Some x))"

definition cond_inv :: "nat \<Rightarrow> (nat \<Rightarrow> qrole) \<Rightarrow> int \<Rightarrow> bstate \<Rightarrow> bool" where
  "cond_inv n roles mx s \<longleftrightarrow> base_inv n roles mx s \<and> sleeps_ok n s \<and> (\<forall>t. cond_pc (bqueue s) (bpcs s t))
     \<and> (\<forall>x. asleep s x \<noteq> {} \<longrightarrow> room x (bqueue s) \<le> card (way n s x))"

lemma finite_way [simp]: "finite (way n s x)"
  by (simp add: way_def)

lemma on_way_other [simp]: "y \<noteq> x \<Longrightarrow> on_way (A(x := B)) t k y = on_way A t k y"
  by (cases k) auto

lemma on_way_awake: "on_way A t k x \<Longrightarrow> on_way (A(x := A x - {u})) t k x"
  by (cases k) auto

lemma cond_pc_out: "\<not> in_cs k \<Longrightarrow> cond_pc q k = cond_pc q' k"
  by (cases k) auto

lemma cond_pc_room: "(\<And>x. room x q' = room x q) \<Longrightarrow> cond_pc q' k = cond_pc q k"
  by (cases k) auto

lemma takes_gives: "takes c = Some x \<Longrightarrow> gives c \<noteq> Some x"
  by (cases c) auto

lemma must_wait_room:
  "base_inv n roles mx s \<Longrightarrow> takes c = Some x \<Longrightarrow> must_wait c (bqueue s) \<longleftrightarrow> room x (bqueue s) = 0"
  using base_inv_room [of n roles mx s] by (cases c) auto

lemma cond_invI:
  assumes i: "cond_inv n roles mx s" and b: "base_inv n roles mx s'" and pc: "bpcs s' = (bpcs s)(t := k)"
    and k: "cond_pc (bqueue s') k" and r: "\<And>x. room x (bqueue s') = room x (bqueue s)" and sl: "sleeps_ok n s'"
    and w: "\<And>x. asleep s' x \<noteq> {} \<Longrightarrow> room x (bqueue s) = 0 \<or> (asleep s x \<noteq> {} \<and> card (way n s x) \<le> card (way n s' x))"
  shows "cond_inv n roles mx s'"
proof -
  from i have "cond_pc (bqueue s) (bpcs s u)" for u by (simp add: cond_inv_def)
  then have "cond_pc (bqueue s') (bpcs s' u)" for u using k pc cond_pc_room [OF r] by simp
  moreover have "room x (bqueue s') \<le> card (way n s' x)" if "asleep s' x \<noteq> {}" for x
    using w [OF that] r [of x] i unfolding cond_inv_def by (metis le0 le_trans)
  ultimately show ?thesis using b sl by (simp add: cond_inv_def)
qed

text \<open>Most steps move one thread and leave the sleepers as they are.\<close>

lemma cond_inv_goto:
  assumes i: "cond_inv n roles mx s" and b: "base_inv n roles mx (goto t k s')" and s': "bpcs s' = bpcs s" "asleep s' = asleep s"
    and k: "cond_pc (bqueue s) k" and r: "\<And>x. room x (bqueue s') = room x (bqueue s)"
    and t: "\<And>x. t \<notin> asleep s x"
    and w: "\<And>x. on_way (asleep s) t (bpcs s t) x \<Longrightarrow> on_way (asleep s) t k x \<or> room x (bqueue s) = 0 \<or> asleep s x = {}"
  shows "cond_inv n roles mx (goto t k s')"
proof (rule cond_invI [OF i b])
  show "bpcs (goto t k s') = (bpcs s)(t := k)" by (simp add: s')
  show "cond_pc (bqueue (goto t k s')) k" using k cond_pc_room [OF r] by simp
  show "room x (bqueue (goto t k s')) = room x (bqueue s)" for x by (simp add: r)
  from i have "sleeps_ok n s" by (simp add: cond_inv_def)
  with t show "sleeps_ok n (goto t k s')" by (force simp: sleeps_ok_def s')
  fix x
  assume a: "asleep (goto t k s') x \<noteq> {}"
  show "room x (bqueue s) = 0 \<or> (asleep s x \<noteq> {} \<and> card (way n s x) \<le> card (way n (goto t k s') x))"
  proof (cases "room x (bqueue s) = 0")
    case False
    with a w [of x] have "way n s x \<subseteq> way n (goto t k s') x" by (auto simp: way_def s')
    then have "card (way n s x) \<le> card (way n (goto t k s') x)" by (rule card_mono [OF finite_way])
    with a s' show ?thesis by simp
  qed simp
qed

lemma not_asleep:
  assumes "cond_inv n roles mx s" "\<And>c. bpcs s t \<noteq> BSleep c"
  shows "t \<notin> asleep s x"
  using assms unfolding cond_inv_def sleeps_ok_def by blast

lemma cond_inv_wait:
  assumes i: "cond_inv n roles mx s" and t: "t < n" "bpcs s t = BWait c" and x: "takes c = Some x"
  shows "cond_inv n roles mx (goto t (BSleep c) (sleep_on t x (set_mutex False s)))"
proof (rule cond_invI [OF i])
  from i have b: "base_inv n roles mx s" and p: "cond_pc (bqueue s) (bpcs s t)" and sl: "sleeps_ok n s"
    by (simp_all add: cond_inv_def)
  let ?s = "goto t (BSleep c) (sleep_on t x (set_mutex False s))"
  have "base_inv n roles mx (goto t (BSleep c) (set_mutex False s))"
    by (rule base_release [OF b t(1)]) (simp_all add: t(2) base_call [OF b, of t])
  moreover have "?s = (goto t (BSleep c) (set_mutex False s))\<lparr>asleep := (asleep s)(x := insert t (asleep s x))\<rparr>"
    by (simp add: sleep_on_def goto_def)
  ultimately show "base_inv n roles mx ?s" by (simp only: base_asleep)
  show "bpcs ?s = (bpcs s)(t := BSleep c)" "cond_pc (bqueue ?s) (BSleep c)" using x by (simp_all add: sleep_on_def)
  show "room y (bqueue ?s) = room y (bqueue s)" for y by (simp add: sleep_on_def)
  from sl t x show "sleeps_ok n ?s" by (fastforce simp: sleeps_ok_def sleep_on_def)
  fix y
  assume a: "asleep ?s y \<noteq> {}"
  from p t(2) x have r0: "room x (bqueue s) = 0" by simp
  have "way n ?s y = way n s y" if "y \<noteq> x" using that t x not_asleep [OF i, of t] by (auto simp: way_def sleep_on_def)
  then show "room y (bqueue s) = 0 \<or> (asleep s y \<noteq> {} \<and> card (way n s y) \<le> card (way n ?s y))"
    using a r0 by (cases "y = x") (simp_all add: sleep_on_def)
qed

text \<open>Thread \<open>u\<close> is woken, by itself or by the signal of \<open>t\<close>.\<close>

lemma sleeps_ok_wake:
  assumes "sleeps_ok n s" "bpcs s t = BSleep c \<Longrightarrow> t = u" "takes c = Some x \<or> (\<forall>d. bpcs s t \<noteq> BSleep d)" "bpcs s t = BSleep c \<or> (\<forall>d. bpcs s t \<noteq> BSleep d)"
  shows "sleeps_ok n (goto t k (wake_up u x s))"
  using assms by (fastforce simp: sleeps_ok_def wake_up_def)

lemma base_wake_up [simp]: "base_inv n roles mx (goto t k (wake_up u x s)) = base_inv n roles mx (goto t k s)"
proof -
  have "goto t k (wake_up u x s) = (goto t k s)\<lparr>asleep := (asleep s)(x := asleep s x - {u})\<rparr>"
    by (simp add: goto_def wake_up_def)
  then show ?thesis by (simp only: base_asleep)
qed

lemma cond_inv_spurious:
  assumes i: "cond_inv n roles mx s" and t: "t < n" "bpcs s t = BSleep c" and x: "takes c = Some x"
  shows "cond_inv n roles mx (goto t (BLock c) (wake_up t x s))"
proof (rule cond_invI [OF i])
  from i have b: "base_inv n roles mx s" and sl: "sleeps_ok n s" by (simp_all add: cond_inv_def)
  let ?s = "goto t (BLock c) (wake_up t x s)"
  have "base_inv n roles mx (goto t (BLock c) s)"
    by (rule base_goto [OF b t(1)]) (simp_all add: t(2) base_call [OF b, of t])
  then show "base_inv n roles mx ?s" by simp
  show "bpcs ?s = (bpcs s)(t := BLock c)" "cond_pc (bqueue ?s) (BLock c)" by (simp_all add: wake_up_def)
  show "room y (bqueue ?s) = room y (bqueue s)" for y by (simp add: wake_up_def)
  show "sleeps_ok n ?s" using sl t x by (intro sleeps_ok_wake) auto
  fix y
  assume a: "asleep ?s y \<noteq> {}"
  have "way n s y \<subseteq> way n ?s y"
    using t x by (cases "y = x") (auto simp: way_def wake_up_def intro: on_way_awake)
  then have "card (way n s y) \<le> card (way n ?s y)" by (rule card_mono [OF finite_way])
  moreover from a have "asleep s y \<noteq> {}" by (auto simp: wake_up_def split: if_splits)
  ultimately show "room y (bqueue s) = 0 \<or> (asleep s y \<noteq> {} \<and> card (way n s y) \<le> card (way n ?s y))" by simp
qed

lemma cond_inv_signal:
  assumes i: "cond_inv n roles mx s" and t: "t < n" "bpcs s t = BSignal c" and x: "gives c = Some x" and u: "u \<in> asleep s x"
  shows "cond_inv n roles mx (goto t (BUnlock c) (wake_up u x s))"
proof (rule cond_invI [OF i])
  from i have b: "base_inv n roles mx s" and sl: "sleeps_ok n s" by (simp_all add: cond_inv_def)
  let ?s = "goto t (BUnlock c) (wake_up u x s)"
  have "base_inv n roles mx (goto t (BUnlock c) s)" by (rule base_goto [OF b t(1)]) (simp_all add: t(2))
  then show "base_inv n roles mx ?s" by simp
  show "bpcs ?s = (bpcs s)(t := BUnlock c)" "cond_pc (bqueue ?s) (BUnlock c)" by (simp_all add: wake_up_def)
  show "room y (bqueue ?s) = room y (bqueue s)" for y by (simp add: wake_up_def)
  show "sleeps_ok n ?s" using sl t by (intro sleeps_ok_wake) auto
  from sl u obtain d where d: "u < n" "bpcs s u = BSleep d" "takes d = Some x" by (auto simp: sleeps_ok_def)
  with t have ut: "u \<noteq> t" by auto
  have tw: "t \<in> way n s x" "u \<notin> way n s x" using t x d u by (auto simp: way_def)
  have "insert u (way n s x - {t}) \<subseteq> way n ?s x"
    using t x d u ut by (auto simp: way_def wake_up_def intro: on_way_awake)
  from card_mono [OF finite_way this] tw have wx: "card (way n s x) \<le> card (way n ?s x)"
    by (simp add: card_Suc_Diff1)
  fix y
  assume a: "asleep ?s y \<noteq> {}"
  have "way n s y = way n ?s y" if "y \<noteq> x" using that t x by (auto simp: way_def wake_up_def)
  with wx have "card (way n s y) \<le> card (way n ?s y)" by (cases "y = x") auto
  moreover from a have "asleep s y \<noteq> {}" by (auto simp: wake_up_def split: if_splits)
  ultimately show "room y (bqueue s) = 0 \<or> (asleep s y \<noteq> {} \<and> card (way n s y) \<le> card (way n ?s y))" by simp
qed

lemma cond_inv_body:
  assumes i: "cond_inv n roles mx s" and t: "t < n" "bpcs s t = BBody c"
    and al: "\<And>h. finite (dom h) \<Longrightarrow> fresh h (al h)"
  shows "cond_inv n roles mx (run_body al t c (if gives c = None then BUnlock c else BSignal c) s)"
proof -
  define k where "k = (if gives c = None then BUnlock c else BSignal c)"
  have k: "in_cs k" "call_of k = None" "\<And>q. cond_pc q k" "\<And>A y. on_way A t k y \<longleftrightarrow> gives c = Some y" by (auto simp: k_def)
  from i have b: "base_inv n roles mx s" and sl: "sleeps_ok n s" and pcs: "\<And>u. cond_pc (bqueue s) (bpcs s u)"
    and w: "\<And>x. asleep s x \<noteq> {} \<Longrightarrow> room x (bqueue s) \<le> card (way n s x)" by (auto simp: cond_inv_def)
  from pcs [of t] t(2) have room: "\<And>x. takes c = Some x \<Longrightarrow> 0 < room x (bqueue s)" by simp
  note body = base_body [OF b t k(1,2) room al]
  let ?s = "run_body al t c k s"
  from b t(2) have "\<not> in_cs (bpcs s u)" if "u \<noteq> t" for u using that by (auto simp: base_inv_def locks_ok_def)
  then have "cond_pc (bqueue ?s) (bpcs ?s u)" for u 
    using body(2) k(3) pcs [of u] cond_pc_out [of "bpcs s u" "bqueue ?s" "bqueue s"] by (cases "u = t") auto
  moreover have "sleeps_ok n ?s" using sl t body(2,3) by (fastforce simp: sleeps_ok_def)
  moreover have "room x (bqueue ?s) \<le> card (way n ?s x)" if a: "asleep ?s x \<noteq> {}" for x
  proof -
    have eq: "way n ?s x = (if gives c = Some x then insert t (way n s x) else way n s x - {t})"
      using body(2,3) t k(4) by (auto simp: way_def split: if_splits)
    have "t \<in> way n s x \<longleftrightarrow> takes c = Some x" using t by (auto simp: way_def)
    with eq body(4) [of x] w [of x] a body(3) takes_gives [of c x] card_Suc_Diff1 [of "way n s x" t] show ?thesis
      by (auto simp: card_insert_if split: if_splits)
  qed
  ultimately show ?thesis using body(1) unfolding k_def by (simp add: cond_inv_def)
qed

lemma cond_inv_step:
  assumes i: "cond_inv n roles mx s" and st: "cond_step al spur roles n s s'"
    and al: "\<And>h. finite (dom h) \<Longrightarrow> fresh h (al h)"
  shows "cond_inv n roles mx s'"
proof -
  from i have b: "base_inv n roles mx s" and pcs: "\<And>u. cond_pc (bqueue s) (bpcs s u)" by (auto simp: cond_inv_def)
  note bc = base_call [OF b]
  from st show ?thesis
  proof (cases rule: cond_step.cases)
    case (c_call t)
    have "base_inv n roles mx (goto t (BLock (next_call roles s t)) s)" by (rule base_goto [OF b]) (simp_all add: c_call)
    then show ?thesis unfolding c_call(1) by (rule cond_inv_goto [OF i]) (simp_all add: c_call not_asleep [OF i])
  next
    case (c_lock t c)
    let ?k = "if takes c = None then BBody c else BTest c"
    have "base_inv n roles mx (goto t ?k (set_mutex True s))" by (rule base_acquire [OF b]) (use c_lock bc [of t] in \<open>auto split: if_splits\<close>)
    then show ?thesis unfolding c_lock(1) by (rule cond_inv_goto [OF i]) (use c_lock not_asleep [OF i, of t] in \<open>auto split: if_splits\<close>)
  next
    case (c_test t c)
    let ?k = "if must_wait c (bqueue s) then BWait c else BBody c"
    from pcs [of t] c_test obtain x where x: "takes c = Some x" by auto
    note mw = must_wait_room [OF b x]
    have "base_inv n roles mx (goto t ?k s)" by (rule base_goto [OF b]) (use c_test bc [of t] in \<open>auto split: if_splits\<close>)
    then show ?thesis unfolding c_test(1)
      by (rule cond_inv_goto [OF i]) (use c_test x mw not_asleep [OF i, of t] in \<open>auto split: if_splits simp del: room.simps\<close>)
  next
    case (c_wait t c x)
    with cond_inv_wait [OF i] show ?thesis by simp
  next
    case (c_woken t c x)
    have "base_inv n roles mx (goto t (BLock c) s)" by (rule base_goto [OF b]) (simp_all add: c_woken bc [of t])
    moreover have "t \<notin> asleep s y" for y using i c_woken by (fastforce simp: cond_inv_def sleeps_ok_def)
    ultimately show ?thesis unfolding c_woken(1) by - (rule cond_inv_goto [OF i], use c_woken in auto)
  next
    case (c_spurious t c x)
    with cond_inv_spurious [OF i] show ?thesis by simp
  next
    case (c_body t c)
    with cond_inv_body [OF i _ _ al] show ?thesis by simp
  next
    case (c_signal_one t c x u)
    with cond_inv_signal [OF i] show ?thesis by simp
  next
    case (c_signal_none t c x)
    have "base_inv n roles mx (goto t (BUnlock c) s)" by (rule base_goto [OF b]) (simp_all add: c_signal_none)
    then show ?thesis unfolding c_signal_none(1)
      by (rule cond_inv_goto [OF i]) (use c_signal_none not_asleep [OF i, of t] in auto)
  next
    case (c_unlock t c)
    have "base_inv n roles mx (goto t BOut (set_mutex False s))" by (rule base_release [OF b]) (simp_all add: c_unlock)
    then show ?thesis unfolding c_unlock(1)
      by (rule cond_inv_goto [OF i]) (use c_unlock not_asleep [OF i, of t] in auto)
  qed
qed

lemma moves_stepI: "step s s' \<Longrightarrow> bpcs s' t \<noteq> bpcs s t \<Longrightarrow> bpcs s t \<noteq> BOut \<Longrightarrow> moves step s t"
  by (auto simp: moves_def)

lemma cond_in_cs_moves:
  assumes i: "cond_inv n roles mx s" and t: "in_cs (bpcs s t)" and al: "\<And>h. finite (dom h) \<Longrightarrow> fresh h (al h)"
  shows "moves (cond_step al spur roles n) s t"
proof -
  from i have b: "base_inv n roles mx s" and p: "cond_pc (bqueue s) (bpcs s t)" by (simp_all add: cond_inv_def)
  from b t have tn: "t < n" by (auto simp: base_inv_def calls_ok_def not_less [symmetric])
  note go = moves_stepI [of "cond_step al spur roles n" s _ t]
  show ?thesis
  proof (cases "bpcs s t")
    case (BTest c)
    from go [OF c_test [OF tn this]] BTest show ?thesis by simp
  next
    case (BWait c)
    with p obtain x where "takes c = Some x" by auto
    from go [OF c_wait [OF tn BWait this]] BWait show ?thesis by simp
  next
    case (BBody c)
    from p BBody have room: "\<And>x. takes c = Some x \<Longrightarrow> 0 < room x (bqueue s)" by simp
    let ?k = "if gives c = None then BUnlock c else BSignal c"
    have "bpcs (run_body al t c ?k s) = (bpcs s)(t := ?k)" by (rule base_body [OF b tn BBody _ _ room al]) simp_all
    with go [OF c_body [OF tn BBody]] BBody show ?thesis by simp
  next
    case (BSignal c)
    with p obtain x where x: "gives c = Some x" by auto
    show ?thesis
    proof (cases "asleep s x = {}")
      case True
      from go [OF c_signal_none [OF tn BSignal x this]] BSignal show ?thesis by simp
    next
      case False
      then obtain u where "u \<in> asleep s x" by blast
      from go [OF c_signal_one [OF tn BSignal x this]] BSignal show ?thesis by simp
    qed
  next
    case (BUnlock c)
    from go [OF c_unlock [OF tn this]] BUnlock show ?thesis by simp
  qed (use t in auto)
qed

lemma cond_stuck:
  assumes i: "cond_inv n roles mx s" and al: "\<And>h. finite (dom h) \<Longrightarrow> fresh h (al h)"
    and no: "\<And>u. \<not> moves (cond_step al spur roles n) s u" and t: "bpcs s t \<noteq> BOut"
  shows "\<exists>x. takes (next_call roles s t) = Some x \<and> room x (bqueue s) = 0"
proof -
  from i have b: "base_inv n roles mx s" by (simp add: cond_inv_def)
  from cond_in_cs_moves [OF i _ al] no have cs: "\<not> in_cs (bpcs s u)" for u by blast
  with b have free: "\<not> mutex (bqueue s)" by (simp add: base_inv_def locks_ok_def)
  have asleep: "\<exists>c x. bpcs s u = BSleep c \<and> takes c = Some x \<and> u \<in> asleep s x" if u: "bpcs s u \<noteq> BOut" for u
  proof -
    from b u have un: "u < n" by (auto simp: base_inv_def calls_ok_def not_less [symmetric])
    note go = moves_stepI [of "cond_step al spur roles n" s _ u]
    from i have p: "cond_pc (bqueue s) (bpcs s u)" by (simp add: cond_inv_def)
    show ?thesis
    proof (cases "bpcs s u")
      case (BLock c)
      have "(if takes c = None then BBody c else BTest c) \<noteq> BLock c" by simp
      with go [OF c_lock [OF un BLock free]] BLock no [of u] show ?thesis by auto
    next
      case (BSleep c)
      with p obtain x where x: "takes c = Some x" by auto
      show ?thesis
      proof (cases "u \<in> asleep s x")
        case False
        from go [OF c_woken [OF un BSleep x False]] BSleep no [of u] show ?thesis by simp
      qed (use BSleep x in blast)
    qed (use u cs [of u] p in auto)
  qed
  have "\<not> on_way (asleep s) u (bpcs s u) x" for u x using asleep [of u] by (cases "bpcs s u = BOut") auto
  then have "way n s x = {}" for x by (simp add: way_def)
  with i have "asleep s x \<noteq> {} \<Longrightarrow> room x (bqueue s) = 0" for x unfolding cond_inv_def by (metis card.empty le_zero_eq)
  with asleep [OF t] base_call [OF b, of t] show ?thesis by (metis call_of.simps(6) empty_iff)
qed

lemma cond_blocking_queue:
  assumes "\<And>h. finite (dom h) \<Longrightarrow> fresh h (al h)"
  shows "blocking_queue (cond_step al spur roles n) (cond_inv n roles mx) n roles mx"
proof unfold_locales
  fix s s' t
  assume i: "cond_inv n roles mx s"
  then show "base_inv n roles mx s" by (simp add: cond_inv_def)
  show "cond_step al spur roles n s s' \<Longrightarrow> cond_inv n roles mx s'" by (rule cond_inv_step [OF i _ assms])
  show "(\<And>u. \<not> moves (cond_step al spur roles n) s u) \<Longrightarrow> bpcs s t \<noteq> BOut \<Longrightarrow>
      \<exists>x. takes (next_call roles s t) = Some x \<and> room x (bqueue s) = 0" by (rule cond_stuck [OF i assms])
qed

lemma cond_inv_start:
  assumes "queue_init_cond mx True 0 0 0 0 tid = Inr q" "0 < mx"
  shows "cond_inv n roles mx (bstart q)"
  using assms by (auto simp: queue_init_cond_def cond_inv_def base_inv_def data_ok_def locks_ok_def calls_ok_def sleeps_ok_def
      bstart_def tail_ok_def queue_rep_def queue_at_def intro!: exI [of _ "[]"])

section \<open>Semaphores\<close>

text \<open>Places and values that a call has reserved, or not given back yet.\<close>

fun reserves :: "bpc \<Rightarrow> cv \<Rightarrow> bool" where
  "reserves (BLock c) x = (takes c = Some x)"
| "reserves (BBody c) x = (takes c = Some x)"
| "reserves (BUnlock c) x = (gives c = Some x)"
| "reserves (BPost c) x = (gives c = Some x)"
| "reserves _ x = False"

definition reserved :: "nat \<Rightarrow> bstate \<Rightarrow> cv \<Rightarrow> nat set" where
  "reserved n s x = {t. t < n \<and> reserves (bpcs s t) x}"

fun sem_pc :: "bpc \<Rightarrow> bool" where
  "sem_pc (BSem c) = (takes c \<noteq> None)"
| "sem_pc (BPost c) = (gives c \<noteq> None)"
| "sem_pc (BTest c) = False"
| "sem_pc (BWait c) = False"
| "sem_pc (BSleep c) = False"
| "sem_pc (BSignal c) = False"
| "sem_pc _ = True"

definition sem_inv :: "nat \<Rightarrow> (nat \<Rightarrow> qrole) \<Rightarrow> int \<Rightarrow> bstate \<Rightarrow> bool" where
  "sem_inv n roles mx s \<longleftrightarrow> base_inv n roles mx s \<and> (\<forall>t. sem_pc (bpcs s t))
     \<and> (\<forall>x. sem_of x (bqueue s) + card (reserved n s x) = room x (bqueue s))"

lemma finite_reserved [simp]: "finite (reserved n s x)"
  by (simp add: reserved_def)

lemma card_reserved_goto:
  assumes "t < n" "bpcs s' = (bpcs s)(t := k)"
  shows "card (reserved n s' x) + (if reserves (bpcs s t) x then 1 else 0) = card (reserved n s x) + (if reserves k x then 1 else 0)"
proof -
  have "reserved n s' x = (if reserves k x then insert t (reserved n s x) else reserved n s x - {t})"
    using assms by (auto simp: reserved_def)
  moreover have "t \<in> reserved n s x \<longleftrightarrow> reserves (bpcs s t) x" using assms(1) by (simp add: reserved_def)
  ultimately show ?thesis using card_Suc_Diff1 [of "reserved n s x" t] by (auto simp: card_insert_if insert_absorb)
qed

lemma sem_inv_goto:
  assumes i: "sem_inv n roles mx s" and t: "t < n" and b: "base_inv n roles mx s'" and pc: "bpcs s' = (bpcs s)(t := k)" and k: "sem_pc k"
    and e: "\<And>x. sem_of x (bqueue s') + room x (bqueue s) + (if reserves k x then 1 else 0)
      = sem_of x (bqueue s) + room x (bqueue s') + (if reserves (bpcs s t) x then 1 else 0)"
  shows "sem_inv n roles mx s'"
proof -
  from i have s: "sem_of x (bqueue s) + card (reserved n s x) = room x (bqueue s)" for x by (simp add: sem_inv_def)
  have "sem_of x (bqueue s') + card (reserved n s' x) = room x (bqueue s')" for x
    using card_reserved_goto [OF t pc, of x] s [of x] e [of x] by linarith
  with i b pc k show ?thesis by (simp add: sem_inv_def)
qed

lemma sem_room:
  assumes "sem_inv n roles mx s" "t < n" "reserves (bpcs s t) x"
  shows "0 < room x (bqueue s)"
proof -
  from assms(2,3) have "t \<in> reserved n s x" by (simp add: reserved_def)
  then have "0 < card (reserved n s x)" using card_gt_0_iff finite_reserved by blast
  with assms(1) show ?thesis unfolding sem_inv_def by (metis add_gr_0)
qed

lemma sem_inv_step:
  assumes i: "sem_inv n roles mx s" and st: "sem_step al roles n s s'"
    and al: "\<And>h. finite (dom h) \<Longrightarrow> fresh h (al h)"
  shows "sem_inv n roles mx s'"
proof -
  from i have b: "base_inv n roles mx s" and pcs: "\<And>u. sem_pc (bpcs s u)" by (auto simp: sem_inv_def)
  note bc = base_call [OF b]
  from st show ?thesis
  proof (cases rule: sem_step.cases)
    case (s_call t c)
    let ?k = "if takes c = None then BLock c else BSem c"
    have "base_inv n roles mx (goto t ?k s)" by (rule base_goto [OF b]) (use s_call in \<open>auto split: if_splits\<close>)
    then show ?thesis unfolding s_call(1) by (rule sem_inv_goto [OF i s_call(2)]) (use s_call(3) in \<open>auto split: if_splits\<close>)
  next
    case (s_wait t c x)
    have "base_inv n roles mx (goto t (BLock c) (set_sem x (sem_of x (bqueue s) - 1) s))"
      by (rule base_goto) (use s_wait b bc [of t] in \<open>simp_all add: next_call_cong [of "set_sem x v s" s for v]\<close>)
    then show ?thesis unfolding s_wait(1)
      by (rule sem_inv_goto [OF i s_wait(2)]) (use s_wait in \<open>auto simp del: room.simps\<close>)
  next
    case (s_lock t c)
    have "base_inv n roles mx (goto t (BBody c) (set_mutex True s))"
      by (rule base_acquire [OF b]) (use s_lock bc [of t] in auto)
    then show ?thesis unfolding s_lock(1) by (rule sem_inv_goto [OF i s_lock(2)]) (use s_lock(3) in auto)
  next
    case (s_body t c)
    have room: "0 < room x (bqueue s)" if "takes c = Some x" for x
      using sem_room [OF i s_body(2)] s_body(3) that by simp
    note body = base_body [OF b s_body(2,3) _ _ room al, of "BUnlock c"]
    show ?thesis unfolding s_body(1)
      by (rule sem_inv_goto [OF i s_body(2)]) (use body s_body(3) in \<open>auto simp del: room.simps\<close>)
  next
    case (s_unlock t c)
    let ?k = "if gives c = None then BOut else BPost c"
    have "base_inv n roles mx (goto t ?k (set_mutex False s))"
      by (rule base_release [OF b]) (use s_unlock in \<open>auto split: if_splits\<close>)
    then show ?thesis unfolding s_unlock(1) by (rule sem_inv_goto [OF i s_unlock(2)]) (use s_unlock(3) in \<open>auto split: if_splits\<close>)
  next
    case (s_post t c x)
    have "base_inv n roles mx (goto t BOut (set_sem x (sem_of x (bqueue s) + 1) s))"
      by (rule base_goto) (use s_post b in simp_all)
    then show ?thesis unfolding s_post(1)
      by (rule sem_inv_goto [OF i s_post(2)]) (use s_post in \<open>auto simp del: room.simps\<close>)
  qed
qed

lemma sem_stuck:
  assumes i: "sem_inv n roles mx s" and al: "\<And>h. finite (dom h) \<Longrightarrow> fresh h (al h)"
    and no: "\<And>u. \<not> moves (sem_step al roles n) s u" and t: "bpcs s t \<noteq> BOut"
  shows "\<exists>x. takes (next_call roles s t) = Some x \<and> room x (bqueue s) = 0"
proof -
  from i have b: "base_inv n roles mx s" and p: "\<And>u. sem_pc (bpcs s u)" by (simp_all add: sem_inv_def)
  have un: "u < n" if "bpcs s u \<noteq> BOut" for u using b that by (auto simp: base_inv_def calls_ok_def not_less [symmetric])
  note go = moves_stepI [of "sem_step al roles n" s]
  have cs: "\<not> in_cs (bpcs s u)" for u
  proof (cases "bpcs s u")
    case (BBody c)
    with sem_room [OF i un, of u] have room: "\<And>x. takes c = Some x \<Longrightarrow> 0 < room x (bqueue s)" by simp
    have "bpcs (run_body al u c (BUnlock c) s) = (bpcs s)(u := BUnlock c)"
      by (rule base_body [OF b un BBody _ _ room al]) (simp_all add: BBody)
    with go [OF s_body [OF un BBody], of u] BBody no show ?thesis by simp
  next
    case (BUnlock c)
    have "(if gives c = None then BOut else BPost c) \<noteq> BUnlock c" by simp
    with go [OF s_unlock [OF un BUnlock], of u] BUnlock no show ?thesis by auto
  qed (use p [of u] in auto)
  with b have free: "\<not> mutex (bqueue s)" by (simp add: base_inv_def locks_ok_def)
  have waits: "\<exists>c x. bpcs s u = BSem c \<and> takes c = Some x \<and> sem_of x (bqueue s) = 0" if u: "bpcs s u \<noteq> BOut" for u
  proof (cases "bpcs s u")
    case (BSem c)
    with p [of u] obtain x where x: "takes c = Some x" by auto
    with go [OF s_wait [OF un [OF u] BSem x], of u] BSem no show ?thesis by auto
  next
    case (BLock c)
    from go [OF s_lock [OF un [OF u] BLock free], of u] BLock no show ?thesis by simp
  next
    case (BPost c)
    with p [of u] obtain x where x: "gives c = Some x" by auto
    from go [OF s_post [OF un [OF u] BPost x], of u] BPost no show ?thesis by simp
  qed (use u cs [of u] p [of u] in auto)
  have "\<not> reserves (bpcs s u) x" for u x using waits [of u] by (cases "bpcs s u = BOut") auto
  then have "reserved n s x = {}" for x by (simp add: reserved_def)
  with i have "sem_of x (bqueue s) = room x (bqueue s)" for x unfolding sem_inv_def by (metis add_0_right card.empty)
  with waits [OF t] base_call [OF b, of t] show ?thesis by (metis call_of.simps(2))
qed

lemma sem_blocking_queue:
  assumes "\<And>h. finite (dom h) \<Longrightarrow> fresh h (al h)"
  shows "blocking_queue (sem_step al roles n) (sem_inv n roles mx) n roles mx"
proof unfold_locales
  fix s s' t
  assume i: "sem_inv n roles mx s"
  then show "base_inv n roles mx s" by (simp add: sem_inv_def)
  show "sem_step al roles n s s' \<Longrightarrow> sem_inv n roles mx s'" by (rule sem_inv_step [OF i _ assms])
  show "(\<And>u. \<not> moves (sem_step al roles n) s u) \<Longrightarrow> bpcs s t \<noteq> BOut \<Longrightarrow>
      \<exists>x. takes (next_call roles s t) = Some x \<and> room x (bqueue s) = 0" by (rule sem_stuck [OF i assms])
qed

lemma sem_inv_start:
  assumes "queue_init_sem mx True 0 0 0 0 tid = Inr q" "0 < mx"
  shows "sem_inv n roles mx (bstart q)"
proof -
  from assms have q: "sem_of NotFull q = nat mx" "sem_of NotEmpty q = 0" "count q = 0" "max_count q = mx" "\<not> mutex q"
    "tail_ok q" "queue_rep q []"
    by (auto simp: queue_init_sem_def tail_ok_def queue_rep_def queue_at_def intro!: exI [of _ "[]"])
  have "sem_of x q = room x q" for x using q by (cases x) simp_all
  with q show ?thesis
    by (simp add: sem_inv_def base_inv_def data_ok_def locks_ok_def calls_ok_def bstart_def reserved_def del: room.simps)
qed

section \<open>The programs with the allocator that reuses the least free address\<close>

interpretation cond_program: blocking_queue "cond_step least_free spur roles n" "cond_inv n roles mx" n roles mx
  for spur roles n mx
  by (rule cond_blocking_queue) (rule fresh_least_free)

interpretation sem_program: blocking_queue "sem_step least_free roles n" "sem_inv n roles mx" n roles mx
  for roles n mx
  by (rule sem_blocking_queue) (rule fresh_least_free)

text \<open>\<open>main\<close> of the test programs: the monitor is thread 0, the reader thread 1, the writer thread 2.\<close>

definition main_roles :: "nat \<Rightarrow> qrole" where
  "main_roles t = (if t = 0 then Watcher else if t = 1 then Consumer else Producer of_nat)"

section \<open>Properties\<close>

text \<open>
  Property C12. The queue with condition variables (\<open>2.2f.c\<close>) in every interleaving of any number of writers, readers and monitors, with or
  without spurious wake-ups: no call faults, aborts or fails an assertion; at most one thread uses the queue; the values taken out
  and those still in the queue are the values put in, in this order, and never more than \<open>max_count\<close> are in; every writer's values
  are put in once each and in order, so that with one writer the readers together get its values without a gap. No wake-up is lost:
  unless a thread inside of the library can move, all of them are writers of a full queue, or all of them readers of an empty one.
\<close>

theorem condition_queue_correct:
  assumes q: "queue_init_cond mx True 0 0 0 0 tid = Inr q" "0 < mx"
    and al: "\<And>h. finite (dom h) \<Longrightarrow> fresh h (al h)"
    and r: "(cond_step al spur roles n)\<^sup>*\<^sup>* (bstart q) s"
  shows "broken s = None
    \<and> (\<forall>t u. in_cs (bpcs s t) \<and> in_cs (bpcs s u) \<longrightarrow> t = u)
    \<and> (\<exists>vs. queue_rep (bqueue s) vs \<and> int (length vs) \<le> mx \<and> map snd (accepted s) = map snd (delivered s) @ vs)
    \<and> (\<forall>t f. roles t = Producer f \<longrightarrow> values_of t (accepted s) = map f [0..<turns s t])
    \<and> (\<forall>w f. roles w = Producer f \<and> (\<forall>u g. roles u = Producer g \<longrightarrow> u = w)
         \<longrightarrow> map snd (delivered s) = map f [0..<length (delivered s)])
    \<and> ((\<exists>t. moves (cond_step al spur roles n) s t)
       \<or> (\<forall>t. bpcs s t \<noteq> BOut \<longrightarrow> (\<exists>f. roles t = Producer f) \<and> count (bqueue s) = mx)
       \<or> (\<forall>t. bpcs s t \<noteq> BOut \<longrightarrow> roles t = Consumer \<and> count (bqueue s) = 0))"
proof -
  have bq: "blocking_queue (cond_step al spur roles n) (cond_inv n roles mx) n roles mx" by (rule cond_blocking_queue) (rule al)
  note i = cond_inv_start [OF q]
  note main = blocking_queue.correct [OF bq r i q(2)]
  note single = blocking_queue.single_writer [OF bq r i]
  have "map snd (delivered s) = map f [0..<length (delivered s)]"
    if "roles w = Producer f" "\<And>u g. roles u = Producer g \<Longrightarrow> u = w" for w f
    using single that by blast
  with main show ?thesis by blast
qed

text \<open>
  Property C13. The queue with semaphores (\<open>2.2g.c\<close>) promises the same in every interleaving, although its threads wait before they take
  the mutex and post after they have released it.
\<close>

theorem semaphore_queue_correct:
  assumes q: "queue_init_sem mx True 0 0 0 0 tid = Inr q" "0 < mx"
    and al: "\<And>h. finite (dom h) \<Longrightarrow> fresh h (al h)"
    and r: "(sem_step al roles n)\<^sup>*\<^sup>* (bstart q) s"
  shows "broken s = None
    \<and> (\<forall>t u. in_cs (bpcs s t) \<and> in_cs (bpcs s u) \<longrightarrow> t = u)
    \<and> (\<exists>vs. queue_rep (bqueue s) vs \<and> int (length vs) \<le> mx \<and> map snd (accepted s) = map snd (delivered s) @ vs)
    \<and> (\<forall>t f. roles t = Producer f \<longrightarrow> values_of t (accepted s) = map f [0..<turns s t])
    \<and> (\<forall>w f. roles w = Producer f \<and> (\<forall>u g. roles u = Producer g \<longrightarrow> u = w)
         \<longrightarrow> map snd (delivered s) = map f [0..<length (delivered s)])
    \<and> ((\<exists>t. moves (sem_step al roles n) s t)
       \<or> (\<forall>t. bpcs s t \<noteq> BOut \<longrightarrow> (\<exists>f. roles t = Producer f) \<and> count (bqueue s) = mx)
       \<or> (\<forall>t. bpcs s t \<noteq> BOut \<longrightarrow> roles t = Consumer \<and> count (bqueue s) = 0))"
proof -
  have bq: "blocking_queue (sem_step al roles n) (sem_inv n roles mx) n roles mx" by (rule sem_blocking_queue) (rule al)
  note i = sem_inv_start [OF q]
  note main = blocking_queue.correct [OF bq r i q(2)]
  note single = blocking_queue.single_writer [OF bq r i]
  have "map snd (delivered s) = map f [0..<length (delivered s)]"
    if "roles w = Producer f" "\<And>u g. roles u = Producer g \<Longrightarrow> u = w" for w f
    using single that by blast
  with main show ?thesis by blast
qed

text \<open>A first step of the writer of the test program, on a queue with one place.\<close>

theorem condition_queue_correct_witness:
  "\<exists>q s. queue_init_cond 1 True 0 0 0 0 7 = Inr q \<and> (cond_step least_free False main_roles 3)\<^sup>*\<^sup>* (bstart q) s
     \<and> bpcs s 2 = BLock (Add 0) \<and> broken s = None \<and> (\<exists>t. moves (cond_step least_free False main_roles 3) s t)"
proof -
  obtain q where q: "queue_init_cond 1 True 0 0 0 0 7 = Inr q" by (simp add: queue_init_cond_def)
  let ?s = "goto 2 (BLock (next_call main_roles (bstart q) 2)) (bstart q)"
  have "cond_step least_free False main_roles 3 (bstart q) ?s" by (rule c_call) (simp_all add: bstart_def)
  then have r: "(cond_step least_free False main_roles 3)\<^sup>*\<^sup>* (bstart q) ?s" by (rule r_into_rtranclp)
  have pc: "bpcs ?s 2 = BLock (Add 0)" by (simp add: next_call_def main_roles_def bstart_def)
  have two: "main_roles 2 = Producer of_nat" "count (bqueue ?s) \<noteq> 1" using q
    by (auto simp: main_roles_def bstart_def queue_init_cond_def)
  note C = condition_queue_correct [OF q zero_less_one fresh_least_free r]
  have "broken ?s = None" using C by blast
  moreover from C have "(\<exists>t. moves (cond_step least_free False main_roles 3) ?s t)
    \<or> (\<exists>f. main_roles 2 = Producer f) \<and> count (bqueue ?s) = 1 \<or> main_roles 2 = Consumer" using pc by (metis bpc.distinct)
  ultimately show ?thesis using q r pc two by auto
qed

theorem semaphore_queue_correct_witness:
  "\<exists>q s. queue_init_sem 1 True 0 0 0 0 7 = Inr q \<and> (sem_step least_free main_roles 3)\<^sup>*\<^sup>* (bstart q) s
     \<and> bpcs s 2 = BSem (Add 0) \<and> broken s = None \<and> (\<exists>t. moves (sem_step least_free main_roles 3) s t)"
proof -
  obtain q where q: "queue_init_sem 1 True 0 0 0 0 7 = Inr q" by (simp add: queue_init_sem_def)
  have c: "next_call main_roles (bstart q) 2 = Add 0" by (simp add: next_call_def main_roles_def bstart_def)
  let ?s = "goto 2 (BSem (Add 0)) (bstart q)"
  have "sem_step least_free main_roles 3 (bstart q) (goto 2 (if takes (Add 0) = None then BLock (Add 0) else BSem (Add 0)) (bstart q))"
    by (rule s_call) (simp_all add: c, simp add: bstart_def)
  then have r: "(sem_step least_free main_roles 3)\<^sup>*\<^sup>* (bstart q) ?s" by (simp add: r_into_rtranclp)
  have pc: "bpcs ?s 2 = BSem (Add 0)" by simp
  have two: "main_roles 2 = Producer of_nat" "count (bqueue ?s) \<noteq> 1" using q
    by (auto simp: main_roles_def bstart_def queue_init_sem_def)
  note C = semaphore_queue_correct [OF q zero_less_one fresh_least_free r]
  have "broken ?s = None" using C by blast
  moreover from C have "(\<exists>t. moves (sem_step least_free main_roles 3) ?s t)
    \<or> (\<exists>f. main_roles 2 = Producer f) \<and> count (bqueue ?s) = 1 \<or> main_roles 2 = Consumer" using pc by (metis bpc.distinct)
  ultimately show ?thesis using q r pc two by auto
qed

end
