(* ===== verification/Cache.thy ===== *)
theory Cache
  imports Prelude
begin

text \<open>
  The proxy's response cache, \<open>proxy/src/cache/cache.c\<close> and \<open>include/cache.h\<close>: a hash table of
  entries that a background worker fills chunk by chunk while clients already read them, with
  lists of clients to wake when an entry grows.

  An operation on the table holds the mutex of its bucket from its first to its last access of the
  bucket; appending to an entry and finishing it hold the entry's \<open>data_lock\<close> for writing. An
  operation is one step here (\<open>Cache_Races\<close> shows that a lookup may be seen so). Entries keep their identity as addresses, because workers hold
  pointers to them: an operation on an entry that was freed is a fault. A bucket's list of
  entries is the list of their addresses; \<open>relink\<close> is the effect of storing a new \<open>next\<close> in one
  of them. \<open>now\<close> is what \<open>time(NULL)\<close> returns. A client's handle is a number.
\<close>

unbundle bit_operations_syntax

section \<open>Data\<close>

type_synonym byte = "8 word"
type_synonym cstring = "byte list"
type_synonym handle = nat

datatype cache_status_t =
    CACHE_FOUND
  | CACHE_NEW_LOADED
  | CACHE_NEW_NOT_LOADED
  | CACHE_NOT_FOUND
  | CACHE_DONE
  | CACHE_ERROR

text \<open>
  \<open>edata\<close> holds the bytes written so far; \<open>data_live\<close> says whether the buffer is allocated.
\<close>

record cache_entry_t =
  ekey :: cstring
  is_loading :: bool
  edata :: "byte list"
  data_live :: bool
  data_size :: usize
  allocated_size :: usize
  last_accessed :: int
  waiting_clients :: "handle list"

record cache_bucket_t =
  chain_of :: "addr list"
  pending_waiters :: "(cstring \<times> handle list) list"

record cache_t =
  entries :: "cache_entry_t heap"
  buckets :: "cache_bucket_t list"
  num_buckets :: usize
  max_size :: usize
  current_size :: usize
  max_entries :: usize
  current_entries :: usize
  hits :: usize
  misses :: usize
  default_ttl :: int

text \<open>
  What the allocator and the lock initialisers answer while an entry is created: the address of the
  entry (\<open>None\<close> when \<open>malloc\<close> fails), and whether \<open>strdup\<close>, the initialisation of the two locks
  and the allocation of the buffer succeed.
\<close>

record create_env =
  got_entry :: ptr
  got_key :: bool
  got_rwlock :: bool
  got_data :: bool
  got_mutex :: bool

section \<open>Operations\<close>

definition create_entry :: "cstring \<Rightarrow> usize \<Rightarrow> int \<Rightarrow> create_env \<Rightarrow> (addr \<times> cache_entry_t) option" where
  "create_entry key initial_size now env =
     (case got_entry env of None \<Rightarrow> None
      | Some a \<Rightarrow>
         if \<not> got_key env then None
         else if \<not> got_rwlock env then None
         else let alloc = (if initial_size > 0 then initial_size else 4096) in
           if \<not> got_data env then None
           else if \<not> got_mutex env then None
           else Some (a, \<lparr>ekey = key, is_loading = True, edata = [], data_live = True, data_size = 0,
                          allocated_size = alloc, last_accessed = now, waiting_clients = []\<rparr>))"

definition free_entry :: "cache_entry_t heap \<Rightarrow> addr \<Rightarrow> cache_entry_t heap res" where
  "free_entry h a = rbind (deref h (Some a)) (\<lambda>e.
     if \<not> data_live e then Inl DoubleFree else free_at h (Some a))"

text \<open>
  \<open>calloc_ok\<close>: whether the bucket array could be allocated; \<open>mutex_ok i\<close>: whether the mutex of
  bucket \<open>i\<close> could be initialised.
\<close>

definition cache_init ::
  "usize \<Rightarrow> usize \<Rightarrow> usize \<Rightarrow> int \<Rightarrow> bool \<Rightarrow> (nat \<Rightarrow> bool) \<Rightarrow> int \<times> cache_t option" where
  "cache_init maxs maxe nb ttl calloc_ok mutex_ok =
     (let nb = (if nb = 0 then 1024 else nb) in
      if \<not> calloc_ok then (-1, None)
      else if \<not> list_all mutex_ok [0..<unat nb] then (-1, None)
      else (0, Some \<lparr>entries = Map.empty,
                     buckets = replicate (unat nb) \<lparr>chain_of = [], pending_waiters = []\<rparr>,
                     num_buckets = nb, max_size = maxs, current_size = 0, max_entries = maxe,
                     current_entries = 0, hits = 0, misses = 0, default_ttl = ttl\<rparr>))"

definition cache_cleanup :: "cache_t \<Rightarrow> cache_t" where
  "cache_cleanup c = c\<lparr>buckets := [], num_buckets := 0, current_size := 0, current_entries := 0\<rparr>"

text \<open>\<open>hash * 33 + c\<close> on 64-bit words, with \<open>c\<close> a sign-extended \<open>char\<close>.\<close>

definition hash_step :: "byte \<Rightarrow> usize \<Rightarrow> usize" where
  "hash_step b hash = (push_bit 5 hash + hash) + scast b"

definition cache_hash :: "cstring \<Rightarrow> usize \<Rightarrow> usize res" where
  "cache_hash key n = (if n = 0 then Inl DivByZero else Inr (fold hash_step key 5381 mod n))"

text \<open>\<open>&cache->buckets[cache_hash(key, cache->num_buckets)]\<close> as an index.\<close>

definition bucket_of :: "cache_t \<Rightarrow> cstring \<Rightarrow> nat res" where
  "bucket_of c key = rbind (cache_hash key (num_buckets c)) (\<lambda>i.
     if unat i < length (buckets c) then Inr (unat i) else Inl OutOfBounds)"

fun search :: "cache_entry_t heap \<Rightarrow> cstring \<Rightarrow> addr list \<Rightarrow> ptr res" where
  "search h key [] = Inr None"
| "search h key (a # as) = rbind (deref h (Some a)) (\<lambda>e.
     if ekey e = key then Inr (Some a) else search h key as)"

definition copy_out :: "byte list \<Rightarrow> nat \<Rightarrow> nat \<Rightarrow> byte list res" where
  "copy_out buf off n = (if off + n \<le> length buf then Inr (take n (drop off buf)) else Inl OutOfBounds)"

text \<open>The three output parameters of a lookup; they keep their values where the code sets none.\<close>

record lookup_out =
  out_data :: "byte list option"
  out_size :: usize
  out_loading :: bool

text \<open>
  \<open>malloc_ok\<close>: whether the copy could be allocated. The code does not check it, so that without
  memory \<open>memcpy\<close> writes through \<open>NULL\<close> unless it copies nothing.
\<close>

definition cache_lookup_partial ::
  "cache_t \<Rightarrow> cstring \<Rightarrow> usize \<Rightarrow> usize \<Rightarrow> int \<Rightarrow> bool \<Rightarrow> lookup_out \<Rightarrow> (cache_status_t \<times> lookup_out \<times> cache_t) res" where
  "cache_lookup_partial c key offset maxs now malloc_ok out =
     rbind (bucket_of c key) (\<lambda>i.
     rbind (search (entries c) key (chain_of (buckets c ! i))) (\<lambda>p.
       case p of
         None \<Rightarrow> Inr (CACHE_NOT_FOUND, out, c\<lparr>misses := misses c + 1\<rparr>)
       | Some a \<Rightarrow> rbind (deref (entries c) p) (\<lambda>e.
           let loading = is_loading e; current = data_size e;
               out = out\<lparr>out_loading := loading\<rparr> in
           if \<not> loading \<and> maxs = 0 then
             if \<not> malloc_ok \<and> current > 0 then Inl NullDeref else
             rbind (copy_out (edata e) 0 (unat current)) (\<lambda>d.
               Inr (CACHE_FOUND, out\<lparr>out_size := current, out_data := Some d\<rparr>, c))
           else if loading \<and> offset \<ge> current then Inr (CACHE_NEW_NOT_LOADED, out, c)
           else if offset > current then Inr (CACHE_ERROR, out, c)
           else
             let copy_size = current - offset;
                 copy_size = (if maxs > 0 \<and> copy_size > maxs then maxs else copy_size) in
             if copy_size > 0 then
               if \<not> malloc_ok then Inl NullDeref else
               rbind (copy_out (edata e) (unat offset) (unat copy_size)) (\<lambda>d.
                 Inr (CACHE_NEW_LOADED, out\<lparr>out_data := Some d, out_size := copy_size\<rparr>,
                      c\<lparr>entries := (entries c)(a \<mapsto> e\<lparr>last_accessed := now\<rparr>), hits := hits c + 1\<rparr>))
             else Inr (CACHE_DONE, out\<lparr>out_data := None, out_size := 0\<rparr>, c))))"

definition cache_lookup ::
  "cache_t \<Rightarrow> cstring \<Rightarrow> int \<Rightarrow> bool \<Rightarrow> lookup_out \<Rightarrow> (cache_status_t \<times> lookup_out \<times> cache_t) res" where
  "cache_lookup c key now malloc_ok out = cache_lookup_partial c key 0 0 now malloc_ok out"

text \<open>
  The loop of \<open>cache_start_loading\<close> over the table of clients that registered before the entry
  existed: the first one for the key is taken over. A match at the head sets the head to \<open>NULL\<close>.
\<close>

fun claim_from :: "cstring \<Rightarrow> (cstring \<times> handle list) list \<Rightarrow> (cstring \<times> handle list) list
    \<Rightarrow> handle list \<times> (cstring \<times> handle list) list" where
  "claim_from key prev [] = ([], prev)"
| "claim_from key prev ((k, ws) # rest) =
     (if k = key then (ws, if prev \<noteq> [] then prev @ rest else [])
      else claim_from key (prev @ [(k, ws)]) rest)"

definition claim_waiters :: "cstring \<Rightarrow> (cstring \<times> handle list) list \<Rightarrow> handle list \<times> (cstring \<times> handle list) list" where
  "claim_waiters key tbl = claim_from key [] tbl"

definition cache_start_loading :: "cache_t \<Rightarrow> cstring \<Rightarrow> int \<Rightarrow> create_env \<Rightarrow> (ptr \<times> cache_t) res" where
  "cache_start_loading c key now env =
     rbind (bucket_of c key) (\<lambda>i.
     rbind (search (entries c) key (chain_of (buckets c ! i))) (\<lambda>p.
       case p of
         Some a \<Rightarrow> Inr (Some a, c)
       | None \<Rightarrow> (case create_entry key 4096 now env of
           None \<Rightarrow> Inr (None, c)
         | Some (a, e) \<Rightarrow>
             let b = buckets c ! i;
                 (ws, tbl) = claim_waiters key (pending_waiters b);
                 b' = b\<lparr>chain_of := a # chain_of b, pending_waiters := tbl\<rparr>
             in Inr (Some a, c\<lparr>entries := (entries c)(a \<mapsto> e\<lparr>waiting_clients := ws\<rparr>),
                               buckets := (buckets c)[i := b'],
                               current_entries := current_entries c + 1\<rparr>))))"

text \<open>The wake-ups \<open>uv_async_send\<close> makes: every waiter whose handle is not being closed.\<close>

definition notify_waiting_clients :: "(handle \<Rightarrow> bool) \<Rightarrow> cache_entry_t \<Rightarrow> handle list" where
  "notify_waiting_clients closing e = filter (\<lambda>w. \<not> closing w) (waiting_clients e)"

text \<open>\<open>while (new_size < need) new_size *= 2\<close> on 64-bit words; \<open>None\<close> when it never ends.\<close>

partial_function (option) grow :: "usize \<Rightarrow> usize \<Rightarrow> usize option" where
  "grow new_size need = (if new_size < need then grow (new_size * 2) need else Some new_size)"

text \<open>\<open>realloc_ok\<close>: whether \<open>realloc\<close> to a positive size succeeds.\<close>

definition cache_append_data ::
  "cache_t \<Rightarrow> ptr \<Rightarrow> byte list \<Rightarrow> int \<Rightarrow> bool \<Rightarrow> (handle \<Rightarrow> bool) \<Rightarrow> (int \<times> cache_t \<times> handle list) res option" where
  "cache_append_data c p chunk now realloc_ok closing =
     (case p of None \<Rightarrow> Some (Inr (-1, c, []))
      | Some a \<Rightarrow> (case deref (entries c) p of
          Inl f \<Rightarrow> Some (Inl f)
        | Inr e \<Rightarrow>
           if \<not> is_loading e then Some (Inr (-1, c, []))
           else
             let current = data_size e; chunk_size = of_nat (length chunk);
                 e = e\<lparr>last_accessed := now\<rparr>;
                 write = (\<lambda>e. if unat current + length chunk > unat (allocated_size e) then Inl OutOfBounds
                     else let e = e\<lparr>edata := take (unat current) (edata e) @ chunk
                                        @ drop (unat current + length chunk) (edata e),
                                    data_size := current + chunk_size\<rparr>
                          in Inr (0, c\<lparr>entries := (entries c)(a \<mapsto> e)\<rparr>, notify_waiting_clients closing e)) in
             if current + chunk_size > allocated_size e then
               (case grow (allocated_size e) (current + chunk_size) of
                  None \<Rightarrow> None
                | Some new_size \<Rightarrow>
                    if \<not> realloc_ok then Some (Inr (-1, c\<lparr>entries := (entries c)(a \<mapsto> e)\<rparr>, []))
                    else Some (write (e\<lparr>allocated_size := new_size\<rparr>)))
             else Some (write e)))"

text \<open>
  \<open>cache_finish_loading\<close> shrinks the buffer. With size 0, \<open>realloc\<close> of glibc frees the block and
  returns \<open>NULL\<close>, and the code keeps the old pointer.
\<close>

definition cache_finish_loading ::
  "cache_t \<Rightarrow> ptr \<Rightarrow> int \<Rightarrow> bool \<Rightarrow> (handle \<Rightarrow> bool) \<Rightarrow> (int \<times> cache_t \<times> handle list) res" where
  "cache_finish_loading c p now realloc_ok closing =
     (case p of None \<Rightarrow> Inr (-1, c, [])
      | Some a \<Rightarrow> rbind (deref (entries c) p) (\<lambda>e.
          if \<not> is_loading e then Inr (-1, c, [])
          else let e = e\<lparr>last_accessed := now, is_loading := False\<rparr>; current = data_size e;
                   e = (if allocated_size e > current then
                          if current = 0 then e\<lparr>data_live := False\<rparr>
                          else if realloc_ok then e\<lparr>allocated_size := current\<rparr> else e
                        else e)
               in Inr (0, c\<lparr>entries := (entries c)(a \<mapsto> e)\<rparr>, notify_waiting_clients closing e)))"

text \<open>
  Unlinking: \<open>prev->next = next\<close>, or \<open>bucket->head = next\<close> when there is no \<open>prev\<close>. What follows
  \<open>prev\<close> (or the head) is then the part of the list from \<open>next\<close> on.
\<close>

definition relink :: "addr list \<Rightarrow> ptr \<Rightarrow> ptr \<Rightarrow> addr list" where
  "relink as prev nxt =
     (case prev of None \<Rightarrow> [] | Some p \<Rightarrow> takeWhile (\<lambda>x. x \<noteq> p) as @ [p])
     @ (case nxt of None \<Rightarrow> [] | Some n \<Rightarrow> dropWhile (\<lambda>x. x \<noteq> n) as)"

definition head_ptr :: "addr list \<Rightarrow> ptr" where
  "head_ptr as = (case as of [] \<Rightarrow> None | a # _ \<Rightarrow> Some a)"

fun cancel_from :: "cache_entry_t heap \<Rightarrow> cstring \<Rightarrow> addr list \<Rightarrow> ptr \<Rightarrow> addr list \<Rightarrow> (addr \<times> addr list) option res" where
  "cancel_from h key full prev [] = Inr None"
| "cancel_from h key full prev (a # as) = rbind (deref h (Some a)) (\<lambda>e.
     if ekey e = key \<and> is_loading e then Inr (Some (a, relink full prev (head_ptr as)))
     else cancel_from h key full (Some a) as)"

definition cache_cancel_loading :: "cache_t \<Rightarrow> cstring \<Rightarrow> (int \<times> cache_t) res" where
  "cache_cancel_loading c key =
     rbind (bucket_of c key) (\<lambda>i.
       let b = buckets c ! i in
       rbind (cancel_from (entries c) key (chain_of b) None (chain_of b)) (\<lambda>r.
         case r of
           None \<Rightarrow> Inr (-1, c)
         | Some (a, as) \<Rightarrow>
             let c = c\<lparr>buckets := (buckets c)[i := b\<lparr>chain_of := as\<rparr>],
                       current_entries := current_entries c - 1\<rparr>
             in rbind (free_entry (entries c) a) (\<lambda>h. Inr (0, c\<lparr>entries := h\<rparr>))))"

text \<open>
  The inner loop of \<open>cache_clean_expired\<close> over the entries \<open>as\<close> that are left of a bucket whose
  list is \<open>chain_of b\<close>. An entry that is loading is passed over without becoming \<open>prev\<close>.
\<close>

fun clean_bucket :: "int \<Rightarrow> nat \<Rightarrow> ptr \<Rightarrow> addr list \<Rightarrow> cache_t \<Rightarrow> cache_t res" where
  "clean_bucket now i prev [] c = Inr c"
| "clean_bucket now i prev (a # as) c = rbind (deref (entries c) (Some a)) (\<lambda>e.
     if is_loading e then clean_bucket now i prev as c
     else if last_accessed e + default_ttl c < now then
       let b = buckets c ! i;
           c = c\<lparr>buckets := (buckets c)[i := b\<lparr>chain_of := relink (chain_of b) prev (head_ptr as)\<rparr>],
                 current_size := current_size c - allocated_size e,
                 current_entries := current_entries c - 1\<rparr>
       in rbind (free_entry (entries c) a) (\<lambda>h. clean_bucket now i prev as (c\<lparr>entries := h\<rparr>))
     else clean_bucket now i (Some a) as c)"

fun clean_buckets :: "int \<Rightarrow> nat list \<Rightarrow> cache_t \<Rightarrow> cache_t res" where
  "clean_buckets now [] c = Inr c"
| "clean_buckets now (i # is) c =
     rbind (clean_bucket now i None (chain_of (buckets c ! i)) c) (\<lambda>c. clean_buckets now is c)"

definition cache_clean_expired :: "cache_t \<Rightarrow> int \<Rightarrow> cache_t res" where
  "cache_clean_expired c now = clean_buckets now [0..<unat (num_buckets c)] c"

text \<open>
  Registering a client. \<open>waiter_ok\<close> and \<open>table_ok\<close>: whether \<open>create_waiter\<close> and the allocation of
  a table entry succeed (the copy of its key by \<open>strdup\<close> always does here). When \<open>create_waiter\<close> fails the code unlocks the
  \<open>waiters_mutex\<close> of the bucket's first entry, which it has not locked; and there is no entry when the bucket is empty.
\<close>

fun add_pending :: "cstring \<Rightarrow> handle \<Rightarrow> (cstring \<times> handle list) list \<Rightarrow> (cstring \<times> handle list) list option" where
  "add_pending key w [] = None"
| "add_pending key w ((k, ws) # rest) =
     (if k = key then Some ((k, w # ws) # rest) else map_option (Cons (k, ws)) (add_pending key w rest))"

definition cache_register_waiter :: "cache_t \<Rightarrow> cstring \<Rightarrow> handle \<Rightarrow> bool \<Rightarrow> bool \<Rightarrow> (int \<times> cache_t) res" where
  "cache_register_waiter c key w waiter_ok table_ok =
     rbind (bucket_of c key) (\<lambda>i.
       let b = buckets c ! i in
       if \<not> waiter_ok then Inl (if chain_of b = [] then NullDeref else BadUnlock)
       else rbind (search (entries c) key (chain_of b)) (\<lambda>p.
         case p of
           Some a \<Rightarrow> rbind (store (entries c) p (\<lambda>e. e\<lparr>waiting_clients := w # waiting_clients e\<rparr>))
             (\<lambda>h. Inr (0, c\<lparr>entries := h\<rparr>))
         | None \<Rightarrow> (case add_pending key w (pending_waiters b) of
             Some tbl \<Rightarrow> Inr (0, c\<lparr>buckets := (buckets c)[i := b\<lparr>pending_waiters := tbl\<rparr>]\<rparr>)
           | None \<Rightarrow>
               if \<not> table_ok then Inr (-1, c)
               else Inr (0, c\<lparr>buckets := (buckets c)[i := b\<lparr>pending_waiters := (key, [w]) # pending_waiters b\<rparr>]\<rparr>))))"

definition cache_unregister_waiter :: "cache_t \<Rightarrow> cstring \<Rightarrow> handle \<Rightarrow> (int \<times> cache_t) res" where
  "cache_unregister_waiter c key w =
     rbind (bucket_of c key) (\<lambda>i.
     rbind (search (entries c) key (chain_of (buckets c ! i))) (\<lambda>p.
       case p of
         None \<Rightarrow> Inr (-1, c)
       | Some a \<Rightarrow> rbind (store (entries c) p (\<lambda>e. e\<lparr>waiting_clients := remove1 w (waiting_clients e)\<rparr>))
           (\<lambda>h. Inr (0, c\<lparr>entries := h\<rparr>))))"

section \<open>Invariant\<close>

definition entry_ok :: "cache_entry_t \<Rightarrow> bool" where
  "entry_ok e \<longleftrightarrow> unat (data_size e) = length (edata e) \<and> data_size e \<le> allocated_size e
     \<and> (is_loading e \<longrightarrow> 0 < allocated_size e \<and> data_live e)
     \<and> (data_live e \<or> data_size e = 0)"

text \<open>
  The table is well formed: every listed entry is allocated, in the bucket its key hashes to, and
  no key is listed twice; every allocated entry is consistent, and \<open>current_entries\<close> is their
  number modulo \<open>2 ^ 64\<close>.
\<close>

definition chain_ok :: "cache_t \<Rightarrow> nat \<Rightarrow> bool" where
  "chain_ok c i \<longleftrightarrow> distinct (chain_of (buckets c ! i))
     \<and> (\<forall>a \<in> set (chain_of (buckets c ! i)). \<exists>e. entries c a = Some e \<and> bucket_of c (ekey e) = Inr i)
     \<and> inj_on (\<lambda>a. ekey (the (entries c a))) (set (chain_of (buckets c ! i)))"

definition cache_inv :: "cache_t \<Rightarrow> bool" where
  "cache_inv c \<longleftrightarrow>
     num_buckets c \<noteq> 0 \<and> length (buckets c) = unat (num_buckets c)
     \<and> finite (dom (entries c)) \<and> current_entries c = of_nat (card (dom (entries c)))
     \<and> (\<forall>a e. entries c a = Some e \<longrightarrow> entry_ok e)
     \<and> (\<forall>i < length (buckets c). chain_ok c i)"

text \<open>The entry a key finds, and what the cache holds for it: whether it is loading, and its bytes.\<close>

definition entry_at :: "cache_t \<Rightarrow> cstring \<Rightarrow> addr option" where
  "entry_at c key = (case bucket_of c key of Inl _ \<Rightarrow> None
     | Inr i \<Rightarrow> (case search (entries c) key (chain_of (buckets c ! i)) of Inl _ \<Rightarrow> None | Inr p \<Rightarrow> p))"

definition contents :: "cache_t \<Rightarrow> cstring \<rightharpoonup> bool \<times> byte list" where
  "contents c key = map_option (\<lambda>a. let e = the (entries c a) in (is_loading e, edata e)) (entry_at c key)"

end
