(* ===== verification/Cache_Laws.thy ===== *)
theory Cache_Laws
  imports Cache
begin

text \<open>
  Every operation of the cache keeps its invariant, and what each does to the map from keys to
  (loading flag, bytes) that the cache stands for.
\<close>

section \<open>Buckets and searching\<close>

lemma bucket_of_fields [simp]:
  "bucket_of (c\<lparr>entries := h\<rparr>) key = bucket_of c key"
  "bucket_of (c\<lparr>hits := n\<rparr>) key = bucket_of c key"
  "bucket_of (c\<lparr>misses := n\<rparr>) key = bucket_of c key"
  "bucket_of (c\<lparr>current_size := n\<rparr>) key = bucket_of c key"
  "bucket_of (c\<lparr>current_entries := n\<rparr>) key = bucket_of c key"
  "bucket_of (c\<lparr>buckets := (buckets c)[i := b]\<rparr>) key = bucket_of c key"
  by (simp_all add: bucket_of_def)

lemma bucket_of_cong:
  "num_buckets c' = num_buckets c \<Longrightarrow> length (buckets c') = length (buckets c) \<Longrightarrow>
   bucket_of c' key = bucket_of c key"
  by (simp add: bucket_of_def)

lemma bucket_of_ok:
  assumes "cache_inv c"
  shows "\<exists>i < length (buckets c). bucket_of c key = Inr i"
proof -
  from assms have n: "num_buckets c \<noteq> 0" "length (buckets c) = unat (num_buckets c)"
    by (auto simp: cache_inv_def)
  then have "unat (fold hash_step key 5381 mod num_buckets c) < unat (num_buckets c)"
    by (simp add: unat_mod unat_gt_0)
  with n show ?thesis by (simp add: bucket_of_def cache_hash_def)
qed

lemma bucket_of_bound: "bucket_of c key = Inr i \<Longrightarrow> i < length (buckets c)"
  by (auto simp: bucket_of_def rbind_eq_Inr split: if_splits)

lemma search_find:
  "(\<And>a. a \<in> set as \<Longrightarrow> h a \<noteq> None) \<Longrightarrow>
   search h key as = Inr (find (\<lambda>a. ekey (the (h a)) = key) as)"
proof (induction as)
  case (Cons a as)
  then obtain e where "h a = Some e" by fastforce
  with Cons show ?case by simp
qed simp

lemma cache_inv_chain:
  assumes "cache_inv c" "i < length (buckets c)"
  shows "chain_ok c i" "distinct (chain_of (buckets c ! i))"
    "a \<in> set (chain_of (buckets c ! i)) \<Longrightarrow> \<exists>e. entries c a = Some e \<and> bucket_of c (ekey e) = Inr i"
  using assms by (auto simp: cache_inv_def chain_ok_def)

lemma search_ok:
  assumes "cache_inv c" "bucket_of c key = Inr i"
  shows "search (entries c) key (chain_of (buckets c ! i)) = Inr (entry_at c key)"
proof -
  from assms have "i < length (buckets c)" by (blast dest: bucket_of_bound)
  then have "\<And>a. a \<in> set (chain_of (buckets c ! i)) \<Longrightarrow> entries c a \<noteq> None"
    using cache_inv_chain(3) [OF assms(1)] by fastforce
  then show ?thesis using assms(2) by (simp add: entry_at_def search_find)
qed

lemma entry_at_iff:
  assumes "cache_inv c" "bucket_of c key = Inr i"
  shows "entry_at c key = Some a \<longleftrightarrow>
    a \<in> set (chain_of (buckets c ! i)) \<and> ekey (the (entries c a)) = key"
proof -
  let ?as = "chain_of (buckets c ! i)"
  from assms have i: "i < length (buckets c)" by (blast dest: bucket_of_bound)
  have live: "\<And>a. a \<in> set ?as \<Longrightarrow> entries c a \<noteq> None"
    using cache_inv_chain(3) [OF assms(1) i] by fastforce
  have eq: "entry_at c key = find (\<lambda>a. ekey (the (entries c a)) = key) ?as"
    using search_find [of ?as "entries c" key] live assms(2) by (simp add: entry_at_def)
  have inj: "inj_on (\<lambda>a. ekey (the (entries c a))) (set ?as)"
    using cache_inv_chain(1) [OF assms(1) i] by (simp add: chain_ok_def)
  show ?thesis
  proof
    assume "entry_at c key = Some a"
    with eq have "find (\<lambda>a. ekey (the (entries c a)) = key) ?as = Some a" by simp
    then show "a \<in> set ?as \<and> ekey (the (entries c a)) = key" by (rule find_SomeD)
  next
    assume a: "a \<in> set ?as \<and> ekey (the (entries c a)) = key"
    then obtain b where b: "find (\<lambda>a. ekey (the (entries c a)) = key) ?as = Some b"
      by (cases "find (\<lambda>a. ekey (the (entries c a)) = key) ?as") (auto simp: find_None_iff)
    then have "b \<in> set ?as" "ekey (the (entries c b)) = key" by (auto dest: find_SomeD)
    with a inj have "a = b" by (auto dest: inj_onD)
    with b eq show "entry_at c key = Some a" by simp
  qed
qed

lemma entry_at_live:
  assumes "cache_inv c" "entry_at c key = Some a"
  shows "\<exists>e. entries c a = Some e \<and> ekey e = key \<and> entry_ok e"
proof -
  obtain i where i: "i < length (buckets c)" "bucket_of c key = Inr i"
    using bucket_of_ok [OF assms(1)] by blast
  with assms entry_at_iff [of c key i a] cache_inv_chain(3) [OF assms(1) i(1), of a] obtain e
    where "entries c a = Some e" "ekey e = key" by auto
  with assms(1) show ?thesis by (auto simp: cache_inv_def)
qed

lemma contents_Some:
  assumes "cache_inv c"
  shows "contents c key = Some (ld, d) \<longleftrightarrow>
    (\<exists>a e. entry_at c key = Some a \<and> entries c a = Some e \<and> ekey e = key \<and> entry_ok e
       \<and> is_loading e = ld \<and> edata e = d)"
  using entry_at_live [OF assms, of key]
  by (auto simp: contents_def Let_def)

lemma contents_None: "contents c key = None \<longleftrightarrow> entry_at c key = None"
  by (simp add: contents_def)

text \<open>Two keys never find the same entry.\<close>

lemma entry_at_inj:
  assumes "cache_inv c" "entry_at c key = Some a" "entry_at c key' = Some a"
  shows "key = key'"
  using entry_at_live [OF assms(1,2)] entry_at_live [OF assms(1,3)] by auto

section \<open>Updates that keep the shape of the table\<close>

lemma cache_inv_counters [simp]:
  "cache_inv (c\<lparr>hits := n\<rparr>) = cache_inv c" "cache_inv (c\<lparr>misses := n\<rparr>) = cache_inv c"
  "cache_inv (c\<lparr>current_size := n\<rparr>) = cache_inv c"
  by (simp_all add: cache_inv_def chain_ok_def)

lemma entry_at_counters [simp]:
  "entry_at (c\<lparr>hits := n\<rparr>) key = entry_at c key" "entry_at (c\<lparr>misses := n\<rparr>) key = entry_at c key"
  "entry_at (c\<lparr>current_size := n\<rparr>) key = entry_at c key"
  by (simp_all add: entry_at_def cong: sum.case_cong)

lemma contents_counters [simp]:
  "contents (c\<lparr>hits := n\<rparr>) = contents c" "contents (c\<lparr>misses := n\<rparr>) = contents c"
  "contents (c\<lparr>current_size := n\<rparr>) = contents c"
  by (simp_all add: contents_def fun_eq_iff)

lemma cache_inv_update_entry:
  assumes "cache_inv c" "entries c a = Some e" "ekey e' = ekey e" "entry_ok e'"
  shows "cache_inv (c\<lparr>entries := (entries c)(a \<mapsto> e')\<rparr>)"
proof -
  have d: "dom ((entries c)(a \<mapsto> e')) = dom (entries c)" using assms(2) by auto
  have k: "\<And>x. ekey (the (((entries c)(a \<mapsto> e')) x)) = ekey (the (entries c x))"
    using assms(2,3) by simp
  have "chain_ok (c\<lparr>entries := (entries c)(a \<mapsto> e')\<rparr>) i" if "chain_ok c i" for i
    using that assms(2,3) k by (auto simp: chain_ok_def)
  with assms d show ?thesis by (auto simp: cache_inv_def)
qed

lemma entry_at_update_entry:
  assumes "cache_inv c" "entries c a = Some e" "ekey e' = ekey e" "entry_ok e'"
  shows "entry_at (c\<lparr>entries := (entries c)(a \<mapsto> e')\<rparr>) key = entry_at c key"
proof -
  let ?c = "c\<lparr>entries := (entries c)(a \<mapsto> e')\<rparr>"
  obtain i where i: "bucket_of c key = Inr i" using bucket_of_ok [OF assms(1)] by blast
  have inv: "cache_inv ?c" by (rule cache_inv_update_entry [OF assms])
  have "entry_at ?c key = Some b \<longleftrightarrow> entry_at c key = Some b" for b
    using entry_at_iff [OF inv, of key i b] entry_at_iff [OF assms(1) i, of b] i assms(2,3)
    by auto
  then show ?thesis by (rule option_eqI)
qed

lemma contents_update_entry:
  assumes "cache_inv c" "entry_at c key = Some a" "entries c a = Some e" "ekey e' = ekey e" "entry_ok e'"
  shows "contents (c\<lparr>entries := (entries c)(a \<mapsto> e')\<rparr>) = (contents c)(key \<mapsto> (is_loading e', edata e'))"
proof
  fix k
  have same: "entry_at (c\<lparr>entries := (entries c)(a \<mapsto> e')\<rparr>) k = entry_at c k"
    by (rule entry_at_update_entry [OF assms(1,3,4,5)])
  show "contents (c\<lparr>entries := (entries c)(a \<mapsto> e')\<rparr>) k = ((contents c)(key \<mapsto> (is_loading e', edata e'))) k"
  proof (cases "k = key")
    case True
    with same assms(2) show ?thesis by (simp add: contents_def Let_def)
  next
    case False
    with entry_at_inj [OF assms(1) _ assms(2), of k] have "entry_at c k \<noteq> Some a" by blast
    with False same show ?thesis by (cases "entry_at c k") (auto simp: contents_def Let_def)
  qed
qed

lemma contents_update_same:
  assumes "cache_inv c" "entries c a = Some e" "ekey e' = ekey e" "entry_ok e'"
    and "is_loading e' = is_loading e" "edata e' = edata e"
  shows "contents (c\<lparr>entries := (entries c)(a \<mapsto> e')\<rparr>) = contents c"
proof
  fix k
  have "entry_at (c\<lparr>entries := (entries c)(a \<mapsto> e')\<rparr>) k = entry_at c k"
    by (rule entry_at_update_entry [OF assms(1-4)])
  with assms(2,5,6) show "contents (c\<lparr>entries := (entries c)(a \<mapsto> e')\<rparr>) k = contents c k"
    by (cases "entry_at c k") (auto simp: contents_def Let_def)
qed

section \<open>Lookup\<close>

text \<open>
  What a lookup answers, as a function of what the cache holds for the key, of the number of bytes
  the reader already has and of the most it takes (0: all, and only when loading is over).
\<close>

fun lookup_spec :: "(bool \<times> byte list) option \<Rightarrow> nat \<Rightarrow> nat \<Rightarrow> lookup_out \<Rightarrow> cache_status_t \<times> lookup_out" where
  "lookup_spec None off m out = (CACHE_NOT_FOUND, out)"
| "lookup_spec (Some (ld, d)) off m out =
     (let out = out\<lparr>out_loading := ld\<rparr>; s = (if m = 0 then drop off d else take m (drop off d)) in
      if \<not> ld \<and> m = 0 then (CACHE_FOUND, out\<lparr>out_data := Some d, out_size := of_nat (length d)\<rparr>)
      else if ld \<and> off \<ge> length d then (CACHE_NEW_NOT_LOADED, out)
      else if off > length d then (CACHE_ERROR, out)
      else if s \<noteq> [] then (CACHE_NEW_LOADED, out\<lparr>out_data := Some s, out_size := of_nat (length s)\<rparr>)
      else (CACHE_DONE, out\<lparr>out_data := None, out_size := 0\<rparr>))"

lemma copy_size_min:
  fixes cur off m :: usize
  assumes "off \<le> cur"
  shows "unat (if m > 0 \<and> cur - off > m then m else cur - off)
    = (if unat m = 0 then unat cur - unat off else min (unat m) (unat cur - unat off))"
  using assms by (auto simp: word_less_nat_alt word_le_nat_alt unat_sub unat_gt_0 unat_eq_0 min_def)

lemma entry_ok_accessed [simp]:
  "entry_ok (e\<lparr>last_accessed := now\<rparr>) = entry_ok e"
  "entry_ok (e\<lparr>waiting_clients := ws\<rparr>) = entry_ok e"
  by (simp_all add: entry_ok_def)

text \<open>The bytes a lookup copies: their number, as the code computes it, and that they are inside the buffer.\<close>

definition packet :: "byte list \<Rightarrow> nat \<Rightarrow> nat \<Rightarrow> byte list" where
  "packet d off m = (if m = 0 then drop off d else take m (drop off d))"

lemma packet_size:
  fixes cur off m :: usize
  assumes "unat cur = length d" "off \<le> cur"
  defines "n \<equiv> if m > 0 \<and> cur - off > m then m else cur - off"
  shows "n = of_nat (length (packet d (unat off) (unat m)))" "(0 < n) = (packet d (unat off) (unat m) \<noteq> [])"
    "copy_out d (unat off) (unat n) = Inr (packet d (unat off) (unat m))"
proof -
  let ?p = "packet d (unat off) (unat m)"
  have n: "unat n = length ?p"
    using copy_size_min [OF assms(2), of m] assms(1) by (auto simp: packet_def min_def n_def)
  then show "n = of_nat (length ?p)" by (rule word_of_unat)
  from n show "(0 < n) = (?p \<noteq> [])" by (metis length_greater_0_conv unat_gt_0 word_neq_0_conv)
  have "unat off + length ?p \<le> length d" using assms by (auto simp: packet_def word_le_nat_alt)
  moreover have "take (length ?p) (drop (unat off) d) = ?p" by (cases "unat m = 0") (simp_all add: packet_def min_def)
  ultimately show "copy_out d (unat off) (unat n) = Inr ?p" using n by (simp add: copy_out_def)
qed

lemma lookup_spec_packet:
  assumes "\<not> (\<not> ld \<and> m = 0)" "\<not> (ld \<and> off \<ge> length d)" "\<not> off > length d"
  shows "lookup_spec (Some (ld, d)) off m out
    = (if packet d off m \<noteq> [] then (CACHE_NEW_LOADED, out\<lparr>out_loading := ld, out_data := Some (packet d off m), out_size := of_nat (length (packet d off m))\<rparr>)
       else (CACHE_DONE, out\<lparr>out_loading := ld, out_data := None, out_size := 0\<rparr>))"
  using assms by (auto simp: packet_def Let_def)

lemma lookup_answer:
  assumes inv: "cache_inv c" and a: "entry_at c key = Some a" and e: "entries c a = Some e"
  shows "\<exists>c'. cache_lookup_partial c key off m now True out
      = (case lookup_spec (contents c key) (unat off) (unat m) out of (st, out') \<Rightarrow> Inr (st, out', c'))
    \<and> c' \<in> {c, c\<lparr>entries := (entries c)(a \<mapsto> e\<lparr>last_accessed := now\<rparr>), hits := hits c + 1\<rparr>}"
proof -
  obtain i where i: "bucket_of c key = Inr i" using bucket_of_ok [OF inv] by blast
  note s = search_ok [OF inv i] and live = entry_at_live [OF inv a]
  from live e have sz: "unat (data_size e) = length (edata e)" by (auto simp: entry_ok_def)
  then have ds: "data_size e = of_nat (length (edata e))" by (rule word_of_unat)
  from inv a e live have ct: "contents c key = Some (is_loading e, edata e)" by (auto simp: contents_Some)
  show ?thesis
  proof (cases "\<not> is_loading e \<and> m = 0 \<or> is_loading e \<and> off \<ge> data_size e \<or> off > data_size e")
    case True
    then show ?thesis using i s a e ct sz ds
      by (auto simp: cache_lookup_partial_def Let_def copy_out_def word_le_nat_alt word_less_nat_alt unat_eq_0)
  next
    case False
    then have off: "off \<le> data_size e" by (auto simp: not_less)
    have spec: "lookup_spec (contents c key) (unat off) (unat m) out
        = (let p = packet (edata e) (unat off) (unat m) in
           if p \<noteq> [] then (CACHE_NEW_LOADED, out\<lparr>out_loading := is_loading e, out_data := Some p, out_size := of_nat (length p)\<rparr>)
           else (CACHE_DONE, out\<lparr>out_loading := is_loading e, out_data := None, out_size := 0\<rparr>))"
      unfolding ct Let_def using False sz
      by (intro lookup_spec_packet) (auto simp: word_le_nat_alt word_less_nat_alt unat_eq_0)
    show ?thesis unfolding spec
      using False i s a e packet_size [OF sz off, of m]
      by (cases "packet (edata e) (unat off) (unat m) = []") (auto simp: cache_lookup_partial_def Let_def)
  qed
qed

lemma lookup_run:
  assumes inv: "cache_inv c"
  shows "\<exists>st out' c'. cache_lookup_partial c key off m now True out = Inr (st, out', c')
    \<and> (st, out') = lookup_spec (contents c key) (unat off) (unat m) out
    \<and> cache_inv c' \<and> contents c' = contents c \<and> entry_at c' = entry_at c \<and> (\<forall>a. entries c a = None \<longrightarrow> entries c' a = None)"
proof (cases "entry_at c key")
  case None
  obtain i where i: "bucket_of c key = Inr i" using bucket_of_ok [OF inv] by blast
  from None have "contents c key = None" by (simp add: contents_None)
  with None search_ok [OF inv i] i inv show ?thesis by (simp add: cache_lookup_partial_def fun_eq_iff)
next
  case (Some a)
  from entry_at_live [OF inv Some] obtain e where e: "entries c a = Some e" "entry_ok e" by blast
  let ?c = "c\<lparr>entries := (entries c)(a \<mapsto> e\<lparr>last_accessed := now\<rparr>)\<rparr>"
  have "cache_inv ?c" "contents ?c = contents c" "entry_at ?c = entry_at c" "\<And>b. entries c b = None \<Longrightarrow> entries ?c b = None"
    using e by (auto intro!: cache_inv_update_entry [OF inv e(1)] contents_update_same [OF inv e(1)]
      entry_at_update_entry [OF inv e(1)])
  with lookup_answer [OF inv Some e(1), of off m now out] inv show ?thesis
    by (cases "lookup_spec (contents c key) (unat off) (unat m) out") (auto simp: fun_eq_iff)
qed

lemma lookup_partial_correct:
  assumes "cache_inv c"
  shows "\<exists>st out' c'. cache_lookup_partial c key off m now True out = Inr (st, out', c')
    \<and> (st, out') = lookup_spec (contents c key) (unat off) (unat m) out
    \<and> cache_inv c' \<and> contents c' = contents c"
  using lookup_run [OF assms] by blast

text \<open>The answers for which a lookup has copied bytes; without memory for the copy it faults instead.\<close>

fun copies :: "cache_status_t \<times> lookup_out \<Rightarrow> bool" where
  "copies (st, out) \<longleftrightarrow> st \<in> {CACHE_FOUND, CACHE_NEW_LOADED} \<and> out_size out > 0"

lemma lookup_memory:
  assumes inv: "cache_inv c"
  shows "cache_lookup_partial c key off m now malloc_ok out
    = (if malloc_ok \<or> \<not> copies (lookup_spec (contents c key) (unat off) (unat m) out)
       then cache_lookup_partial c key off m now True out else Inl NullDeref)"
proof (cases "entry_at c key")
  case None
  obtain i where i: "bucket_of c key = Inr i" using bucket_of_ok [OF inv] by blast
  from None have "contents c key = None" by (simp add: contents_None)
  with None search_ok [OF inv i] i show ?thesis by (simp add: cache_lookup_partial_def)
next
  case (Some a)
  obtain i where i: "bucket_of c key = Inr i" using bucket_of_ok [OF inv] by blast
  from entry_at_live [OF inv Some] obtain e where e: "entries c a = Some e" "entry_ok e" by blast
  note s = search_ok [OF inv i]
  from e have sz: "unat (data_size e) = length (edata e)" by (auto simp: entry_ok_def)
  then have ds: "data_size e = of_nat (length (edata e))" by (rule word_of_unat)
  from inv Some e entry_at_live [OF inv Some] have ct: "contents c key = Some (is_loading e, edata e)" by (auto simp: contents_Some)
  show ?thesis
  proof (cases "\<not> is_loading e \<and> m = 0 \<or> is_loading e \<and> off \<ge> data_size e \<or> off > data_size e")
    case True
    then show ?thesis using i s Some e(1) ct sz ds
      by (auto simp: cache_lookup_partial_def Let_def word_le_nat_alt word_less_nat_alt unat_eq_0)
  next
    case False
    then have off: "off \<le> data_size e" by (auto simp: not_less)
    define p where "p = packet (edata e) (unat off) (unat m)"
    define n where "n = (if 0 < m \<and> m < data_size e - off then m else data_size e - off)"
    have n: "n = of_nat (length p)" "(0 < n) = (p \<noteq> [])" "copy_out (edata e) (unat off) (unat n) = Inr p"
      using packet_size [OF sz off, of m] by (simp_all add: p_def n_def)
    have "lookup_spec (contents c key) (unat off) (unat m) out
        = (if p \<noteq> [] then (CACHE_NEW_LOADED, out\<lparr>out_loading := is_loading e, out_data := Some p, out_size := n\<rparr>)
           else (CACHE_DONE, out\<lparr>out_loading := is_loading e, out_data := None, out_size := 0\<rparr>))"
      unfolding ct n(1) p_def using False sz
      by (subst lookup_spec_packet) (auto simp: word_le_nat_alt word_less_nat_alt unat_eq_0)
    then have "copies (lookup_spec (contents c key) (unat off) (unat m) out) \<longleftrightarrow> p \<noteq> []" using n(2) by simp
    moreover have "cache_lookup_partial c key off m now ok out
        = (if p \<noteq> [] then if ok then Inr (CACHE_NEW_LOADED, out\<lparr>out_loading := is_loading e, out_data := Some p, out_size := n\<rparr>,
             c\<lparr>entries := (entries c)(a \<mapsto> e\<lparr>last_accessed := now\<rparr>), hits := hits c + 1\<rparr>) else Inl NullDeref
           else Inr (CACHE_DONE, out\<lparr>out_loading := is_loading e, out_data := None, out_size := 0\<rparr>, c))" for ok
    proof -
      have "\<not> (\<not> is_loading e \<and> m = 0)" "\<not> (is_loading e \<and> off \<ge> data_size e)" "\<not> off > data_size e" using False by auto
      note this [simp]
      show ?thesis unfolding cache_lookup_partial_def using i s Some e(1) n(2,3)
        by (cases "p = []"; cases ok; simp add: Let_def n_def [symmetric] split del: if_split)
    qed
    ultimately show ?thesis by simp
  qed
qed

lemma lookup_any_memory:
  assumes "cache_inv c"
  shows "if malloc_ok \<or> \<not> copies (lookup_spec (contents c key) (unat off) (unat m) out)
    then \<exists>st out' c'. cache_lookup_partial c key off m now malloc_ok out = Inr (st, out', c')
      \<and> (st, out') = lookup_spec (contents c key) (unat off) (unat m) out
      \<and> cache_inv c' \<and> contents c' = contents c
      \<and> entry_at c' = entry_at c \<and> (\<forall>a. entries c a = None \<longrightarrow> entries c' a = None)
    else cache_lookup_partial c key off m now malloc_ok out = Inl NullDeref"
  using lookup_run [OF assms, of key off m now out] lookup_memory [OF assms, of key off m now malloc_ok out]
  by (cases malloc_ok) simp_all

section \<open>Adding and removing entries\<close>

lemma chain_ok_other_bucket:
  assumes "chain_ok c i" "i \<noteq> j"
    and "\<And>x. x \<in> set (chain_of (buckets c ! i)) \<Longrightarrow> h x = entries c x"
  shows "chain_ok (c\<lparr>entries := h, buckets := (buckets c)[j := b], current_entries := n\<rparr>) i"
  using assms by (auto simp: chain_ok_def bucket_of_def inj_on_def)

lemma cache_inv_insert:
  assumes inv: "cache_inv c" and i: "bucket_of c (ekey e) = Inr i" and a: "entries c a = None"
    and new: "entry_at c (ekey e) = None" and ok: "entry_ok e"
    and b: "chain_of b = a # chain_of (buckets c ! i)"
  shows "cache_inv (c\<lparr>entries := (entries c)(a \<mapsto> e), buckets := (buckets c)[i := b],
    current_entries := current_entries c + 1\<rparr>)" (is "cache_inv ?c")
proof -
  have il: "i < length (buckets c)" by (rule bucket_of_bound [OF i])
  have live: "x \<in> set (chain_of (buckets c ! j)) \<Longrightarrow> j < length (buckets c) \<Longrightarrow> entries c x \<noteq> None" for x j
    using cache_inv_chain(3) [OF inv] by fastforce
  have nokey: "ekey (the (entries c x)) \<noteq> ekey e" if "x \<in> set (chain_of (buckets c ! i))" for x
    using entry_at_iff [OF inv i, of x] new that by auto
  have bo: "bucket_of ?c k = bucket_of c k" for k by (rule bucket_of_cong) simp_all
  have chains: "chain_ok ?c j" if j: "j < length (buckets c)" for j
  proof (cases "j = i")
    case False
    moreover have "a \<notin> set (chain_of (buckets c ! j))" using live [of a j] j a by blast
    ultimately show ?thesis using cache_inv_chain(1) [OF inv j]
      by (intro chain_ok_other_bucket) auto
  next
    case True
    have an: "a \<notin> set (chain_of (buckets c ! i))" using live [of a i] il a by blast
    have old: "chain_ok c i" by (rule cache_inv_chain(1) [OF inv il])
    let ?k = "\<lambda>x. ekey (the (((entries c)(a \<mapsto> e)) x))"
    have "inj_on ?k (set (chain_of (buckets c ! i)))
        = inj_on (\<lambda>x. ekey (the (entries c x))) (set (chain_of (buckets c ! i)))"
      using an by (intro inj_on_cong) auto
    moreover have "?k a \<notin> ?k ` set (chain_of (buckets c ! i))"
    proof
      assume "?k a \<in> ?k ` set (chain_of (buckets c ! i))"
      then obtain x where "x \<in> set (chain_of (buckets c ! i))" "?k a = ?k x" by (rule imageE)
      with an nokey [of x] show False by (cases "x = a") simp_all
    qed
    ultimately have "inj_on ?k (insert a (set (chain_of (buckets c ! i))))"
      using old an by (simp add: chain_ok_def)
    moreover have "\<forall>x \<in> insert a (set (chain_of (buckets c ! i))).
        \<exists>e'. ((entries c)(a \<mapsto> e)) x = Some e' \<and> bucket_of c (ekey e') = Inr i"
      using old an i by (auto simp: chain_ok_def)
    ultimately show ?thesis using True an il old b bo by (simp add: chain_ok_def)
  qed
  have "card (insert a (dom (entries c))) = Suc (card (dom (entries c)))"
    using inv a by (intro card_insert_disjoint) (auto simp: cache_inv_def)
  with inv ok chains show ?thesis by (auto simp: cache_inv_def of_nat_Suc_word)
qed

lemma contents_insert:
  assumes inv: "cache_inv c" and i: "bucket_of c (ekey e) = Inr i" and a: "entries c a = None"
    and new: "entry_at c (ekey e) = None" and ok: "entry_ok e"
    and b: "chain_of b = a # chain_of (buckets c ! i)"
  shows "entry_at (c\<lparr>entries := (entries c)(a \<mapsto> e), buckets := (buckets c)[i := b],
      current_entries := current_entries c + 1\<rparr>) k = (if k = ekey e then Some a else entry_at c k)"
    (is "entry_at ?c k = _")
proof -
  have inv': "cache_inv ?c" by (rule cache_inv_insert [OF assms])
  obtain j where j: "bucket_of c k = Inr j" "j < length (buckets c)" using bucket_of_ok [OF inv] by blast
  have bo: "bucket_of ?c k = Inr j" using j(1) bucket_of_cong [of ?c c k] by simp
  have live: "x \<in> set (chain_of (buckets c ! j)) \<Longrightarrow> x \<noteq> a" for x
    using cache_inv_chain(3) [OF inv j(2)] a by fastforce
  have il: "i < length (buckets c)" by (rule bucket_of_bound [OF i])
  have "entry_at ?c k = Some x \<longleftrightarrow> (if k = ekey e then Some a else entry_at c k) = Some x" for x
    using entry_at_iff [OF inv' bo, of x] entry_at_iff [OF inv j(1), of x] live b i j il new
    by (cases "j = i"; cases "x = a"; cases "k = ekey e") (auto simp: nth_list_update)
  then show ?thesis by (rule option_eqI)
qed

text \<open>
  Taking the entry \<open>a\<close> out of bucket \<open>i\<close> and freeing it, when the list of the bucket becomes
  \<open>as\<close>: the keys of that bucket that are found afterwards are those whose entry is in \<open>as\<close>.
\<close>

definition unlinked :: "cache_t \<Rightarrow> nat \<Rightarrow> addr \<Rightarrow> addr list \<Rightarrow> cache_t" where
  "unlinked c i a as = c\<lparr>entries := (entries c)(a := None),
     buckets := (buckets c)[i := (buckets c ! i)\<lparr>chain_of := as\<rparr>],
     current_entries := current_entries c - 1\<rparr>"

lemma cache_inv_unlinked:
  assumes inv: "cache_inv c" and i: "i < length (buckets c)" and a: "a \<in> set (chain_of (buckets c ! i))"
    and as: "distinct as" "set as \<subseteq> set (chain_of (buckets c ! i)) - {a}"
  shows "cache_inv (unlinked c i a as)"
proof -
  obtain e where e: "entries c a = Some e" "bucket_of c (ekey e) = Inr i"
    using cache_inv_chain(3) [OF inv i a] by blast
  have bo: "bucket_of (unlinked c i a as) k = bucket_of c k" for k
    by (rule bucket_of_cong) (simp_all add: unlinked_def)
  have chains: "chain_ok (unlinked c i a as) j" if j: "j < length (buckets c)" for j
  proof (cases "j = i")
    case False
    have "a \<notin> set (chain_of (buckets c ! j))" using cache_inv_chain(3) [OF inv j, of a] e False by auto
    with False show ?thesis using cache_inv_chain(1) [OF inv j] unfolding unlinked_def
      by (intro chain_ok_other_bucket) auto
  next
    case True
    have old: "chain_ok c i" by (rule cache_inv_chain(1) [OF inv i])
    have sub: "set as \<subseteq> set (chain_of (buckets c ! i))" "a \<notin> set as" using as(2) by auto
    have "inj_on (\<lambda>x. ekey (the (entries c x))) (set as)"
      using old sub(1) by (auto simp: chain_ok_def intro: inj_on_subset)
    then have "inj_on (\<lambda>x. ekey (the (((entries c)(a := None)) x))) (set as)"
      using sub(2) by (subst inj_on_cong [of _ _ "\<lambda>x. ekey (the (entries c x))"]) auto
    moreover have "\<exists>e. ((entries c)(a := None)) x = Some e \<and> bucket_of c (ekey e) = Inr i" if "x \<in> set as" for x
      using that old sub by (cases "x = a") (auto simp: chain_ok_def)
    ultimately show ?thesis using True i as(1) bo by (simp add: chain_ok_def unlinked_def)
  qed
  have fin: "finite (dom (entries c))" using inv by (simp add: cache_inv_def)
  have "card (dom (entries c)) = Suc (card (dom (entries c) - {a}))"
    using e(1) by (intro card.remove [OF fin]) auto
  then have "current_entries c - 1 = of_nat (card (dom (entries c) - {a}))"
    using inv by (simp add: cache_inv_def)
  with inv chains fin show ?thesis by (auto simp: cache_inv_def unlinked_def)
qed

lemma entry_at_unlinked:
  assumes "cache_inv c" "i < length (buckets c)" "a \<in> set (chain_of (buckets c ! i))"
    and "distinct as" "set as \<subseteq> set (chain_of (buckets c ! i)) - {a}"
  shows "entry_at (unlinked c i a as) k = (case entry_at c k of None \<Rightarrow> None
    | Some x \<Rightarrow> if x \<in> set (chain_of (buckets c ! i)) - set as then None else Some x)"
proof -
  have inv': "cache_inv (unlinked c i a as)" by (rule cache_inv_unlinked [OF assms])
  obtain j where j: "bucket_of c k = Inr j" "j < length (buckets c)" using bucket_of_ok [OF assms(1)] by blast
  have bo: "bucket_of (unlinked c i a as) k = Inr j"
    using j(1) bucket_of_cong [of "unlinked c i a as" c k] by (simp add: unlinked_def)
  have disj: "x \<notin> set (chain_of (buckets c ! i))" if "j \<noteq> i" "x \<in> set (chain_of (buckets c ! j))" for x
    using that cache_inv_chain(3) [OF assms(1) j(2), of x] cache_inv_chain(3) [OF assms(1,2), of x] by auto
  have iff: "entry_at (unlinked c i a as) k = Some x \<longleftrightarrow>
      entry_at c k = Some x \<and> x \<notin> set (chain_of (buckets c ! i)) - set as" for x
  proof (cases "j = i")
    case True
    have ch: "chain_of (buckets (unlinked c i a as) ! j) = as" using True assms(2) by (simp add: unlinked_def)
    have "entry_at (unlinked c i a as) k = Some x \<longleftrightarrow> x \<in> set as \<and> ekey (the (((entries c)(a := None)) x)) = k"
      using entry_at_iff [OF inv' bo, of x] ch by (simp add: unlinked_def)
    moreover have "entry_at c k = Some x \<longleftrightarrow> x \<in> set (chain_of (buckets c ! i)) \<and> ekey (the (entries c x)) = k"
      using entry_at_iff [OF assms(1) j(1), of x] True by simp
    ultimately show ?thesis using assms(5) by (cases "x = a") auto
  next
    case False
    have ch: "chain_of (buckets (unlinked c i a as) ! j) = chain_of (buckets c ! j)"
      using False by (simp add: unlinked_def)
    have "entry_at (unlinked c i a as) k = Some x \<longleftrightarrow>
        x \<in> set (chain_of (buckets c ! j)) \<and> ekey (the (((entries c)(a := None)) x)) = k"
      using entry_at_iff [OF inv' bo, of x] ch by (simp add: unlinked_def)
    with entry_at_iff [OF assms(1) j(1), of x] disj [OF False, of x] assms(3)
    show ?thesis by (cases "x = a") auto
  qed
  show ?thesis by (rule option_eqI, subst iff) (auto split: option.split)
qed

section \<open>Loading\<close>

text \<open>The allocator's block is not one of the cache's entries, and everything succeeds.\<close>

definition env_ok :: "cache_t \<Rightarrow> create_env \<Rightarrow> bool" where
  "env_ok c env \<longleftrightarrow> fresh (entries c) (got_entry env) \<and> got_key env \<and> got_rwlock env \<and> got_data env \<and> got_mutex env"

definition new_entry :: "cstring \<Rightarrow> int \<Rightarrow> handle list \<Rightarrow> cache_entry_t" where
  "new_entry key now ws = \<lparr>ekey = key, is_loading = True, edata = [], data_live = True, data_size = 0,
     allocated_size = 4096, last_accessed = now, waiting_clients = ws\<rparr>"

lemma create_entry_ok:
  assumes "env_ok c env"
  obtains a where "got_entry env = Some a" "entries c a = None"
    "create_entry key 4096 now env = Some (a, new_entry key now [])"
  using assms by (auto simp: env_ok_def create_entry_def new_entry_def Let_def elim!: freshE)

lemma start_loading_present:
  assumes "cache_inv c" "entry_at c key = Some a"
  shows "cache_start_loading c key now env = Inr (Some a, c)"
proof -
  obtain i where "bucket_of c key = Inr i" using bucket_of_ok [OF assms(1)] by blast
  with search_ok [OF assms(1) this] assms(2) show ?thesis by (simp add: cache_start_loading_def)
qed

lemma start_loading_absent:
  assumes inv: "cache_inv c" and none: "entry_at c key = None" and env: "env_ok c env"
  shows "\<exists>a c' ws. got_entry env = Some a \<and> cache_start_loading c key now env = Inr (Some a, c')
    \<and> entries c a = None \<and> entries c' = (entries c)(a \<mapsto> new_entry key now ws)
    \<and> cache_inv c' \<and> (\<forall>k. entry_at c' k = (if k = key then Some a else entry_at c k))"
proof -
  obtain i where i: "bucket_of c key = Inr i" using bucket_of_ok [OF inv] by blast
  obtain a where a: "got_entry env = Some a" "entries c a = None"
      "create_entry key 4096 now env = Some (a, new_entry key now [])"
    using create_entry_ok [OF env] by blast
  obtain ws tbl where cl: "claim_waiters key (pending_waiters (buckets c ! i)) = (ws, tbl)" by fastforce
  define b where "b = (buckets c ! i)\<lparr>chain_of := a # chain_of (buckets c ! i), pending_waiters := tbl\<rparr>"
  define c' where "c' = c\<lparr>entries := (entries c)(a \<mapsto> new_entry key now ws), buckets := (buckets c)[i := b],
    current_entries := current_entries c + 1\<rparr>"
  have run: "cache_start_loading c key now env = Inr (Some a, c')"
    using i search_ok [OF inv i] none a cl
    by (simp add: cache_start_loading_def Let_def c'_def b_def new_entry_def)
  have k: "ekey (new_entry key now ws) = key" "entry_ok (new_entry key now ws)"
    by (simp_all add: new_entry_def entry_ok_def)
  have b: "chain_of b = a # chain_of (buckets c ! i)" by (simp add: b_def)
  have "cache_inv c'" unfolding c'_def
    using k i none b by (intro cache_inv_insert [OF inv _ a(2) _ k(2)]) simp_all
  moreover have "entry_at c' k = (if k = key then Some a else entry_at c k)" for k
    unfolding c'_def using k i none b by (subst contents_insert [OF inv _ a(2) _ k(2)]) simp_all
  ultimately show ?thesis using a run by (auto simp: c'_def)
qed

lemma contents_start:
  assumes "cache_inv c" "entries c a = None" "entries c' = (entries c)(a \<mapsto> new_entry key now ws)"
    "\<forall>k. entry_at c' k = (if k = key then Some a else entry_at c k)"
  shows "contents c' = (contents c)(key \<mapsto> (True, []))"
proof
  fix k
  have "entry_at c k \<noteq> Some a" using entry_at_live [OF assms(1), of k a] assms(2) by auto
  with assms(3,4) show "contents c' k = ((contents c)(key \<mapsto> (True, []))) k"
    by (cases "entry_at c k") (auto simp: contents_def Let_def new_entry_def)
qed

text \<open>
  The doubling loop ends when the size it has to reach is at most \<open>2 ^ 63\<close>, and its result is at
  least that size: below \<open>2 ^ 63\<close> doubling does not wrap around.
\<close>

lemma grow_step: "n < need \<Longrightarrow> grow n need = grow (n * 2) need" "\<not> n < need \<Longrightarrow> grow n need = Some n"
  by (subst grow.simps; simp)+

lemma unat_double:
  fixes n :: usize
  assumes "unat n < 2 ^ 63"
  shows "unat (n * 2) = 2 * unat n"
  using assms by (simp add: unat_word_ariths)

lemma grow_ends:
  fixes n need :: usize
  assumes "0 < n" "unat need \<le> 2 ^ 63"
  shows "\<exists>r. grow n need = Some r \<and> need \<le> r \<and> n \<le> r"
  using assms(1)
proof (induction "unat need - unat n" arbitrary: n rule: less_induct)
  case less
  show ?case
  proof (cases "n < need")
    case False
    then show ?thesis using grow_step(2) by auto
  next
    case True
    with assms(2) have lt: "unat n < 2 ^ 63" "unat n < unat need" by (auto simp: word_less_nat_alt)
    note d = unat_double [OF lt(1)]
    have pos: "0 < unat n" using less.prems by (simp add: unat_gt_0 word_neq_0_conv)
    then have "unat need - unat (n * 2) < unat need - unat n" using d lt by linarith
    moreover have "0 < n * 2" using pos d by (simp add: word_less_nat_alt)
    ultimately obtain r where "grow (n * 2) need = Some r" "need \<le> r" "n * 2 \<le> r"
      using less.hyps by blast
    moreover have "n \<le> n * 2" using d by (simp add: word_le_nat_alt)
    ultimately show ?thesis using grow_step(1) [OF True] by auto
  qed
qed

text \<open>
  Appending a chunk to an entry that is loading: with memory it always succeeds, and the entry
  then holds the old bytes followed by the chunk.
\<close>

lemma append_entry:
  assumes inv: "cache_inv c" and e: "entries c a = Some e" "is_loading e"
    and room: "length (edata e) + length chunk \<le> 2 ^ 63"
  shows "\<exists>e'. cache_append_data c (Some a) chunk now True closing
      = Some (Inr (0, c\<lparr>entries := (entries c)(a \<mapsto> e')\<rparr>, notify_waiting_clients closing e'))
    \<and> ekey e' = ekey e \<and> is_loading e' \<and> edata e' = edata e @ chunk \<and> entry_ok e'
    \<and> waiting_clients e' = waiting_clients e"
proof -
  from inv e have ok: "entry_ok e" by (auto simp: cache_inv_def)
  let ?need = "data_size e + of_nat (length chunk)"
  have sz: "unat (data_size e) = length (edata e)" using ok by (simp add: entry_ok_def)
  have need: "unat ?need = length (edata e) + length chunk"
    using sz room by (simp add: unat_word_ariths unat_of_nat)
  have pos: "0 < allocated_size e" "data_live e" using ok e by (auto simp: entry_ok_def)
  define al where "al = (if ?need > allocated_size e then the (grow (allocated_size e) ?need) else allocated_size e)"
  define e' where "e' = e\<lparr>last_accessed := now, allocated_size := al, edata := edata e @ chunk, data_size := ?need\<rparr>"
  have al: "?need \<le> al" "0 < al"
  proof -
    show "?need \<le> al" using grow_ends [OF pos(1), of ?need] need room by (auto simp: al_def)
    have "allocated_size e \<le> al" using grow_ends [OF pos(1), of ?need] need room by (auto simp: al_def)
    with pos(1) show "0 < al" by (rule less_le_trans)
  qed
  have fits: "length (edata e) + length chunk \<le> unat al" using al need by (simp add: word_le_nat_alt)
  have "cache_append_data c (Some a) chunk now True closing
      = Some (Inr (0, c\<lparr>entries := (entries c)(a \<mapsto> e')\<rparr>, notify_waiting_clients closing e'))"
  proof (cases "?need > allocated_size e")
    case True
    then obtain r where r: "grow (allocated_size e) ?need = Some r" "al = r"
      using grow_ends [OF pos(1), of ?need] need room by (auto simp: al_def)
    with True e sz fits show ?thesis
      by (simp add: cache_append_data_def Let_def e'_def not_less)
  next
    case False
    then have "al = allocated_size e" by (simp add: al_def)
    with False e sz fits show ?thesis
      by (auto simp: cache_append_data_def Let_def e'_def dest: leD)
  qed
  moreover have "entry_ok e'" using need al pos e by (simp add: entry_ok_def e'_def)
  ultimately show ?thesis using e by (auto simp: e'_def)
qed

text \<open>Any pointer to an allocated entry, and any answer of \<open>realloc\<close>.\<close>

lemma append_any:
  assumes inv: "cache_inv c" and e: "entries c a = Some e"
    and room: "is_loading e \<Longrightarrow> length (edata e) + length chunk \<le> 2 ^ 63"
  shows "\<exists>r c' woken. cache_append_data c (Some a) chunk now ok closing = Some (Inr (r, c', woken)) \<and> cache_inv c'"
proof (cases "is_loading e")
  case False
  with inv e show ?thesis by (simp add: cache_append_data_def)
next
  case True
  from append_entry [OF inv e True room [OF True]] obtain e' where
    e': "cache_append_data c (Some a) chunk now True closing
      = Some (Inr (0, c\<lparr>entries := (entries c)(a \<mapsto> e')\<rparr>, notify_waiting_clients closing e'))" "ekey e' = ekey e" "entry_ok e'" by blast
  then have "\<exists>r c' woken. cache_append_data c (Some a) chunk now True closing = Some (Inr (r, c', woken)) \<and> cache_inv c'"
    using cache_inv_update_entry [OF inv e e'(2,3)] by blast
  moreover have "cache_append_data c (Some a) chunk now False closing
      \<in> {Some (Inr (-1, c\<lparr>entries := (entries c)(a \<mapsto> e\<lparr>last_accessed := now\<rparr>)\<rparr>, [])), cache_append_data c (Some a) chunk now True closing}"
  proof (cases "allocated_size e < data_size e + of_nat (length chunk)")
    case True
    with e \<open>is_loading e\<close> e'(1) show ?thesis
      by (cases "grow (allocated_size e) (data_size e + of_nat (length chunk))") (simp_all add: cache_append_data_def Let_def)
  next
    case False
    with e \<open>is_loading e\<close> show ?thesis by (simp add: cache_append_data_def Let_def)
  qed
  moreover have "cache_inv (c\<lparr>entries := (entries c)(a \<mapsto> e\<lparr>last_accessed := now\<rparr>)\<rparr>)"
    using inv e by (intro cache_inv_update_entry [OF inv e]) (auto simp: cache_inv_def)
  ultimately show ?thesis by (cases ok) auto
qed

lemma append_refused:
  assumes inv: "cache_inv c" and a: "entry_at c key = Some a" and ct: "contents c key = Some (False, d)"
  shows "cache_append_data c (Some a) chunk now ok closing = Some (Inr (-1, c, []))"
    and "cache_finish_loading c (Some a) now ok closing = Inr (-1, c, [])"
  using inv a ct by (auto simp: contents_Some cache_append_data_def cache_finish_loading_def)

lemma finish_entry:
  assumes inv: "cache_inv c" and e: "entries c a = Some e" "is_loading e"
  shows "\<exists>e'. cache_finish_loading c (Some a) now ok closing
      = Inr (0, c\<lparr>entries := (entries c)(a \<mapsto> e')\<rparr>, notify_waiting_clients closing e')
    \<and> ekey e' = ekey e \<and> \<not> is_loading e' \<and> edata e' = edata e \<and> entry_ok e'
    \<and> waiting_clients e' = waiting_clients e"
proof -
  from inv e have ok: "entry_ok e" by (auto simp: cache_inv_def)
  define e1 where "e1 = e\<lparr>last_accessed := now, is_loading := False\<rparr>"
  define e' where "e' = (if allocated_size e1 > data_size e1 then
      if data_size e1 = 0 then e1\<lparr>data_live := False\<rparr>
      else if ok then e1\<lparr>allocated_size := data_size e1\<rparr> else e1 else e1)"
  have "cache_finish_loading c (Some a) now ok closing
      = Inr (0, c\<lparr>entries := (entries c)(a \<mapsto> e')\<rparr>, notify_waiting_clients closing e')"
    using e by (simp add: cache_finish_loading_def Let_def e1_def e'_def)
  moreover have "ekey e' = ekey e" "entry_ok e'" "\<not> is_loading e'" "edata e' = edata e" "waiting_clients e' = waiting_clients e"
    using ok by (auto simp: e'_def e1_def entry_ok_def)
  ultimately show ?thesis by blast
qed

section \<open>Unlinking\<close>

definition last_ptr :: "addr list \<Rightarrow> ptr" where
  "last_ptr us = (if us = [] then None else Some (last us))"

lemma dropWhile_to_suffix: "x \<notin> set us \<Longrightarrow> dropWhile (\<lambda>y. y \<noteq> x) (us @ x # vs) = x # vs"
  by (induction us) auto

lemma takeWhile_to_prefix: "x \<notin> set us \<Longrightarrow> takeWhile (\<lambda>y. y \<noteq> x) (us @ x # vs) = us"
  by (induction us) auto

lemma relink_drops:
  assumes "distinct (us @ ls @ a # vs)"
  shows "relink (us @ ls @ a # vs) (last_ptr us) (head_ptr vs) = us @ vs"
proof -
  let ?full = "us @ ls @ a # vs"
  have pre: "(case last_ptr us of None \<Rightarrow> [] | Some p \<Rightarrow> takeWhile (\<lambda>x. x \<noteq> p) ?full @ [p]) = us"
  proof (cases us rule: rev_cases)
    case (snoc ws p)
    with assms takeWhile_to_prefix [of p ws "ls @ a # vs"] show ?thesis by (simp add: last_ptr_def)
  qed (simp add: last_ptr_def)
  have suf: "(case head_ptr vs of None \<Rightarrow> [] | Some n \<Rightarrow> dropWhile (\<lambda>x. x \<noteq> n) ?full) = vs"
  proof (cases vs)
    case (Cons n vs')
    with assms dropWhile_to_suffix [of n "us @ ls @ [a]" vs'] show ?thesis by (auto simp: head_ptr_def)
  qed (simp add: head_ptr_def)
  show ?thesis by (simp add: relink_def pre suf)
qed

lemma free_entry_live:
  "h a = Some e \<Longrightarrow> data_live e \<Longrightarrow> free_entry h a = Inr (h(a := None))"
  by (simp add: free_entry_def)

lemma cancel_from_run:
  assumes "distinct (us @ rest)" "\<And>x. x \<in> set rest \<Longrightarrow> h x \<noteq> None"
  shows "cancel_from h key (us @ rest) (last_ptr us) rest = Inr (map_option (\<lambda>a. (a, remove1 a (us @ rest)))
    (find (\<lambda>a. ekey (the (h a)) = key \<and> is_loading (the (h a))) rest))"
  using assms
proof (induction rest arbitrary: us)
  case (Cons a rest)
  then obtain e where e: "h a = Some e" by fastforce
  show ?case
  proof (cases "ekey e = key \<and> is_loading e")
    case True
    with e Cons.prems relink_drops [of us "[]" a rest] show ?thesis by (simp add: remove1_append)
  next
    case False
    have "cancel_from h key ((us @ [a]) @ rest) (last_ptr (us @ [a])) rest
        = Inr (map_option (\<lambda>x. (x, remove1 x ((us @ [a]) @ rest)))
            (find (\<lambda>a. ekey (the (h a)) = key \<and> is_loading (the (h a))) rest))"
      using Cons.prems by (intro Cons.IH) auto
    then have ih: "cancel_from h key (us @ a # rest) (Some a) rest
        = Inr (map_option (\<lambda>x. (x, remove1 x (us @ a # rest)))
            (find (\<lambda>a. ekey (the (h a)) = key \<and> is_loading (the (h a))) rest))"
      by (simp add: last_ptr_def)
    have "cancel_from h key (us @ a # rest) (last_ptr us) (a # rest) = cancel_from h key (us @ a # rest) (Some a) rest"
      "find (\<lambda>a. ekey (the (h a)) = key \<and> is_loading (the (h a))) (a # rest)
        = find (\<lambda>a. ekey (the (h a)) = key \<and> is_loading (the (h a))) rest"
      using False e by auto
    with ih show ?thesis by metis
  qed
qed simp

lemma contents_unlinked:
  assumes "cache_inv c" "i < length (buckets c)" "entries c a = Some e" "entry_at c (ekey e) = Some a"
    and "a \<in> set (chain_of (buckets c ! i))"
  shows "contents (unlinked c i a (remove1 a (chain_of (buckets c ! i)))) = (contents c)(ekey e := None)"
proof
  fix k
  let ?as = "remove1 a (chain_of (buckets c ! i))"
  have d: "distinct (chain_of (buckets c ! i))" by (rule cache_inv_chain(2) [OF assms(1,2)])
  then have "distinct ?as" "set ?as \<subseteq> set (chain_of (buckets c ! i)) - {a}" by auto
  note at = entry_at_unlinked [OF assms(1,2,5) this, of k]
  show "contents (unlinked c i a ?as) k = ((contents c)(ekey e := None)) k"
  proof (cases "k = ekey e")
    case True
    with at assms(4,5) d show ?thesis by (simp add: contents_def)
  next
    case False
    then have "entry_at c k \<noteq> Some a" using entry_at_inj [OF assms(1) _ assms(4)] by blast
    with False at d show ?thesis
      by (cases "entry_at c k") (auto simp: contents_def unlinked_def)
  qed
qed

lemma cancel_correct:
  assumes inv: "cache_inv c"
  shows "case contents c key of
      Some (True, d) \<Rightarrow> \<exists>c'. cache_cancel_loading c key = Inr (0, c') \<and> cache_inv c' \<and> contents c' = (contents c)(key := None)
    | _ \<Rightarrow> cache_cancel_loading c key = Inr (-1, c)"
proof -
  obtain i where i: "bucket_of c key = Inr i" "i < length (buckets c)" using bucket_of_ok [OF inv] by blast
  let ?as = "chain_of (buckets c ! i)" and ?P = "\<lambda>a. ekey (the (entries c a)) = key \<and> is_loading (the (entries c a))"
  have d: "distinct ?as" by (rule cache_inv_chain(2) [OF inv i(2)])
  have "cancel_from (entries c) key ([] @ ?as) (last_ptr []) ?as
      = Inr (map_option (\<lambda>a. (a, remove1 a ([] @ ?as))) (find ?P ?as))"
    using d cache_inv_chain(3) [OF inv i(2)] by (intro cancel_from_run) fastforce+
  then have run: "cancel_from (entries c) key ?as None ?as = Inr (map_option (\<lambda>a. (a, remove1 a ?as)) (find ?P ?as))"
    by (simp add: last_ptr_def)
  show ?thesis
  proof (cases "find ?P ?as")
    case None
    then have "\<not> is_loading (the (entries c a))" if "entry_at c key = Some a" for a
      using that entry_at_iff [OF inv i(1), of a] by (auto simp: find_None_iff)
    then have "contents c key \<noteq> Some (True, d)" for d by (auto simp: contents_def Let_def)
    moreover have "cache_cancel_loading c key = Inr (-1, c)" using run None i by (simp add: cache_cancel_loading_def Let_def)
    ultimately show ?thesis by (auto split: option.split bool.split)
  next
    case (Some a)
    then have a: "a \<in> set ?as" "?P a" by (auto dest: find_SomeD)
    with entry_at_iff [OF inv i(1), of a] have at: "entry_at c key = Some a" by simp
    obtain e where e: "entries c a = Some e" "ekey e = key" "entry_ok e" using entry_at_live [OF inv at] by blast
    with a(2) have ld: "is_loading e" by simp
    with e have live: "data_live e" by (simp add: entry_ok_def)
    have ct: "contents c key = Some (True, edata e)" using at e ld by (simp add: contents_def)
    have r: "cache_cancel_loading c key = Inr (0, unlinked c i a (remove1 a ?as))"
      using run Some i e live by (simp add: cache_cancel_loading_def Let_def free_entry_live unlinked_def)
    have "cache_inv (unlinked c i a (remove1 a ?as))" using d by (intro cache_inv_unlinked [OF inv i(2) a(1)]) auto
    moreover have "contents (unlinked c i a (remove1 a ?as)) = (contents c)(key := None)"
      using contents_unlinked [OF inv i(2) e(1) _ a(1)] at e(2) by metis
    ultimately show ?thesis using ct r by simp
  qed
qed

end
