(* ===== verification/Cache_Waiters.thy ===== *)
theory Cache_Waiters
  imports Cache_Laws
begin

text \<open>
  The clients that wait for a key: on the entry once it exists, in the table of pending waiters of
  the bucket before. Registering adds one, starting to load hands the pending ones over to the new
  entry, and every append and the end of loading wake those that wait on the entry.
\<close>

definition waiters :: "cache_t \<Rightarrow> cstring \<Rightarrow> handle list" where
  "waiters c key = (case entry_at c key of
     Some a \<Rightarrow> waiting_clients (the (entries c a))
   | None \<Rightarrow> (case bucket_of c key of Inl _ \<Rightarrow> []
       | Inr i \<Rightarrow> (case map_of (pending_waiters (buckets c ! i)) key of None \<Rightarrow> [] | Some ws \<Rightarrow> ws)))"

section \<open>The table of pending waiters\<close>

lemma add_pending_None: "add_pending key w tbl = None \<longleftrightarrow> map_of tbl key = None"
  by (induction tbl) (auto split: option.splits)

lemma add_pending_Some:
  "add_pending key w tbl = Some tbl' \<Longrightarrow>
   map_of tbl' k = (if k = key then Some (w # the (map_of tbl key)) else map_of tbl k)"
  by (induction tbl arbitrary: tbl') (auto split: if_splits)

lemma claim_from_fst: "fst (claim_from key prev tbl) = (case map_of tbl key of None \<Rightarrow> [] | Some ws \<Rightarrow> ws)"
  by (induction tbl arbitrary: prev) auto

lemma claim_waiters_fst: "fst (claim_waiters key tbl) = (case map_of tbl key of None \<Rightarrow> [] | Some ws \<Rightarrow> ws)"
  by (simp add: claim_waiters_def claim_from_fst)

text \<open>What is left of the table: nothing at all when the list of the key comes first.\<close>

definition claimed_first :: "cstring \<Rightarrow> (cstring \<times> handle list) list \<Rightarrow> bool" where
  "claimed_first key tbl \<longleftrightarrow> (case tbl of [] \<Rightarrow> False | (k, _) # _ \<Rightarrow> k = key)"

lemma claim_from_rest:
  "prev \<noteq> [] \<Longrightarrow> k \<noteq> key \<Longrightarrow> map_of (snd (claim_from key prev tbl)) k = map_of (prev @ tbl) k"
proof (induction tbl arbitrary: prev)
  case (Cons x tbl)
  then show ?case by (cases x) (simp add: map_add_def split: option.splits)
qed simp

lemma claim_waiters_rest:
  "k \<noteq> key \<Longrightarrow> map_of (snd (claim_waiters key tbl)) k = (if claimed_first key tbl then None else map_of tbl k)"
  by (cases tbl) (auto simp: claim_waiters_def claimed_first_def claim_from_rest)

section \<open>Updates of the tables only\<close>

lemma chain_of_pending [simp]:
  "chain_of (bs[i := (bs ! i)\<lparr>pending_waiters := tbl\<rparr>] ! j) = chain_of (bs ! j)"
proof (cases "i < length bs")
  case True
  then show ?thesis by (cases "j = i") simp_all
qed (simp add: list_update_beyond)

lemma cache_inv_pending:
  assumes "cache_inv c"
  shows "cache_inv (c\<lparr>buckets := (buckets c)[i := (buckets c ! i)\<lparr>pending_waiters := tbl\<rparr>]\<rparr>)"
  using assms by (simp add: cache_inv_def chain_ok_def)

lemma entry_at_pending:
  "entry_at (c\<lparr>buckets := (buckets c)[i := (buckets c ! i)\<lparr>pending_waiters := tbl\<rparr>]\<rparr>) k = entry_at c k"
  by (simp add: entry_at_def cong: sum.case_cong)

lemma contents_pending:
  "contents (c\<lparr>buckets := (buckets c)[i := (buckets c ! i)\<lparr>pending_waiters := tbl\<rparr>]\<rparr>) = contents c"
  by (simp add: contents_def entry_at_pending fun_eq_iff)

section \<open>Registering\<close>

lemma waiters_entry:
  assumes "cache_inv c" "entry_at c key = Some a" "entries c a = Some e" "ekey e' = ekey e" "entry_ok e'"
  shows "waiters (c\<lparr>entries := (entries c)(a \<mapsto> e')\<rparr>) k = (if k = key then waiting_clients e' else waiters c k)"
proof (cases "k = key")
  case True
  then show ?thesis using assms by (simp add: waiters_def entry_at_update_entry [OF assms(1,3-5)])
next
  case False
  then have "entry_at c k \<noteq> Some a" using entry_at_inj [OF assms(1) _ assms(2)] by blast
  with False show ?thesis
    by (auto simp: waiters_def entry_at_update_entry [OF assms(1,3-5)] split: option.split sum.split)
qed

text \<open>Without an entry the client is put in front of the key's list in the table of the bucket.\<close>

definition with_pending :: "cstring \<Rightarrow> handle \<Rightarrow> (cstring \<times> handle list) list \<Rightarrow> (cstring \<times> handle list) list" where
  "with_pending key w tbl = (case add_pending key w tbl of Some tbl' \<Rightarrow> tbl' | None \<Rightarrow> (key, [w]) # tbl)"

lemma with_pending_map:
  "map_of (with_pending key w tbl) k
    = (if k = key then Some (w # (case map_of tbl key of None \<Rightarrow> [] | Some ws \<Rightarrow> ws)) else map_of tbl k)"
  using add_pending_None [of key w tbl] add_pending_Some [of key w tbl _ k]
  by (auto simp: with_pending_def split: option.splits)

lemma waiters_pending:
  assumes inv: "cache_inv c" and i: "bucket_of c key = Inr i" "i < length (buckets c)" and none: "entry_at c key = None"
  shows "waiters (c\<lparr>buckets := (buckets c)[i := (buckets c ! i)\<lparr>pending_waiters := with_pending key w (pending_waiters (buckets c ! i))\<rparr>]\<rparr>) k
    = (if k = key then w # waiters c k else waiters c k)"
proof (cases "entry_at c k")
  case (Some a)
  with none show ?thesis by (auto simp: waiters_def entry_at_pending)
next
  case None
  obtain j where "bucket_of c k = Inr j" using bucket_of_ok [OF inv] by blast
  with None i with_pending_map [of key w "pending_waiters (buckets c ! i)" k] show ?thesis
    by (cases "j = i") (auto simp: waiters_def entry_at_pending nth_list_update)
qed

lemma register_correct:
  assumes inv: "cache_inv c"
  shows "\<exists>c'. cache_register_waiter c key w True True = Inr (0, c') \<and> cache_inv c'
    \<and> contents c' = contents c \<and> entry_at c' = entry_at c
    \<and> (\<forall>k. waiters c' k = (if k = key then w # waiters c k else waiters c k))"
proof -
  obtain i where i: "bucket_of c key = Inr i" "i < length (buckets c)" using bucket_of_ok [OF inv] by blast
  note s = search_ok [OF inv i(1)]
  show ?thesis
  proof (cases "entry_at c key")
    case (Some a)
    from entry_at_live [OF inv Some] obtain e where e: "entries c a = Some e" "entry_ok e" by blast
    let ?e = "e\<lparr>waiting_clients := w # waiting_clients e\<rparr>"
    have run: "cache_register_waiter c key w True True = Inr (0, c\<lparr>entries := (entries c)(a \<mapsto> ?e)\<rparr>)"
      using i s Some e by (simp add: cache_register_waiter_def Let_def)
    have "waiters c key = waiting_clients e" using Some e by (simp add: waiters_def)
    with run e show ?thesis
      using cache_inv_update_entry [OF inv e(1), of ?e] contents_update_same [OF inv e(1), of ?e]
        entry_at_update_entry [OF inv e(1), of ?e] waiters_entry [OF inv Some e(1), of ?e] by auto
  next
    case None
    let ?c = "c\<lparr>buckets := (buckets c)[i := (buckets c ! i)\<lparr>pending_waiters := with_pending key w (pending_waiters (buckets c ! i))\<rparr>]\<rparr>"
    have "cache_register_waiter c key w True True = Inr (0, ?c)"
      using i s None by (simp add: cache_register_waiter_def Let_def with_pending_def split: option.split)
    with waiters_pending [OF inv i None] cache_inv_pending [OF inv] show ?thesis by (auto simp: contents_pending entry_at_pending)
  qed
qed

text \<open>Without memory for the waiter, and without memory for an entry of the table of pending clients.\<close>

lemma register_no_waiter:
  assumes "cache_inv c" "bucket_of c key = Inr i"
  shows "cache_register_waiter c key w False table_ok = Inl (if chain_of (buckets c ! i) = [] then NullDeref else BadUnlock)"
  using assms(2) by (simp add: cache_register_waiter_def Let_def)

lemma register_no_table:
  assumes "cache_inv c"
  shows "cache_register_waiter c key w True False \<in> {Inr (-1, c), cache_register_waiter c key w True True}"
proof -
  obtain i where i: "bucket_of c key = Inr i" using bucket_of_ok [OF assms] by blast
  with search_ok [OF assms i] show ?thesis
    by (cases "entry_at c key") (auto simp: cache_register_waiter_def Let_def split: option.splits)
qed

lemma unregister_correct:
  assumes inv: "cache_inv c"
  shows "case entry_at c key of None \<Rightarrow> cache_unregister_waiter c key w = Inr (-1, c)
    | Some _ \<Rightarrow> \<exists>c'. cache_unregister_waiter c key w = Inr (0, c') \<and> cache_inv c' \<and> contents c' = contents c
        \<and> entry_at c' = entry_at c
        \<and> (\<forall>k. waiters c' k = (if k = key then remove1 w (waiters c k) else waiters c k))"
proof -
  obtain i where i: "bucket_of c key = Inr i" using bucket_of_ok [OF inv] by blast
  note s = search_ok [OF inv i(1)]
  show ?thesis
  proof (cases "entry_at c key")
    case None
    with i s show ?thesis by (simp add: cache_unregister_waiter_def)
  next
    case (Some a)
    from entry_at_live [OF inv Some] obtain e where e: "entries c a = Some e" "entry_ok e" by blast
    let ?e = "e\<lparr>waiting_clients := remove1 w (waiting_clients e)\<rparr>"
    have "cache_unregister_waiter c key w = Inr (0, c\<lparr>entries := (entries c)(a \<mapsto> ?e)\<rparr>)"
      using i s Some e by (simp add: cache_unregister_waiter_def)
    moreover have "waiters c key = waiting_clients e" using Some e by (simp add: waiters_def)
    ultimately show ?thesis using Some e
        cache_inv_update_entry [OF inv e(1), of ?e] contents_update_same [OF inv e(1), of ?e]
        entry_at_update_entry [OF inv e(1), of ?e] waiters_entry [OF inv Some e(1), of ?e] by auto
  qed
qed

section \<open>Lookups\<close>

lemma lookup_keeps_waiters:
  assumes inv: "cache_inv c" and r: "cache_lookup_partial c key off m now ok out = Inr (st, out', c')"
  shows "waiters c' = waiters c"
proof -
  obtain i where i: "bucket_of c key = Inr i" using bucket_of_ok [OF inv] by blast
  have counters: "waiters (x\<lparr>hits := n\<rparr>) k = waiters x k" "waiters (x\<lparr>misses := n\<rparr>) k = waiters x k" for x n k
    by (simp_all add: waiters_def cong: option.case_cong sum.case_cong)
  show ?thesis
  proof (cases "entry_at c key")
    case None
    with r i search_ok [OF inv i] counters show ?thesis by (auto simp: cache_lookup_partial_def)
  next
    case (Some a)
    from entry_at_live [OF inv Some] obtain e where e: "entries c a = Some e" "entry_ok e" by blast
    let ?e = "e\<lparr>last_accessed := now\<rparr>"
    have same: "waiters (c\<lparr>entries := (entries c)(a \<mapsto> ?e)\<rparr>) = waiters c"
      using waiters_entry [OF inv Some e(1), of ?e] e Some by (auto simp: fun_eq_iff waiters_def)
    from r i search_ok [OF inv i] Some e have "c' = c \<or> c' = c\<lparr>entries := (entries c)(a \<mapsto> ?e), hits := hits c + 1\<rparr>"
      by (auto simp: cache_lookup_partial_def Let_def rbind_eq_Inr split: if_splits)
    with same counters show ?thesis by (auto simp: fun_eq_iff)
  qed
qed

section \<open>Waking up\<close>

lemma start_waiters:
  assumes inv: "cache_inv c" and none: "entry_at c key = None" and env: "env_ok c env" and i: "bucket_of c key = Inr i"
  shows "\<exists>a c'. cache_start_loading c key now env = Inr (Some a, c') \<and> cache_inv c'
    \<and> entry_at c' key = Some a \<and> contents c' = (contents c)(key \<mapsto> (True, []))
    \<and> waiters c' key = waiters c key
    \<and> (\<forall>k. k \<noteq> key \<longrightarrow> waiters c' k =
        (if claimed_first key (pending_waiters (buckets c ! i)) \<and> bucket_of c k = Inr i \<and> entry_at c k = None
         then [] else waiters c k))"
proof -
  from start_loading_absent [OF inv none env] obtain a c' ws where
    c': "cache_start_loading c key now env = Inr (Some a, c')" "entries c a = None"
      "entries c' = (entries c)(a \<mapsto> new_entry key now ws)" "cache_inv c'"
      "\<forall>k. entry_at c' k = (if k = key then Some a else entry_at c k)" by blast
  obtain b where b: "create_entry key 4096 now env = Some (b, new_entry key now [])"
    using create_entry_ok [OF env] by blast
  let ?tbl = "pending_waiters (buckets c ! i)"
  let ?ws = "fst (claim_waiters key ?tbl)"
  have eq: "c' = snd (projr (cache_start_loading c key now env))" "a = the (fst (projr (cache_start_loading c key now env)))"
    using c'(1) by simp_all
  then have e: "entries c' = (entries c)(a \<mapsto> new_entry key now ?ws)" and nb: "num_buckets c' = num_buckets c"
    and bs: "buckets c' = (buckets c)[i := (buckets c ! i)\<lparr>chain_of := a # chain_of (buckets c ! i),
      pending_waiters := snd (claim_waiters key ?tbl)\<rparr>]"
    using i search_ok [OF inv i] none b
    by (simp_all add: cache_start_loading_def Let_def new_entry_def split_beta)
  have bo: "bucket_of c' k = bucket_of c k" for k using nb bs by (intro bucket_of_cong) simp_all
  have il: "i < length (buckets c)" by (rule bucket_of_bound [OF i])
  have "waiters c' k = (if claimed_first key ?tbl \<and> bucket_of c k = Inr i \<and> entry_at c k = None then [] else waiters c k)"
    if k: "k \<noteq> key" for k
  proof (cases "entry_at c k")
    case (Some x)
    then have "x \<noteq> a" using c'(2) entry_at_live [OF inv Some] by auto
    with Some k show ?thesis using c'(5) e by (simp add: waiters_def)
  next
    case None
    obtain j where j: "bucket_of c k = Inr j" using bucket_of_ok [OF inv] by blast
    have "entry_at c' k = None" using None k c'(5) by simp
    with None j bo bs il show ?thesis
      by (cases "j = i") (simp_all add: waiters_def claim_waiters_rest [OF k])
  qed
  moreover have "waiters c' key = ?ws" using c'(5) e by (simp add: waiters_def new_entry_def)
  moreover have "waiters c key = ?ws" using none i by (simp add: waiters_def claim_waiters_fst)
  ultimately show ?thesis using c' contents_start [OF inv c'(2,3,5)] by auto
qed

lemma start_hands_over:
  assumes inv: "cache_inv c" and none: "entry_at c key = None" and env: "env_ok c env"
  shows "\<exists>a c'. cache_start_loading c key now env = Inr (Some a, c') \<and> cache_inv c'
    \<and> entry_at c' key = Some a \<and> contents c' = (contents c)(key \<mapsto> (True, []))
    \<and> waiters c' key = waiters c key"
proof -
  obtain i where i: "bucket_of c key = Inr i" using bucket_of_ok [OF inv] by blast
  from start_waiters [OF assms i, of now] show ?thesis by blast
qed

lemma append_wakes:
  assumes inv: "cache_inv c" and a: "entry_at c key = Some a" and ct: "contents c key = Some (True, d)"
    and room: "length d + length chunk \<le> 2 ^ 63"
  shows "\<exists>c'. cache_append_data c (Some a) chunk now True closing = Some (Inr (0, c', filter (\<lambda>w. \<not> closing w) (waiters c key)))
    \<and> cache_inv c' \<and> entry_at c' = entry_at c \<and> contents c' = (contents c)(key \<mapsto> (True, d @ chunk))
    \<and> waiters c' = waiters c"
proof -
  from ct a inv obtain e where e: "entries c a = Some e" "ekey e = key" "is_loading e" "edata e = d"
    by (auto simp: contents_Some)
  from append_entry [OF inv e(1,3)] room e(4) obtain e' where
    e': "cache_append_data c (Some a) chunk now True closing
      = Some (Inr (0, c\<lparr>entries := (entries c)(a \<mapsto> e')\<rparr>, notify_waiting_clients closing e'))"
    "ekey e' = ekey e" "is_loading e'" "edata e' = d @ chunk" "entry_ok e'" "waiting_clients e' = waiting_clients e" by blast
  have w: "waiters c key = waiting_clients e" using a e by (simp add: waiters_def)
  then have "waiters (c\<lparr>entries := (entries c)(a \<mapsto> e')\<rparr>) = waiters c"
    using waiters_entry [OF inv a e(1) e'(2,5)] e'(6) by (auto simp: fun_eq_iff)
  then show ?thesis using e' w
      cache_inv_update_entry [OF inv e(1) e'(2,5)] contents_update_entry [OF inv a e(1) e'(2,5)]
      entry_at_update_entry [OF inv e(1) e'(2,5)] by (auto simp: notify_waiting_clients_def)
qed

lemma finish_wakes:
  assumes inv: "cache_inv c" and a: "entry_at c key = Some a" and ct: "contents c key = Some (True, d)"
  shows "\<exists>c'. cache_finish_loading c (Some a) now ok closing = Inr (0, c', filter (\<lambda>w. \<not> closing w) (waiters c key))
    \<and> cache_inv c' \<and> entry_at c' = entry_at c \<and> contents c' = (contents c)(key \<mapsto> (False, d))
    \<and> waiters c' = waiters c"
proof -
  from ct a inv obtain e where e: "entries c a = Some e" "ekey e = key" "is_loading e" "edata e = d"
    by (auto simp: contents_Some)
  from finish_entry [OF inv e(1,3)] e(4) obtain e' where
    e': "cache_finish_loading c (Some a) now ok closing = Inr (0, c\<lparr>entries := (entries c)(a \<mapsto> e')\<rparr>, notify_waiting_clients closing e')"
      "ekey e' = ekey e" "\<not> is_loading e'" "edata e' = d" "entry_ok e'" "waiting_clients e' = waiting_clients e" by blast
  have w: "waiters c key = waiting_clients e" using a e by (simp add: waiters_def)
  then have "waiters (c\<lparr>entries := (entries c)(a \<mapsto> e')\<rparr>) = waiters c"
    using waiters_entry [OF inv a e(1) e'(2,5)] e'(6) by (auto simp: fun_eq_iff)
  then show ?thesis using e' w
      cache_inv_update_entry [OF inv e(1) e'(2,5)] contents_update_entry [OF inv a e(1) e'(2,5)]
      entry_at_update_entry [OF inv e(1) e'(2,5)] by (auto simp: notify_waiting_clients_def)
qed

end
