(* ===== verification/Cache_Sweep.thy ===== *)
theory Cache_Sweep
  imports Cache_Laws
begin

text \<open>
  The sweep of the garbage collector, \<open>cache_clean_expired\<close>: what it leaves in every bucket. The
  loop does not move \<open>prev\<close> past an entry that is loading, so that unlinking an expired entry
  also unlinks the loading entries directly before it. \<open>swept\<close> says which addresses stay.
\<close>

section \<open>What stays in a bucket\<close>

definition expired :: "cache_t \<Rightarrow> int \<Rightarrow> cache_entry_t \<Rightarrow> bool" where
  "expired c now e \<longleftrightarrow> \<not> is_loading e \<and> last_accessed e + default_ttl c < now"

text \<open>\<open>ls\<close>: the loading entries passed since the last entry that was kept.\<close>

fun swept :: "(addr \<Rightarrow> bool) \<Rightarrow> (addr \<Rightarrow> bool) \<Rightarrow> addr list \<Rightarrow> addr list \<Rightarrow> addr list" where
  "swept ld ex ls [] = ls"
| "swept ld ex ls (a # as) =
     (if ld a then swept ld ex (ls @ [a]) as
      else if ex a then swept ld ex [] as
      else ls @ a # swept ld ex [] as)"

lemma swept_cong:
  "(\<And>a. a \<in> set as \<Longrightarrow> ld a = ld' a \<and> ex a = ex' a) \<Longrightarrow> swept ld ex ls as = swept ld' ex' ls as"
  by (induction as arbitrary: ls) auto

lemma swept_subset: "set (swept ld ex ls as) \<subseteq> set ls \<union> set as"
proof (induction as arbitrary: ls)
  case (Cons a as)
  show ?case using Cons.IH [of "ls @ [a]"] Cons.IH [of "[]"] by auto
qed simp

lemma swept_distinct: "distinct (ls @ as) \<Longrightarrow> distinct (swept ld ex ls as)"
proof (induction as arbitrary: ls)
  case (Cons a as)
  have sub: "set (swept ld ex [] as) \<subseteq> set as" using swept_subset [of ld ex "[]" as] by simp
  have "distinct (swept ld ex [] as)" using Cons.prems by (intro Cons.IH) simp
  moreover have "distinct (swept ld ex (ls @ [a]) as)" using Cons.prems by (intro Cons.IH) simp
  ultimately show ?case using Cons.prems sub by auto
qed simp

lemma swept_keeps: "x \<in> set as \<Longrightarrow> \<not> ld x \<Longrightarrow> \<not> ex x \<Longrightarrow> x \<in> set (swept ld ex ls as)"
  by (induction as arbitrary: ls) auto

lemma swept_removes: "x \<notin> set ls \<Longrightarrow> \<not> ld x \<Longrightarrow> ex x \<Longrightarrow> x \<notin> set (swept ld ex ls as)"
proof (induction as arbitrary: ls)
  case (Cons a as)
  have "ld a \<Longrightarrow> x \<notin> set (ls @ [a])" using Cons.prems by auto
  with Cons.IH [of "ls @ [a]"] Cons.IH [of "[]"] Cons.prems show ?case by auto
qed simp

lemma swept_no_loading:
  "(\<And>a. a \<in> set as \<Longrightarrow> \<not> ld a) \<Longrightarrow> swept ld ex [] as = filter (\<lambda>a. \<not> ex a) as"
  by (induction as) auto

text \<open>
  A loading entry stays exactly when the first finished entry behind it, if there is one, has not expired.
\<close>

definition kept_by :: "(addr \<Rightarrow> bool) \<Rightarrow> (addr \<Rightarrow> bool) \<Rightarrow> addr list \<Rightarrow> bool" where
  "kept_by ld ex as = (case find (\<lambda>x. \<not> ld x) as of None \<Rightarrow> True | Some x \<Rightarrow> \<not> ex x)"

lemma kept_by_simps [simp]:
  "kept_by ld ex []"
  "kept_by ld ex (x # as) = (if ld x then kept_by ld ex as else \<not> ex x)"
  by (simp_all add: kept_by_def)

lemma swept_pending:
  "a \<in> set ls \<Longrightarrow> a \<notin> set as \<Longrightarrow> a \<in> set (swept ld ex ls as) \<longleftrightarrow> kept_by ld ex as"
proof (induction as arbitrary: ls)
  case (Cons y as)
  have "a \<notin> set (swept ld ex [] as)" using swept_subset [of ld ex "[]" as] Cons.prems(2) by auto
  with Cons.IH [of "ls @ [y]"] Cons.prems show ?case by auto
qed simp

lemma swept_loading:
  "distinct (ls @ us @ a # as) \<Longrightarrow> ld a \<Longrightarrow> a \<in> set (swept ld ex ls (us @ a # as)) \<longleftrightarrow> kept_by ld ex as"
proof (induction us arbitrary: ls)
  case Nil
  then show ?case using swept_pending [of a "ls @ [a]" as ld ex] by simp
next
  case (Cons y us)
  have "ld y \<Longrightarrow> a \<in> set (swept ld ex (ls @ [y]) (us @ a # as)) \<longleftrightarrow> kept_by ld ex as"
    using Cons.prems by (intro Cons.IH) auto
  moreover have "a \<in> set (swept ld ex [] (us @ a # as)) \<longleftrightarrow> kept_by ld ex as"
    using Cons.prems by (intro Cons.IH) auto
  ultimately show ?case using Cons.prems by auto
qed

section \<open>One bucket\<close>

text \<open>The state after the sweep of the entries in \<open>as\<close> of bucket \<open>i\<close> with the ones before them.\<close>

definition ld_at :: "cache_t \<Rightarrow> addr \<Rightarrow> bool" where
  "ld_at c a = is_loading (the (entries c a))"

definition ex_at :: "cache_t \<Rightarrow> int \<Rightarrow> addr \<Rightarrow> bool" where
  "ex_at c now a = expired c now (the (entries c a))"

definition frame :: "cache_t \<Rightarrow> cache_t \<Rightarrow> bool" where
  "frame c c' \<longleftrightarrow> length (buckets c') = length (buckets c) \<and> num_buckets c' = num_buckets c
     \<and> default_ttl c' = default_ttl c"

lemma frame_refl [simp]: "frame c c"
  by (simp add: frame_def)

lemma frame_trans: "frame c c' \<Longrightarrow> frame c' c'' \<Longrightarrow> frame c c''"
  by (simp add: frame_def)

definition all_live :: "cache_t \<Rightarrow> bool" where
  "all_live c \<longleftrightarrow> (\<forall>e \<in> ran (entries c). data_live e)"

lemma all_live_less: "all_live c \<Longrightarrow> entries c' = (entries c)(a := None) \<Longrightarrow> all_live c'"
  by (auto simp: all_live_def ran_def split: if_splits)

lemma all_liveD: "all_live c \<Longrightarrow> entries c a = Some e \<Longrightarrow> data_live e"
  by (auto simp: all_live_def ran_def)

text \<open>One expired entry: it is freed, and the loading entries before it are unlinked with it.\<close>

lemma clean_expired_entry:
  assumes inv: "cache_inv c" "i < length (buckets c)" "chain_of (buckets c ! i) = us @ ls @ a # as"
    and e: "entries c a = Some e" "\<not> is_loading e" "expired c now e" "data_live e"
  shows "\<exists>c1. clean_bucket now i (last_ptr us) (a # as) c = clean_bucket now i (last_ptr us) as c1 \<and> cache_inv c1
    \<and> frame c c1 \<and> chain_of (buckets c1 ! i) = us @ as \<and> (\<forall>j. j \<noteq> i \<longrightarrow> buckets c1 ! j = buckets c ! j) \<and> entries c1 = (entries c)(a := None)"
proof -
  have d: "distinct (us @ ls @ a # as)" using cache_inv_chain(2) [OF inv(1,2)] inv(3) by simp
  define c1 where "c1 = (unlinked c i a (us @ as))\<lparr>current_size := current_size c - allocated_size e\<rparr>"
  have "cache_inv c1" unfolding c1_def cache_inv_counters using d inv(3) by (intro cache_inv_unlinked [OF inv(1,2)]) auto
  moreover have "c\<lparr>buckets := (buckets c)[i := (buckets c ! i)\<lparr>chain_of := us @ as\<rparr>],
      current_size := current_size c - allocated_size e, current_entries := current_entries c - 1,
      entries := (entries c)(a := None)\<rparr> = c1" by (simp add: c1_def unlinked_def)
  then have "clean_bucket now i (last_ptr us) (a # as) c = clean_bucket now i (last_ptr us) as c1"
    using e inv(3) relink_drops [OF d] by (simp add: expired_def Let_def free_entry_live)
  ultimately show ?thesis using inv(2) by (intro exI [of _ c1]) (simp add: c1_def unlinked_def frame_def)
qed

lemma clean_bucket_run:
  assumes "cache_inv c" "all_live c" "i < length (buckets c)" "chain_of (buckets c ! i) = us @ ls @ as"
  shows "\<exists>c'. clean_bucket now i (last_ptr us) as c = Inr c' \<and> cache_inv c' \<and> all_live c' \<and> frame c c'
    \<and> chain_of (buckets c' ! i) = us @ swept (ld_at c) (ex_at c now) ls as
    \<and> (\<forall>j. j \<noteq> i \<longrightarrow> buckets c' ! j = buckets c ! j)
    \<and> (\<forall>x. entries c' x = (if x \<in> set as \<and> ex_at c now x then None else entries c x))"
  using assms
proof (induction as arbitrary: c us ls)
  case Nil
  then show ?case by simp
next
  case (Cons a as)
  have d: "distinct (us @ ls @ a # as)" using cache_inv_chain(2) [OF Cons.prems(1,3)] Cons.prems(4) by simp
  obtain e where e: "entries c a = Some e"
    using cache_inv_chain(3) [OF Cons.prems(1,3), of a] Cons.prems(4) by auto
  have at: "ld_at c a = is_loading e" "ex_at c now a = expired c now e" using e by (simp_all add: ld_at_def ex_at_def)
  consider (load) "is_loading e" | (old) "\<not> is_loading e" "expired c now e" | (keep) "\<not> is_loading e" "\<not> expired c now e"
    by blast
  then show ?case
  proof cases
    case load
    have ex: "\<not> ex_at c now a" using at load by (simp add: expired_def)
    have "chain_of (buckets c ! i) = us @ (ls @ [a]) @ as" using Cons.prems(4) by simp
    from Cons.IH [OF Cons.prems(1-3) this] load e at ex show ?thesis by auto
  next
    case keep
    have "chain_of (buckets c ! i) = (us @ ls @ [a]) @ [] @ as" using Cons.prems(4) by simp
    from Cons.IH [OF Cons.prems(1-3) this] keep e at show ?thesis by (auto simp: last_ptr_def expired_def)
  next
    case old
    from clean_expired_entry [OF Cons.prems(1,3,4) e old all_liveD [OF Cons.prems(2) e]] obtain c1 where
      c1: "clean_bucket now i (last_ptr us) (a # as) c = clean_bucket now i (last_ptr us) as c1" "cache_inv c1" "all_live c1" "frame c c1"
        "chain_of (buckets c1 ! i) = us @ [] @ as" "\<forall>j. j \<noteq> i \<longrightarrow> buckets c1 ! j = buckets c ! j" "entries c1 = (entries c)(a := None)"
      using all_live_less [OF Cons.prems(2)] by auto
    have at1: "ld_at c1 x = ld_at c x \<and> ex_at c1 now x = ex_at c now x" if "x \<noteq> a" for x
      using that c1(4,7) by (simp add: ld_at_def ex_at_def expired_def frame_def)
    then have "swept (ld_at c1) (ex_at c1 now) [] as = swept (ld_at c) (ex_at c now) [] as" using d
      by (intro swept_cong) (metis distinct.simps(2) distinct_append)
    moreover have "i < length (buckets c1)" using Cons.prems(3) c1(4) by (simp add: frame_def)
    ultimately show ?thesis using Cons.IH [OF c1(2,3) _ c1(5)] c1(1,6,7) frame_trans [OF c1(4)] at1 at old d by auto
  qed
qed

section \<open>The whole table\<close>

lemma chains_disjoint:
  assumes "cache_inv c" "i < length (buckets c)" "j < length (buckets c)" "i \<noteq> j"
    and "x \<in> set (chain_of (buckets c ! i))"
  shows "x \<notin> set (chain_of (buckets c ! j))"
  using cache_inv_chain(3) [OF assms(1,2,5)] cache_inv_chain(3) [OF assms(1,3), of x] assms(4) by auto

definition swept_table :: "cache_t \<Rightarrow> int \<Rightarrow> nat set \<Rightarrow> cache_t \<Rightarrow> bool" where
  "swept_table c now I c' \<longleftrightarrow> cache_inv c' \<and> all_live c' \<and> frame c c'
     \<and> (\<forall>j < length (buckets c). chain_of (buckets c' ! j) =
          (if j \<in> I then swept (ld_at c) (ex_at c now) [] (chain_of (buckets c ! j)) else chain_of (buckets c ! j)))
     \<and> (\<forall>x. entries c' x = (if (\<exists>j \<in> I. x \<in> set (chain_of (buckets c ! j))) \<and> ex_at c now x then None else entries c x))"

lemma clean_bucket_table:
  assumes t: "swept_table c now I c1" and i: "i < length (buckets c)" "i \<notin> I" "I \<subseteq> {..<length (buckets c)}"
    and inv: "cache_inv c"
  shows "\<exists>c'. clean_bucket now i None (chain_of (buckets c1 ! i)) c1 = Inr c' \<and> swept_table c now (insert i I) c'"
proof -
  have t': "cache_inv c1" "all_live c1" "frame c c1"
    "\<And>j. j < length (buckets c) \<Longrightarrow> chain_of (buckets c1 ! j) =
          (if j \<in> I then swept (ld_at c) (ex_at c now) [] (chain_of (buckets c ! j)) else chain_of (buckets c ! j))"
    "\<And>x. entries c1 x = (if (\<exists>j \<in> I. x \<in> set (chain_of (buckets c ! j))) \<and> ex_at c now x then None else entries c x)"
    using t unfolding swept_table_def by blast+
  have i1: "i < length (buckets c1)" and ch: "chain_of (buckets c1 ! i) = chain_of (buckets c ! i)"
    using t'(3,4) i by (simp_all add: frame_def)
  have unt: "entries c1 x = entries c x" if "x \<in> set (chain_of (buckets c ! i))" for x
  proof -
    have "x \<notin> set (chain_of (buckets c ! j))" if j: "j \<in> I" for j
      using chains_disjoint [OF inv i(1) _ _ \<open>x \<in> set (chain_of (buckets c ! i))\<close>, of j] i j by auto
    then show ?thesis using t'(5) [of x] by auto
  qed
  then have same: "ld_at c1 x = ld_at c x \<and> ex_at c1 now x = ex_at c now x" if "x \<in> set (chain_of (buckets c ! i))" for x
    using that t'(3) by (simp add: ld_at_def ex_at_def expired_def frame_def)
  have "chain_of (buckets c1 ! i) = [] @ [] @ chain_of (buckets c1 ! i)" by simp
  from clean_bucket_run [OF t'(1,2) i1 this, where now = now] obtain c' where
    c': "clean_bucket now i None (chain_of (buckets c1 ! i)) c1 = Inr c'" "cache_inv c'" "all_live c'" "frame c1 c'"
      "chain_of (buckets c' ! i) = swept (ld_at c1) (ex_at c1 now) [] (chain_of (buckets c ! i))"
      "\<And>j. j \<noteq> i \<Longrightarrow> buckets c' ! j = buckets c1 ! j"
      "\<And>x. entries c' x = (if x \<in> set (chain_of (buckets c ! i)) \<and> ex_at c1 now x then None else entries c1 x)"
    unfolding ch by (auto simp: last_ptr_def)
  have sw: "swept (ld_at c1) (ex_at c1 now) [] (chain_of (buckets c ! i))
      = swept (ld_at c) (ex_at c now) [] (chain_of (buckets c ! i))" using same by (intro swept_cong)
  have "chain_of (buckets c' ! j) = (if j \<in> insert i I then swept (ld_at c) (ex_at c now) [] (chain_of (buckets c ! j))
      else chain_of (buckets c ! j))" if "j < length (buckets c)" for j
    using c'(5) c'(6) [of j] t'(4) [OF that] sw by (cases "j = i") auto
  moreover have "entries c' x = (if (\<exists>j \<in> insert i I. x \<in> set (chain_of (buckets c ! j))) \<and> ex_at c now x then None
      else entries c x)" for x
    using c'(7) [of x] t'(5) [of x] same [of x] by auto
  ultimately show ?thesis using c'(1-4) frame_trans [OF t'(3) c'(4)] unfolding swept_table_def by blast
qed

lemma clean_buckets_run:
  assumes inv: "cache_inv c"
  shows "swept_table c now I c1 \<Longrightarrow> distinct is \<Longrightarrow> set is \<inter> I = {} \<Longrightarrow> set is \<union> I \<subseteq> {..<length (buckets c)} \<Longrightarrow>
    \<exists>c'. clean_buckets now is c1 = Inr c' \<and> swept_table c now (set is \<union> I) c'"
proof (induction "is" arbitrary: I c1)
  case (Cons i "is")
  have "i < length (buckets c)" "i \<notin> I" "I \<subseteq> {..<length (buckets c)}" using Cons.prems by auto
  from clean_bucket_table [OF Cons.prems(1) this inv] obtain c2 where
    c2: "clean_bucket now i None (chain_of (buckets c1 ! i)) c1 = Inr c2" "swept_table c now (insert i I) c2" by blast
  have "\<exists>c'. clean_buckets now is c2 = Inr c' \<and> swept_table c now (set is \<union> insert i I) c'"
    using Cons.prems by (intro Cons.IH [OF c2(2)]) auto
  with c2(1) show ?case by simp
qed simp

lemma clean_expired_run:
  assumes "cache_inv c" "all_live c"
  shows "\<exists>c'. cache_clean_expired c now = Inr c' \<and> swept_table c now {..<length (buckets c)} c'"
proof -
  have n: "unat (num_buckets c) = length (buckets c)" using assms(1) by (simp add: cache_inv_def)
  have "swept_table c now {} c" using assms by (simp add: swept_table_def)
  from clean_buckets_run [OF assms(1) this, of "[0..<length (buckets c)]"]
  show ?thesis by (auto simp: cache_clean_expired_def n atLeast0LessThan)
qed

text \<open>What the sweep does to the entry of one key.\<close>

lemma swept_table_entry:
  assumes inv: "cache_inv c" and t: "swept_table c now {..<length (buckets c)} c'" and i: "bucket_of c key = Inr i"
  shows "entry_at c' key = Some x \<longleftrightarrow>
      entry_at c key = Some x \<and> x \<in> set (swept (ld_at c) (ex_at c now) [] (chain_of (buckets c ! i)))"
    and "x \<in> set (swept (ld_at c) (ex_at c now) [] (chain_of (buckets c ! i))) \<Longrightarrow> \<not> ex_at c now x"
    and "\<not> ex_at c now x \<Longrightarrow> entries c' x = entries c x"
proof -
  have t': "cache_inv c'" "frame c c'"
    "\<And>j. j < length (buckets c) \<Longrightarrow> chain_of (buckets c' ! j) = swept (ld_at c) (ex_at c now) [] (chain_of (buckets c ! j))"
    "\<And>x. entries c' x = (if (\<exists>j < length (buckets c). x \<in> set (chain_of (buckets c ! j))) \<and> ex_at c now x then None else entries c x)"
    using t by (auto simp: swept_table_def)
  have il: "i < length (buckets c)" by (rule bucket_of_bound [OF i])
  have i': "bucket_of c' key = Inr i" using i bucket_of_cong [of c' c key] t'(2) by (simp add: frame_def)
  let ?as = "chain_of (buckets c ! i)"
  let ?sw = "swept (ld_at c) (ex_at c now) [] ?as"
  have sub: "set ?sw \<subseteq> set ?as" using swept_subset [of "ld_at c" "ex_at c now" "[]" ?as] by simp
  have noex: "\<not> ex_at c now x" if "x \<in> set ?sw" for x
    using that swept_removes [of x "[]" "ld_at c" "ex_at c now" ?as] by (auto simp: ex_at_def ld_at_def expired_def)
  then show "x \<in> set ?sw \<Longrightarrow> \<not> ex_at c now x" .
  show "\<not> ex_at c now x \<Longrightarrow> entries c' x = entries c x" using t'(4) [of x] by simp
  show "entry_at c' key = Some x \<longleftrightarrow> entry_at c key = Some x \<and> x \<in> set ?sw"
  proof (cases "x \<in> set ?sw")
    case True
    then have "x \<in> set ?as" "entries c' x = entries c x" using sub t'(4) [of x] noex by auto
    with True show ?thesis
      unfolding entry_at_iff [OF t'(1) i', of x] entry_at_iff [OF inv i, of x] t'(3) [OF il] by simp
  next
    case False
    then show ?thesis unfolding entry_at_iff [OF t'(1) i', of x] t'(3) [OF il] by simp
  qed
qed

lemma swept_table_key:
  assumes inv: "cache_inv c" and t: "swept_table c now {..<length (buckets c)} c'"
  shows "case entry_at c key of None \<Rightarrow> contents c' key = None
    | Some a \<Rightarrow> (if ex_at c now a then contents c' key = None
        else if \<not> ld_at c a then contents c' key = contents c key
        else contents c' key \<in> {None, contents c key})"
proof -
  obtain i where i: "bucket_of c key = Inr i" using bucket_of_ok [OF inv] by blast
  let ?as = "chain_of (buckets c ! i)"
  let ?sw = "swept (ld_at c) (ex_at c now) [] ?as"
  note iff = swept_table_entry(1) [OF inv t i] and noex = swept_table_entry(2) [OF inv t i]
  have kept: "contents c' key = contents c key" if "entry_at c key = Some x" "x \<in> set ?sw" for x
    using that iff [of x] swept_table_entry(3) [OF inv t i noex [OF that(2)]] by (simp add: contents_def)
  have none: "contents c' key = None" if "\<And>x. entry_at c key = Some x \<Longrightarrow> x \<notin> set ?sw"
    unfolding contents_None by (rule option_eqI) (use iff that in blast)
  show ?thesis
  proof (cases "entry_at c key")
    case None
    with none show ?thesis by simp
  next
    case (Some a)
    then have "a \<in> set ?as" using entry_at_iff [OF inv i, of a] by simp
    with Some show ?thesis using kept [OF Some] none noex [of a]
        swept_keeps [of a ?as "ld_at c" "ex_at c now" "[]"] by (cases "a \<in> set ?sw") auto
  qed
qed

text \<open>Whether the sweep loses an entry that is being loaded. A lost one stays allocated.\<close>

lemma sweep_loses:
  assumes inv: "cache_inv c" and live: "all_live c" and i: "bucket_of c key = Inr i"
    and a: "entry_at c key = Some a" "ld_at c a" and ch: "chain_of (buckets c ! i) = us @ a # as"
  shows "\<exists>c'. cache_clean_expired c now = Inr c' \<and> cache_inv c' \<and> entries c' a = entries c a
    \<and> entry_at c' key = (if kept_by (ld_at c) (ex_at c now) as then Some a else None)"
proof -
  obtain c' where c': "cache_clean_expired c now = Inr c'" "swept_table c now {..<length (buckets c)} c'"
    using clean_expired_run [OF inv live] by blast
  have "distinct (us @ a # as)" using cache_inv_chain(2) [OF inv bucket_of_bound [OF i]] ch by simp
  then have "a \<in> set (swept (ld_at c) (ex_at c now) [] (us @ a # as)) \<longleftrightarrow> kept_by (ld_at c) (ex_at c now) as"
    using a(2) by (intro swept_loading) auto
  moreover have "entry_at c' key = Some x \<longleftrightarrow> entry_at c key = Some x
      \<and> x \<in> set (swept (ld_at c) (ex_at c now) [] (us @ a # as))" for x
    using swept_table_entry(1) [OF inv c'(2) i, of x] ch by simp
  ultimately have "entry_at c' key = Some x \<longleftrightarrow> x = a \<and> kept_by (ld_at c) (ex_at c now) as" for x using a(1) by auto
  then have "entry_at c' key = (if kept_by (ld_at c) (ex_at c now) as then Some a else None)"
    by (cases "entry_at c' key") auto
  moreover have "\<not> ex_at c now a" using a(2) by (simp add: ex_at_def ld_at_def expired_def)
  ultimately show ?thesis using c' swept_table_entry(3) [OF inv c'(2) i] by (auto simp: swept_table_def)
qed

section \<open>Buffers that are gone\<close>

text \<open>
  When the buffer of an expired entry was freed before, the sweep frees it again. Up to there, or when there is no such
  entry, it goes on as usual.
\<close>

definition dead_at :: "cache_t \<Rightarrow> int \<Rightarrow> addr \<Rightarrow> bool" where
  "dead_at c now a \<longleftrightarrow> ex_at c now a \<and> \<not> data_live (the (entries c a))"

lemma clean_bucket_dead:
  assumes "cache_inv c" "i < length (buckets c)" "chain_of (buckets c ! i) = us @ ls @ as"
  shows "case clean_bucket now i (last_ptr us) as c of
      Inl f \<Rightarrow> f = DoubleFree \<and> (\<exists>x \<in> set as. dead_at c now x)
    | Inr c' \<Rightarrow> cache_inv c' \<and> frame c c' \<and> (\<forall>j. j \<noteq> i \<longrightarrow> buckets c' ! j = buckets c ! j)
        \<and> (\<forall>x. x \<notin> set as \<longrightarrow> entries c' x = entries c x)
        \<and> (\<forall>x \<in> set as. \<not> dead_at c now x)"
  using assms
proof (induction as arbitrary: c us ls)
  case (Cons a as)
  have d: "distinct (us @ ls @ a # as)" using cache_inv_chain(2) [OF Cons.prems(1,2)] Cons.prems(3) by simp
  obtain e where e: "entries c a = Some e"
    using cache_inv_chain(3) [OF Cons.prems(1,2), of a] Cons.prems(3) by auto
  consider (load) "is_loading e" | (dead) "\<not> is_loading e" "expired c now e" "\<not> data_live e"
    | (old) "\<not> is_loading e" "expired c now e" "data_live e" | (keep) "\<not> is_loading e" "\<not> expired c now e" by blast
  then show ?case
  proof cases
    case load
    have "chain_of (buckets c ! i) = us @ (ls @ [a]) @ as" using Cons.prems(3) by simp
    from Cons.IH [OF Cons.prems(1,2) this] load e show ?thesis by (auto simp: dead_at_def ex_at_def expired_def split: sum.splits)
  next
    case dead
    with e show ?thesis by (simp add: dead_at_def ex_at_def expired_def Let_def free_entry_def)
  next
    case keep
    have "chain_of (buckets c ! i) = (us @ ls @ [a]) @ [] @ as" using Cons.prems(3) by simp
    from Cons.IH [OF Cons.prems(1,2) this] keep e show ?thesis
      by (auto simp: last_ptr_def dead_at_def ex_at_def expired_def split: sum.splits)
  next
    case old
    from clean_expired_entry [OF Cons.prems e old] obtain c1 where
      c1: "clean_bucket now i (last_ptr us) (a # as) c = clean_bucket now i (last_ptr us) as c1" "cache_inv c1" "frame c c1"
        "chain_of (buckets c1 ! i) = us @ [] @ as" "\<forall>j. j \<noteq> i \<longrightarrow> buckets c1 ! j = buckets c ! j"
        "entries c1 = (entries c)(a := None)" by auto
    have same: "dead_at c1 now x = dead_at c now x" "entries c1 x = entries c x" if "x \<noteq> a" for x
      using that c1(3,6) by (simp_all add: dead_at_def ex_at_def expired_def frame_def)
    have "a \<notin> set as" using d by simp
    moreover have "i < length (buckets c1)" using Cons.prems(2) c1(3) by (simp add: frame_def)
    ultimately show ?thesis using Cons.IH [OF c1(2) _ c1(4)] c1(1,5) same e old(3) frame_trans [OF c1(3)]
      by (auto simp: dead_at_def split: sum.splits) metis+
  qed
qed simp

lemma clean_buckets_dead:
  assumes "cache_inv c" "distinct is" "set is \<subseteq> {..<length (buckets c)}"
  shows "case clean_buckets now is c of 
      Inl f \<Rightarrow> f = DoubleFree \<and> (\<exists>i \<in> set is. \<exists>x \<in> set (chain_of (buckets c ! i)). dead_at c now x)
    | Inr c' \<Rightarrow> cache_inv c' \<and> (\<forall>i \<in> set is. \<forall>x \<in> set (chain_of (buckets c ! i)). \<not> dead_at c now x)"
  using assms
proof (induction "is" arbitrary: c)
  case (Cons i "is")
  have i: "i < length (buckets c)" using Cons.prems(3) by simp
  have "chain_of (buckets c ! i) = [] @ [] @ chain_of (buckets c ! i)" by simp
  note run = clean_bucket_dead [OF Cons.prems(1) i this, of now]
  show ?case
  proof (cases "clean_bucket now i None (chain_of (buckets c ! i)) c")
    case (Inl f)
    with run show ?thesis by (simp add: last_ptr_def)
  next
    case (Inr c1)
    with run have c1: "cache_inv c1" "frame c c1" "\<And>j. j \<noteq> i \<Longrightarrow> buckets c1 ! j = buckets c ! j"
      "\<And>x. x \<notin> set (chain_of (buckets c ! i)) \<Longrightarrow> entries c1 x = entries c x"
      "\<And>x. x \<in> set (chain_of (buckets c ! i)) \<Longrightarrow> \<not> dead_at c now x"
      by (auto simp: last_ptr_def)
    have other: "dead_at c1 now x = dead_at c now x"
      if "j \<in> set is" "x \<in> set (chain_of (buckets c ! j))" for j x
    proof -
      have "x \<notin> set (chain_of (buckets c ! i))"
        using chains_disjoint [OF Cons.prems(1) _ i _ that(2)] that(1) Cons.prems(2,3) by auto
      with c1(4) [of x] c1(2) show ?thesis by (simp add: dead_at_def ex_at_def expired_def frame_def)
    qed
    have "case clean_buckets now is c1 of
        Inl f \<Rightarrow> f = DoubleFree \<and> (\<exists>i \<in> set is. \<exists>x \<in> set (chain_of (buckets c1 ! i)). dead_at c1 now x)
      | Inr c' \<Rightarrow> cache_inv c' \<and> (\<forall>i \<in> set is. \<forall>x \<in> set (chain_of (buckets c1 ! i)). \<not> dead_at c1 now x)"
      using Cons.prems c1(2) by (intro Cons.IH [OF c1(1)]) (auto simp: frame_def)
    moreover have "j \<noteq> i" if "j \<in> set is" for j using that Cons.prems(2) by auto
    ultimately show ?thesis using Inr c1(3,5) other by (auto split: sum.splits)
  qed
qed simp

text \<open>An expired entry of the table whose buffer is gone.\<close>

definition sweep_breaks :: "cache_t \<Rightarrow> int \<Rightarrow> bool" where
  "sweep_breaks c now \<longleftrightarrow> (\<exists>b \<in> set (buckets c). \<exists>a \<in> set (chain_of b). dead_at c now a)"

lemma clean_expired_any:
  assumes inv: "cache_inv c"
  shows "if sweep_breaks c now then cache_clean_expired c now = Inl DoubleFree
    else \<exists>c'. cache_clean_expired c now = Inr c' \<and> cache_inv c'"
proof -
  have n: "unat (num_buckets c) = length (buckets c)" using inv by (simp add: cache_inv_def)
  have "distinct [0..<length (buckets c)]" "set [0..<length (buckets c)] \<subseteq> {..<length (buckets c)}" by auto
  from clean_buckets_dead [OF inv this, of now] show ?thesis
    by (fastforce simp: cache_clean_expired_def n sweep_breaks_def in_set_conv_nth split: sum.splits)
qed

lemma sweep_double_free:
  assumes inv: "cache_inv c" and a: "entry_at c key = Some a" "ex_at c now a" "\<not> data_live (the (entries c a))"
  shows "cache_clean_expired c now = Inl DoubleFree"
proof -
  obtain i where i: "bucket_of c key = Inr i" using bucket_of_ok [OF inv] by blast
  have "buckets c ! i \<in> set (buckets c)" "a \<in> set (chain_of (buckets c ! i))"
    using bucket_of_bound [OF i] entry_at_iff [OF inv i, of a] a(1) by auto
  with a(2,3) have "sweep_breaks c now" unfolding sweep_breaks_def dead_at_def by blast
  with clean_expired_any [OF inv, of now] show ?thesis by simp
qed

end
