(* ===== verification/Cache_Store.thy ===== *)
theory Cache_Store
  imports Cache_Waiters Cache_Sweep
begin

text \<open>
  The cache as its clients see it. The locale \<open>response_store\<close> lists what the background worker
  (which starts, fills and finishes an entry) and the backend (which reads an entry in packets while
  it may still grow) rely on; the model of \<open>cache.c\<close> interprets it. The properties of the
  cache's operations are stated at the end.
\<close>

section \<open>The interface\<close>

fun appends :: "('c \<Rightarrow> 'p \<Rightarrow> byte list \<Rightarrow> 'c option) \<Rightarrow> 'c \<Rightarrow> 'p \<Rightarrow> byte list list \<Rightarrow> 'c option" where
  "appends app c p [] = Some c"
| "appends app c p (ch # chs) = (case app c p ch of None \<Rightarrow> None | Some c' \<Rightarrow> appends app c' p chs)"

text \<open>Reading from an offset in packets of at most \<open>m\<close> bytes, at most \<open>n\<close> of them.\<close>

fun drain :: "('c \<Rightarrow> cstring \<Rightarrow> nat \<Rightarrow> nat \<Rightarrow> ((cache_status_t \<times> byte list) \<times> 'c) option) \<Rightarrow> nat \<Rightarrow> 'c \<Rightarrow> cstring
    \<Rightarrow> nat \<Rightarrow> nat \<Rightarrow> (cache_status_t \<times> byte list \<times> 'c) option" where
  "drain rd 0 c key off m = None"
| "drain rd (Suc n) c key off m = (case rd c key off m of
     None \<Rightarrow> None
   | Some ((CACHE_NEW_LOADED, d), c') \<Rightarrow>
       map_option (\<lambda>(st, d', c''). (st, d @ d', c'')) (drain rd n c' key (off + length d) m)
   | Some ((st, _), c') \<Rightarrow> Some (st, [], c'))"

locale response_store =
  fixes inv :: "'c \<Rightarrow> bool"
    and cont :: "'c \<Rightarrow> cstring \<rightharpoonup> bool \<times> byte list"
    and at :: "'c \<Rightarrow> cstring \<rightharpoonup> 'p"
    and start :: "'c \<Rightarrow> cstring \<Rightarrow> ('p \<times> 'c) option"
    and append :: "'c \<Rightarrow> 'p \<Rightarrow> byte list \<Rightarrow> 'c option"
    and finish :: "'c \<Rightarrow> 'p \<Rightarrow> 'c option"
    and rd :: "'c \<Rightarrow> cstring \<Rightarrow> nat \<Rightarrow> nat \<Rightarrow> ((cache_status_t \<times> byte list) \<times> 'c) option"
    and limit :: nat
  assumes start_new: "inv c \<Longrightarrow> cont c key = None \<Longrightarrow>
      \<exists>p c'. start c key = Some (p, c') \<and> inv c' \<and> at c' key = Some p \<and> cont c' = (cont c)(key \<mapsto> (True, []))"
    and append_more: "inv c \<Longrightarrow> at c key = Some p \<Longrightarrow> cont c key = Some (True, d) \<Longrightarrow> length d + length ch \<le> limit \<Longrightarrow>
      \<exists>c'. append c p ch = Some c' \<and> inv c' \<and> at c' = at c \<and> cont c' = (cont c)(key \<mapsto> (True, d @ ch))"
    and finish_done: "inv c \<Longrightarrow> at c key = Some p \<Longrightarrow> cont c key = Some (True, d) \<Longrightarrow>
      \<exists>c'. finish c p = Some c' \<and> inv c' \<and> at c' = at c \<and> cont c' = (cont c)(key \<mapsto> (False, d))"
    and rd_packet: "inv c \<Longrightarrow> cont c key = Some (ld, d) \<Longrightarrow> off \<le> length d \<Longrightarrow> 0 < m \<Longrightarrow> length d \<le> limit \<Longrightarrow> m \<le> limit \<Longrightarrow>
      \<exists>c'. rd c key off m = Some ((if off < length d then (CACHE_NEW_LOADED, take m (drop off d))
          else if ld then (CACHE_NEW_NOT_LOADED, []) else (CACHE_DONE, [])), c')
        \<and> inv c' \<and> cont c' = cont c"
begin

lemma appends_all:
  assumes "inv c" "at c key = Some p" "cont c key = Some (True, d)" "length d + length (concat chs) \<le> limit"
  shows "\<exists>c'. appends append c p chs = Some c' \<and> inv c' \<and> at c' = at c \<and> cont c' = (cont c)(key \<mapsto> (True, d @ concat chs))"
  using assms
proof (induction chs arbitrary: c d)
  case Nil
  then show ?case by auto
next
  case (Cons ch chs)
  then have "length d + length ch \<le> limit" by simp
  from append_more [OF Cons.prems(1-3) this] obtain c1 where
    c1: "append c p ch = Some c1" "inv c1" "at c1 = at c" "cont c1 = (cont c)(key \<mapsto> (True, d @ ch))" by blast
  with Cons.prems have "at c1 key = Some p" "cont c1 key = Some (True, d @ ch)"
    "length (d @ ch) + length (concat chs) \<le> limit" by simp_all
  from Cons.IH [OF c1(2) this] obtain c' where "appends append c1 p chs = Some c'" "inv c'" "at c' = at c1"
    "cont c' = (cont c1)(key \<mapsto> (True, (d @ ch) @ concat chs))" by blast
  with c1 show ?case by (auto simp: fun_eq_iff)
qed

text \<open>A response loaded in chunks is there, in order and complete, and no other key changes.\<close>

lemma load_response:
  assumes "inv c" "cont c key = None" "length (concat chs) \<le> limit"
  shows "\<exists>p c1 c2 c3. start c key = Some (p, c1) \<and> appends append c1 p chs = Some c2 \<and> finish c2 p = Some c3
    \<and> inv c3 \<and> cont c3 = (cont c)(key \<mapsto> (False, concat chs))"
proof -
  from start_new [OF assms(1,2)] obtain p c1 where
    c1: "start c key = Some (p, c1)" "inv c1" "at c1 key = Some p" "cont c1 = (cont c)(key \<mapsto> (True, []))" by blast
  from appends_all [OF c1(2,3), of "[]" chs] c1(4) assms(3) obtain c2 where
    c2: "appends append c1 p chs = Some c2" "inv c2" "at c2 = at c1" "cont c2 = (cont c)(key \<mapsto> (True, concat chs))" by auto
  from finish_done [OF c2(2), of key p "concat chs"] c1(3) c2(3,4) obtain c3 where
    "finish c2 p = Some c3" "inv c3" "cont c3 = (cont c)(key \<mapsto> (False, concat chs))" by auto
  with c1 c2 show ?thesis by blast
qed

text \<open>Packets put together are what is left of the entry.\<close>

lemma drain_rest:
  assumes "inv c" "cont c key = Some (ld, d)" "off \<le> length d" "0 < m" "length d \<le> limit" "m \<le> limit"
    and "length d - off < n"
  shows "\<exists>c'. drain rd n c key off m = Some (if ld then CACHE_NEW_NOT_LOADED else CACHE_DONE, drop off d, c')
    \<and> inv c' \<and> cont c' = cont c"
  using assms
proof (induction n arbitrary: c off)
  case (Suc n)
  from rd_packet [OF Suc.prems(1-6)] obtain c1 where
    c1: "rd c key off m = Some ((if off < length d then (CACHE_NEW_LOADED, take m (drop off d))
          else if ld then (CACHE_NEW_NOT_LOADED, []) else (CACHE_DONE, [])), c1)" "inv c1" "cont c1 = cont c" by blast
  show ?case
  proof (cases "off < length d")
    case False
    with Suc.prems(3) c1 show ?thesis by auto
  next
    case True
    let ?off = "off + length (take m (drop off d))"
    have "cont c1 key = Some (ld, d)" "?off \<le> length d" "length d - ?off < n"
      using c1(3) Suc.prems True by auto
    from Suc.IH [OF c1(2) this(1,2) Suc.prems(4-6) this(3)] obtain c' where
      "drain rd n c1 key ?off m = Some (if ld then CACHE_NEW_NOT_LOADED else CACHE_DONE, drop ?off d, c')"
      "inv c'" "cont c' = cont c" using c1(3) by auto
    moreover have "take m (drop off d) @ drop ?off d = drop off d"
      by (rule take_then_rest)
    ultimately show ?thesis using c1(1) True by auto
  qed
qed simp

end

section \<open>The cache implements it\<close>

definition plenty :: "cache_t \<Rightarrow> create_env" where
  "plenty c = \<lparr>got_entry = least_free (entries c), got_key = True, got_rwlock = True, got_data = True, got_mutex = True\<rparr>"

lemma env_ok_plenty: "cache_inv c \<Longrightarrow> env_ok c (plenty c)"
  by (auto simp: env_ok_def plenty_def cache_inv_def intro: fresh_least_free)

definition store_start :: "int \<Rightarrow> cache_t \<Rightarrow> cstring \<Rightarrow> (addr \<times> cache_t) option" where
  "store_start now c key = (case cache_start_loading c key now (plenty c) of Inr (Some a, c') \<Rightarrow> Some (a, c') | _ \<Rightarrow> None)"

definition store_append :: "int \<Rightarrow> cache_t \<Rightarrow> addr \<Rightarrow> byte list \<Rightarrow> cache_t option" where
  "store_append now c a ch = (case cache_append_data c (Some a) ch now True (\<lambda>_. False) of
     Some (Inr (r, c', _)) \<Rightarrow> if r = 0 then Some c' else None | _ \<Rightarrow> None)"

definition store_finish :: "int \<Rightarrow> cache_t \<Rightarrow> addr \<Rightarrow> cache_t option" where
  "store_finish now c a = (case cache_finish_loading c (Some a) now True (\<lambda>_. False) of
     Inr (r, c', _) \<Rightarrow> if r = 0 then Some c' else None | _ \<Rightarrow> None)"

definition store_read :: "int \<Rightarrow> cache_t \<Rightarrow> cstring \<Rightarrow> nat \<Rightarrow> nat \<Rightarrow> ((cache_status_t \<times> byte list) \<times> cache_t) option" where
  "store_read now c key off m =
     (case cache_lookup_partial c key (of_nat off) (of_nat m) now True \<lparr>out_data = None, out_size = 0, out_loading = False\<rparr> of
        Inl _ \<Rightarrow> None
      | Inr (st, out, c') \<Rightarrow> Some ((st, case out_data out of None \<Rightarrow> [] | Some d \<Rightarrow> d), c'))"

interpretation proxy_store: response_store cache_inv contents entry_at
  "store_start now" "store_append now" "store_finish now" "store_read now" "2 ^ 63"
proof unfold_locales
  fix c key
  assume "cache_inv c" "contents c key = None"
  then show "\<exists>p c'. store_start now c key = Some (p, c') \<and> cache_inv c' \<and> entry_at c' key = Some p
      \<and> contents c' = (contents c)(key \<mapsto> (True, []))"
    using start_hands_over [of c key "plenty c" now] env_ok_plenty by (auto simp: contents_None store_start_def)
next
  fix c key p and d ch :: "byte list"
  assume "cache_inv c" "entry_at c key = Some p" "contents c key = Some (True, d)" "length d + length ch \<le> 2 ^ 63"
  from append_wakes [OF this, of now "\<lambda>_. False"]
  show "\<exists>c'. store_append now c p ch = Some c' \<and> cache_inv c' \<and> entry_at c' = entry_at c
      \<and> contents c' = (contents c)(key \<mapsto> (True, d @ ch))" by (auto simp: store_append_def)
next
  fix c key p and d :: "byte list"
  assume "cache_inv c" "entry_at c key = Some p" "contents c key = Some (True, d)"
  from finish_wakes [OF this, of now True "\<lambda>_. False"]
  show "\<exists>c'. store_finish now c p = Some c' \<and> cache_inv c' \<and> entry_at c' = entry_at c
      \<and> contents c' = (contents c)(key \<mapsto> (False, d))" by (auto simp: store_finish_def)
next
  fix c key ld and d :: "byte list" and off m :: nat
  assume a: "cache_inv c" "contents c key = Some (ld, d)" "off \<le> length d" "0 < m" "length d \<le> 2 ^ 63" "m \<le> 2 ^ 63"
  have u: "unat (of_nat off :: usize) = off" "unat (of_nat m :: usize) = m"
    using a by (simp_all add: unat_of_nat)
  have "take m (drop off d) = [] \<longleftrightarrow> off = length d" using a by auto
  with lookup_partial_correct [OF a(1), of key "of_nat off" "of_nat m" now "\<lparr>out_data = None, out_size = 0, out_loading = False\<rparr>"]
  show "\<exists>c'. store_read now c key off m = Some ((if off < length d then (CACHE_NEW_LOADED, take m (drop off d))
      else if ld then (CACHE_NEW_NOT_LOADED, []) else (CACHE_DONE, [])), c') \<and> cache_inv c' \<and> contents c' = contents c"
    using a u by (auto simp: store_read_def Let_def split: if_splits)
qed

section \<open>Properties\<close>

lemma cache_init_inv:
  assumes "cache_init maxs maxe nb ttl True (\<lambda>_. True) = (r, s)"
  shows "\<exists>c. r = 0 \<and> s = Some c \<and> cache_inv c \<and> contents c = Map.empty \<and> entries c = Map.empty
    \<and> length (buckets c) = (if nb = 0 then 1024 else unat nb)"
proof -
  let ?nb = "if nb = 0 then 1024 else nb :: usize"
  define c where "c = the (snd (cache_init maxs maxe nb ttl True (\<lambda>_. True)))"
  have run: "r = 0" "s = Some c" using assms by (auto simp: cache_init_def c_def Let_def list_all_iff)
  have f: "entries c = Map.empty" "buckets c = replicate (unat ?nb) \<lparr>chain_of = [], pending_waiters = []\<rparr>"
      "num_buckets c = ?nb" "current_entries c = 0"
    by (simp_all add: c_def cache_init_def Let_def list_all_iff)
  have "?nb \<noteq> 0" by simp
  then have inv: "cache_inv c" using f by (simp add: cache_inv_def chain_ok_def)
  have "entry_at c k \<noteq> Some a" for k a using entry_at_live [OF inv, of k a] f(1) by auto
  then have "contents c = Map.empty" by (auto simp: contents_None fun_eq_iff intro: option_eqI)
  with inv f run show ?thesis by (auto simp: unat_eq_0)
qed

text \<open>
  A small cache to instantiate the properties with: one bucket, an entry for the key "k" that is
  loading and holds the bytes 1, 2.
\<close>

definition cache_of_one :: cache_t where
  "cache_of_one = \<lparr>entries = [7 \<mapsto> \<lparr>ekey = [107], is_loading = True, edata = [1, 2], data_live = True,
       data_size = 2, allocated_size = 4096, last_accessed = 5, waiting_clients = [3]\<rparr>],
     buckets = [\<lparr>chain_of = [7], pending_waiters = []\<rparr>], num_buckets = 1, max_size = 0, current_size = 0,
     max_entries = 0, current_entries = 1, hits = 0, misses = 0, default_ttl = 100\<rparr>"

lemma one_bucket: "num_buckets c = 1 \<Longrightarrow> length (buckets c) = 1 \<Longrightarrow> bucket_of c key = Inr 0"
  by (simp add: bucket_of_def cache_hash_def unat_mod word_arith_nat_mod)

lemma cache_of_one_ok:
  "cache_inv cache_of_one" "all_live cache_of_one" "entry_at cache_of_one [107] = Some 7"
  "contents cache_of_one [107] = Some (True, [1, 2])" "waiters cache_of_one [107] = [3]"
proof -
  have b: "bucket_of cache_of_one k = Inr 0" for k by (rule one_bucket) (simp_all add: cache_of_one_def)
  show "cache_inv cache_of_one" using b by (simp add: cache_inv_def chain_ok_def cache_of_one_def entry_ok_def)
  show "all_live cache_of_one" by (simp add: all_live_def cache_of_one_def)
  show e: "entry_at cache_of_one [107] = Some 7" using b by (simp add: entry_at_def cache_of_one_def)
  show "contents cache_of_one [107] = Some (True, [1, 2])" using e by (simp add: contents_def cache_of_one_def)
  show "waiters cache_of_one [107] = [3]" using e by (simp add: waiters_def cache_of_one_def)
qed

text \<open>
  Property C8. What \<open>cache_lookup_partial\<close> does on a well-formed cache, for every state of the entry, every offset and
  maximum. When the copy can be allocated or there is nothing to copy, it does not fault, changes neither the invariant nor what
  the cache holds, and its status and outputs are those of the specification \<open>lookup_spec\<close>: the whole response when it
  is complete and no maximum is given, at most \<open>max_size\<close> bytes from the offset otherwise, "not loaded" when there are
  none yet, "done" when there are none left, and "error" for an offset past the end. When \<open>malloc\<close> returns \<open>NULL\<close>
  for a copy of at least one byte, it writes through that pointer (and the mutex of the bucket is still locked).
\<close>

theorem lookup_answers:
  assumes "cache_inv c"
  shows "if malloc_ok \<or> \<not> copies (lookup_spec (contents c key) (unat off) (unat m) out)
    then \<exists>st out' c'. cache_lookup_partial c key off m now malloc_ok out = Inr (st, out', c')
      \<and> (st, out') = lookup_spec (contents c key) (unat off) (unat m) out
      \<and> cache_inv c' \<and> contents c' = contents c
    else cache_lookup_partial c key off m now malloc_ok out = Inl NullDeref"
  using lookup_any_memory [OF assms, of malloc_ok key off m out now] by (auto split: if_splits)

theorem lookup_answers_witness:
  "cache_inv cache_of_one \<and>
   (\<exists>c'. cache_lookup_partial cache_of_one [107] 1 16384 9 True \<lparr>out_data = None, out_size = 0, out_loading = False\<rparr>
      = Inr (CACHE_NEW_LOADED, \<lparr>out_data = Some [2], out_size = 1, out_loading = True\<rparr>, c') \<and> cache_inv c') \<and>
   cache_lookup_partial cache_of_one [107] 1 16384 9 False \<lparr>out_data = None, out_size = 0, out_loading = False\<rparr> = Inl NullDeref"
  using lookup_answers [OF cache_of_one_ok(1), of True "[107]" 1 16384 "\<lparr>out_data = None, out_size = 0, out_loading = False\<rparr>" 9]
    lookup_answers [OF cache_of_one_ok(1), of False "[107]" 1 16384 "\<lparr>out_data = None, out_size = 0, out_loading = False\<rparr>" 9]
    cache_of_one_ok by auto

text \<open>
  Property C9. Appending to an entry that is loading ends and succeeds as long as the total is at
  most \<open>2 ^ 63\<close> bytes: the doubling of the buffer stops, the write stays inside it, the entry's
  bytes are the old ones followed by the chunk, nothing else in the cache changes, and exactly the
  waiting clients whose handle is not closing are woken.
\<close>

theorem append_extends_and_wakes:
  assumes "cache_inv c" "entry_at c key = Some a" "contents c key = Some (True, d)"
    and "length d + length chunk \<le> 2 ^ 63"
  shows "\<exists>c'. cache_append_data c (Some a) chunk now True closing
        = Some (Inr (0, c', filter (\<lambda>w. \<not> closing w) (waiters c key)))
    \<and> cache_inv c' \<and> entry_at c' = entry_at c \<and> contents c' = (contents c)(key \<mapsto> (True, d @ chunk))
    \<and> waiters c' = waiters c"
  by (rule append_wakes [OF assms])

theorem append_extends_and_wakes_witness:
  "\<exists>c'. cache_append_data cache_of_one (Some 7) [8, 9] 6 True (\<lambda>_. False) = Some (Inr (0, c', [3]))
     \<and> cache_inv c' \<and> contents c' [107] = Some (True, [1, 2, 8, 9])"
  using append_extends_and_wakes [OF cache_of_one_ok(1,3,4), of "[8, 9]" 6 "\<lambda>_. False"] cache_of_one_ok(5) by auto

text \<open>
  Cancelling removes the entry of the key exactly when it is loading, frees it once and
  changes no other key; otherwise it returns -1 and changes nothing.
\<close>

theorem cancel_removes_only_loading:
  assumes "cache_inv c"
  shows "case contents c key of
      Some (True, d) \<Rightarrow> \<exists>c'. cache_cancel_loading c key = Inr (0, c') \<and> cache_inv c' \<and> contents c' = (contents c)(key := None)
    | _ \<Rightarrow> cache_cancel_loading c key = Inr (-1, c)"
  by (rule cancel_correct [OF assms])

theorem cancel_removes_only_loading_witness:
  "(\<exists>c'. cache_cancel_loading cache_of_one [107] = Inr (0, c') \<and> contents c' [107] = None)"
  using cancel_removes_only_loading [OF cache_of_one_ok(1), of "[107]"] cache_of_one_ok(4) by auto

text \<open>
  Property C24. A sweep of the garbage collector over a well-formed cache whose buffers are all
  allocated never faults and keeps the cache well formed. A finished entry stays exactly when it was
  used within the time to live; no key gains an entry; a loading entry is either untouched or lost.
\<close>

theorem sweep_effect:
  assumes "cache_inv c" "all_live c"
  shows "\<exists>c'. cache_clean_expired c now = Inr c' \<and> cache_inv c' \<and>
    (\<forall>key. case entry_at c key of None \<Rightarrow> contents c' key = None
      | Some a \<Rightarrow> (if ex_at c now a then contents c' key = None
          else if \<not> ld_at c a then contents c' key = contents c key
          else contents c' key \<in> {None, contents c key}))"
proof -
  obtain c' where c': "cache_clean_expired c now = Inr c'" "swept_table c now {..<length (buckets c)} c'"
    using clean_expired_run [OF assms] by blast
  with swept_table_key [OF assms(1) c'(2)] show ?thesis by (auto simp: swept_table_def)
qed

theorem sweep_effect_witness:
  "\<exists>c'. cache_clean_expired cache_of_one 1000 = Inr c' \<and> cache_inv c' \<and> contents c' [107] \<in> {None, Some (True, [1, 2])}"
proof -
  obtain c' where c': "cache_clean_expired cache_of_one 1000 = Inr c'" "cache_inv c'"
    "case entry_at cache_of_one [107] of None \<Rightarrow> contents c' [107] = None
      | Some a \<Rightarrow> (if ex_at cache_of_one 1000 a then contents c' [107] = None
          else if \<not> ld_at cache_of_one a then contents c' [107] = contents cache_of_one [107]
          else contents c' [107] \<in> {None, contents cache_of_one [107]})"
    using sweep_effect [OF cache_of_one_ok(1,2), of 1000] by blast
  then show ?thesis using cache_of_one_ok(3,4) by (auto split: if_splits)
qed

text \<open>
  A client that registers for a key nobody has loaded yet is woken by the first chunk:
  starting to load hands the pending clients over to the new entry. \<open>alloc\<close> stands for the
  memory allocator; what is assumed of it is that it returns a block that is not in use.
\<close>

theorem waiter_not_lost:
  assumes "cache_inv c" "contents c key = None" "\<not> closing w" "length chunk \<le> 2 ^ 63"
    and alloc: "\<And>c. cache_inv c \<Longrightarrow> env_ok c (alloc c)"
  shows "\<exists>c1 a c2 c3 woken. cache_register_waiter c key w True True = Inr (0, c1)
    \<and> cache_start_loading c1 key now (alloc c1) = Inr (Some a, c2)
    \<and> cache_append_data c2 (Some a) chunk now True closing = Some (Inr (0, c3, woken))
    \<and> w \<in> set woken \<and> cache_inv c3 \<and> contents c3 = (contents c)(key \<mapsto> (True, chunk))"
proof -
  from register_correct [OF assms(1), of key w] obtain c1 where
    c1: "cache_register_waiter c key w True True = Inr (0, c1)" "cache_inv c1" "contents c1 = contents c"
      "w \<in> set (waiters c1 key)" by auto
  have "entry_at c1 key = None" using c1(3) assms(2) contents_None by metis
  from start_hands_over [OF c1(2) this alloc [OF c1(2)]] obtain a c2 where
    c2: "cache_start_loading c1 key now (alloc c1) = Inr (Some a, c2)" "cache_inv c2" "entry_at c2 key = Some a"
      "contents c2 = (contents c)(key \<mapsto> (True, []))" "w \<in> set (waiters c2 key)" using c1(3,4) by metis
  have "contents c2 key = Some (True, [])" using c2(4) by simp
  from append_wakes [OF c2(2,3) this, of chunk now closing] assms(4) obtain c3 where
    "cache_append_data c2 (Some a) chunk now True closing = Some (Inr (0, c3, filter (\<lambda>w. \<not> closing w) (waiters c2 key)))"
    "cache_inv c3" "contents c3 = (contents c)(key \<mapsto> (True, chunk))" using c2(4) by auto
  with c1(1) c2(1,5) assms(3) show ?thesis by force
qed

theorem waiter_not_lost_witness:
  "\<exists>c1 a c2 c3 woken. cache_register_waiter cache_of_one [108] 4 True True = Inr (0, c1)
    \<and> cache_start_loading c1 [108] 6 (plenty c1) = Inr (Some a, c2)
    \<and> cache_append_data c2 (Some a) [9] 6 True (\<lambda>_. False) = Some (Inr (0, c3, woken)) \<and> 4 \<in> set woken"
proof -
  have "contents cache_of_one [108] = None"
    using one_bucket [of cache_of_one] by (simp add: contents_None entry_at_def cache_of_one_def)
  from waiter_not_lost [OF cache_of_one_ok(1) this, of "\<lambda>_. False" 4 "[9]" plenty 6] env_ok_plenty
  show ?thesis by auto
qed

section \<open>Where the code loses entries and clients\<close>

definition env_at :: "addr \<Rightarrow> create_env" where
  "env_at a = \<lparr>got_entry = Some a, got_key = True, got_rwlock = True, got_data = True, got_mutex = True\<rparr>"

lemma env_ok_at: "entries c a = None \<Longrightarrow> env_ok c (env_at a)"
  by (simp add: env_ok_def env_at_def fresh_def)

definition one_bucket_cache :: cache_t where
  "one_bucket_cache = the (snd (cache_init 0 0 1 100 True (\<lambda>_. True)))"

lemma one_bucket_cache_eq:
  "one_bucket_cache = \<lparr>entries = Map.empty, buckets = [\<lparr>chain_of = [], pending_waiters = []\<rparr>], num_buckets = 1,
     max_size = 0, current_size = 0, max_entries = 0, current_entries = 0, hits = 0, misses = 0, default_ttl = 100\<rparr>"
  by (simp add: one_bucket_cache_def cache_init_def)

lemmas one_bucket_simps =
  one_bucket_cache_eq one_bucket env_at_def create_entry_def Let_def
  cache_register_waiter_def cache_start_loading_def cache_finish_loading_def cache_cancel_loading_def
  claim_waiters_def notify_waiting_clients_def cache_clean_expired_def relink_def head_ptr_def free_entry_def

lemma finish_empty:
  assumes inv: "cache_inv c" and a: "entry_at c key = Some a" and ct: "contents c key = Some (True, [])"
  shows "\<exists>c' woken. cache_finish_loading c (Some a) now ok closing = Inr (0, c', woken)
    \<and> (\<forall>now'. now + default_ttl c < now' \<longrightarrow> cache_clean_expired c' now' = Inl DoubleFree)"
proof -
  from ct a inv obtain e where e: "entries c a = Some e" "ekey e = key" "is_loading e" "edata e = []"
    by (auto simp: contents_Some)
  have ok: "entry_ok e" using inv e by (auto simp: cache_inv_def)
  define e' where "e' = e\<lparr>last_accessed := now, is_loading := False, data_live := False\<rparr>"
  define c' where "c' = c\<lparr>entries := (entries c)(a \<mapsto> e')\<rparr>"
  have e': "ekey e' = ekey e" "entry_ok e'" using ok e(4) by (auto simp: e'_def entry_ok_def unat_eq_0)
  have "data_size e = 0" "data_size e < allocated_size e" using ok e(3,4) by (auto simp: entry_ok_def unat_eq_0)
  then have "cache_finish_loading c (Some a) now ok closing = Inr (0, c', notify_waiting_clients closing e')"
    using e by (simp add: cache_finish_loading_def Let_def e'_def c'_def)
  moreover have "cache_inv c'" unfolding c'_def by (rule cache_inv_update_entry [OF inv e(1) e'])
  moreover have "entry_at c' key = Some a" using a entry_at_update_entry [OF inv e(1) e'] by (simp add: c'_def)
  moreover have "ex_at c' now' a" if "now + default_ttl c < now'" for now'
    using that by (simp add: ex_at_def expired_def c'_def e'_def)
  moreover have "\<not> data_live (the (entries c' a))" by (simp add: c'_def e'_def)
  ultimately show ?thesis using sweep_double_free by blast
qed

lemma claimed_first_iff: "claimed_first key tbl \<longleftrightarrow> (\<exists>ws rest. tbl = (key, ws) # rest)"
  by (cases tbl) (auto simp: claimed_first_def)

text \<open>
  Property C39. What the cache loses, for any well-formed table and any key, of bucket \<open>i\<close>.
  First, a sweep of a table whose buffers are all allocated unlinks an entry \<open>a\<close> that is being loaded exactly when the first finished
  entry behind it in the list of the bucket has expired; the entry stays allocated but no call finds it any more, and the next
  request for its key starts a second load.
  Second, starting to load a key that has no entry hands over the clients that registered for it; but if their list
  is the first one of the bucket, every other key of the bucket without an entry loses its clients.
  Third, when an entry that has received nothing is finished, its buffer is gone, and the first sweep after its time of life
  frees it a second time.
\<close>

theorem cache_loses_entries_and_clients:
  assumes "cache_inv c" "bucket_of c key = Inr i"
  shows "(\<forall>us a as now. all_live c \<and> entry_at c key = Some a \<and> ld_at c a \<and> chain_of (buckets c ! i) = us @ a # as \<longrightarrow>
      (\<exists>c'. cache_clean_expired c now = Inr c' \<and> entries c' a = entries c a
        \<and> (if \<exists>x. find (\<lambda>x. \<not> ld_at c x) as = Some x \<and> ex_at c now x
            then entry_at c' key = None \<and>
              (\<forall>env t. env_ok c' env \<longrightarrow> (\<exists>b c2. cache_start_loading c' key t env = Inr (Some b, c2) \<and> b \<noteq> a))
            else entry_at c' key = Some a))) \<and>
    (\<forall>env now. entry_at c key = None \<and> env_ok c env \<longrightarrow>
      (\<exists>a c'. cache_start_loading c key now env = Inr (Some a, c') \<and> waiters c' key = waiters c key
        \<and> (\<forall>k. k \<noteq> key \<longrightarrow> waiters c' k =
            (if (\<exists>ws rest. pending_waiters (buckets c ! i) = (key, ws) # rest) \<and> bucket_of c k = Inr i \<and> entry_at c k = None
             then [] else waiters c k)))) \<and>
    (\<forall>a now ok closing. entry_at c key = Some a \<and> contents c key = Some (True, []) \<longrightarrow>
      (\<exists>c' woken. cache_finish_loading c (Some a) now ok closing = Inr (0, c', woken)
        \<and> (\<forall>now'. now + default_ttl c < now' \<longrightarrow> cache_clean_expired c' now' = Inl DoubleFree)))"
    (is "?sweep \<and> ?start \<and> ?finish")
proof (intro conjI)
  show ?sweep
  proof (intro allI impI)
    fix us a as now assume h: "all_live c \<and> entry_at c key = Some a \<and> ld_at c a \<and> chain_of (buckets c ! i) = us @ a # as"
    then obtain c' where c': "cache_clean_expired c now = Inr c'" "cache_inv c'" "entries c' a = entries c a"
        "entry_at c' key = (if kept_by (ld_at c) (ex_at c now) as then Some a else None)"
      using sweep_loses [OF assms(1) _ assms(2), of a us as now] by blast
    have "\<exists>b c2. cache_start_loading c' key t env = Inr (Some b, c2) \<and> b \<noteq> a" if "entry_at c' key = None" "env_ok c' env" for env t
    proof -
      from start_loading_absent [OF c'(2) that, of t] obtain b c2 where
        "cache_start_loading c' key t env = Inr (Some b, c2)" "entries c' b = None" by blast
      moreover have "entries c' a \<noteq> None" using c'(3) entry_at_live [OF assms(1), of key a] h by auto
      ultimately show ?thesis by auto
    qed
    with c' show "\<exists>c'. cache_clean_expired c now = Inr c' \<and> entries c' a = entries c a
        \<and> (if \<exists>x. find (\<lambda>x. \<not> ld_at c x) as = Some x \<and> ex_at c now x
            then entry_at c' key = None \<and>
              (\<forall>env t. env_ok c' env \<longrightarrow> (\<exists>b c2. cache_start_loading c' key t env = Inr (Some b, c2) \<and> b \<noteq> a))
            else entry_at c' key = Some a)"
      by (intro exI [of _ c']) (auto simp: kept_by_def split: option.splits)
  qed
  show ?start
    using start_waiters [OF assms(1) _ _ assms(2)] unfolding claimed_first_iff by blast
  show ?finish using finish_empty [OF assms(1)] by blast
qed

text \<open>
  A bucket with an entry that is being loaded and has no data yet, before a finished one, and two clients that wait for keys
  without an entry.
\<close>

definition losing_cache :: cache_t where
  "losing_cache = cache_of_one\<lparr>
     entries := [7 \<mapsto> \<lparr>ekey = [107], is_loading = True, edata = [], data_live = True, data_size = 0,
         allocated_size = 4096, last_accessed = 1000, waiting_clients = []\<rparr>,
       8 \<mapsto> \<lparr>ekey = [108], is_loading = False, edata = [1], data_live = True, data_size = 1,
         allocated_size = 1, last_accessed = 5, waiting_clients = []\<rparr>],
     buckets := [\<lparr>chain_of = [7, 8], pending_waiters = [([110], [6]), ([109], [5])]\<rparr>], current_entries := 2\<rparr>"

theorem cache_loses_entries_and_clients_witness:
  "(\<exists>c'. cache_clean_expired losing_cache 1000 = Inr c' \<and> entry_at losing_cache [107] = Some 7 \<and> entry_at c' [107] = None)
    \<and> (\<exists>a c'. cache_start_loading losing_cache [110] 9 (env_at 9) = Inr (Some a, c') \<and> waiters losing_cache [109] = [5]
        \<and> waiters c' [109] = [])
    \<and> (\<exists>c' woken. cache_finish_loading losing_cache (Some 7) 1001 True (\<lambda>_. False) = Inr (0, c', woken)
        \<and> cache_clean_expired c' 2000 = Inl DoubleFree)"
proof -
  have b: "bucket_of losing_cache k = Inr 0" for k by (rule one_bucket) (simp_all add: losing_cache_def cache_of_one_def)
  have inv: "cache_inv losing_cache"
    using b by (simp add: cache_inv_def chain_ok_def losing_cache_def cache_of_one_def entry_ok_def)
  have e: "entry_at losing_cache [107] = Some 7" "contents losing_cache [107] = Some (True, [])" "entry_at losing_cache [110] = None"
      "entry_at losing_cache [109] = None" "waiters losing_cache [109] = [5]"
    using b by (simp_all add: entry_at_def contents_def waiters_def losing_cache_def cache_of_one_def)
  have l: "all_live losing_cache" "ld_at losing_cache 7" "chain_of (buckets losing_cache ! 0) = [] @ 7 # [8]"
      "\<exists>x. find (\<lambda>x. \<not> ld_at losing_cache x) [8] = Some x \<and> ex_at losing_cache 1000 x"
    by (simp_all add: all_live_def ld_at_def ex_at_def expired_def losing_cache_def cache_of_one_def)
  have env: "env_ok losing_cache (env_at 9)" by (rule env_ok_at) (simp add: losing_cache_def cache_of_one_def)
  have p: "\<exists>ws rest. pending_waiters (buckets losing_cache ! 0) = ([110], ws) # rest" "1001 + default_ttl losing_cache < 2000"
    by (simp_all add: losing_cache_def cache_of_one_def)
  note t1 = cache_loses_entries_and_clients [OF inv b, of "[107]"] and t2 = cache_loses_entries_and_clients [OF inv b, of "[110]"]
  from t1 [THEN conjunct1, rule_format, OF conjI [OF l(1) conjI [OF e(1) conjI [OF l(2,3)]]], of 1000] l(4)
  have "\<exists>c'. cache_clean_expired losing_cache 1000 = Inr c' \<and> entry_at c' [107] = None" by auto
  moreover from t2 [THEN conjunct2, THEN conjunct1, rule_format, OF conjI [OF e(3) env], of 9] p(1) b e(4)
  have "\<exists>a c'. cache_start_loading losing_cache [110] 9 (env_at 9) = Inr (Some a, c') \<and> waiters c' [109] = []" by force
  moreover from t1 [THEN conjunct2, THEN conjunct2, rule_format, OF conjI [OF e(1,2)], of 1001 True "\<lambda>_. False"] p(2)
  have "\<exists>c' woken. cache_finish_loading losing_cache (Some 7) 1001 True (\<lambda>_. False) = Inr (0, c', woken)
        \<and> cache_clean_expired c' 2000 = Inl DoubleFree" by blast
  ultimately show ?thesis using e(1,5) by blast
qed

end
