(* ===== verification/Cache_Calls.thy ===== *)
theory Cache_Calls
  imports Cache_Store
begin

text \<open>
  Sequences of calls of the cache, as its clients, its workers and the sweep make them. A worker keeps the pointer
  that \<open>cache_start_loading\<close> gave it (\<open>task->entry\<close>, \<open>ctx.entry\<close>) and uses it in every later call, whatever has happened to the entry
  meanwhile; and any call may find no memory. \<open>breaks\<close> says when a call faults, and how; every other call keeps
  the invariant \<open>cache_inv\<close>, that the table is well formed.
\<close>

section \<open>Calls\<close>

text \<open>The loads are numbered. The last arguments of a call are what \<open>malloc\<close> and \<open>realloc\<close> answer, and which handles are closing.\<close>

datatype cache_call =
    Lookup cstring usize usize int bool
  | Start nat cstring int create_env
  | Append nat "byte list" int bool "handle \<Rightarrow> bool"
  | Finish nat int bool "handle \<Rightarrow> bool"
  | Cancel cstring
  | Register cstring handle bool bool
  | Unregister cstring handle
  | Sweep int

text \<open>\<open>got l\<close>: the pointer that load \<open>l\<close> holds.\<close>

record callers =
  table :: cache_t
  got :: "nat \<Rightarrow> ptr"

definition with_table :: "callers \<Rightarrow> cache_t \<Rightarrow> callers" where
  "with_table s c = s\<lparr>table := c\<rparr>"

definition no_result :: lookup_out where
  "no_result = \<lparr>out_data = None, out_size = 0, out_loading = False\<rparr>"

fun do_call :: "cache_call \<Rightarrow> callers \<Rightarrow> callers res option" where
  "do_call (Lookup key off m now ok) s =
     Some (rbind (cache_lookup_partial (table s) key off m now ok no_result) (\<lambda>(_, _, c). Inr (with_table s c)))"
| "do_call (Start l key now env) s =
     Some (rbind (cache_start_loading (table s) key now env) (\<lambda>(p, c). Inr (with_table (s\<lparr>got := (got s)(l := p)\<rparr>) c)))"
| "do_call (Append l chunk now ok closing) s =
     tbind (cache_append_data (table s) (got s l) chunk now ok closing) (\<lambda>(_, c, _). Some (Inr (with_table s c)))"
| "do_call (Finish l now ok closing) s =
     Some (rbind (cache_finish_loading (table s) (got s l) now ok closing) (\<lambda>(_, c, _). Inr (with_table s c)))"
| "do_call (Cancel key) s = Some (rbind (cache_cancel_loading (table s) key) (\<lambda>(_, c). Inr (with_table s c)))"
| "do_call (Register key w waiter_ok table_ok) s =
     Some (rbind (cache_register_waiter (table s) key w waiter_ok table_ok) (\<lambda>(_, c). Inr (with_table s c)))"
| "do_call (Unregister key w) s =
     Some (rbind (cache_unregister_waiter (table s) key w) (\<lambda>(_, c). Inr (with_table s c)))"
| "do_call (Sweep now) s = Some (rbind (cache_clean_expired (table s) now) (\<lambda>c. Inr (with_table s c)))"

fun run_calls :: "cache_call list \<Rightarrow> callers \<Rightarrow> callers res option" where
  "run_calls [] s = Some (Inr s)"
| "run_calls (call # calls) s = tbind (do_call call s) (run_calls calls)"

section \<open>What can go wrong\<close>

definition stale :: "callers \<Rightarrow> nat \<Rightarrow> bool" where
  "stale s l = (case got s l of None \<Rightarrow> False | Some a \<Rightarrow> entries (table s) a = None)"

fun breaks :: "cache_call \<Rightarrow> callers \<Rightarrow> fault option" where
  "breaks (Lookup key off m now ok) s =
     (if \<not> ok \<and> copies (lookup_spec (contents (table s) key) (unat off) (unat m) no_result) then Some NullDeref else None)"
| "breaks (Append l chunk now ok closing) s = (if stale s l then Some UseAfterFree else None)"
| "breaks (Finish l now ok closing) s = (if stale s l then Some UseAfterFree else None)"
| "breaks (Register key w waiter_ok table_ok) s =
     (if waiter_ok then None
      else Some (case bucket_of (table s) key of Inl f \<Rightarrow> f
        | Inr i \<Rightarrow> if chain_of (buckets (table s) ! i) = [] then NullDeref else BadUnlock))"
| "breaks (Sweep now) s = (if sweep_breaks (table s) now then Some DoubleFree else None)"
| "breaks _ s = None"

text \<open>The first call of a sequence that goes wrong.\<close>

fun goes_wrong :: "cache_call list \<Rightarrow> callers \<Rightarrow> fault option" where
  "goes_wrong [] s = None"
| "goes_wrong (call # calls) s = (case breaks call s of
     Some f \<Rightarrow> Some f
   | None \<Rightarrow> (case do_call call s of Some (Inr s') \<Rightarrow> goes_wrong calls s' | _ \<Rightarrow> None))"

text \<open>
  What is asked of the machine: the allocator gives a block that is not in use, and an entry stays below \<open>2 ^ 63\<close> bytes.
\<close>

fun call_ok :: "callers \<Rightarrow> cache_call \<Rightarrow> bool" where
  "call_ok s (Start l key now env) \<longleftrightarrow> (case got_entry env of None \<Rightarrow> True | Some a \<Rightarrow> entries (table s) a = None)"
| "call_ok s (Append l chunk now ok closing) \<longleftrightarrow> (case got s l of None \<Rightarrow> True
     | Some a \<Rightarrow> (case entries (table s) a of None \<Rightarrow> True
         | Some e \<Rightarrow> is_loading e \<longrightarrow> length (edata e) + length chunk \<le> 2 ^ 63))"
| "call_ok s _ \<longleftrightarrow> True"

fun admissible :: "cache_call list \<Rightarrow> callers \<Rightarrow> bool" where
  "admissible [] s \<longleftrightarrow> True"
| "admissible (call # calls) s \<longleftrightarrow> call_ok s call \<and> (case do_call call s of Some (Inr s') \<Rightarrow> admissible calls s' | _ \<Rightarrow> True)"

section \<open>Every call\<close>

definition goes_on :: "callers res option \<Rightarrow> bool" where
  "goes_on r \<longleftrightarrow> (\<exists>s. r = Some (Inr s) \<and> cache_inv (table s))"

lemma goes_on_table [simp]: "goes_on (Some (Inr (with_table s c))) \<longleftrightarrow> cache_inv c"
  by (simp add: goes_on_def with_table_def)

lemma start_any:
  assumes inv: "cache_inv c" and env: "case got_entry env of None \<Rightarrow> True | Some a \<Rightarrow> entries c a = None"
  shows "\<exists>p c'. cache_start_loading c key now env = Inr (p, c') \<and> cache_inv c'"
proof (cases "entry_at c key")
  case (Some b)
  with start_loading_present [OF inv Some] inv show ?thesis by auto
next
  case None
  show ?thesis
  proof (cases "env_ok c env")
    case True
    from start_loading_absent [OF inv None this, of now] show ?thesis by blast
  next
    case False
    with env have "create_entry key 4096 now env = None"
      by (auto simp: env_ok_def create_entry_def fresh_def Let_def split: option.splits)
    moreover obtain i where "bucket_of c key = Inr i" using bucket_of_ok [OF inv] by blast
    ultimately show ?thesis using search_ok [OF inv, of key i] None inv by (simp add: cache_start_loading_def)
  qed
qed

lemma register_any:
  assumes inv: "cache_inv c"
  shows "\<exists>r c'. cache_register_waiter c key w True table_ok = Inr (r, c') \<and> cache_inv c'"
  using register_correct [OF inv, of key w] register_no_table [OF inv, of key w] inv by (cases table_ok) auto

lemma finish_any:
  assumes "cache_inv c" "entries c a = Some e"
  shows "\<exists>r c' woken. cache_finish_loading c (Some a) now ok closing = Inr (r, c', woken) \<and> cache_inv c'"
proof (cases "is_loading e")
  case True
  from finish_entry [OF assms True] obtain e' where
    "cache_finish_loading c (Some a) now ok closing = Inr (0, c\<lparr>entries := (entries c)(a \<mapsto> e')\<rparr>, notify_waiting_clients closing e')"
    "ekey e' = ekey e" "entry_ok e'" by blast
  with cache_inv_update_entry [OF assms] show ?thesis by blast
qed (use assms in \<open>simp add: cache_finish_loading_def\<close>)

text \<open>Progress and preservation: a call that does not break returns and keeps the invariant; one that does faults as said.\<close>

lemma call_progress:
  assumes inv: "cache_inv (table s)" and ok: "call_ok s call" and b: "breaks call s = None"
  shows "goes_on (do_call call s)"
proof (cases call)
  case (Lookup key off m now mem)
  with b lookup_any_memory [OF inv, of mem key off m no_result now] show ?thesis by (auto split: if_splits)
next
  case (Start l key now env)
  with ok start_any [OF inv, of env key now] show ?thesis by auto
next
  case (Append l chunk now mem closing)
  show ?thesis
  proof (cases "got s l")
    case None
    with Append inv show ?thesis by (simp add: cache_append_data_def)
  next
    case (Some a)
    with Append b obtain e where e: "entries (table s) a = Some e" by (auto simp: stale_def split: if_splits)
    with Append Some ok append_any [OF inv e, of chunk now mem closing] show ?thesis by auto
  qed
next
  case (Finish l now mem closing)
  show ?thesis
  proof (cases "got s l")
    case None
    with Finish inv show ?thesis by (simp add: cache_finish_loading_def)
  next
    case (Some a)
    with Finish b obtain e where e: "entries (table s) a = Some e" by (auto simp: stale_def split: if_splits)
    with Finish Some finish_any [OF inv e, of now mem closing] show ?thesis by auto
  qed
next
  case (Cancel key)
  have "\<exists>r c'. cache_cancel_loading (table s) key = Inr (r, c') \<and> cache_inv c'"
    using cancel_correct [OF inv, of key] inv by (auto split: option.splits prod.splits bool.splits)
  with Cancel show ?thesis by auto
next
  case (Register key w waiter_ok table_ok)
  with b register_any [OF inv, of key w table_ok] show ?thesis by (auto split: if_splits)
next
  case (Unregister key w)
  have "\<exists>r c'. cache_unregister_waiter (table s) key w = Inr (r, c') \<and> cache_inv c'"
    using unregister_correct [OF inv, of key w] inv by (auto split: option.splits)
  with Unregister show ?thesis by auto
next
  case (Sweep now)
  with b clean_expired_any [OF inv, of now] show ?thesis by (auto split: if_splits)
qed

lemma call_breaks:
  assumes inv: "cache_inv (table s)" and b: "breaks call s = Some f"
  shows "do_call call s = Some (Inl f)"
proof (cases call)
  case (Lookup key off m now mem)
  with b lookup_any_memory [OF inv, of mem key off m no_result now] show ?thesis by (auto split: if_splits)
next
  case (Append l chunk now mem closing)
  with b show ?thesis by (auto simp: stale_def cache_append_data_def split: if_splits option.splits)
next
  case (Finish l now mem closing)
  with b show ?thesis by (auto simp: stale_def cache_finish_loading_def split: if_splits option.splits)
next
  case (Register key w waiter_ok table_ok)
  obtain i where i: "bucket_of (table s) key = Inr i" using bucket_of_ok [OF inv] by blast
  with Register b register_no_waiter [OF inv i, of w table_ok] show ?thesis by (auto split: if_splits)
next
  case (Sweep now)
  with b clean_expired_any [OF inv, of now] show ?thesis by (auto split: if_splits)
qed (use b in simp_all)

lemma calls_run:
  "cache_inv (table s) \<Longrightarrow> admissible calls s \<Longrightarrow> (case goes_wrong calls s of
      None \<Rightarrow> goes_on (run_calls calls s) | Some f \<Rightarrow> run_calls calls s = Some (Inl f))"
proof (induction calls arbitrary: s)
  case Nil
  then show ?case by (simp add: goes_on_def)
next
  case (Cons call calls)
  show ?case
  proof (cases "breaks call s")
    case None
    with call_progress [OF Cons.prems(1) _ None] Cons.prems(2) obtain s' where
      "do_call call s = Some (Inr s')" "cache_inv (table s')" by (auto simp: goes_on_def)
    with None Cons.IH [of s'] Cons.prems(2) show ?thesis by (auto split: option.splits)
  next
    case (Some f)
    with call_breaks [OF Cons.prems(1) Some] show ?thesis by simp
  qed
qed

section \<open>Properties\<close>

text \<open>
  Property C15. Sequences of calls are type safe except in four situations. Started on the table \<open>cache_init\<close> makes, with any answers of
  the allocator, a sequence of lookups, loads, cancellations, registrations and sweeps either returns and leaves a
  well-formed table, or its first fault is one of these, and then it does fault so: a lookup that has bytes to copy and gets no
  memory (null pointer); a worker that appends to or finishes an entry that was freed since its load started (use
  after free); a client that registers and gets no memory for its waiter (an unlocked mutex is unlocked, or a
  null pointer); a sweep over an expired entry whose buffer is gone because it was finished empty (double free). In particular
  no call reads or writes outside a buffer, and none runs for ever. Assumed is that the allocator gives blocks that are not in
  use, that an entry stays below \<open>2 ^ 63\<close> bytes, and (as in the model of \<open>cache_register_waiter\<close>) that \<open>strdup\<close> succeeds there.
\<close>

theorem cache_calls_type_safe:
  assumes "cache_init maxs maxe nb ttl True (\<lambda>_. True) = (r, Some c)" "admissible calls \<lparr>table = c, got = (\<lambda>_. None)\<rparr>"
  shows "case goes_wrong calls \<lparr>table = c, got = (\<lambda>_. None)\<rparr> of
      None \<Rightarrow> \<exists>s'. run_calls calls \<lparr>table = c, got = (\<lambda>_. None)\<rparr> = Some (Inr s') \<and> cache_inv (table s')
    | Some f \<Rightarrow> run_calls calls \<lparr>table = c, got = (\<lambda>_. None)\<rparr> = Some (Inl f)"
proof -
  from cache_init_inv [OF assms(1)] have "cache_inv (table \<lparr>table = c, got = (\<lambda>_. None)\<rparr>)" by auto
  from calls_run [OF this assms(2)] show ?thesis unfolding goes_on_def .
qed

text \<open>
  A load that goes well; two loads of one key of which the first is cancelled while the second still appends; and
  an entry that is finished empty.
\<close>

definition good_calls :: "cache_call list" where
  "good_calls = [Register [49] 5 True True, Start 0 [49] 0 (env_at 1), Append 0 [7, 8] 0 True (\<lambda>_. False), Lookup [49] 1 4 0 True,
     Finish 0 0 True (\<lambda>_. False), Start 1 [50] 0 (env_at 2), Cancel [50], Sweep 1000, Unregister [49] 5]"

definition stale_calls :: "cache_call list" where
  "stale_calls = [Start 0 [49] 0 (env_at 1), Start 1 [49] 0 (env_at 2), Cancel [49], Append 1 [7] 0 True (\<lambda>_. False)]"

definition empty_calls :: "cache_call list" where
  "empty_calls = [Start 0 [49] 0 (env_at 1), Finish 0 0 True (\<lambda>_. False), Sweep 1000]"

abbreviation at_start :: callers where
  "at_start \<equiv> \<lparr>table = one_bucket_cache, got = (\<lambda>_. None)\<rparr>"

theorem cache_calls_type_safe_witness:
  "(\<exists>s'. run_calls good_calls at_start = Some (Inr s') \<and> cache_inv (table s'))
    \<and> run_calls stale_calls at_start = Some (Inl UseAfterFree)
    \<and> run_calls empty_calls at_start = Some (Inl DoubleFree)
    \<and> run_calls [Register [49] 5 False True] at_start = Some (Inl NullDeref)"
proof -
  have init: "cache_init 0 0 1 100 True (\<lambda>_. True) = (0, Some one_bucket_cache)" by (simp add: one_bucket_cache_def cache_init_def)
  note eval = one_bucket_simps cache_append_data_def cache_lookup_partial_def cache_unregister_waiter_def copy_out_def
    entry_at_def contents_def word_le_nat_alt with_table_def no_result_def stale_def
    sweep_breaks_def dead_at_def ex_at_def expired_def good_calls_def stale_calls_def empty_calls_def
  have ok: "admissible good_calls at_start" "goes_wrong good_calls at_start = None"
    "admissible stale_calls at_start" "goes_wrong stale_calls at_start = Some UseAfterFree"
    "admissible empty_calls at_start" "goes_wrong empty_calls at_start = Some DoubleFree"
    "admissible [Register [49] 5 False True] at_start" "goes_wrong [Register [49] 5 False True] at_start = Some NullDeref"
    by (simp_all add: eval)
  show ?thesis
    using cache_calls_type_safe [OF init ok(1)] cache_calls_type_safe [OF init ok(3)] cache_calls_type_safe [OF init ok(5)]
      cache_calls_type_safe [OF init ok(7)] unfolding ok(2,4,6,8) option.case by blast
qed

end
