(* ===== verification/Cache_Threads.thy ===== *)
theory Cache_Threads
  imports Cache_Store
begin

text \<open>
  One entry of the cache of \<open>proxy/src/cache/cache.c\<close> and the threads that use it at the same time: the background
  worker that creates, fills and finishes (or cancels) it, backends that look it up, and the thread that sweeps
  expired entries. Unlike in the theory \<open>Cache\<close>, where a call is one step, a step here is one access to shared memory or one
  operation on the bucket's mutex or on the entry's \<open>data_lock\<close>. The worker appends and finishes without the bucket's
  mutex, and a lookup reads \<open>is_loading\<close> and \<open>data_size\<close> without \<open>data_lock\<close>: the theory
  \<open>Cache_Threads_Laws\<close> shows when that is safe.

  \<open>None\<close> is an operation that waits. \<open>a\<close> is the address \<open>malloc\<close> or \<open>realloc\<close> gives the worker, \<open>ok\<close> says whether it has memory; the
  \<open>malloc\<close> of a lookup, whose result the code does not test, always succeeds here (\<open>Cache_Store\<close> has the fault when it does not).
  A step of the worker on an entry that was freed is a fault. What one access protects alone is merged with its neighbour: the
  pointer and the size stored after \<open>realloc\<close>, and unlinking and freeing an entry. The counters of the cache, the lists of
  waiting clients (\<open>Cache_Waiters\<close>) and other keys are left out; a cancelled load is one whose key is its path.
\<close>

section \<open>State\<close>

datatype who = Worker | Reader nat | Sweeper

datatype wpc =
    W_start | W_create | W_created | W_next
  | A_check "byte list" | A_lock "byte list" | A_size "byte list" | A_touch "byte list" usize | A_room "byte list" usize
  | A_moved "byte list" usize addr usize | A_copy "byte list" usize | A_store "byte list" usize | A_unlock | A_notify | A_fail
  | F_check | F_lock | F_touch | F_flag | F_size | F_room usize | F_moved addr usize | F_unlock | F_notify
  | C_lock | C_look | C_free | C_unlock
  | W_done int

text \<open>
  A reader's call: its offset, its maximum and the output parameters as they are passed in stay in the state until the
  call returns. \<open>R_leave\<close> and \<open>R_ret\<close> hold the answer.
\<close>

record call =
  c_off :: usize
  c_max :: usize
  c_out :: lookup_out

datatype rpc =
    R_idle
  | R_call call
  | R_search call
  | R_flag call
  | R_size call bool
  | R_found call usize
  | R_found_copy call usize addr
  | R_rdlock call bool usize
  | R_ptr call bool usize
  | R_copy call bool usize addr
  | R_rdunlock call bool "cache_status_t \<times> lookup_out"
  | R_touch call "cache_status_t \<times> lookup_out"
  | R_leave call "cache_status_t \<times> lookup_out"
  | R_ret call "cache_status_t \<times> lookup_out"

datatype spc = S_idle | S_lock int | S_look int | S_expire int | S_free int | S_unlock

text \<open>
  \<open>slot\<close> is the entry while it is in its bucket; it is freed in the critical section that unlinks it. \<open>buf\<close> is the pointer
  \<open>entry->data\<close>; the field \<open>data_live\<close> of the entry says whether the block it points to is allocated. \<open>todo\<close> and \<open>complete\<close>
  are the worker's transfer: the pieces that are still to come, and whether it ends well.
\<close>

record cstate =
  slot :: "cache_entry_t option"
  buf :: addr
  bmutex :: "who option"
  wrlocked :: bool
  rdlocked :: "nat set"
  clock :: int
  ttl :: int
  wk :: wpc
  todo :: "byte list list"
  complete :: bool
  rds :: "nat \<Rightarrow> rpc"
  sw :: spc

type_synonym outcome = "cstate res option"

definition moves :: "cstate \<Rightarrow> outcome" where
  "moves s = Some (Inr s)"

definition fails :: "fault \<Rightarrow> outcome" where
  "fails f = Some (Inl f)"

definition on_entry :: "cstate \<Rightarrow> (cache_entry_t \<Rightarrow> outcome) \<Rightarrow> outcome" where
  "on_entry s f = (case slot s of None \<Rightarrow> fails UseAfterFree | Some e \<Rightarrow> f e)"

definition lock_bucket :: "who \<Rightarrow> cstate \<Rightarrow> cstate option" where
  "lock_bucket t s = (if bmutex s = None then Some (s\<lparr>bmutex := Some t\<rparr>) else None)"

definition lock_data :: "cstate \<Rightarrow> cstate option" where
  "lock_data s = (if wrlocked s \<or> rdlocked s \<noteq> {} then None else Some (s\<lparr>wrlocked := True\<rparr>))"

definition go_if :: "cstate option \<Rightarrow> (cstate \<Rightarrow> cstate) \<Rightarrow> outcome" where
  "go_if r f = map_option (\<lambda>s. Inr (f s)) r"

section \<open>The worker\<close>

text \<open>\<open>cache_start_loading\<close>: the bucket's mutex is held from the search to the insertion.\<close>

fun start_at :: "wpc \<Rightarrow> cstring \<Rightarrow> addr \<Rightarrow> bool \<Rightarrow> cstate \<Rightarrow> outcome" where
  "start_at W_start key a ok s = go_if (lock_bucket Worker s) (wk_update (\<lambda>_. W_create))"
| "start_at W_create key a ok s = (case slot s of
     Some e \<Rightarrow> moves (s\<lparr>wk := W_created\<rparr>)
   | None \<Rightarrow> (case create_entry key 4096 (clock s)
         \<lparr>got_entry = (if ok then Some a else None), got_key = True, got_rwlock = True, got_data = True, got_mutex = True\<rparr> of
       None \<Rightarrow> moves (s\<lparr>wk := C_unlock\<rparr>)
     | Some (b, e) \<Rightarrow> moves (s\<lparr>slot := Some e, buf := b, wk := W_created\<rparr>)))"
| "start_at W_created key a ok s = moves (s\<lparr>bmutex := None, wk := W_next\<rparr>)"
| "start_at _ key a ok s = None"

text \<open>
  The transfer: one call of \<open>cache_append_data\<close> for each piece, then \<open>cache_finish_loading\<close>, or \<open>cache_cancel_loading\<close> when
  the transfer fails or a piece could not be appended.
\<close>

fun transfer_at :: "wpc \<Rightarrow> cstate \<Rightarrow> outcome" where
  "transfer_at W_next s = (case todo s of
     [] \<Rightarrow> moves (s\<lparr>wk := if complete s then F_check else C_lock\<rparr>)
   | ch # chs \<Rightarrow> moves (s\<lparr>todo := chs, wk := A_check ch\<rparr>))"
| "transfer_at _ s = None"

fun append_at :: "wpc \<Rightarrow> addr \<Rightarrow> bool \<Rightarrow> cstate \<Rightarrow> outcome" where
  "append_at (A_check ch) a ok s = on_entry s (\<lambda>e. moves (s\<lparr>wk := if is_loading e then A_lock ch else C_lock\<rparr>))"
| "append_at (A_lock ch) a ok s = on_entry s (\<lambda>e. go_if (lock_data s) (wk_update (\<lambda>_. A_size ch)))"
| "append_at (A_size ch) a ok s = on_entry s (\<lambda>e. moves (s\<lparr>wk := A_touch ch (data_size e)\<rparr>))"
| "append_at (A_touch ch cur) a ok s =
     on_entry s (\<lambda>e. moves (s\<lparr>slot := Some (e\<lparr>last_accessed := clock s\<rparr>), wk := A_room ch cur\<rparr>))"
| "append_at (A_room ch cur) a ok s = on_entry s (\<lambda>e.
     if cur + of_nat (length ch) > allocated_size e then
       (case grow (allocated_size e) (cur + of_nat (length ch)) of
          None \<Rightarrow> None
        | Some n \<Rightarrow>
            if \<not> ok then moves (s\<lparr>wk := A_fail\<rparr>)
            else moves (s\<lparr>slot := Some (e\<lparr>data_live := a = buf s\<rparr>), wk := A_moved ch cur a n\<rparr>))
     else moves (s\<lparr>wk := A_copy ch cur\<rparr>))"
| "append_at (A_moved ch cur b n) a ok s = on_entry s (\<lambda>e.
     moves (s\<lparr>slot := Some (e\<lparr>data_live := True, allocated_size := n\<rparr>), buf := b, wk := A_copy ch cur\<rparr>))"
| "append_at (A_copy ch cur) a ok s = on_entry s (\<lambda>e.
     if unat cur + length ch > unat (allocated_size e) then fails OutOfBounds
     else if \<not> data_live e then fails UseAfterFree
     else moves (s\<lparr>slot := Some (e\<lparr>edata := take (unat cur) (edata e) @ ch @ drop (unat cur + length ch) (edata e)\<rparr>),
                   wk := A_store ch cur\<rparr>))"
| "append_at (A_store ch cur) a ok s =
     on_entry s (\<lambda>e. moves (s\<lparr>slot := Some (e\<lparr>data_size := cur + of_nat (length ch)\<rparr>), wk := A_unlock\<rparr>))"
| "append_at A_unlock a ok s = on_entry s (\<lambda>e. moves (s\<lparr>wrlocked := False, wk := A_notify\<rparr>))"
| "append_at A_notify a ok s = on_entry s (\<lambda>e. moves (s\<lparr>wk := W_next\<rparr>))"
| "append_at A_fail a ok s = on_entry s (\<lambda>e. moves (s\<lparr>wrlocked := False, wk := C_lock\<rparr>))"
| "append_at _ a ok s = None"

fun finish_at :: "wpc \<Rightarrow> addr \<Rightarrow> bool \<Rightarrow> cstate \<Rightarrow> outcome" where
  "finish_at F_check a ok s = on_entry s (\<lambda>e. moves (s\<lparr>wk := if is_loading e then F_lock else W_done 0\<rparr>))"
| "finish_at F_lock a ok s = on_entry s (\<lambda>e. go_if (lock_data s) (wk_update (\<lambda>_. F_touch)))"
| "finish_at F_touch a ok s =
     on_entry s (\<lambda>e. moves (s\<lparr>slot := Some (e\<lparr>last_accessed := clock s\<rparr>), wk := F_flag\<rparr>))"
| "finish_at F_flag a ok s = on_entry s (\<lambda>e. moves (s\<lparr>slot := Some (e\<lparr>is_loading := False\<rparr>), wk := F_size\<rparr>))"
| "finish_at F_size a ok s = on_entry s (\<lambda>e. moves (s\<lparr>wk := F_room (data_size e)\<rparr>))"
| "finish_at (F_room cur) a ok s = on_entry s (\<lambda>e.
     if allocated_size e > cur then
       if cur = 0 then moves (s\<lparr>slot := Some (e\<lparr>data_live := False\<rparr>), wk := F_unlock\<rparr>)
       else if \<not> ok then moves (s\<lparr>wk := F_unlock\<rparr>)
       else moves (s\<lparr>slot := Some (e\<lparr>data_live := a = buf s\<rparr>), wk := F_moved a cur\<rparr>)
     else moves (s\<lparr>wk := F_unlock\<rparr>))"
| "finish_at (F_moved b cur) a ok s = on_entry s (\<lambda>e.
     moves (s\<lparr>slot := Some (e\<lparr>data_live := True, allocated_size := cur\<rparr>), buf := b, wk := F_unlock\<rparr>))"
| "finish_at F_unlock a ok s = on_entry s (\<lambda>e. moves (s\<lparr>wrlocked := False, wk := F_notify\<rparr>))"
| "finish_at F_notify a ok s = on_entry s (\<lambda>e. moves (s\<lparr>wk := W_done 0\<rparr>))"
| "finish_at _ a ok s = None"

fun cancel_at :: "wpc \<Rightarrow> cstate \<Rightarrow> outcome" where
  "cancel_at C_lock s = go_if (lock_bucket Worker s) (wk_update (\<lambda>_. C_look))"
| "cancel_at C_look s = (case slot s of
     Some e \<Rightarrow> moves (s\<lparr>wk := if is_loading e then C_free else C_unlock\<rparr>)
   | None \<Rightarrow> moves (s\<lparr>wk := C_unlock\<rparr>))"
| "cancel_at C_free s = on_entry s (\<lambda>e. if data_live e then moves (s\<lparr>slot := None, wk := C_unlock\<rparr>) else fails DoubleFree)"
| "cancel_at C_unlock s = moves (s\<lparr>bmutex := None, wk := W_done (-1)\<rparr>)"
| "cancel_at _ s = None"

definition worker_step :: "cstring \<Rightarrow> addr \<Rightarrow> bool \<Rightarrow> cstate \<Rightarrow> outcome" where
  "worker_step key a ok s =
     (if wk s \<in> {W_start, W_create, W_created} then start_at (wk s) key a ok s
      else if wk s = W_next then transfer_at (wk s) s
      else if wk s \<in> {C_lock, C_look, C_free, C_unlock} then cancel_at (wk s) s
      else case append_at (wk s) a ok s of None \<Rightarrow> finish_at (wk s) a ok s | Some r \<Rightarrow> Some r)"

section \<open>Readers\<close>

definition reader_to :: "nat \<Rightarrow> rpc \<Rightarrow> cstate \<Rightarrow> cstate" where
  "reader_to i k s = s\<lparr>rds := (rds s)(i := k)\<rparr>"

definition out_of :: "call \<Rightarrow> bool \<Rightarrow> lookup_out" where
  "out_of c ld = (c_out c)\<lparr>out_loading := ld\<rparr>"

text \<open>What a lookup decides after it has read both atomic fields.\<close>

definition decide :: "call \<Rightarrow> bool \<Rightarrow> usize \<Rightarrow> rpc" where
  "decide c ld cur =
     (if \<not> ld \<and> c_max c = 0 then R_found c cur
      else if ld \<and> c_off c \<ge> cur then R_leave c (CACHE_NEW_NOT_LOADED, out_of c ld)
      else if c_off c > cur then R_leave c (CACHE_ERROR, out_of c ld)
      else R_rdlock c ld cur)"

definition copy_size :: "call \<Rightarrow> usize \<Rightarrow> usize" where
  "copy_size c cur = (let n = cur - c_off c in if c_max c > 0 \<and> n > c_max c then c_max c else n)"

text \<open>\<open>memcpy\<close> of \<open>n\<close> bytes from \<open>p + off\<close>, where \<open>p\<close> was read from \<open>entry->data\<close>.\<close>

definition copy_from :: "cstate \<Rightarrow> addr \<Rightarrow> nat \<Rightarrow> nat \<Rightarrow> (byte list \<Rightarrow> outcome) \<Rightarrow> outcome" where
  "copy_from s p off n f = on_entry s (\<lambda>e.
     if n > 0 \<and> \<not> (data_live e \<and> p = buf s) then fails UseAfterFree
     else case copy_out (edata e) off n of Inl x \<Rightarrow> fails x | Inr d \<Rightarrow> f d)"

fun reader_at :: "nat \<Rightarrow> rpc \<Rightarrow> cstate \<Rightarrow> outcome" where
  "reader_at i (R_call c) s = go_if (lock_bucket (Reader i) s) (reader_to i (R_search c))"
| "reader_at i (R_search c) s =
     moves (reader_to i (if slot s = None then R_leave c (CACHE_NOT_FOUND, c_out c) else R_flag c) s)"
| "reader_at i (R_flag c) s = on_entry s (\<lambda>e. moves (reader_to i (R_size c (is_loading e)) s))"
| "reader_at i (R_size c ld) s = on_entry s (\<lambda>e. moves (reader_to i (decide c ld (data_size e)) s))"
| "reader_at i (R_found c cur) s = on_entry s (\<lambda>e. moves (reader_to i (R_found_copy c cur (buf s)) s))"
| "reader_at i (R_found_copy c cur p) s = copy_from s p 0 (unat cur) (\<lambda>d.
     moves (reader_to i (R_leave c (CACHE_FOUND, (out_of c False)\<lparr>out_size := cur, out_data := Some d\<rparr>)) s))"
| "reader_at i (R_rdlock c ld cur) s = on_entry s (\<lambda>e.
     if wrlocked s then None
     else moves (reader_to i (if copy_size c cur > 0 then R_ptr c ld (copy_size c cur)
          else R_rdunlock c ld (CACHE_DONE, (out_of c ld)\<lparr>out_data := None, out_size := 0\<rparr>)) (s\<lparr>rdlocked := insert i (rdlocked s)\<rparr>)))"
| "reader_at i (R_ptr c ld n) s = on_entry s (\<lambda>e. moves (reader_to i (R_copy c ld n (buf s)) s))"
| "reader_at i (R_copy c ld n p) s = copy_from s p (unat (c_off c)) (unat n) (\<lambda>d.
     moves (reader_to i (R_rdunlock c ld (CACHE_NEW_LOADED, (out_of c ld)\<lparr>out_data := Some d, out_size := n\<rparr>)) s))"
| "reader_at i (R_rdunlock c ld r) s = on_entry s (\<lambda>e.
     moves (reader_to i (if fst r = CACHE_DONE then R_leave c r else R_touch c r) (s\<lparr>rdlocked := rdlocked s - {i}\<rparr>)))"
| "reader_at i (R_touch c r) s = on_entry s (\<lambda>e.
     moves (reader_to i (R_leave c r) (s\<lparr>slot := Some (e\<lparr>last_accessed := clock s\<rparr>)\<rparr>)))"
| "reader_at i (R_leave c r) s = moves (reader_to i (R_ret c r) (s\<lparr>bmutex := None\<rparr>))"
| "reader_at i _ s = None"

definition reader_step :: "nat \<Rightarrow> cstate \<Rightarrow> outcome" where
  "reader_step i s = reader_at i (rds s i) s"

text \<open>A backend that is not in a call makes the next one.\<close>

definition begin_call :: "nat \<Rightarrow> call \<Rightarrow> cstate \<Rightarrow> cstate option" where
  "begin_call i c s = (case rds s i of R_idle \<Rightarrow> Some (reader_to i (R_call c) s) | R_ret _ _ \<Rightarrow> Some (reader_to i (R_call c) s) | _ \<Rightarrow> None)"

section \<open>The sweeper and time\<close>

text \<open>\<open>cache_clean_expired\<close> as far as this entry is concerned.\<close>

fun sweeper_at :: "spc \<Rightarrow> cstate \<Rightarrow> outcome" where
  "sweeper_at S_idle s = moves (s\<lparr>sw := S_lock (clock s)\<rparr>)"
| "sweeper_at (S_lock now) s = go_if (lock_bucket Sweeper s) (sw_update (\<lambda>_. S_look now))"
| "sweeper_at (S_look now) s = (case slot s of
     Some e \<Rightarrow> moves (s\<lparr>sw := if is_loading e then S_unlock else S_expire now\<rparr>)
   | None \<Rightarrow> moves (s\<lparr>sw := S_unlock\<rparr>))"
| "sweeper_at (S_expire now) s =
     on_entry s (\<lambda>e. moves (s\<lparr>sw := if last_accessed e + ttl s < now then S_free now else S_unlock\<rparr>))"
| "sweeper_at (S_free now) s =
     on_entry s (\<lambda>e. if data_live e then moves (s\<lparr>slot := None, sw := S_unlock\<rparr>) else fails DoubleFree)"
| "sweeper_at S_unlock s = moves (s\<lparr>bmutex := None, sw := S_idle\<rparr>)"

definition sweeper_step :: "cstate \<Rightarrow> outcome" where
  "sweeper_step s = sweeper_at (sw s) s"

definition tick :: "cstate \<Rightarrow> cstate" where
  "tick s = s\<lparr>clock := clock s + 1\<rparr>"

section \<open>Runs\<close>

text \<open>What the entry holds, as in \<open>contents\<close>: whether it is loading, and its first \<open>data_size\<close> bytes.\<close>

definition held :: "cstate \<Rightarrow> (bool \<times> byte list) option" where
  "held s = map_option (\<lambda>e. (is_loading e, take (unat (data_size e)) (edata e))) (slot s)"

definition start_state :: "byte list list \<Rightarrow> bool \<Rightarrow> int \<Rightarrow> int \<Rightarrow> cstate" where
  "start_state chs ends now life = \<lparr>slot = None, buf = 0, bmutex = None, wrlocked = False, rdlocked = {}, clock = now, ttl = life,
     wk = W_start, todo = chs, complete = ends, rds = (\<lambda>_. R_idle), sw = S_idle\<rparr>"

text \<open>
  The reachable states, and for each reader what the entry has held at the moments since the reader's latest call began.
\<close>

definition observe :: "(nat \<Rightarrow> (bool \<times> byte list) option set) \<Rightarrow> cstate \<Rightarrow> nat \<Rightarrow> (bool \<times> byte list) option set" where
  "observe seen s i = insert (held s) (seen i)"

inductive reached :: "cstring \<Rightarrow> cstate \<Rightarrow> cstate \<Rightarrow> (nat \<Rightarrow> (bool \<times> byte list) option set) \<Rightarrow> bool"
  for key s0 where
  at_start: "reached key s0 s0 (\<lambda>_. {})"
| by_worker: "reached key s0 s seen \<Longrightarrow> worker_step key a ok s = Some (Inr s') \<Longrightarrow> reached key s0 s' (observe seen s')"
| by_reader: "reached key s0 s seen \<Longrightarrow> reader_step i s = Some (Inr s') \<Longrightarrow> reached key s0 s' (observe seen s')"
| by_call: "reached key s0 s seen \<Longrightarrow> begin_call i c s = Some s' \<Longrightarrow> reached key s0 s' ((observe seen s')(i := {held s'}))"
| by_sweeper: "reached key s0 s seen \<Longrightarrow> sweeper_step s = Some (Inr s') \<Longrightarrow> reached key s0 s' (observe seen s')"
| by_time: "reached key s0 s seen \<Longrightarrow> reached key s0 (tick s) (observe seen (tick s))"

text \<open>
  The same runs with the time of the latest access: of the creation of the entry, of an append, of the end of the load, or of a
  lookup that gave a packet. These are the program points at which the code is to renew \<open>last_accessed\<close>; the time is
  noted here whether it does so or not.
\<close>

fun worker_accesses :: "wpc \<Rightarrow> bool" where
  "worker_accesses W_create = True"
| "worker_accesses (A_touch _ _) = True"
| "worker_accesses F_touch = True"
| "worker_accesses _ = False"

fun reader_accesses :: "rpc \<Rightarrow> bool" where
  "reader_accesses (R_touch _ _) = True"
| "reader_accesses _ = False"

inductive watched :: "cstring \<Rightarrow> cstate \<Rightarrow> cstate \<Rightarrow> (nat \<Rightarrow> (bool \<times> byte list) option set) \<Rightarrow> int \<Rightarrow> bool"
  for key s0 where
  w_start: "watched key s0 s0 (\<lambda>_. {}) (clock s0)"
| w_worker: "watched key s0 s seen used \<Longrightarrow> worker_step key a ok s = Some (Inr s')
    \<Longrightarrow> watched key s0 s' (observe seen s') (if worker_accesses (wk s) then clock s else used)"
| w_reader: "watched key s0 s seen used \<Longrightarrow> reader_step i s = Some (Inr s')
    \<Longrightarrow> watched key s0 s' (observe seen s') (if reader_accesses (rds s i) then clock s else used)"
| w_call: "watched key s0 s seen used \<Longrightarrow> begin_call i c s = Some s'
    \<Longrightarrow> watched key s0 s' ((observe seen s')(i := {held s'})) used"
| w_sweeper: "watched key s0 s seen used \<Longrightarrow> sweeper_step s = Some (Inr s') \<Longrightarrow> watched key s0 s' (observe seen s') used"
| w_time: "watched key s0 s seen used \<Longrightarrow> watched key s0 (tick s) (observe seen (tick s)) used"

lemma watched_reached: "watched key s0 s seen used \<Longrightarrow> reached key s0 s seen"
  by (induction rule: watched.induct) (blast intro: reached.intros)+

lemma reached_watched: "reached key s0 s seen \<Longrightarrow> \<exists>used. watched key s0 s seen used"
  by (induction rule: reached.induct) (blast intro: watched.intros)+

end
