(* ===== verification/Cache_Threads_Laws.thy ===== *)
theory Cache_Threads_Laws
  imports Cache_Threads
begin

text \<open>
  What the threads of \<open>Cache_Threads\<close> can rely on. The invariant says which thread is inside which lock, what the worker's
  program counter says of the entry, and that what a reader has read is part of something the entry held during its call.
\<close>

section \<open>The invariant\<close>

fun w_in_bucket :: "wpc \<Rightarrow> bool" where
  "w_in_bucket W_create = True"
| "w_in_bucket W_created = True"
| "w_in_bucket C_look = True"
| "w_in_bucket C_free = True"
| "w_in_bucket C_unlock = True"
| "w_in_bucket _ = False"

fun w_writes :: "wpc \<Rightarrow> bool" where
  "w_writes (A_size _) = True"
| "w_writes (A_touch _ _) = True"
| "w_writes (A_room _ _) = True"
| "w_writes (A_moved _ _ _ _) = True"
| "w_writes (A_copy _ _) = True"
| "w_writes (A_store _ _) = True"
| "w_writes A_unlock = True"
| "w_writes A_fail = True"
| "w_writes F_touch = True"
| "w_writes F_flag = True"
| "w_writes F_size = True"
| "w_writes (F_room _) = True"
| "w_writes (F_moved _ _) = True"
| "w_writes F_unlock = True"
| "w_writes _ = False"

fun r_in_bucket :: "rpc \<Rightarrow> bool" where
  "r_in_bucket R_idle = False"
| "r_in_bucket (R_call _) = False"
| "r_in_bucket (R_ret _ _) = False"
| "r_in_bucket _ = True"

fun r_reads :: "rpc \<Rightarrow> bool" where
  "r_reads (R_ptr _ _ _) = True"
| "r_reads (R_copy _ _ _ _) = True"
| "r_reads (R_rdunlock _ _ _) = True"
| "r_reads _ = False"

fun s_in_bucket :: "spc \<Rightarrow> bool" where
  "s_in_bucket S_idle = False"
| "s_in_bucket (S_lock _) = False"
| "s_in_bucket _ = True"

definition locks_ok :: "cstate \<Rightarrow> bool" where
  "locks_ok s \<longleftrightarrow> (bmutex s = Some Worker \<longleftrightarrow> w_in_bucket (wk s))
     \<and> (\<forall>i. bmutex s = Some (Reader i) \<longleftrightarrow> r_in_bucket (rds s i))
     \<and> (bmutex s = Some Sweeper \<longleftrightarrow> s_in_bucket (sw s))
     \<and> (wrlocked s \<longleftrightarrow> w_writes (wk s)) \<and> (\<forall>i. i \<in> rdlocked s \<longleftrightarrow> r_reads (rds s i))
     \<and> (wrlocked s \<longrightarrow> rdlocked s = {})"

text \<open>The entry while it is filled, with the pieces \<open>rest\<close> still to come of the response \<open>full\<close>, and when it is finished.\<close>

definition growing :: "byte list \<Rightarrow> cache_entry_t \<Rightarrow> byte list \<Rightarrow> bool" where
  "growing full e rest \<longleftrightarrow> is_loading e \<and> unat (data_size e) = length (edata e) \<and> edata e @ rest = full
     \<and> length (edata e) \<le> unat (allocated_size e) \<and> 0 < allocated_size e"

lemma growing_loads: "growing full e rest \<Longrightarrow> is_loading e"
  by (simp add: growing_def)

lemma growing_upd [simp]:
  "growing full (e\<lparr>last_accessed := t\<rparr>) rest = growing full e rest"
  "growing full (e\<lparr>data_live := b\<rparr>) rest = growing full e rest"
  by (simp_all add: growing_def)

definition closed :: "byte list \<Rightarrow> cache_entry_t \<Rightarrow> bool" where
  "closed full e \<longleftrightarrow> \<not> is_loading e \<and> edata e = full \<and> unat (data_size e) = length full
     \<and> length full \<le> unat (allocated_size e)"

lemma closed_upd [simp]:
  "closed full (e\<lparr>last_accessed := t\<rparr>) = closed full e"
  "closed full (e\<lparr>data_live := b\<rparr>) = closed full e"
  by (simp_all add: closed_def)

lemma closed_empty: "closed full e \<Longrightarrow> full = [] \<longleftrightarrow> data_size e = 0"
  by (auto simp: closed_def unat_eq_0)

fun w_ok :: "byte list \<Rightarrow> wpc \<Rightarrow> byte list \<Rightarrow> cache_entry_t \<Rightarrow> bool" where
  "w_ok full W_created rest e \<longleftrightarrow> growing full e rest \<and> data_live e"
| "w_ok full W_next rest e \<longleftrightarrow> growing full e rest \<and> data_live e"
| "w_ok full (A_check ch) rest e \<longleftrightarrow> growing full e (ch @ rest) \<and> data_live e"
| "w_ok full (A_lock ch) rest e \<longleftrightarrow> growing full e (ch @ rest) \<and> data_live e"
| "w_ok full (A_size ch) rest e \<longleftrightarrow> growing full e (ch @ rest) \<and> data_live e"
| "w_ok full (A_touch ch cur) rest e \<longleftrightarrow> growing full e (ch @ rest) \<and> data_live e \<and> cur = data_size e"
| "w_ok full (A_room ch cur) rest e \<longleftrightarrow> growing full e (ch @ rest) \<and> data_live e \<and> cur = data_size e"
| "w_ok full (A_moved ch cur b n) rest e \<longleftrightarrow> growing full e (ch @ rest) \<and> cur = data_size e
     \<and> length (edata e) + length ch \<le> unat n \<and> 0 < n"
| "w_ok full (A_copy ch cur) rest e \<longleftrightarrow> growing full e (ch @ rest) \<and> data_live e \<and> cur = data_size e
     \<and> length (edata e) + length ch \<le> unat (allocated_size e)"
| "w_ok full (A_store ch cur) rest e \<longleftrightarrow> is_loading e \<and> data_live e \<and> cur = data_size e \<and> edata e @ rest = full
     \<and> length (edata e) = unat cur + length ch \<and> length (edata e) \<le> unat (allocated_size e) \<and> 0 < allocated_size e"
| "w_ok full A_unlock rest e \<longleftrightarrow> growing full e rest \<and> data_live e"
| "w_ok full A_notify rest e \<longleftrightarrow> growing full e rest \<and> data_live e"
| "w_ok full F_check rest e \<longleftrightarrow> growing full e [] \<and> data_live e"
| "w_ok full F_lock rest e \<longleftrightarrow> growing full e [] \<and> data_live e"
| "w_ok full F_touch rest e \<longleftrightarrow> growing full e [] \<and> data_live e"
| "w_ok full F_flag rest e \<longleftrightarrow> growing full e [] \<and> data_live e"
| "w_ok full F_size rest e \<longleftrightarrow> closed full e \<and> data_live e"
| "w_ok full (F_room cur) rest e \<longleftrightarrow> closed full e \<and> data_live e \<and> cur = data_size e"
| "w_ok full (F_moved b cur) rest e \<longleftrightarrow> closed full e \<and> cur = data_size e \<and> full \<noteq> []"
| "w_ok full F_unlock rest e \<longleftrightarrow> closed full e \<and> (full \<noteq> [] \<longrightarrow> data_live e)"
| "w_ok full F_notify rest e \<longleftrightarrow> closed full e \<and> (full \<noteq> [] \<longrightarrow> data_live e)"
| "w_ok full (W_done r) rest e \<longleftrightarrow> closed full e \<and> (full \<noteq> [] \<longrightarrow> data_live e) \<and> r = 0"
| "w_ok full A_fail rest e \<longleftrightarrow> (\<exists>more. growing full e more) \<and> data_live e"
| "w_ok full C_lock rest e \<longleftrightarrow> (\<exists>more. growing full e more) \<and> data_live e"
| "w_ok full C_look rest e \<longleftrightarrow> (\<exists>more. growing full e more) \<and> data_live e"
| "w_ok full C_free rest e \<longleftrightarrow> (\<exists>more. growing full e more) \<and> data_live e"
| "w_ok full _ rest e \<longleftrightarrow> False"

text \<open>Without an entry: it is not there yet, was cancelled, or was swept after it had expired.\<close>

fun w_gone :: "wpc \<Rightarrow> bool \<Rightarrow> bool" where
  "w_gone W_start late \<longleftrightarrow> True"
| "w_gone W_create late \<longleftrightarrow> True"
| "w_gone C_unlock late \<longleftrightarrow> True"
| "w_gone F_size late \<longleftrightarrow> late"
| "w_gone (F_room cur) late \<longleftrightarrow> late"
| "w_gone (F_moved b cur) late \<longleftrightarrow> late"
| "w_gone F_unlock late \<longleftrightarrow> late"
| "w_gone F_notify late \<longleftrightarrow> late"
| "w_gone (W_done r) late \<longleftrightarrow> r = -1 \<or> late"
| "w_gone _ late \<longleftrightarrow> False"

definition work_ok :: "byte list \<Rightarrow> int \<Rightarrow> cstate \<Rightarrow> bool" where
  "work_ok full t0 s \<longleftrightarrow> (case slot s of
       None \<Rightarrow> w_gone (wk s) (t0 + ttl s < clock s)
     | Some e \<Rightarrow> w_ok full (wk s) (concat (todo s)) e \<and> t0 \<le> last_accessed e)
   \<and> t0 \<le> clock s \<and> (wk s \<in> {W_start, W_create} \<longrightarrow> concat (todo s) = full)"

fun s_ok :: "int \<Rightarrow> cstate \<Rightarrow> spc \<Rightarrow> bool" where
  "s_ok t0 s (S_lock now) \<longleftrightarrow> now \<le> clock s"
| "s_ok t0 s (S_look now) \<longleftrightarrow> now \<le> clock s"
| "s_ok t0 s (S_expire now) \<longleftrightarrow> now \<le> clock s \<and> (\<exists>e. slot s = Some e \<and> \<not> is_loading e)"
| "s_ok t0 s (S_free now) \<longleftrightarrow> now \<le> clock s \<and> t0 + ttl s < now \<and> (\<exists>e. slot s = Some e \<and> \<not> is_loading e)"
| "s_ok t0 s _ \<longleftrightarrow> True"

text \<open>A reader that has read \<open>ld\<close> and \<open>cur\<close>: the entry held such contents in the meantime, and still begins with those bytes.\<close>

type_synonym views = "(bool \<times> byte list) option set"

definition got :: "cstate \<Rightarrow> views \<Rightarrow> bool \<Rightarrow> usize \<Rightarrow> bool" where
  "got s S ld cur \<longleftrightarrow> (\<exists>e. slot s = Some e \<and> cur \<le> data_size e \<and> Some (ld, take (unat cur) (edata e)) \<in> S
     \<and> unat cur \<le> length (edata e) \<and> (\<not> ld \<longrightarrow> \<not> is_loading e))"

definition packet_case :: "call \<Rightarrow> bool \<Rightarrow> usize \<Rightarrow> bool" where
  "packet_case c ld cur \<longleftrightarrow> \<not> (\<not> ld \<and> c_max c = 0) \<and> \<not> (ld \<and> c_off c \<ge> cur) \<and> \<not> c_off c > cur"

definition gets_packet :: "cstate \<Rightarrow> views \<Rightarrow> call \<Rightarrow> bool \<Rightarrow> usize \<Rightarrow> bool" where
  "gets_packet s S c ld n \<longleftrightarrow> (\<exists>cur. got s S ld cur \<and> packet_case c ld cur \<and> n = copy_size c cur \<and> 0 < n)"

definition answers :: "call \<Rightarrow> cache_status_t \<times> lookup_out \<Rightarrow> views \<Rightarrow> bool" where
  "answers c r S \<longleftrightarrow> (\<exists>v \<in> S. r = lookup_spec v (unat (c_off c)) (unat (c_max c)) (c_out c))"

fun r_ok :: "cstate \<Rightarrow> views \<Rightarrow> rpc \<Rightarrow> bool" where
  "r_ok s S (R_flag c) \<longleftrightarrow> slot s \<noteq> None"
| "r_ok s S (R_size c ld) \<longleftrightarrow> (\<exists>e. slot s = Some e
     \<and> (if ld then Some (True, take (unat (data_size e)) (edata e)) \<in> S else \<not> is_loading e))"
| "r_ok s S (R_found c cur) \<longleftrightarrow> got s S False cur \<and> c_max c = 0"
| "r_ok s S (R_found_copy c cur p) \<longleftrightarrow> got s S False cur \<and> c_max c = 0"
| "r_ok s S (R_rdlock c ld cur) \<longleftrightarrow> got s S ld cur \<and> packet_case c ld cur"
| "r_ok s S (R_ptr c ld n) \<longleftrightarrow> gets_packet s S c ld n"
| "r_ok s S (R_copy c ld n p) \<longleftrightarrow> gets_packet s S c ld n \<and> p = buf s \<and> data_live (the (slot s))"
| "r_ok s S (R_rdunlock c ld r) \<longleftrightarrow> slot s \<noteq> None \<and> answers c r S"
| "r_ok s S (R_touch c r) \<longleftrightarrow> slot s \<noteq> None \<and> answers c r S"
| "r_ok s S (R_leave c r) \<longleftrightarrow> answers c r S"
| "r_ok s S (R_ret c r) \<longleftrightarrow> answers c r S"
| "r_ok s S _ \<longleftrightarrow> True"

definition read_ok :: "cstate \<Rightarrow> (nat \<Rightarrow> views) \<Rightarrow> bool" where
  "read_ok s seen \<longleftrightarrow> (\<forall>i. r_ok s (seen i) (rds s i) \<and> (rds s i \<noteq> R_idle \<longrightarrow> held s \<in> seen i))"

definition cinv :: "byte list \<Rightarrow> int \<Rightarrow> cstate \<Rightarrow> (nat \<Rightarrow> views) \<Rightarrow> bool" where
  "cinv full t0 s seen \<longleftrightarrow> locks_ok s \<and> work_ok full t0 s \<and> s_ok t0 s (sw s) \<and> read_ok s seen"

section \<open>What others' steps leave to a reader\<close>

definition grows :: "cache_entry_t \<Rightarrow> cache_entry_t \<Rightarrow> bool" where
  "grows e e' \<longleftrightarrow> (\<forall>n \<le> unat (data_size e). take n (edata e') = take n (edata e)) \<and> data_size e \<le> data_size e'
     \<and> length (edata e) \<le> length (edata e') \<and> (\<not> is_loading e \<longrightarrow> \<not> is_loading e')
     \<and> (data_size e' = data_size e \<or> is_loading e')"

definition stays :: "cstate \<Rightarrow> cstate \<Rightarrow> bool" where
  "stays s s' \<longleftrightarrow> (\<forall>e. slot s = Some e \<longrightarrow> (\<exists>e'. slot s' = Some e' \<and> grows e e'
     \<and> (rdlocked s \<noteq> {} \<longrightarrow> buf s' = buf s \<and> data_live e' = data_live e)))"

lemma entry_grows [simp]:
  "grows e e" "grows e (e\<lparr>last_accessed := t\<rparr>)" "grows e (e\<lparr>data_live := b\<rparr>)" "grows e (e\<lparr>data_live := b, allocated_size := n\<rparr>)"
  "grows e (e\<lparr>is_loading := False\<rparr>)"
  by (simp_all add: grows_def)

lemma stays_same: "slot s' = slot s \<Longrightarrow> buf s' = buf s \<Longrightarrow> stays s s'"
  by (simp add: stays_def)

lemma got_stays:
  assumes "got s S ld cur" "stays s s'" "S \<subseteq> S'"
  shows "got s' S' ld cur"
proof -
  from assms(1) obtain e where e: "slot s = Some e" "cur \<le> data_size e" "Some (ld, take (unat cur) (edata e)) \<in> S"
      "unat cur \<le> length (edata e)" "\<not> ld \<longrightarrow> \<not> is_loading e" by (auto simp: got_def)
  with assms(2) obtain e' where e': "slot s' = Some e'" "grows e e'" by (auto simp: stays_def)
  with e(2) have "take (unat cur) (edata e') = take (unat cur) (edata e)" by (auto simp: grows_def word_le_nat_alt)
  with e e' assms(3) show ?thesis by (auto simp: got_def grows_def)
qed

lemma gets_packet_stays: "gets_packet s S c ld n \<Longrightarrow> stays s s' \<Longrightarrow> S \<subseteq> S' \<Longrightarrow> gets_packet s' S' c ld n"
  using got_stays unfolding gets_packet_def by metis

lemma gets_packet_slot: "gets_packet s S c ld n \<Longrightarrow> \<exists>e. slot s = Some e"
  by (auto simp: gets_packet_def got_def)

lemma answers_more: "answers c r S \<Longrightarrow> S \<subseteq> S' \<Longrightarrow> answers c r S'"
  by (auto simp: answers_def)

lemma size_stays:
  assumes "slot s = Some e" "stays s s'" "S \<subseteq> S'" "held s' \<in> S'"
    and "if ld then Some (True, take (unat (data_size e)) (edata e)) \<in> S else \<not> is_loading e"
  shows "r_ok s' S' (R_size c ld)"
proof -
  from assms(1,2) obtain e' where e': "slot s' = Some e'" "grows e e'" by (auto simp: stays_def)
  show ?thesis
  proof (cases ld)
    case True
    have "Some (True, take (unat (data_size e')) (edata e')) \<in> S'"
    proof (cases "data_size e' = data_size e")
      case True
      with \<open>ld\<close> assms(3,5) e'(2) show ?thesis by (auto simp: grows_def)
    next
      case False
      with e' assms(4) show ?thesis by (auto simp: grows_def held_def)
    qed
    with True e' show ?thesis by simp
  next
    case False
    with assms(5) e' show ?thesis by (auto simp: grows_def)
  qed
qed

lemma r_ok_stays:
  assumes "r_ok s S k" "r_in_bucket k \<longrightarrow> stays s s'" "r_reads k \<longrightarrow> rdlocked s \<noteq> {}" "S \<subseteq> S'" "held s' \<in> S'"
  shows "r_ok s' S' k"
proof (cases k)
  case (R_size c ld)
  with assms(1) obtain e where "slot s = Some e"
    "if ld then Some (True, take (unat (data_size e)) (edata e)) \<in> S else \<not> is_loading e" by auto
  with size_stays assms(2,4,5) R_size show ?thesis by simp
next
  case (R_copy c ld n p)
  with assms(1) gets_packet_slot [of s S c ld n] obtain e where "slot s = Some e" by auto
  with assms R_copy obtain e' where "slot s' = Some e'" "buf s' = buf s" "data_live e' = data_live e" by (auto simp: stays_def)
  with assms(1,2,4) R_copy \<open>slot s = Some e\<close> gets_packet_stays [of s S c ld n s' S'] show ?thesis by simp
next
  case (R_ptr c ld n)
  with assms gets_packet_stays [of s S c ld n s' S'] show ?thesis by simp
next
  case (R_rdunlock c ld r)
  with assms answers_more [of c r S S'] show ?thesis by (auto simp: stays_def)
next
  case (R_touch c r)
  with assms answers_more [of c r S S'] show ?thesis by (auto simp: stays_def)
qed (use assms in \<open>auto intro: answers_more got_stays simp: stays_def\<close>)


section \<open>The worker's steps\<close>

lemmas outcome_defs = moves_def fails_def on_entry_def go_if_def lock_bucket_def lock_data_def

definition worker_keeps :: "byte list \<Rightarrow> int \<Rightarrow> cstate \<Rightarrow> outcome \<Rightarrow> bool" where
  "worker_keeps full t0 s r \<longleftrightarrow> (case r of
     Some (Inl f) \<Rightarrow> f = UseAfterFree \<and> slot s = None \<and> t0 + ttl s < clock s
   | Some (Inr s') \<Rightarrow> locks_ok s' \<and> work_ok full t0 s' \<and> (bmutex s = Some Worker \<or> stays s s')
       \<and> rds s' = rds s \<and> sw s' = sw s \<and> ttl s' = ttl s \<and> clock s' = clock s
   | None \<Rightarrow> True)"

lemma worker_keeps_wait [simp]: "worker_keeps full t0 s None"
  by (simp add: worker_keeps_def)

lemma locks_same:
  assumes "locks_ok s" "bmutex s' = bmutex s" "wrlocked s' = wrlocked s" "rdlocked s' = rdlocked s" "rds s' = rds s" "sw s' = sw s"
    and "w_in_bucket (wk s') = w_in_bucket (wk s)" "w_writes (wk s') = w_writes (wk s)"
  shows "locks_ok s'"
  using assms by (simp add: locks_ok_def)

lemma locks_bucket:
  assumes "locks_ok s" "bmutex s = None" "w_in_bucket w" "w_writes w = w_writes (wk s)"
  shows "locks_ok (s\<lparr>bmutex := Some Worker, wk := w\<rparr>)"
  using assms by (simp add: locks_ok_def)

lemma locks_unbucket:
  assumes "locks_ok s" "w_in_bucket (wk s)" "\<not> w_in_bucket w" "w_writes w = w_writes (wk s)"
  shows "locks_ok (s\<lparr>bmutex := None, wk := w\<rparr>)"
proof -
  have "bmutex s = Some Worker" using assms by (simp add: locks_ok_def)
  with assms show ?thesis by (simp add: locks_ok_def)
qed

lemma locks_wr:
  assumes "locks_ok s" "\<not> wrlocked s" "rdlocked s = {}" "w_in_bucket w = w_in_bucket (wk s)" "w_writes w"
  shows "locks_ok (s\<lparr>wrlocked := True, wk := w\<rparr>)"
  using assms by (simp add: locks_ok_def)

lemma locks_unwr:
  assumes "locks_ok s" "w_in_bucket w = w_in_bucket (wk s)" "\<not> w_writes w"
  shows "locks_ok (s\<lparr>wrlocked := False, wk := w\<rparr>)"
  using assms by (simp add: locks_ok_def)

text \<open>A step on the entry: a fault without it, and otherwise what it makes of the entry has to fit the next statement.\<close>

lemma on_entry_keeps:
  assumes "work_ok full t0 s" "wk s \<notin> {W_start, W_create, C_unlock} \<union> range W_done"
    and "\<And>e. slot s = Some e \<Longrightarrow> w_ok full (wk s) (concat (todo s)) e \<Longrightarrow> worker_keeps full t0 s (f e)"
  shows "worker_keeps full t0 s (on_entry s f)"
proof (cases "slot s")
  case None
  with assms(1,2) show ?thesis by (cases "wk s") (auto simp: worker_keeps_def work_ok_def on_entry_def fails_def)
qed (use assms in \<open>auto simp: on_entry_def work_ok_def\<close>)

lemma entry_moves:
  assumes "locks_ok s" "work_ok full t0 s" "slot s = Some e" "locks_ok s'" "slot s' = Some e'" "grows e e'"
    and "w_ok full (wk s') (concat (todo s')) e'" "last_accessed e' = last_accessed e \<or> last_accessed e' = clock s"
    and "w_writes (wk s) \<or> buf s' = buf s \<and> data_live e' = data_live e"
    and "rds s' = rds s" "sw s' = sw s" "ttl s' = ttl s" "clock s' = clock s"
  shows "worker_keeps full t0 s (moves s')"
proof -
  have "wk s' \<notin> {W_start, W_create}" using assms(7) by auto
  then have "work_ok full t0 s'" using assms by (auto simp: work_ok_def)
  moreover have "stays s s'" using assms by (auto simp: stays_def locks_ok_def)
  ultimately show ?thesis using assms by (simp add: worker_keeps_def moves_def)
qed

lemma start_keeps:
  assumes "locks_ok s" "work_ok full t0 s" "wk s \<in> {W_start, W_create, W_created}"
  shows "worker_keeps full t0 s (start_at (wk s) key a ok s)"
proof -
  consider "wk s = W_start" | "wk s = W_create" | "wk s = W_created" using assms(3) by blast
  then show ?thesis
  proof cases
    case 1
    with assms(1,2) show ?thesis
      by (auto simp: worker_keeps_def go_if_def lock_bucket_def work_ok_def split: option.splits intro: locks_bucket stays_same)
  next
    case 2
    with assms(1) have b: "bmutex s = Some Worker" by (simp add: locks_ok_def)
    have l: "wk s' = W_created \<or> wk s' = C_unlock \<Longrightarrow> bmutex s' = bmutex s \<Longrightarrow> wrlocked s' = wrlocked s
      \<Longrightarrow> rdlocked s' = rdlocked s \<Longrightarrow> rds s' = rds s \<Longrightarrow> sw s' = sw s \<Longrightarrow> locks_ok s'" for s'
      using 2 by (intro locks_same [OF assms(1)]) auto
    from 2 b assms(2) show ?thesis
      by (auto simp: worker_keeps_def moves_def work_ok_def create_entry_def growing_def split: option.splits intro!: l)
  next
    case 3
    with assms have "locks_ok (s\<lparr>bmutex := None, wk := W_next\<rparr>)" by (intro locks_unbucket) auto
    with 3 assms(2) show ?thesis by (auto simp: worker_keeps_def moves_def work_ok_def split: option.splits intro: stays_same)
  qed
qed

lemma transfer_keeps:
  assumes "locks_ok s" "work_ok full t0 s" "wk s = W_next"
  shows "worker_keeps full t0 s (transfer_at (wk s) s)"
proof -
  obtain e where e: "slot s = Some e" "w_ok full W_next (concat (todo s)) e" using assms(2,3) by (auto simp: work_ok_def split: option.splits)
  then show ?thesis using assms(3)
    by (auto split: list.splits intro!: entry_moves [OF assms(1,2)] locks_same [OF assms(1)])
qed

lemma cancel_keeps:
  assumes "locks_ok s" "work_ok full t0 s" "wk s \<in> {C_lock, C_look, C_free, C_unlock}"
  shows "worker_keeps full t0 s (cancel_at (wk s) s)"
proof -
  consider "wk s = C_lock" | "wk s = C_look" | "wk s = C_free" | "wk s = C_unlock" using assms(3) by blast
  then show ?thesis
  proof cases
    case 1
    with assms(1,2) show ?thesis
      by (auto simp: worker_keeps_def go_if_def lock_bucket_def work_ok_def split: option.splits intro: locks_bucket stays_same)
  next
    case 2
    with assms(2) obtain e where "slot s = Some e" "w_ok full C_look (concat (todo s)) e" by (auto simp: work_ok_def split: option.splits)
    with 2 show ?thesis by (auto dest: growing_loads intro!: entry_moves [OF assms(1,2)] locks_same [OF assms(1)])
  next
    case 3
    with assms(2) obtain e where e: "slot s = Some e" "w_ok full C_free (concat (todo s)) e" by (auto simp: work_ok_def split: option.splits)
    have "locks_ok (s\<lparr>slot := None, wk := C_unlock\<rparr>)" using 3 by (intro locks_same [OF assms(1)]) auto
    moreover have "bmutex s = Some Worker" using 3 assms(1) by (simp add: locks_ok_def)
    ultimately show ?thesis using 3 e assms(2) by (auto simp: worker_keeps_def moves_def on_entry_def work_ok_def)
  next
    case 4
    with assms have "locks_ok (s\<lparr>bmutex := None, wk := W_done (-1)\<rparr>)" by (intro locks_unbucket) auto
    with 4 assms(2) show ?thesis by (auto simp: worker_keeps_def moves_def work_ok_def split: option.splits intro: stays_same)
  qed
qed


text \<open>The end of the old bytes and the chunk are inside the block after the test of \<open>cache_append_data\<close>.\<close>

lemma room_made:
  assumes "growing full e (ch @ rest)" "length full \<le> 2 ^ 63"
  shows "unat (data_size e + of_nat (length ch)) = length (edata e) + length ch"
    and "allocated_size e < data_size e + of_nat (length ch)
      \<Longrightarrow> \<exists>n. grow (allocated_size e) (data_size e + of_nat (length ch)) = Some n \<and> length (edata e) + length ch \<le> unat n \<and> 0 < n"
    and "\<not> allocated_size e < data_size e + of_nat (length ch) \<Longrightarrow> length (edata e) + length ch \<le> unat (allocated_size e)"
proof -
  have len: "unat (data_size e) = length (edata e)" "length (edata e) + length ch \<le> 2 ^ 63" "0 < allocated_size e"
    using assms by (auto simp: growing_def)
  then show n: "unat (data_size e + of_nat (length ch)) = length (edata e) + length ch"
    by (simp add: unat_word_ariths unat_of_nat)
  from n show "\<not> allocated_size e < data_size e + of_nat (length ch) \<Longrightarrow> length (edata e) + length ch \<le> unat (allocated_size e)"
    by (simp add: word_less_nat_alt)
  from grow_ends [OF len(3), of "data_size e + of_nat (length ch)"] n len(2) obtain r where
    r: "grow (allocated_size e) (data_size e + of_nat (length ch)) = Some r" "data_size e + of_nat (length ch) \<le> r" "allocated_size e \<le> r"
    by auto
  moreover have "0 < r" using len(3) r(3) by (rule less_le_trans)
  ultimately show "allocated_size e < data_size e + of_nat (length ch)
      \<Longrightarrow> \<exists>n. grow (allocated_size e) (data_size e + of_nat (length ch)) = Some n \<and> length (edata e) + length ch \<le> unat n \<and> 0 < n"
    using n by (auto simp: word_le_nat_alt)
qed

lemma room_keeps:
  assumes ok: "locks_ok s" "work_ok full t0 s" and len: "length full \<le> 2 ^ 63" and w: "wk s = A_room ch cur"
  shows "worker_keeps full t0 s (append_at (A_room ch cur) a ok s)"
proof (unfold append_at.simps, rule on_entry_keeps [OF ok(2)])
  fix e
  assume e: "slot s = Some e" "w_ok full (wk s) (concat (todo s)) e"
  then have g: "growing full e (ch @ concat (todo s))" "cur = data_size e" "data_live e" using w by auto
  then have ex: "Ex (growing full e)" by blast
  note r = room_made [OF g(1) len]
  have same: "worker_keeps full t0 s (moves (s\<lparr>wk := w\<rparr>))" if "w_ok full w (concat (todo s)) e" "w_writes w" "\<not> w_in_bucket w" for w
    using that w e(1) by (intro entry_moves [OF ok e(1) locks_same [OF ok(1)], where e' = e]) auto
  show "worker_keeps full t0 s (if allocated_size e < cur + of_nat (length ch)
      then case grow (allocated_size e) (cur + of_nat (length ch)) of None \<Rightarrow> None
        | Some n \<Rightarrow> if \<not> ok then moves (s\<lparr>wk := A_fail\<rparr>)
            else moves (s\<lparr>slot := Some (e\<lparr>data_live := a = buf s\<rparr>), wk := A_moved ch cur a n\<rparr>)
      else moves (s\<lparr>wk := A_copy ch cur\<rparr>))"
  proof (cases "allocated_size e < cur + of_nat (length ch)")
    case False
    with r(3) g e show ?thesis by (auto intro!: same)
  next
    case True
    with r(2) g(2) obtain n where n: "grow (allocated_size e) (cur + of_nat (length ch)) = Some n"
      "length (edata e) + length ch \<le> unat n" "0 < n" by blast
    have "worker_keeps full t0 s (moves (s\<lparr>slot := Some (e\<lparr>data_live := a = buf s\<rparr>), wk := A_moved ch cur a n\<rparr>))"
      using w g n by (intro entry_moves [OF ok e(1) locks_same [OF ok(1)], where e' = "e\<lparr>data_live := a = buf s\<rparr>"]) auto
    with True n g ex same [of A_fail] show ?thesis by simp
  qed
qed (auto simp: w)

lemma copy_keeps:
  assumes ok: "locks_ok s" "work_ok full t0 s" and len: "length full \<le> 2 ^ 63" and w: "wk s = A_copy ch cur"
  shows "worker_keeps full t0 s (append_at (A_copy ch cur) a ok s)"
proof (unfold append_at.simps, rule on_entry_keeps [OF ok(2)])
  fix e
  assume e: "slot s = Some e" "w_ok full (wk s) (concat (todo s)) e"
  then have g: "growing full e (ch @ concat (todo s))" "data_live e" "cur = data_size e"
    "length (edata e) + length ch \<le> unat (allocated_size e)" using w by auto
  let ?e = "e\<lparr>edata := take (unat cur) (edata e) @ ch @ drop (unat cur + length ch) (edata e)\<rparr>"
  have "grows e ?e" using g by (auto simp: grows_def growing_def)
  with e(1) g w have "worker_keeps full t0 s (moves (s\<lparr>slot := Some ?e, wk := A_store ch cur\<rparr>))"
    by (intro entry_moves [OF ok e(1) locks_same [OF ok(1)], where e' = ?e]) (auto simp: growing_def)
  moreover have "\<not> unat cur + length ch > unat (allocated_size e)" using g by (simp add: growing_def)
  ultimately show "worker_keeps full t0 s (if unat cur + length ch > unat (allocated_size e) then fails OutOfBounds
      else if \<not> data_live e then fails UseAfterFree
      else moves (s\<lparr>slot := Some ?e, wk := A_store ch cur\<rparr>))" using g(2) by simp
qed (auto simp: w)

lemma store_keeps:
  assumes ok: "locks_ok s" "work_ok full t0 s" and len: "length full \<le> 2 ^ 63" and w: "wk s = A_store ch cur"
  shows "worker_keeps full t0 s (append_at (A_store ch cur) a ok s)"
proof (unfold append_at.simps, rule on_entry_keeps [OF ok(2)])
  fix e
  assume e: "slot s = Some e" "w_ok full (wk s) (concat (todo s)) e"
  then have g: "is_loading e" "data_live e" "cur = data_size e" "edata e @ concat (todo s) = full"
    "length (edata e) = unat cur + length ch" "length (edata e) \<le> unat (allocated_size e)" "0 < allocated_size e" using w by auto
  with len have n: "unat (cur + of_nat (length ch)) = length (edata e)" by (auto simp: unat_word_ariths unat_of_nat)
  with g have "grows e (e\<lparr>data_size := cur + of_nat (length ch)\<rparr>)" by (simp add: grows_def word_le_nat_alt)
  with e g n show "worker_keeps full t0 s (moves (s\<lparr>slot := Some (e\<lparr>data_size := cur + of_nat (length ch)\<rparr>), wk := A_unlock\<rparr>))"
    using w by (intro entry_moves [OF ok e(1) locks_same [OF ok(1)], where e' = "e\<lparr>data_size := cur + of_nat (length ch)\<rparr>"])
      (auto simp: growing_def)
qed (auto simp: w)

lemma append_keeps:
  assumes ok: "locks_ok s" "work_ok full t0 s" and len: "length full \<le> 2 ^ 63"
  shows "worker_keeps full t0 s (append_at (wk s) a ok s)"
proof (cases "wk s")
  case (A_lock ch)
  then show ?thesis
    by (auto simp: go_if_def lock_data_def moves_def [symmetric] intro!: on_entry_keeps [OF ok(2)] entry_moves [OF ok] locks_wr [OF ok(1)])
next
  case (A_room ch cur)
  then show ?thesis using room_keeps [OF assms] by simp
next
  case (A_moved ch cur b n)
  then show ?thesis by (auto simp: growing_def intro!: on_entry_keeps [OF ok(2)] entry_moves [OF ok] locks_same [OF ok(1)])
next
  case (A_copy ch cur)
  then show ?thesis using copy_keeps [OF assms] by simp
next
  case (A_store ch cur)
  then show ?thesis using store_keeps [OF assms] by simp
next
  case A_unlock
  then show ?thesis by (auto intro!: on_entry_keeps [OF ok(2)] entry_moves [OF ok] locks_unwr [OF ok(1)])
next
  case A_fail
  then show ?thesis by (auto intro!: on_entry_keeps [OF ok(2)] entry_moves [OF ok] locks_unwr [OF ok(1)])
qed (auto dest: growing_loads split: if_splits intro!: on_entry_keeps [OF ok(2)] entry_moves [OF ok] locks_same [OF ok(1)])

lemma finish_keeps:
  assumes ok: "locks_ok s" "work_ok full t0 s"
  shows "worker_keeps full t0 s (finish_at (wk s) a ok s)"
proof (cases "wk s")
  case F_lock
  then show ?thesis
    by (auto simp: go_if_def lock_data_def moves_def [symmetric] intro!: on_entry_keeps [OF ok(2)] entry_moves [OF ok] locks_wr [OF ok(1)])
next
  case F_flag
  then show ?thesis
    by (auto simp: growing_def closed_def intro!: on_entry_keeps [OF ok(2)] entry_moves [OF ok] locks_same [OF ok(1)])
next
  case (F_room cur)
  then show ?thesis
    by (auto simp: closed_empty intro!: on_entry_keeps [OF ok(2)] entry_moves [OF ok] locks_same [OF ok(1)])
next
  case (F_moved b cur)
  then show ?thesis by (auto simp: closed_def intro!: on_entry_keeps [OF ok(2)] entry_moves [OF ok] locks_same [OF ok(1)])
next
  case F_unlock
  then show ?thesis by (auto intro!: on_entry_keeps [OF ok(2)] entry_moves [OF ok] locks_unwr [OF ok(1)])
qed (auto dest: growing_loads split: if_splits intro!: on_entry_keeps [OF ok(2)] entry_moves [OF ok] locks_same [OF ok(1)])

lemma worker_step_keeps:
  assumes "locks_ok s" "work_ok full t0 s" "length full \<le> 2 ^ 63"
  shows "worker_keeps full t0 s (worker_step key a ok s)"
  unfolding worker_step_def using start_keeps transfer_keeps cancel_keeps append_keeps [OF assms] finish_keeps assms(1,2)
  by (auto split: option.splits) (metis)


section \<open>A reader's steps\<close>

definition reader_keeps :: "byte list \<Rightarrow> int \<Rightarrow> cstate \<Rightarrow> views \<Rightarrow> nat \<Rightarrow> outcome \<Rightarrow> bool" where
  "reader_keeps full t0 s S i r \<longleftrightarrow> (case r of
     Some (Inl f) \<Rightarrow> f = UseAfterFree
       \<and> (\<exists>c cur p e. rds s i = R_found_copy c cur p \<and> c_max c = 0 \<and> slot s = Some e \<and> \<not> is_loading e \<and> \<not> (data_live e \<and> p = buf s))
   | Some (Inr s') \<Rightarrow> locks_ok s' \<and> work_ok full t0 s' \<and> stays s s' \<and> r_ok s' S (rds s' i) \<and> (\<forall>j. j \<noteq> i \<longrightarrow> rds s' j = rds s j)
       \<and> sw s' = sw s \<and> ttl s' = ttl s \<and> clock s' = clock s \<and> held s' = held s
   | None \<Rightarrow> True)"

lemma reader_keeps_wait [simp]: "reader_keeps full t0 s S i None"
  by (simp add: reader_keeps_def)

lemma lookup_leave:
  assumes "Some (ld, d) \<in> S" "length d = unat cur"
  shows "ld \<and> c_off c \<ge> cur \<Longrightarrow> \<not> (\<not> ld \<and> c_max c = 0) \<Longrightarrow> answers c (CACHE_NEW_NOT_LOADED, out_of c ld) S"
    and "\<not> (ld \<and> c_off c \<ge> cur) \<Longrightarrow> \<not> (\<not> ld \<and> c_max c = 0) \<Longrightarrow> c_off c > cur \<Longrightarrow> answers c (CACHE_ERROR, out_of c ld) S"
    and "\<not> ld \<Longrightarrow> c_max c = 0 \<Longrightarrow> answers c (CACHE_FOUND, (out_of c False)\<lparr>out_size := cur, out_data := Some d\<rparr>) S"
  using assms
  by (auto simp: answers_def out_of_def Let_def word_le_nat_alt word_less_nat_alt unat_eq_0 word_of_unat intro!: bexI [of _ "Some (ld, d)"])

lemma lookup_packet:
  assumes "Some (ld, d) \<in> S" "length d = unat cur" "packet_case c ld cur"
  shows "copy_size c cur > 0 \<Longrightarrow> copy_out d (unat (c_off c)) (unat (copy_size c cur)) = Inr p
      \<Longrightarrow> answers c (CACHE_NEW_LOADED, (out_of c ld)\<lparr>out_data := Some p, out_size := copy_size c cur\<rparr>) S"
    and "\<not> copy_size c cur > 0 \<Longrightarrow> answers c (CACHE_DONE, (out_of c ld)\<lparr>out_data := None, out_size := 0\<rparr>) S"
    and "\<exists>p. copy_out d (unat (c_off c)) (unat (copy_size c cur)) = Inr p"
proof -
  have off: "c_off c \<le> cur" using assms(3) by (auto simp: packet_case_def)
  note p = packet_size [OF assms(2) [symmetric] off, of "c_max c", folded copy_size_def [unfolded Let_def]]
  have "lookup_spec (Some (ld, d)) (unat (c_off c)) (unat (c_max c)) (c_out c)
    = (let p = packet d (unat (c_off c)) (unat (c_max c)) in
       if p \<noteq> [] then (CACHE_NEW_LOADED, (c_out c)\<lparr>out_loading := ld, out_data := Some p, out_size := of_nat (length p)\<rparr>)
       else (CACHE_DONE, (c_out c)\<lparr>out_loading := ld, out_data := None, out_size := 0\<rparr>))"
    unfolding Let_def using assms(2,3)
    by (intro lookup_spec_packet) (auto simp: packet_case_def word_le_nat_alt word_less_nat_alt unat_eq_0)
  then show "copy_size c cur > 0 \<Longrightarrow> copy_out d (unat (c_off c)) (unat (copy_size c cur)) = Inr p
      \<Longrightarrow> answers c (CACHE_NEW_LOADED, (out_of c ld)\<lparr>out_data := Some p, out_size := copy_size c cur\<rparr>) S"
    and "\<not> copy_size c cur > 0 \<Longrightarrow> answers c (CACHE_DONE, (out_of c ld)\<lparr>out_data := None, out_size := 0\<rparr>) S"
    using p assms(1) by (auto simp: answers_def out_of_def Let_def intro!: bexI [of _ "Some (ld, d)"])
  show "\<exists>p. copy_out d (unat (c_off c)) (unat (copy_size c cur)) = Inr p" using p(3) by blast
qed


lemma r_locks_same:
  assumes "locks_ok s" "r_in_bucket k = r_in_bucket (rds s i)" "r_reads k = r_reads (rds s i)"
  shows "locks_ok (reader_to i k s)" "locks_ok (reader_to i k (s\<lparr>slot := sl\<rparr>))"
  using assms by (auto simp: locks_ok_def reader_to_def)

lemma r_locks_bucket:
  assumes "locks_ok s" "bmutex s = None" "r_in_bucket k" "r_reads k = r_reads (rds s i)"
  shows "locks_ok (reader_to i k (s\<lparr>bmutex := Some (Reader i)\<rparr>))"
  using assms by (auto simp: locks_ok_def reader_to_def)

lemma r_locks_leave:
  assumes "locks_ok s" "r_in_bucket (rds s i)" "\<not> r_in_bucket k" "r_reads k = r_reads (rds s i)"
  shows "locks_ok (reader_to i k (s\<lparr>bmutex := None\<rparr>))"
proof -
  have "bmutex s = Some (Reader i)" using assms by (simp add: locks_ok_def)
  with assms show ?thesis by (auto simp: locks_ok_def reader_to_def)
qed

lemma r_locks_rd:
  assumes "locks_ok s" "\<not> wrlocked s" "r_in_bucket k = r_in_bucket (rds s i)" "r_reads k"
  shows "locks_ok (reader_to i k (s\<lparr>rdlocked := insert i (rdlocked s)\<rparr>))"
  using assms by (auto simp: locks_ok_def reader_to_def)

lemma r_locks_unrd:
  assumes "locks_ok s" "r_in_bucket k = r_in_bucket (rds s i)" "\<not> r_reads k"
  shows "locks_ok (reader_to i k (s\<lparr>rdlocked := rdlocked s - {i}\<rparr>))"
  using assms by (auto simp: locks_ok_def reader_to_def)

lemma reader_to_fields [simp]:
  "slot (reader_to i k s) = slot s" "buf (reader_to i k s) = buf s" "bmutex (reader_to i k s) = bmutex s" "wrlocked (reader_to i k s) = wrlocked s"
  "rdlocked (reader_to i k s) = rdlocked s" "clock (reader_to i k s) = clock s" "ttl (reader_to i k s) = ttl s" "wk (reader_to i k s) = wk s"
  "todo (reader_to i k s) = todo s" "sw (reader_to i k s) = sw s" "rds (reader_to i k s) = (rds s)(i := k)"
  by (simp_all add: reader_to_def)

lemma reader_moves:
  assumes "work_ok full t0 s" "locks_ok s'" "slot s' = slot s" "buf s' = buf s" "r_ok s' S (rds s' i)"
    and "\<forall>j. j \<noteq> i \<longrightarrow> rds s' j = rds s j" "wk s' = wk s" "todo s' = todo s" "sw s' = sw s" "ttl s' = ttl s" "clock s' = clock s"
  shows "reader_keeps full t0 s S i (moves s')"
  using assms by (simp add: reader_keeps_def moves_def work_ok_def stays_same held_def split: option.splits)

lemma got_take:
  assumes "got s S ld cur"
  obtains e where "slot s = Some e" "Some (ld, take (unat cur) (edata e)) \<in> S" "length (take (unat cur) (edata e)) = unat cur"
    "unat cur \<le> length (edata e)" "\<not> ld \<longrightarrow> \<not> is_loading e"
  using assms by (auto simp: got_def)

text \<open>Copying from the block and copying from the bytes that were there when the size was read is the same.\<close>

lemma copy_out_take:
  assumes "copy_out (take m xs) off n = Inr p" "m \<le> length xs"
  shows "copy_out xs off n = Inr p"
  using assms by (auto simp: copy_out_def min_def drop_take split: if_splits)

lemma buffer_there:
  assumes "locks_ok s" "work_ok full t0 s" "slot s = Some e" "r_reads (rds s i)" "edata e \<noteq> []"
  shows "data_live e"
proof -
  have "rdlocked s \<noteq> {}" "wrlocked s \<longleftrightarrow> w_writes (wk s)" using assms(1,4) by (auto simp: locks_ok_def)
  with assms(1) have "\<not> w_writes (wk s)" by (auto simp: locks_ok_def)
  moreover have "w_ok full (wk s) (concat (todo s)) e" using assms(2,3) by (simp add: work_ok_def)
  ultimately show ?thesis using assms(5) by (cases "wk s") (auto simp: closed_def)
qed


lemma decide_ok:
  assumes "locks_ok s" "work_ok full t0 s" "slot s = Some e" "held s \<in> S"
    and "if ld then Some (True, take (unat (data_size e)) (edata e)) \<in> S else \<not> is_loading e"
  shows "r_ok s S (decide c ld (data_size e))" "r_in_bucket (decide c ld (data_size e))" "\<not> r_reads (decide c ld (data_size e))"
proof -
  let ?d = "take (unat (data_size e)) (edata e)"
  have len: "unat (data_size e) \<le> length (edata e)"
    using assms(2,3) by (cases "wk s") (auto simp: work_ok_def growing_def closed_def)
  have v: "Some (ld, ?d) \<in> S" using assms(3-5) by (auto simp: held_def split: if_splits)
  have g: "got s S ld (data_size e)" using v len assms(3,5) by (auto simp: got_def split: if_splits)
  note l = lookup_leave [OF v, of "data_size e" c]
  show "r_ok s S (decide c ld (data_size e))" using g len l by (auto simp: decide_def packet_case_def)
  show "r_in_bucket (decide c ld (data_size e))" "\<not> r_reads (decide c ld (data_size e))" by (simp_all add: decide_def)
qed

lemma size_keeps:
  assumes ok: "locks_ok s" "work_ok full t0 s" "r_ok s S (rds s i)" and k: "rds s i = R_size c ld" and h: "held s \<in> S"
  shows "reader_keeps full t0 s S i (reader_step i s)"
proof -
  from k ok(3) obtain e where e: "slot s = Some e" "if ld then Some (True, take (unat (data_size e)) (edata e)) \<in> S else \<not> is_loading e" by auto
  with h k decide_ok [OF ok(1,2) e(1) _ e(2), of c] have d: "r_ok s S (decide c ld (data_size e))"
    "r_in_bucket (decide c ld (data_size e))" "\<not> r_reads (decide c ld (data_size e))" by auto
  have "r_ok (reader_to i (decide c ld (data_size e)) s) S (decide c ld (data_size e))"
    using d(1) h k by (intro r_ok_stays [OF d(1)]) (auto simp: d(3) held_def stays_same)
  with k e(1) d show ?thesis
    by (auto simp: reader_step_def on_entry_def intro!: reader_moves [OF ok(2)] r_locks_same [OF ok(1)])
qed

lemma found_copy_keeps:
  assumes ok: "locks_ok s" "work_ok full t0 s" "r_ok s S (rds s i)" and k: "rds s i = R_found_copy c cur p"
  shows "reader_keeps full t0 s S i (reader_step i s)"
proof -
  from k ok(3) have g: "got s S False cur" "c_max c = 0" by auto
  from got_take [OF g(1)] obtain e where e: "slot s = Some e" "Some (False, take (unat cur) (edata e)) \<in> S"
    "length (take (unat cur) (edata e)) = unat cur" "unat cur \<le> length (edata e)" "\<not> is_loading e" by blast
  from e(4) have c: "copy_out (edata e) 0 (unat cur) = Inr (take (unat cur) (edata e))" by (simp add: copy_out_def)
  note l = lookup_leave(3) [OF e(2,3) _ g(2)]
  show ?thesis
  proof (cases "unat cur > 0 \<and> \<not> (data_live e \<and> p = buf s)")
    case True
    with k g e show ?thesis by (auto simp: reader_step_def copy_from_def on_entry_def fails_def reader_keeps_def)
  next
    case False
    have "reader_keeps full t0 s S i (moves (reader_to i (R_leave c (CACHE_FOUND, (out_of c False)\<lparr>out_size := cur, out_data := Some (take (unat cur) (edata e))\<rparr>)) s))"
      using l k by (intro reader_moves [OF ok(2)] r_locks_same [OF ok(1)]) auto
    with k e False c show ?thesis by (auto simp: reader_step_def copy_from_def on_entry_def)
  qed
qed

lemma rdlock_keeps:
  assumes ok: "locks_ok s" "work_ok full t0 s" "r_ok s S (rds s i)" and k: "rds s i = R_rdlock c ld cur"
  shows "reader_keeps full t0 s S i (reader_step i s)"
proof -
  from k ok(3) have g: "got s S ld cur" "packet_case c ld cur" by auto
  from got_take [OF g(1)] obtain e where e: "slot s = Some e" "Some (ld, take (unat cur) (edata e)) \<in> S"
    "length (take (unat cur) (edata e)) = unat cur" by blast
  note l = lookup_packet(2) [OF e(2,3) g(2)]
  let ?k = "if copy_size c cur > 0 then R_ptr c ld (copy_size c cur)
    else R_rdunlock c ld (CACHE_DONE, (out_of c ld)\<lparr>out_data := None, out_size := 0\<rparr>)"
  let ?s = "reader_to i ?k (s\<lparr>rdlocked := insert i (rdlocked s)\<rparr>)"
  have "got ?s S ld cur" by (rule got_stays [OF g(1)]) (simp_all add: stays_same)
  then have "r_ok ?s S ?k" using l g(2) e(1) by (auto simp: gets_packet_def)
  then have "reader_keeps full t0 s S i (moves ?s)" if "\<not> wrlocked s"
    using k that by (intro reader_moves [OF ok(2)] r_locks_rd [OF ok(1)]) auto
  with k e(1) show ?thesis by (simp add: reader_step_def on_entry_def)
qed

lemma ptr_keeps:
  assumes ok: "locks_ok s" "work_ok full t0 s" "r_ok s S (rds s i)" and k: "rds s i = R_ptr c ld n"
  shows "reader_keeps full t0 s S i (reader_step i s)"
proof -
  from k ok(3) have g: "gets_packet s S c ld n" by simp
  then obtain cur where g': "got s S ld cur" "packet_case c ld cur" "0 < copy_size c cur" by (auto simp: gets_packet_def)
  then have "cur \<noteq> 0" by (auto simp: packet_case_def copy_size_def Let_def not_less)
  then have "0 < unat cur" by (simp add: unat_gt_0)
  from g'(1) obtain e where e: "slot s = Some e" "unat cur \<le> length (edata e)" by (auto simp: got_def)
  with \<open>0 < unat cur\<close> have "edata e \<noteq> []" by auto
  with k e(1) have live: "data_live e" by (intro buffer_there [OF ok(1,2), where i = i]) auto
  let ?s = "reader_to i (R_copy c ld n (buf s)) s"
  have "gets_packet ?s S c ld n" by (rule gets_packet_stays [OF g]) (simp_all add: stays_same)
  with k e live show ?thesis
    by (auto simp: reader_step_def on_entry_def intro!: reader_moves [OF ok(2)] r_locks_same [OF ok(1)])
qed

lemma packet_copy_keeps:
  assumes ok: "locks_ok s" "work_ok full t0 s" "r_ok s S (rds s i)" and k: "rds s i = R_copy c ld n p"
  shows "reader_keeps full t0 s S i (reader_step i s)"
proof -
  from k ok(3) obtain cur where g: "got s S ld cur" "packet_case c ld cur" "n = copy_size c cur" "0 < n" "p = buf s"
    "data_live (the (slot s))" by (auto simp: gets_packet_def)
  from got_take [OF g(1)] obtain e where e: "slot s = Some e" "Some (ld, take (unat cur) (edata e)) \<in> S"
    "length (take (unat cur) (edata e)) = unat cur" "unat cur \<le> length (edata e)" by blast
  note l = lookup_packet [OF e(2,3) g(2)]
  from l(3) obtain d where d: "copy_out (take (unat cur) (edata e)) (unat (c_off c)) (unat n) = Inr d" using g(3) by auto
  have "reader_keeps full t0 s S i (moves (reader_to i (R_rdunlock c ld (CACHE_NEW_LOADED, (out_of c ld)\<lparr>out_data := Some d, out_size := n\<rparr>)) s))"
    using l(1) d g(3,4) k e(1) by (intro reader_moves [OF ok(2)] r_locks_same [OF ok(1)]) auto
  with k e(1) g(5,6) copy_out_take [OF d e(4)] show ?thesis by (simp add: reader_step_def copy_from_def on_entry_def)
qed

lemma touch_keeps:
  assumes ok: "locks_ok s" "work_ok full t0 s" "r_ok s S (rds s i)" and k: "rds s i = R_touch c r"
  shows "reader_keeps full t0 s S i (reader_step i s)"
proof -
  from k ok(3) obtain e where e: "slot s = Some e" "answers c r S" by auto
  let ?s = "reader_to i (R_leave c r) (s\<lparr>slot := Some (e\<lparr>last_accessed := clock s\<rparr>)\<rparr>)"
  have "locks_ok ?s" using k by (intro r_locks_same [OF ok(1)]) auto
  moreover have "w_ok full (wk s) (concat (todo s)) (e\<lparr>last_accessed := clock s\<rparr>)"
    using ok(2) e(1) by (cases "wk s") (auto simp: work_ok_def)
  ultimately show ?thesis using k e ok(2)
    by (auto simp: reader_step_def on_entry_def reader_keeps_def moves_def work_ok_def stays_def held_def)
qed

lemma reader_step_keeps:
  assumes ok: "locks_ok s" "work_ok full t0 s" "r_ok s S (rds s i)" and h: "rds s i \<noteq> R_idle \<longrightarrow> held s \<in> S"
  shows "reader_keeps full t0 s S i (reader_step i s)"
proof (cases "rds s i")
  case (R_call c)
  then show ?thesis
    by (auto simp: reader_step_def go_if_def lock_bucket_def moves_def [symmetric]
        intro!: reader_moves [OF ok(2)] r_locks_bucket [OF ok(1)])
next
  case (R_search c)
  have "answers c (CACHE_NOT_FOUND, c_out c) S" if "slot s = None"
    using that h R_search by (auto simp: held_def answers_def intro!: bexI [of _ None])
  with R_search show ?thesis by (auto simp: reader_step_def intro!: reader_moves [OF ok(2)] r_locks_same [OF ok(1)])
next
  case (R_flag c)
  with ok(3) obtain e where e: "slot s = Some e" by auto
  with R_flag h have "is_loading e \<longrightarrow> Some (True, take (unat (data_size e)) (edata e)) \<in> S" by (auto simp: held_def)
  with R_flag e show ?thesis
    by (auto simp: reader_step_def on_entry_def intro!: reader_moves [OF ok(2)] r_locks_same [OF ok(1)])
next
  case (R_size c ld)
  with size_keeps [OF ok] h show ?thesis by simp
next
  case (R_found c cur)
  with ok(3) obtain e where "slot s = Some e" by (auto simp: got_def)
  with R_found ok(3) show ?thesis
    by (auto simp: reader_step_def on_entry_def got_def intro!: reader_moves [OF ok(2)] r_locks_same [OF ok(1)])
next
  case (R_found_copy c cur p)
  with found_copy_keeps [OF ok] show ?thesis by simp
next
  case (R_rdlock c ld cur)
  with rdlock_keeps [OF ok] show ?thesis by simp
next
  case (R_ptr c ld n)
  with ptr_keeps [OF ok] show ?thesis by simp
next
  case (R_copy c ld n p)
  with packet_copy_keeps [OF ok] show ?thesis by simp
next
  case (R_rdunlock c ld r)
  with ok(3) show ?thesis
    by (auto simp: reader_step_def on_entry_def intro!: reader_moves [OF ok(2)] r_locks_unrd [OF ok(1)])
next
  case (R_touch c r)
  with touch_keeps [OF ok] show ?thesis by simp
next
  case (R_leave c r)
  with ok(3) show ?thesis by (auto simp: reader_step_def intro!: reader_moves [OF ok(2)] r_locks_leave [OF ok(1)])
qed (simp_all add: reader_step_def)

section \<open>The sweeper\<close>

definition sweeper_keeps :: "byte list \<Rightarrow> int \<Rightarrow> cstate \<Rightarrow> outcome \<Rightarrow> bool" where
  "sweeper_keeps full t0 s r \<longleftrightarrow> (case r of
     Some (Inl f) \<Rightarrow> f = DoubleFree \<and> t0 + ttl s < clock s \<and> (full = [] \<or> (\<exists>b cur. wk s = F_moved b cur))
   | Some (Inr s') \<Rightarrow> locks_ok s' \<and> work_ok full t0 s' \<and> s_ok t0 s' (sw s') \<and> (bmutex s = Some Sweeper \<or> stays s s')
       \<and> rds s' = rds s \<and> wk s' = wk s \<and> ttl s' = ttl s
   | None \<Rightarrow> True)"

lemma s_locks_same: "locks_ok s \<Longrightarrow> s_in_bucket k = s_in_bucket (sw s) \<Longrightarrow> locks_ok (s\<lparr>sw := k\<rparr>)"
  "locks_ok s \<Longrightarrow> s_in_bucket k = s_in_bucket (sw s) \<Longrightarrow> locks_ok (s\<lparr>slot := sl, sw := k\<rparr>)"
  by (auto simp: locks_ok_def)

lemma s_locks_bucket: "locks_ok s \<Longrightarrow> bmutex s = None \<Longrightarrow> s_in_bucket k \<Longrightarrow> locks_ok (s\<lparr>bmutex := Some Sweeper, sw := k\<rparr>)"
  by (auto simp: locks_ok_def)

lemma s_locks_leave:
  assumes "locks_ok s" "s_in_bucket (sw s)" "\<not> s_in_bucket k"
  shows "locks_ok (s\<lparr>bmutex := None, sw := k\<rparr>)"
proof -
  have "bmutex s = Some Sweeper" using assms by (simp add: locks_ok_def)
  with assms show ?thesis by (auto simp: locks_ok_def)
qed

lemma sweeper_moves:
  assumes "work_ok full t0 s" "locks_ok s'" "slot s' = slot s" "buf s' = buf s" "s_ok t0 s' (sw s')"
    and "rds s' = rds s" "wk s' = wk s" "todo s' = todo s" "ttl s' = ttl s" "clock s' = clock s"
  shows "sweeper_keeps full t0 s (moves s')"
  using assms by (simp add: sweeper_keeps_def moves_def work_ok_def stays_same split: option.splits)

lemma finished_worker:
  assumes "work_ok full t0 s" "slot s = Some e" "\<not> is_loading e"
  shows "w_gone (wk s) True" "data_live e \<or> full = [] \<or> (\<exists>b cur. wk s = F_moved b cur)" "wk s \<notin> {W_start, W_create}"
  using assms by (cases "wk s"; auto simp: work_ok_def growing_def)+

lemma sweeper_keeps_wait [simp]: "sweeper_keeps full t0 s None"
  by (simp add: sweeper_keeps_def)

lemma sweeper_step_keeps:
  assumes ok: "locks_ok s" "work_ok full t0 s" and s: "s_ok t0 s (sw s)"
  shows "sweeper_keeps full t0 s (sweeper_step s)"
proof (cases "sw s")
  case S_idle
  then show ?thesis by (auto simp: sweeper_step_def intro!: sweeper_moves [OF ok(2)] s_locks_same [OF ok(1)])
next
  case (S_lock now)
  with s show ?thesis
    by (auto simp: sweeper_step_def go_if_def lock_bucket_def moves_def [symmetric]
        intro!: sweeper_moves [OF ok(2)] s_locks_bucket [OF ok(1)])
next
  case (S_look now)
  with s show ?thesis
    by (auto simp: sweeper_step_def split: option.splits if_splits intro!: sweeper_moves [OF ok(2)] s_locks_same [OF ok(1)])
next
  case (S_expire now)
  with s obtain e where e: "slot s = Some e" "\<not> is_loading e" "now \<le> clock s" by auto
  then have "t0 \<le> last_accessed e" using ok(2) by (simp add: work_ok_def)
  with S_expire e show ?thesis
    by (auto simp: sweeper_step_def on_entry_def intro!: sweeper_moves [OF ok(2)] s_locks_same [OF ok(1)])
next
  case (S_free now)
  with s obtain e where e: "slot s = Some e" "\<not> is_loading e" "now \<le> clock s" "t0 + ttl s < now" by auto
  note w = finished_worker [OF ok(2) e(1,2)]
  have "bmutex s = Some Sweeper" using S_free ok(1) by (simp add: locks_ok_def)
  moreover have "locks_ok (s\<lparr>slot := None, sw := S_unlock\<rparr>)" using S_free by (intro s_locks_same [OF ok(1)]) auto
  moreover have "w_gone (wk s) (t0 + ttl s < clock s)" using w(1) e(3,4) by simp
  ultimately show ?thesis using S_free e w ok(2)
    by (auto simp: sweeper_step_def on_entry_def sweeper_keeps_def moves_def fails_def work_ok_def)
next
  case S_unlock
  then have "locks_ok (s\<lparr>bmutex := None, sw := S_idle\<rparr>)" by (intro s_locks_leave [OF ok(1)]) auto
  with S_unlock show ?thesis by (auto simp: sweeper_step_def intro!: sweeper_moves [OF ok(2)])
qed

section \<open>Every reachable state\<close>

lemma observe_more: "seen i \<subseteq> observe seen s i" "held s \<in> observe seen s i"
  by (auto simp: observe_def)

lemma reads_locked: "locks_ok s \<Longrightarrow> r_reads (rds s i) \<Longrightarrow> rdlocked s \<noteq> {}"
  by (auto simp: locks_ok_def)

text \<open>A step that leaves the readers alone, and the entry too unless its thread is inside the bucket's mutex.\<close>

lemma read_ok_others:
  assumes "locks_ok s" "read_ok s seen" "\<And>i. r_in_bucket (rds s i) \<Longrightarrow> stays s s'" "rds s' = rds s"
  shows "read_ok s' (observe seen s')"
proof -
  have "r_ok s' (observe seen s' i) (rds s i)" for i
  proof (rule r_ok_stays [OF _ _ _ observe_more])
    show "r_ok s (seen i) (rds s i)" using assms(2) by (simp add: read_ok_def)
  qed (use assms(3) [of i] reads_locked [OF assms(1), of i] in blast)+
  with assms(4) observe_more(2) show ?thesis by (simp add: read_ok_def)
qed

lemma not_reader: "locks_ok s \<Longrightarrow> r_in_bucket (rds s i) \<Longrightarrow> bmutex s = Some (Reader i)"
  by (simp add: locks_ok_def)

lemma s_ok_stays:
  assumes "s_ok t0 s k" "s_in_bucket k \<Longrightarrow> stays s s'" "ttl s' = ttl s" "clock s' = clock s"
  shows "s_ok t0 s' k"
  using assms by (cases k) (auto simp: stays_def grows_def)

lemma worker_cinv:
  assumes c: "cinv full t0 s seen" "length full \<le> 2 ^ 63" and st: "worker_step key a ok s = Some (Inr s')"
  shows "cinv full t0 s' (observe seen s')"
proof -
  have l: "locks_ok s" "work_ok full t0 s" "s_ok t0 s (sw s)" "read_ok s seen" using c(1) by (auto simp: cinv_def)
  from worker_step_keeps [OF l(1,2) c(2), of key a ok] st have k: "locks_ok s'" "work_ok full t0 s'"
    "bmutex s = Some Worker \<or> stays s s'" "rds s' = rds s" "sw s' = sw s" "ttl s' = ttl s" "clock s' = clock s"
    by (auto simp: worker_keeps_def)
  have "read_ok s' (observe seen s')"
    using k(3,4) not_reader [OF l(1)] by (intro read_ok_others [OF l(1,4)]) auto
  moreover have "s_ok t0 s' (sw s)" using k l(1) by (intro s_ok_stays [OF l(3)]) (auto simp: locks_ok_def)
  ultimately show ?thesis using k by (simp add: cinv_def)
qed

lemma sweeper_cinv:
  assumes c: "cinv full t0 s seen" and st: "sweeper_step s = Some (Inr s')"
  shows "cinv full t0 s' (observe seen s')"
proof -
  have l: "locks_ok s" "work_ok full t0 s" "s_ok t0 s (sw s)" "read_ok s seen" using c(1) by (auto simp: cinv_def)
  from sweeper_step_keeps [OF l(1-3)] st have k: "locks_ok s'" "work_ok full t0 s'" "s_ok t0 s' (sw s')"
    "bmutex s = Some Sweeper \<or> stays s s'" "rds s' = rds s"
    by (auto simp: sweeper_keeps_def)
  have "read_ok s' (observe seen s')"
    using k(4,5) not_reader [OF l(1)] by (intro read_ok_others [OF l(1,4)]) auto
  with k show ?thesis by (simp add: cinv_def)
qed

lemma reader_cinv:
  assumes c: "cinv full t0 s seen" and st: "reader_step i s = Some (Inr s')"
  shows "cinv full t0 s' (observe seen s')"
proof -
  have l: "locks_ok s" "work_ok full t0 s" "s_ok t0 s (sw s)" "read_ok s seen" using c(1) by (auto simp: cinv_def)
  from reader_step_keeps [OF l(1,2), of "seen i" i] l(4) st have k: "locks_ok s'" "work_ok full t0 s'" "stays s s'"
    "r_ok s' (seen i) (rds s' i)" "\<And>j. j \<noteq> i \<Longrightarrow> rds s' j = rds s j" "sw s' = sw s" "ttl s' = ttl s" "clock s' = clock s" "held s' = held s"
    by (auto simp: reader_keeps_def read_ok_def)
  have other: "r_ok s' (observe seen s' j) (rds s j)" for j
  proof (rule r_ok_stays [OF _ _ _ observe_more])
    show "r_ok s (seen j) (rds s j)" using l(4) by (simp add: read_ok_def)
  qed (use k(3) reads_locked [OF l(1), of j] in blast)+
  have "r_ok s' (observe seen s' j) (rds s' j)" for j
  proof (cases "j = i")
    case True
    show ?thesis unfolding True
      by (rule r_ok_stays [OF k(4) _ _ observe_more(1) [of seen i s'] observe_more(2) [of s' seen i]]) (use reads_locked [OF k(1), of i] in \<open>auto simp: stays_same\<close>)
  qed (use other k(5) in simp)
  moreover have "s_ok t0 s' (sw s)" using k by (intro s_ok_stays [OF l(3)]) auto
  ultimately show ?thesis using k(1,2,6) observe_more(2) by (simp add: cinv_def read_ok_def)
qed


lemma call_cinv:
  assumes c: "cinv full t0 s seen" and st: "begin_call i c s = Some s'"
  shows "cinv full t0 s' ((observe seen s')(i := {held s'}))"
proof -
  have s': "s' = reader_to i (R_call c) s" "\<not> r_in_bucket (rds s i)" "\<not> r_reads (rds s i)"
    using st by (auto simp: begin_call_def split: rpc.splits)
  have l: "locks_ok s" "work_ok full t0 s" "s_ok t0 s (sw s)" "read_ok s seen" using c by (auto simp: cinv_def)
  have "locks_ok s'" unfolding s'(1) using s'(2,3) by (intro r_locks_same [OF l(1)]) auto
  moreover have "work_ok full t0 s'" using l(2) s'(1) by (simp add: work_ok_def split: option.splits)
  moreover have "s_ok t0 s' (sw s')" using s'(1) by (auto intro!: s_ok_stays [OF l(3)] stays_same)
  moreover have "r_ok s' (observe seen s' j) (rds s j)" for j
  proof (rule r_ok_stays [OF _ _ _ observe_more])
    show "r_ok s (seen j) (rds s j)" using l(4) by (simp add: read_ok_def)
  qed (use s'(1) reads_locked [OF l(1), of j] in \<open>auto simp: stays_same\<close>)
  then have "read_ok s' ((observe seen s')(i := {held s'}))" using s'(1) observe_more(2) by (simp add: read_ok_def)
  ultimately show ?thesis by (simp add: cinv_def)
qed

lemma time_cinv:
  assumes c: "cinv full t0 s seen"
  shows "cinv full t0 (tick s) (observe seen (tick s))"
proof -
  have l: "locks_ok s" "work_ok full t0 s" "s_ok t0 s (sw s)" "read_ok s seen" using c by (auto simp: cinv_def)
  have "w_gone w a \<Longrightarrow> (a \<Longrightarrow> b) \<Longrightarrow> w_gone w b" for w a b by (cases w) auto
  with l(2) have "work_ok full t0 (tick s)" by (force simp: work_ok_def tick_def split: option.splits)
  moreover have "locks_ok (tick s)" using l(1) by (simp add: locks_ok_def tick_def)
  moreover have "s_ok t0 (tick s) (sw s)" using l(3) by (cases "sw s") (auto simp: tick_def)
  moreover have "read_ok (tick s) (observe seen (tick s))"
    by (rule read_ok_others [OF l(1,4)]) (simp_all add: tick_def stays_same)
  ultimately show ?thesis by (simp add: cinv_def tick_def)
qed

lemma start_cinv: "cinv (concat chs) now (start_state chs ends now life) (\<lambda>_. {})"
  by (simp add: cinv_def start_state_def locks_ok_def work_ok_def read_ok_def)

lemma reached_cinv:
  assumes "reached key (start_state chs ends now life) s seen" "length (concat chs) \<le> 2 ^ 63"
  shows "cinv (concat chs) now s seen \<and> ttl s = life"
  using assms(1)
proof (induction rule: reached.induct)
  case at_start
  show ?case using start_cinv by (simp add: start_state_def)
next
  case (by_worker s seen a ok s')
  then have "locks_ok s" "work_ok (concat chs) now s" by (auto simp: cinv_def)
  from worker_step_keeps [OF this assms(2), of key a ok] by_worker.hyps have "ttl s' = ttl s" by (auto simp: worker_keeps_def)
  with by_worker worker_cinv [OF _ assms(2)] show ?case by metis
next
  case (by_reader s seen i s')
  then have "locks_ok s" "work_ok (concat chs) now s" "r_ok s (seen i) (rds s i)" "rds s i \<noteq> R_idle \<longrightarrow> held s \<in> seen i"
    by (auto simp: cinv_def read_ok_def)
  from reader_step_keeps [OF this] by_reader.hyps have "ttl s' = ttl s" by (auto simp: reader_keeps_def)
  with by_reader reader_cinv show ?case by metis
next
  case (by_call s seen i c s')
  then have "ttl s' = ttl s" by (auto simp: begin_call_def split: rpc.splits)
  with by_call call_cinv show ?case by metis
next
  case (by_sweeper s seen s')
  then have "locks_ok s" "work_ok (concat chs) now s" "s_ok now s (sw s)" by (auto simp: cinv_def)
  from sweeper_step_keeps [OF this] by_sweeper.hyps have "ttl s' = ttl s" by (auto simp: sweeper_keeps_def)
  with by_sweeper sweeper_cinv show ?case by metis
next
  case (by_time s seen)
  with time_cinv show ?case by (metis cstate.select_convs(7) cstate.surjective tick_def cstate.update_convs(6))
qed

section \<open>The latest access\<close>

text \<open>
  The invariant also holds with the time of the latest access in place of the start of the run. A step that renews
  \<open>last_accessed\<close> makes it hold for the present time, because the sweeper is not about to free the entry then.
\<close>

definition renewed :: "cstate \<Rightarrow> bool" where
  "renewed s \<longleftrightarrow> (case slot s of Some e \<Rightarrow> last_accessed e = clock s | None \<Rightarrow> wk s = C_unlock)"

lemma cinv_renewed:
  assumes "cinv full t0 s seen" "renewed s" "\<forall>now. sw s \<noteq> S_free now"
  shows "cinv full (clock s) s seen"
proof -
  have "s_ok (clock s) s (sw s)" using assms(1,3) by (cases "sw s") (auto simp: cinv_def)
  with assms(1,2) show ?thesis by (auto simp: cinv_def work_ok_def renewed_def split: option.splits)
qed

lemma worker_renews:
  assumes c: "cinv full t0 s seen" and st: "worker_step key a ok s = Some (Inr s')" and w: "worker_accesses (wk s)"
  shows "renewed s'" "clock s' = clock s" "sw s \<noteq> S_free now" "sw s' = sw s"
proof -
  have ok: "locks_ok s" "work_ok full t0 s" "s_ok t0 s (sw s)" using c by (auto simp: cinv_def)
  show "renewed s'" using ok(2) st w
    by (cases "wk s") (auto simp: worker_step_def outcome_defs create_entry_def work_ok_def renewed_def split: option.splits if_splits)
  show "clock s' = clock s" "sw s' = sw s" using st w
    by (cases "wk s"; auto simp: worker_step_def outcome_defs create_entry_def split: option.splits if_splits)+
  show "sw s \<noteq> S_free now"
  proof
    assume s: "sw s = S_free now"
    with ok(3) obtain e where e: "slot s = Some e" "\<not> is_loading e" by auto
    moreover have "w_ok full (wk s) (concat (todo s)) e" using ok(2) e(1) by (simp add: work_ok_def)
    ultimately show False using w by (cases "wk s") (auto simp: growing_def)
  qed
qed

lemma reader_renews:
  assumes c: "cinv full t0 s seen" and st: "reader_step i s = Some (Inr s')" and r: "reader_accesses (rds s i)"
  shows "renewed s'" "clock s' = clock s" "sw s \<noteq> S_free now" "sw s' = sw s"
proof -
  have ok: "locks_ok s" using c by (simp add: cinv_def)
  from r obtain c r where k: "rds s i = R_touch c r" by (cases "rds s i") auto
  with st show "renewed s'" "clock s' = clock s" "sw s' = sw s"
    by (auto simp: reader_step_def outcome_defs renewed_def split: option.splits)
  have "bmutex s = Some (Reader i)" using k not_reader [OF ok, of i] by simp
  with ok show "sw s \<noteq> S_free now" by (auto simp: locks_ok_def)
qed

lemma watched_cinv:
  assumes "watched key (start_state chs ends now life) s seen used" "length (concat chs) \<le> 2 ^ 63"
  shows "cinv (concat chs) used s seen"
  using assms(1)
proof (induction rule: watched.induct)
  case w_start
  show ?case using start_cinv by (simp add: start_state_def)
next
  case (w_worker s seen used a ok s')
  have c: "cinv (concat chs) used s' (observe seen s')" by (rule worker_cinv [OF w_worker.IH assms(2) w_worker.hyps(2)])
  show ?case
  proof (cases "worker_accesses (wk s)")
    case True
    note r = worker_renews [OF w_worker.IH w_worker.hyps(2) True]
    have "\<forall>now. sw s' \<noteq> S_free now" using r(3,4) by simp
    from cinv_renewed [OF c r(1) this] True r(2) show ?thesis by simp
  qed (use c in simp)
next
  case (w_reader s seen used i s')
  have c: "cinv (concat chs) used s' (observe seen s')" by (rule reader_cinv [OF w_reader.IH w_reader.hyps(2)])
  show ?case
  proof (cases "reader_accesses (rds s i)")
    case True
    note r = reader_renews [OF w_reader.IH w_reader.hyps(2) True]
    have "\<forall>now. sw s' \<noteq> S_free now" using r(3,4) by simp
    from cinv_renewed [OF c r(1) this] True r(2) show ?thesis by simp
  qed (use c in simp)
next
  case (w_call s seen used i c s')
  from call_cinv [OF w_call.IH w_call.hyps(2)] show ?case .
next
  case (w_sweeper s seen used s')
  from sweeper_cinv [OF w_sweeper.IH w_sweeper.hyps(2)] show ?case .
next
  case (w_time s seen used)
  from time_cinv [OF w_time.IH] show ?case .
qed

end
