(* ===== verification/Cache_Races.thy ===== *)
theory Cache_Races
  imports Cache_Threads_Laws
begin

text \<open>
  The properties of the threads that share an entry of the cache: lookups are atomic, where memory faults can happen and
  that they do, and that the locks cannot block each other for ever.
\<close>

section \<open>What an entry can hold\<close>

definition part_of :: "byte list \<Rightarrow> (bool \<times> byte list) option \<Rightarrow> bool" where
  "part_of full v \<longleftrightarrow> (case v of None \<Rightarrow> True | Some (ld, d) \<Rightarrow> if ld then d = take (length d) full else d = full)"

lemma held_part:
  assumes "work_ok full t0 s"
  shows "part_of full (held s)"
proof (cases "slot s")
  case (Some e)
  have "edata e = take (length (edata e)) full" if "edata e @ rest = full" for rest using that by auto
  with Some assms show ?thesis
    by (cases "wk s") (auto simp: work_ok_def held_def part_of_def growing_def closed_def)
qed (simp add: held_def part_of_def)

lemma seen_part:
  assumes "reached key (start_state chs ends now life) s seen" "length (concat chs) \<le> 2 ^ 63" "v \<in> seen i"
  shows "part_of (concat chs) v"
  using assms(1,3)
proof (induction arbitrary: i v rule: reached.induct)
  case at_start
  then show ?case by simp
next
  case (by_worker s seen a ok s')
  from reached.by_worker [OF by_worker.hyps] reached_cinv assms(2) have "work_ok (concat chs) now s'" by (metis cinv_def)
  with by_worker held_part show ?case by (auto simp: observe_def)
next
  case (by_reader s seen j s')
  from reached.by_reader [OF by_reader.hyps] reached_cinv assms(2) have "work_ok (concat chs) now s'" by (metis cinv_def)
  with by_reader held_part show ?case by (auto simp: observe_def)
next
  case (by_call s seen j c s')
  from reached.by_call [OF by_call.hyps] reached_cinv assms(2) have "work_ok (concat chs) now s'" by (metis cinv_def)
  with by_call held_part show ?case by (auto simp: observe_def split: if_splits)
next
  case (by_sweeper s seen s')
  from reached.by_sweeper [OF by_sweeper.hyps] reached_cinv assms(2) have "work_ok (concat chs) now s'" by (metis cinv_def)
  with by_sweeper held_part show ?case by (auto simp: observe_def)
next
  case (by_time s seen)
  from reached.by_time [OF by_time.hyps] reached_cinv assms(2) have "work_ok (concat chs) now (tick s)" by (metis cinv_def)
  with by_time held_part show ?case by (auto simp: observe_def)
qed

text \<open>When the worker is done with a transfer that went well, the entry is complete, unless it has expired and was swept.\<close>

lemma load_completes:
  assumes "reached key (start_state chs ends now life) s seen" "length (concat chs) \<le> 2 ^ 63" "wk s = W_done 0"
  shows "held s = Some (False, concat chs) \<or> held s = None \<and> now + life < clock s"
  using reached_cinv [OF assms(1,2)] assms(3)
  by (auto simp: cinv_def work_ok_def held_def closed_def split: option.splits)

section \<open>Nobody waits for ever\<close>

definition busy :: "who \<Rightarrow> cstate \<Rightarrow> bool" where
  "busy t s \<longleftrightarrow> (case t of Worker \<Rightarrow> wk s \<notin> range W_done
     | Reader i \<Rightarrow> (case rds s i of R_idle \<Rightarrow> False | R_ret _ _ \<Rightarrow> False | _ \<Rightarrow> True) | Sweeper \<Rightarrow> sw s \<noteq> S_idle)"

definition can_step :: "cstring \<Rightarrow> who \<Rightarrow> cstate \<Rightarrow> bool" where
  "can_step key t s \<longleftrightarrow> (case t of Worker \<Rightarrow> worker_step key 0 True s \<noteq> None
     | Reader i \<Rightarrow> reader_step i s \<noteq> None | Sweeper \<Rightarrow> sweeper_step s \<noteq> None)"

lemma waits_simps [simp]:
  "moves s \<noteq> None" "fails x \<noteq> None" "None \<noteq> moves s" "None \<noteq> fails x"
  "go_if r g = None \<longleftrightarrow> r = None" "on_entry s f = None \<longleftrightarrow> (\<exists>e. slot s = Some e \<and> f e = None)"
  by (auto simp: moves_def fails_def go_if_def on_entry_def split: option.splits)

lemma copy_from_runs [simp]: "copy_from s p off n (\<lambda>d. moves (g d)) \<noteq> None"
  by (auto simp: copy_from_def simp del: not_None_eq split: sum.splits if_splits)

lemma reader_runs:
  assumes "r_in_bucket (rds s i)" "wrlocked s \<Longrightarrow> \<forall>c ld cur. rds s i \<noteq> R_rdlock c ld cur"
  shows "can_step key (Reader i) s \<and> busy (Reader i) s"
  using assms by (cases "rds s i") (auto simp: can_step_def busy_def reader_step_def simp del: not_None_eq)

lemma sweeper_runs: "s_in_bucket (sw s) \<Longrightarrow> can_step key Sweeper s \<and> busy Sweeper s"
  by (cases "sw s") (auto simp: can_step_def busy_def sweeper_step_def simp del: not_None_eq split: option.splits if_splits)

lemma worker_runs:
  assumes ok: "locks_ok s" "work_ok full t0 s" "length full \<le> 2 ^ 63"
    and w: "wk s \<notin> range W_done" "wk s \<in> {W_start, C_lock} \<Longrightarrow> bmutex s = None"
      "wk s \<in> {F_lock} \<union> range A_lock \<Longrightarrow> rdlocked s = {} \<and> \<not> wrlocked s"
  shows "can_step key Worker s \<and> busy Worker s"
proof -
  have "grow (allocated_size e) (cur + of_nat (length ch)) \<noteq> None"
    if "wk s = A_room ch cur" "slot s = Some e" "allocated_size e < cur + of_nat (length ch)" for ch cur e
    using that room_made(2) [of full e ch "concat (todo s)"] ok(2,3) by (auto simp: work_ok_def)
  with w have "worker_step key 0 True s \<noteq> None"
    by (cases "wk s") (auto simp: worker_step_def lock_bucket_def lock_data_def create_entry_def simp del: not_None_eq
        split: option.splits list.splits if_splits)
  then show ?thesis using w(1) by (simp add: can_step_def busy_def)
qed

text \<open>Whoever is inside the bucket's mutex or holds the data lock can go on, or waits for one who can.\<close>

lemma locked_runs:
  assumes ok: "locks_ok s" "work_ok full t0 s" "length full \<le> 2 ^ 63" and h: "bmutex s \<noteq> None \<or> wrlocked s \<or> rdlocked s \<noteq> {}"
  shows "\<exists>u. can_step key u s \<and> busy u s"
proof (cases "w_in_bucket (wk s) \<or> w_writes (wk s)")
  case True
  then have "wk s \<notin> range W_done" "wk s \<notin> {W_start, C_lock}" "wk s \<notin> {F_lock} \<union> range A_lock" by auto
  with worker_runs [OF ok] show ?thesis by blast
next
  case False
  with ok(1) have w: "bmutex s \<noteq> Some Worker" "\<not> wrlocked s" by (auto simp: locks_ok_def)
  have "(\<exists>i. r_in_bucket (rds s i)) \<or> s_in_bucket (sw s)"
  proof (cases "rdlocked s = {}")
    case True
    with h w obtain u where "bmutex s = Some u" "u \<noteq> Worker" by auto
    with ok(1) show ?thesis by (cases u) (auto simp: locks_ok_def)
  next
    case False
    then obtain i where "r_reads (rds s i)" using ok(1) by (auto simp: locks_ok_def)
    then have "r_in_bucket (rds s i)" by (cases "rds s i") auto
    then show ?thesis by blast
  qed
  with reader_runs w(2) sweeper_runs show ?thesis by blast
qed


section \<open>Schedules\<close>

datatype move = Wk addr | Rd nat | Call nat call | Sw | Tick nat

fun move_step :: "cstring \<Rightarrow> move \<Rightarrow> cstate \<Rightarrow> outcome" where
  "move_step key (Wk a) s = worker_step key a True s"
| "move_step key (Rd i) s = reader_step i s"
| "move_step key (Call i c) s = map_option Inr (begin_call i c s)"
| "move_step key Sw s = sweeper_step s"
| "move_step key (Tick n) s = moves ((tick ^^ n) s)"

fun run_moves :: "cstring \<Rightarrow> move list \<Rightarrow> cstate \<Rightarrow> outcome" where
  "run_moves key [] s = moves s"
| "run_moves key (m # ms) s = (case move_step key m s of Some (Inr s') \<Rightarrow> run_moves key ms s' | r \<Rightarrow> r)"

lemma ticks_reached: "reached key s0 s seen \<Longrightarrow> \<exists>seen'. reached key s0 ((tick ^^ n) s) seen'"
  by (induction n) (auto intro: reached.by_time)

lemma move_reached:
  assumes "reached key s0 s seen" "move_step key m s = Some (Inr s')"
  shows "\<exists>seen'. reached key s0 s' seen'"
  using assms by (cases m) (auto simp: moves_def intro: reached.intros dest: ticks_reached)

lemma run_reached:
  assumes "reached key s0 s seen" "run_moves key ms s = Some (Inr s')"
  shows "\<exists>seen'. reached key s0 s' seen'"
  using assms
proof (induction ms arbitrary: s seen)
  case (Cons m ms)
  then obtain s1 where s1: "move_step key m s = Some (Inr s1)" "run_moves key ms s1 = Some (Inr s')"
    by (auto split: option.splits sum.splits)
  from move_reached [OF Cons.prems(1) s1(1)] Cons.IH s1(2) show ?case by blast
qed (auto simp: moves_def)

definition no_out :: lookup_out where
  "no_out = \<lparr>out_data = None, out_size = 0, out_loading = False\<rparr>"

definition whole :: call where
  "whole = \<lparr>c_off = 0, c_max = 0, c_out = no_out\<rparr>"

text \<open>A packet from offset 1 that is asked for while the entry is still being finished.\<close>

definition packet_call :: call where
  "packet_call = \<lparr>c_off = 1, c_max = 16384, c_out = no_out\<rparr>"

definition packet_moves :: "move list" where
  "packet_moves = [Call 0 packet_call, Rd 0, Rd 0, Rd 0, Rd 0, Wk 2, Wk 2, Wk 2, Wk 2, Rd 0, Rd 0, Rd 0, Rd 0, Rd 0, Rd 0]"

lemmas run_simps =
  start_state_def worker_step_def reader_step_def sweeper_step_def begin_call_def outcome_defs create_entry_def decide_def
  copy_from_def copy_out_def copy_size_def out_of_def tick_def reader_to_def whole_def no_out_def Let_def

text \<open>A response of two bytes, up to the point where the entry is marked as finished.\<close>

definition flagged :: cstate where
  "flagged = (start_state [] True 0 10)\<lparr>slot := Some \<lparr>ekey = [47], is_loading = False, edata = [7, 8], data_live = True, data_size = 2,
     allocated_size = 4096, last_accessed = 0, waiting_clients = []\<rparr>, buf := 1, wrlocked := True, wk := F_size\<rparr>"

lemma eighteen: "replicate 18 x = [x, x, x, x, x, x, x, x, x, x, x, x, x, x, x, x, x, x]"
  by (simp add: eval_nat_numeral)

lemma flagged_run: "run_moves [47] (replicate 18 (Wk 1)) (start_state [[7, 8]] True 0 10) = Some (Inr flagged)"
  by (simp add: eighteen run_simps flagged_def)

lemma ticks: "(tick ^^ n) s = s\<lparr>clock := clock s + int n\<rparr>"
  by (induction n) (simp_all add: tick_def)

lemma reader_run: "\<exists>s. run_moves [47] [Call 0 whole, Rd 0, Rd 0, Rd 0, Rd 0, Rd 0, Wk 2, Wk 2] flagged = Some (Inr s)
    \<and> reader_step 0 s = Some (Inl UseAfterFree)"
  by (simp add: run_simps flagged_def)

lemma packet_run: "\<exists>s. run_moves [47] packet_moves flagged = Some (Inr s)
    \<and> rds s 0 = R_ret packet_call (CACHE_NEW_LOADED, \<lparr>out_data = Some [8], out_size = 1, out_loading = False\<rparr>)"
  by (simp add: run_simps flagged_def packet_moves_def packet_call_def)

lemma sweep_run: "\<exists>s. run_moves [47] [Tick 11, Sw, Sw, Sw, Sw, Sw] flagged = Some (Inr s)
    \<and> worker_step [47] 2 True s = Some (Inl UseAfterFree)"
  by (simp add: run_simps flagged_def ticks)

lemma flagged_reached: "\<exists>seen. reached [47] (start_state [[7, 8]] True 0 10) flagged seen"
  by (rule run_reached [OF reached.at_start flagged_run])

section \<open>Properties\<close>

text \<open>
  Property C3. Lookups are atomic although the worker needs no bucket mutex and a lookup reads \<open>is_loading\<close>, \<open>data_size\<close> and the
  bytes one after the other. In every interleaving of a load with any number of lookups, sweeps and passing time, a call
  of \<open>cache_lookup_partial\<close> that has returned gave the answer of the specification \<open>lookup_spec\<close> for something the entry held
  at one moment of that call: nothing, a part of the response while it was loading, or all of it.
\<close>

theorem lookups_are_atomic:
  assumes "reached key (start_state chs ends now life) s seen" "length (concat chs) \<le> 2 ^ 63" "rds s i = R_ret c r"
  shows "\<exists>v \<in> seen i. r = lookup_spec v (unat (c_off c)) (unat (c_max c)) (c_out c) \<and> part_of (concat chs) v"
proof -
  have "read_ok s seen" using reached_cinv [OF assms(1,2)] by (simp add: cinv_def)
  with assms(3) have "answers c r (seen i)" by (metis r_ok.simps(11) read_ok_def)
  with seen_part [OF assms(1,2)] show ?thesis by (auto simp: answers_def)
qed

theorem lookups_are_atomic_witness:
  "\<exists>s seen. reached [47] (start_state [[7, 8]] True 0 10) s seen
    \<and> rds s 0 = R_ret packet_call (CACHE_NEW_LOADED, \<lparr>out_data = Some [8], out_size = 1, out_loading = False\<rparr>)
    \<and> (\<exists>v \<in> seen 0. (CACHE_NEW_LOADED, \<lparr>out_data = Some [8], out_size = 1, out_loading = False\<rparr>)
         = lookup_spec v 1 16384 no_out \<and> part_of [7, 8] v)"
proof -
  obtain s where s: "run_moves [47] packet_moves flagged = Some (Inr s)"
    "rds s 0 = R_ret packet_call (CACHE_NEW_LOADED, \<lparr>out_data = Some [8], out_size = 1, out_loading = False\<rparr>)" using packet_run by blast
  obtain seen where r: "reached [47] (start_state [[7, 8]] True 0 10) s seen" using flagged_reached run_reached s(1) by blast
  from lookups_are_atomic [OF this _ s(2)] have "\<exists>v \<in> seen 0. (CACHE_NEW_LOADED, \<lparr>out_data = Some [8], out_size = 1, out_loading = False\<rparr>)
      = lookup_spec v 1 16384 no_out \<and> part_of [7, 8] v" by (simp add: packet_call_def)
  with r s(2) show ?thesis by blast
qed

lemma run_watched:
  assumes "\<exists>seen. reached key s0 s seen"
  shows "\<exists>seen used. watched key s0 s seen used"
  using assms reached_watched by blast

text \<open>
  Property C17. Where memory faults can happen, and when the entry is freed, with \<open>used\<close> the time of the latest access: of the
  creation of the entry, an append, the end of the load or a lookup that gave a packet. A lookup in packets never
  touches freed memory and never reads past the written bytes; only a lookup of a whole finished entry (\<open>max_size\<close> 0), which
  copies without the \<open>data_lock\<close>, can find that the buffer was freed. The sweeper frees the entry, and the worker and the sweeper
  fault, only when the time of life has passed since that latest access; the worker then has lost its entry. (Every
  reachable state has such a time: \<open>watched_reached\<close>, \<open>reached_watched\<close>. Lookups have memory for their copy here.)
\<close>

theorem cache_faults_are_confined:
  assumes "watched key (start_state chs ends now life) s seen used" "length (concat chs) \<le> 2 ^ 63"
  shows "(\<forall>i f. reader_step i s = Some (Inl f) \<longrightarrow> f = UseAfterFree \<and> (\<exists>c cur p. rds s i = R_found_copy c cur p \<and> c_max c = 0)
      \<and> (\<exists>e. slot s = Some e \<and> \<not> is_loading e))
    \<and> (\<forall>a ok f. worker_step key a ok s = Some (Inl f) \<longrightarrow> f = UseAfterFree \<and> slot s = None \<and> used + life < clock s)
    \<and> (\<forall>f. sweeper_step s = Some (Inl f) \<longrightarrow> f = DoubleFree \<and> used + life < clock s)
    \<and> (\<forall>s'. sweeper_step s = Some (Inr s') \<and> slot s \<noteq> None \<and> slot s' = None \<longrightarrow> used + life < clock s)"
proof -
  have l: "locks_ok s" "work_ok (concat chs) used s" "s_ok used s (sw s)" "read_ok s seen" "ttl s = life"
    using watched_cinv [OF assms] reached_cinv [OF watched_reached [OF assms(1)] assms(2)] by (auto simp: cinv_def)
  have "f = UseAfterFree \<and> (\<exists>c cur p. rds s i = R_found_copy c cur p \<and> c_max c = 0) \<and> (\<exists>e. slot s = Some e \<and> \<not> is_loading e)"
    if "reader_step i s = Some (Inl f)" for i f
    using reader_step_keeps [OF l(1,2), of "seen i" i] l(4) that by (auto simp: read_ok_def reader_keeps_def)
  moreover have "f = UseAfterFree \<and> slot s = None \<and> used + life < clock s" if "worker_step key a ok s = Some (Inl f)" for a ok f
    using worker_step_keeps [OF l(1,2) assms(2), of key a ok] l(5) that by (simp add: worker_keeps_def)
  moreover have "f = DoubleFree \<and> used + life < clock s" if "sweeper_step s = Some (Inl f)" for f
    using sweeper_step_keeps [OF l(1-3)] l(5) that by (simp add: sweeper_keeps_def)
  moreover have "used + life < clock s" if "sweeper_step s = Some (Inr s')" "slot s \<noteq> None" "slot s' = None" for s'
    using that l(3,5) by (cases "sw s") (auto simp: sweeper_step_def outcome_defs split: option.splits if_splits)
  ultimately show ?thesis by blast
qed

theorem cache_faults_are_confined_witness:
  "(\<exists>s. reader_step 0 s = Some (Inl UseAfterFree) \<and> (\<exists>c cur p. rds s 0 = R_found_copy c cur p \<and> c_max c = 0)
      \<and> (\<exists>e. slot s = Some e \<and> \<not> is_loading e))
    \<and> (\<exists>s seen used. watched [47] (start_state [[7, 8]] True 0 10) s seen used
      \<and> worker_step [47] 2 True s = Some (Inl UseAfterFree) \<and> slot s = None \<and> used + 10 < clock s)"
proof -
  obtain s where s: "run_moves [47] [Call 0 whole, Rd 0, Rd 0, Rd 0, Rd 0, Rd 0, Wk 2, Wk 2] flagged = Some (Inr s)"
    "reader_step 0 s = Some (Inl UseAfterFree)" using reader_run by blast
  obtain seen used where r: "watched [47] (start_state [[7, 8]] True 0 10) s seen used"
    using flagged_reached run_reached s(1) run_watched by blast
  obtain s1 where s1: "run_moves [47] [Tick 11, Sw, Sw, Sw, Sw, Sw] flagged = Some (Inr s1)"
    "worker_step [47] 2 True s1 = Some (Inl UseAfterFree)" using sweep_run by blast
  obtain seen1 used1 where r1: "watched [47] (start_state [[7, 8]] True 0 10) s1 seen1 used1"
    using flagged_reached run_reached s1(1) run_watched by blast
  have len: "length (concat [[7, 8 :: byte]]) \<le> 2 ^ 63" by simp
  from cache_faults_are_confined [OF r len] cache_faults_are_confined [OF r1 len] s(2) s1(2) r1 show ?thesis by blast
qed

text \<open>
  Property C19. The locks cannot block each other for ever: as long as the worker, a lookup or a sweep is under way,
  one of them has a step. (No thread waits for the bucket's mutex while it holds the \<open>data_lock\<close>.)
\<close>

theorem cache_threads_never_deadlock:
  assumes "reached key (start_state chs ends now life) s seen" "length (concat chs) \<le> 2 ^ 63" "busy t s"
  shows "\<exists>u. can_step key u s \<and> busy u s"
proof -
  have l: "locks_ok s" "work_ok (concat chs) now s" using reached_cinv [OF assms(1,2)] by (auto simp: cinv_def)
  show ?thesis
  proof (cases "bmutex s = None \<and> \<not> wrlocked s \<and> rdlocked s = {}")
    case False
    with locked_runs [OF l assms(2)] show ?thesis by blast
  next
    case True
    have "can_step key t s"
    proof (cases t)
      case Worker
      with worker_runs [OF l assms(2), of key] True assms(3) show ?thesis by (simp add: busy_def)
    next
      case (Reader i)
      with True assms(3) l(1) show ?thesis
        by (cases "rds s i") (auto simp: busy_def can_step_def reader_step_def locks_ok_def lock_bucket_def simp del: not_None_eq)
    next
      case Sweeper
      with True assms(3) l(1) show ?thesis
        by (cases "sw s") (auto simp: busy_def can_step_def sweeper_step_def locks_ok_def lock_bucket_def simp del: not_None_eq)
    qed
    with assms(3) show ?thesis by blast
  qed
qed

theorem cache_threads_never_deadlock_witness:
  "busy Worker flagged \<and> (\<exists>u. can_step [47] u flagged \<and> busy u flagged)"
proof -
  obtain seen where r: "reached [47] (start_state [[7, 8]] True 0 10) flagged seen" using flagged_reached by blast
  have "busy Worker flagged" by (simp add: busy_def flagged_def image_iff)
  with cache_threads_never_deadlock [OF r _ this] show ?thesis by simp
qed

text \<open>
  Property C34. Both faults happen. \<open>cache_finish_loading\<close> stores \<open>is_loading = false\<close> before it shrinks the buffer: a
  \<open>cache_lookup\<close> in between reads the old pointer and copies from the block that \<open>realloc\<close> has freed. And the sweep frees an
  entry as soon as the flag is stored, although the worker still uses it, when the entry's time of life is over by then.
\<close>

theorem cache_races_happen:
  "(\<exists>s seen. reached [47] (start_state [[7, 8]] True 0 10) s seen \<and> reader_step 0 s = Some (Inl UseAfterFree)) \<and>
   (\<exists>s seen. reached [47] (start_state [[7, 8]] True 0 10) s seen \<and> worker_step [47] 2 True s = Some (Inl UseAfterFree))"
  using flagged_reached reader_run sweep_run run_reached by blast

end
