(* ===== verification/Http.thy ===== *)
theory Http
  imports Cache
begin

text \<open>
  \<open>proxy/src/net/http.c\<close>: the wrappers around picohttpparser, and the C string functions the proxy
  uses on requests. The parser is an argument of the wrappers; what it writes through its output
  pointers is its second result. A pointer and a length are the bytes they delimit.
\<close>

section \<open>Strings\<close>

text \<open>The bytes of a C string: everything up to the first NUL.\<close>

definition cstr :: "byte list \<Rightarrow> cstring" where
  "cstr bs = takeWhile (\<lambda>b. b \<noteq> 0) bs"

text \<open>\<open>strncpy(dst, src, n)\<close>: the string in \<open>src\<close>, cut or padded with NULs to \<open>n\<close> bytes.\<close>

definition strncpy :: "byte list \<Rightarrow> nat \<Rightarrow> byte list" where
  "strncpy src n = (let s = take n (cstr src) in s @ replicate (n - length s) 0)"

text \<open>\<open>strncmp(s, name, n) == 0\<close> for a string literal \<open>s\<close> and \<open>n\<close> bytes \<open>name\<close> without NUL.\<close>

definition strncmp_eq :: "cstring \<Rightarrow> byte list \<Rightarrow> bool" where
  "strncmp_eq s name = (take (length name) (s @ [0]) = name)"

lemma length_strncpy [simp]: "length (strncpy src n) = n"
  by (simp add: strncpy_def Let_def min_def)

lemma cstr_id: "0 \<notin> set bs \<Longrightarrow> cstr bs = bs"
  unfolding cstr_def by (rule takeWhile_eq_all_conv [THEN iffD2]) auto

lemma cstr_no_NUL: "0 \<notin> set (cstr bs)"
  unfolding cstr_def by (auto dest: set_takeWhileD)

lemma cstr_append_NUL: "0 \<notin> set bs \<Longrightarrow> cstr (bs @ 0 # cs) = bs"
  unfolding cstr_def by (subst takeWhile_append2) auto

lemma cstr_padded: "0 \<notin> set bs \<Longrightarrow> cstr (bs @ replicate n 0) = bs"
  by (cases n) (simp_all add: cstr_id cstr_append_NUL)

lemma cstr_strncpy: "cstr (strncpy src n) = take n (cstr src)"
proof -
  have "0 \<notin> set (take n (cstr src))" using cstr_no_NUL [of src] by (auto dest: in_set_takeD)
  then show ?thesis by (simp add: strncpy_def Let_def cstr_padded)
qed

lemma strncpy_id: "0 \<notin> set bs \<Longrightarrow> strncpy bs (length bs) = bs"
  by (simp add: strncpy_def cstr_id)

text \<open>A header name matches when it is a prefix of the literal, not only when it is equal to it.\<close>

lemma strncmp_eq_prefix: "0 \<notin> set name \<Longrightarrow> strncmp_eq s name \<longleftrightarrow> (\<exists>rest. s = name @ rest)"
proof
  assume n: "0 \<notin> set name" and "strncmp_eq s name"
  then have eq: "take (length name) (s @ [0]) = name" by (simp add: strncmp_eq_def)
  have "length name \<le> length s"
  proof (rule ccontr)
    assume "\<not> length name \<le> length s"
    then have "take (length name) (s @ [0]) = s @ [0]" by simp
    with eq have "name = s @ [0]" by simp
    with n show False by simp
  qed
  with eq have "s = name @ drop (length name) s" by (metis append_take_drop_id take_append diff_is_0_eq take0 append_Nil2)
  then show "\<exists>rest. s = name @ rest" by blast
next
  assume "\<exists>rest. s = name @ rest"
  then show "strncmp_eq s name" by (auto simp: strncmp_eq_def)
qed

section \<open>Requests and responses\<close>

record phr_header =
  hname :: "byte list"
  hvalue :: "byte list"

record http_req_t =
  rmethod :: "byte list"
  rpath :: "byte list"
  req_minor_version :: int
  req_headers :: "phr_header list"

record http_resp_t =
  resp_minor_version :: int
  resp_status :: int
  resp_msg :: "byte list"
  resp_headers :: "phr_header list"

text \<open>
  The parsers: the buffer, its size and the room for headers give the number of bytes used (-1: not
  a request, -2: incomplete) and the fields. \<open>malloc_ok\<close>: whether the copy could be allocated;
  the code writes into it without a check.
\<close>

definition MAX_HEADER_NUM :: nat where
  "MAX_HEADER_NUM = 100"

definition parse_http_req ::
  "(byte list \<Rightarrow> nat \<Rightarrow> nat \<Rightarrow> int \<times> http_req_t) \<Rightarrow> byte list \<Rightarrow> nat \<Rightarrow> bool \<Rightarrow> (int \<times> http_req_t) res" where
  "parse_http_req phr_parse_request bytes sz malloc_ok =
     (if \<not> malloc_ok then Inl NullDeref
      else let http_string = strncpy bytes sz @ [0];
               (bytes_used, req) = phr_parse_request http_string sz MAX_HEADER_NUM
           in Inr (if bytes_used \<le> 0 then -1 else 0, req))"

text \<open>\<open>bytes[size] = '\0'\<close> needs one byte more than the response.\<close>

definition parse_http_resp ::
  "(byte list \<Rightarrow> nat \<Rightarrow> nat \<Rightarrow> int \<times> http_resp_t) \<Rightarrow> byte list \<Rightarrow> nat \<Rightarrow> (int \<times> http_resp_t) res" where
  "parse_http_resp phr_parse_response bytes sz =
     (if sz \<ge> length bytes then Inl OutOfBounds
      else let (bytes_used, resp) = phr_parse_response (bytes[sz := 0]) sz MAX_HEADER_NUM
           in Inr (if bytes_used \<le> 0 then -1 else 0, resp))"

text \<open>The parser sees the request itself when it holds no NUL byte.\<close>

lemma parse_http_req_bytes:
  assumes "0 \<notin> set bytes" "phr (bytes @ [0]) (length bytes) MAX_HEADER_NUM = (n, req)"
  shows "parse_http_req phr bytes (length bytes) True = Inr (if n \<le> 0 then -1 else 0, req)"
  using assms by (simp add: parse_http_req_def Let_def strncpy_id)

end
