(* ===== verification/Background_Worker.thy ===== *)
theory Background_Worker
  imports Http Cache_Store
begin

text \<open>
  \<open>proxy/src/domain/background_worker.c\<close>: the task that loads one response into the cache. libcurl
  is an argument: a function that runs a transfer by calling the write callback and gives the result
  code. \<open>perform\<close> says what its documentation promises: the callback gets the pieces of the
  response in order, and the transfer ends with \<open>CURLE_WRITE_ERROR\<close> as soon as a call returns
  another number than the size of its piece. Between two calls other threads use the cache and may
  ask the task to stop; that is the function \<open>others\<close>.
\<close>

section \<open>Data\<close>

record task_t =
  raw_req :: "byte list"
  task_req :: http_req_t
  task_entry :: ptr
  task_key :: cstring
  should_stop :: bool
  task_result :: int
  destroy_count :: int

text \<open>What the worker changes: the cache, its task, and the clients it woke.\<close>

record worker =
  wcache :: cache_t
  wtask :: task_t
  wwoken :: "handle list"

text \<open>The fields \<open>entry\<close> and \<open>total_size\<close> of \<open>curl_context_t\<close>; the task is the worker's.\<close>

record curl_context_t =
  ctx_entry :: ptr
  ctx_total_size :: usize

type_synonym curl_state = "worker \<times> curl_context_t"

definition CURLE_OK :: int where "CURLE_OK = 0"

definition CURLE_WRITE_ERROR :: int where "CURLE_WRITE_ERROR = 23"

section \<open>Operations\<close>

definition write_callback ::
  "int \<Rightarrow> bool \<Rightarrow> (handle \<Rightarrow> bool) \<Rightarrow> curl_state \<Rightarrow> byte list \<Rightarrow> (usize \<times> curl_state) res option" where
  "write_callback now realloc_ok closing s chunk = (case s of (wk, ctx) \<Rightarrow>
     if should_stop (wtask wk) then Some (Inr (0, s))
     else case ctx_entry ctx of
       None \<Rightarrow> Some (Inr (0, s))
     | Some a \<Rightarrow> (case deref (entries (wcache wk)) (Some a) of
         Inl f \<Rightarrow> Some (Inl f)
       | Inr e \<Rightarrow>
           if \<not> is_loading e then Some (Inr (0, s))
           else (case cache_append_data (wcache wk) (Some a) chunk now realloc_ok closing of
               None \<Rightarrow> None
             | Some (Inl f) \<Rightarrow> Some (Inl f)
             | Some (Inr (r, c', woken)) \<Rightarrow>
                 let wk = wk\<lparr>wcache := c', wwoken := wwoken wk @ woken\<rparr>;
                     total_size = of_nat (length chunk) in
                 if r \<noteq> 0 then Some (Inr (0, (wk, ctx)))
                 else Some (Inr (total_size,
                        (wk, ctx\<lparr>ctx_total_size := ctx_total_size ctx + total_size\<rparr>))))))"

text \<open>
  The environment of one run: the allocator, whether \<open>curl_easy_init\<close> succeeds, the transfer, the
  HTTP status it reports, the time, whether \<open>realloc\<close> succeeds and which handles are closing.
\<close>

record load_env =
  le_alloc :: "cache_t \<Rightarrow> create_env"
  le_curl_init :: bool
  le_transfer :: "(curl_state \<Rightarrow> byte list \<Rightarrow> (usize \<times> curl_state) res option) \<Rightarrow> curl_state \<Rightarrow> (int \<times> curl_state) res option"
  le_http_code :: int
  le_now :: int
  le_realloc :: bool
  le_closing :: "handle \<Rightarrow> bool"

text \<open>\<open>cache_cancel_loading(task->backend->cache, path)\<close> with its result ignored.\<close>

definition cancel_path :: "cstring \<Rightarrow> worker \<Rightarrow> worker res" where
  "cancel_path path wk = rbind (cache_cancel_loading (wcache wk) path) (\<lambda>(_, c). Inr (wk\<lparr>wcache := c\<rparr>))"

definition set_result :: "int \<Rightarrow> worker \<Rightarrow> worker" where
  "set_result r wk = wk\<lparr>wtask := (wtask wk)\<lparr>task_result := r\<rparr>\<rparr>"

definition load_http_resp :: "load_env \<Rightarrow> worker \<Rightarrow> worker res option" where
  "load_http_resp env wk =
     (let task = wtask wk; path_len = length (rpath (task_req task)) in
      if path_len \<ge> 1024 then Some (Inl OutOfBounds)
      else let path = cstr (strncpy (rpath (task_req task)) path_len @ [0]) in
      case cache_start_loading (wcache wk) (task_key task) (le_now env) (le_alloc env (wcache wk)) of
        Inl f \<Rightarrow> Some (Inl f)
      | Inr (None, c) \<Rightarrow> Some (Inr (set_result (-1) (wk\<lparr>wcache := c\<rparr>)))
      | Inr (Some a, c) \<Rightarrow>
          let wk = wk\<lparr>wcache := c, wtask := task\<lparr>task_entry := Some a\<rparr>\<rparr> in
          if \<not> le_curl_init env then Some (rbind (cancel_path path wk) (\<lambda>wk. Inr (set_result (-1) wk)))
          else (case le_transfer env (write_callback (le_now env) (le_realloc env) (le_closing env))
                  (wk, \<lparr>ctx_entry = Some a, ctx_total_size = 0\<rparr>) of
              None \<Rightarrow> None
            | Some (Inl f) \<Rightarrow> Some (Inl f)
            | Some (Inr (code, (wk, ctx))) \<Rightarrow>
                if code \<noteq> CURLE_OK then Some (rbind (cancel_path path wk) (\<lambda>wk. Inr (set_result (-1) wk)))
                else if le_http_code env = 200 then
                  Some (rbind (cache_finish_loading (wcache wk) (ctx_entry ctx) (le_now env) (le_realloc env) (le_closing env))
                    (\<lambda>(_, c, woken). Inr (set_result 0 (wk\<lparr>wcache := c, wwoken := wwoken wk @ woken\<rparr>))))
                else Some (rbind (cancel_path path wk) (\<lambda>wk. Inr (set_result (-1) wk)))))"

text \<open>\<open>None\<close>: the task is freed.\<close>

definition free_task :: "task_t \<Rightarrow> task_t option" where
  "free_task task = (if destroy_count task = 0 then Some (task\<lparr>destroy_count := destroy_count task + 1\<rparr>) else None)"

definition after_load_http_resp_cb :: "worker \<Rightarrow> worker \<times> bool" where
  "after_load_http_resp_cb wk = (case free_task (wtask wk) of
     None \<Rightarrow> (wk, True) | Some task \<Rightarrow> (wk\<lparr>wtask := task\<rparr>, False))"

text \<open>\<open>uv_queue_work\<close> answers with an error number; 0 means that the task is queued.\<close>

definition launch_bgw :: "int \<Rightarrow> task_t list \<Rightarrow> task_t \<Rightarrow> int \<times> task_t list" where
  "launch_bgw err queued task = (if err \<noteq> 0 then (err, queued) else (0, queued @ [task]))"

definition cancel_bgw :: "task_t \<Rightarrow> int \<times> task_t" where
  "cancel_bgw task = (0, task\<lparr>should_stop := True\<rparr>)"

section \<open>Transfers\<close>

text \<open>
  What libcurl documents of a transfer that delivers the pieces \<open>chunks\<close> and would end with \<open>code\<close>.
\<close>

fun perform :: "(curl_state \<Rightarrow> curl_state) \<Rightarrow> byte list list \<Rightarrow> int
    \<Rightarrow> (curl_state \<Rightarrow> byte list \<Rightarrow> (usize \<times> curl_state) res option) \<Rightarrow> curl_state \<Rightarrow> (int \<times> curl_state) res option" where
  "perform others [] code cb s = Some (Inr (code, others s))"
| "perform others (ch # chs) code cb s = (case cb (others s) ch of
     None \<Rightarrow> None
   | Some (Inl f) \<Rightarrow> Some (Inl f)
   | Some (Inr (n, s')) \<Rightarrow> if n \<noteq> of_nat (length ch) then Some (Inr (CURLE_WRITE_ERROR, s')) else perform others chs code cb s')"

text \<open>
  What the other threads may do while a load of \<open>key\<close> into the entry \<open>a\<close> runs: use the cache in any
  way that keeps it well formed and leaves that entry alone, and not stop the task.
\<close>

definition harmless :: "cstring \<Rightarrow> addr \<Rightarrow> (curl_state \<Rightarrow> curl_state) \<Rightarrow> bool" where
  "harmless key a others \<longleftrightarrow> (\<forall>wk ctx. cache_inv (wcache wk) \<longrightarrow> entry_at (wcache wk) key = Some a \<longrightarrow>
     (\<exists>c. others (wk, ctx) = (wk\<lparr>wcache := c\<rparr>, ctx) \<and> cache_inv c \<and> entry_at c key = Some a
        \<and> contents c key = contents (wcache wk) key))"

lemma harmlessE:
  assumes "harmless key a others" "cache_inv (wcache wk)" "entry_at (wcache wk) key = Some a"
  obtains c where "others (wk, ctx) = (wk\<lparr>wcache := c\<rparr>, ctx)" "cache_inv c" "entry_at c key = Some a"
    "contents c key = contents (wcache wk) key"
  using assms unfolding harmless_def by blast

lemma write_callback_ok:
  assumes "\<not> should_stop (wtask wk)" "cache_inv (wcache wk)" "entry_at (wcache wk) key = Some a" "ctx_entry ctx = Some a"
    and "contents (wcache wk) key = Some (True, d)" "length d + length ch \<le> 2 ^ 63"
  shows "\<exists>wk' ctx'. write_callback now True closing (wk, ctx) ch = Some (Inr (of_nat (length ch), (wk', ctx')))
    \<and> wtask wk' = wtask wk \<and> ctx_entry ctx' = Some a \<and> cache_inv (wcache wk') \<and> entry_at (wcache wk') key = Some a
    \<and> contents (wcache wk') key = Some (True, d @ ch)"
proof -
  obtain e where e: "entries (wcache wk) a = Some e" "is_loading e"
    using assms(2,3,5) by (auto simp: contents_Some)
  obtain c' where c': "cache_append_data (wcache wk) (Some a) ch now True closing
      = Some (Inr (0, c', filter (\<lambda>w. \<not> closing w) (waiters (wcache wk) key)))" "cache_inv c'"
      "entry_at c' = entry_at (wcache wk)" "contents c' = (contents (wcache wk))(key \<mapsto> (True, d @ ch))"
    using append_wakes [OF assms(2,3,5,6)] by blast
  then show ?thesis using assms e by (simp add: write_callback_def Let_def)
qed

lemma perform_ok:
  assumes "\<not> should_stop (wtask wk)" "cache_inv (wcache wk)" "entry_at (wcache wk) key = Some a" "ctx_entry ctx = Some a"
    and "contents (wcache wk) key = Some (True, d)" "length d + length (concat chs) \<le> 2 ^ 63"
    and "harmless key a others"
  shows "\<exists>wk' ctx'. perform others chs code (write_callback now True closing) (wk, ctx) = Some (Inr (code, (wk', ctx')))
    \<and> wtask wk' = wtask wk \<and> ctx_entry ctx' = Some a \<and> cache_inv (wcache wk') \<and> entry_at (wcache wk') key = Some a
    \<and> contents (wcache wk') key = Some (True, d @ concat chs)"
  using assms(1-6)
proof (induction chs arbitrary: wk ctx d)
  case Nil
  then show ?case by (auto elim: harmlessE [OF assms(7), of wk ctx])
next
  case (Cons ch chs)
  obtain c where c: "others (wk, ctx) = (wk\<lparr>wcache := c\<rparr>, ctx)" "cache_inv c" "entry_at c key = Some a"
      "contents c key = contents (wcache wk) key" by (rule harmlessE [OF assms(7) Cons.prems(2,3)])
  have "length d + length ch \<le> 2 ^ 63" using Cons.prems(6) by simp
  with write_callback_ok [of "wk\<lparr>wcache := c\<rparr>" key a ctx d ch now closing] Cons.prems c obtain wk1 ctx1 where
    s1: "write_callback now True closing (wk\<lparr>wcache := c\<rparr>, ctx) ch = Some (Inr (of_nat (length ch), (wk1, ctx1)))"
      "wtask wk1 = wtask wk" "ctx_entry ctx1 = Some a" "cache_inv (wcache wk1)" "entry_at (wcache wk1) key = Some a"
      "contents (wcache wk1) key = Some (True, d @ ch)" by auto
  from Cons.IH [of wk1 ctx1 "d @ ch"] s1 Cons.prems(1,6) c(1) show ?case by simp
qed

section \<open>A load\<close>

definition path_of :: "task_t \<Rightarrow> cstring" where
  "path_of task = cstr (strncpy (rpath (task_req task)) (length (rpath (task_req task))) @ [0])"

text \<open>
  The situation the properties speak of: a task whose key has no entry, whose path fits the buffer,
  and which nobody stops; memory is available, and libcurl delivers \<open>chs\<close> and then \<open>code\<close>.
\<close>

definition fresh_load :: "(curl_state \<Rightarrow> curl_state) \<Rightarrow> byte list list \<Rightarrow> int \<Rightarrow> load_env \<Rightarrow> worker \<Rightarrow> bool" where
  "fresh_load others chs code env wk \<longleftrightarrow>
     cache_inv (wcache wk) \<and> contents (wcache wk) (task_key (wtask wk)) = None \<and> \<not> should_stop (wtask wk)
     \<and> length (rpath (task_req (wtask wk))) < 1024 \<and> length (concat chs) \<le> 2 ^ 63
     \<and> env_ok (wcache wk) (le_alloc env (wcache wk)) \<and> le_curl_init env \<and> le_realloc env
     \<and> le_transfer env = perform others chs code \<and> (\<forall>a. harmless (task_key (wtask wk)) a others)"

lemma transfer_run:
  assumes "fresh_load others chs code env wk"
  shows "\<exists>a c wk' ctx'. cache_start_loading (wcache wk) (task_key (wtask wk)) (le_now env) (le_alloc env (wcache wk)) = Inr (Some a, c)
    \<and> le_transfer env (write_callback (le_now env) (le_realloc env) (le_closing env))
        (wk\<lparr>wcache := c, wtask := (wtask wk)\<lparr>task_entry := Some a\<rparr>\<rparr>, \<lparr>ctx_entry = Some a, ctx_total_size = 0\<rparr>)
        = Some (Inr (code, (wk', ctx')))
    \<and> wtask wk' = (wtask wk)\<lparr>task_entry := Some a\<rparr> \<and> ctx_entry ctx' = Some a \<and> cache_inv (wcache wk')
    \<and> entry_at (wcache wk') (task_key (wtask wk)) = Some a
    \<and> contents (wcache wk') (task_key (wtask wk)) = Some (True, concat chs)"
proof -
  let ?key = "task_key (wtask wk)"
  have f: "cache_inv (wcache wk)" "entry_at (wcache wk) ?key = None" "env_ok (wcache wk) (le_alloc env (wcache wk))"
    using assms by (auto simp: fresh_load_def contents_None)
  from start_hands_over [OF f, of "le_now env"] obtain a c where
    c: "cache_start_loading (wcache wk) ?key (le_now env) (le_alloc env (wcache wk)) = Inr (Some a, c)" "cache_inv c"
      "entry_at c ?key = Some a" "contents c = (contents (wcache wk))(?key \<mapsto> (True, []))" by blast
  let ?wk = "wk\<lparr>wcache := c, wtask := (wtask wk)\<lparr>task_entry := Some a\<rparr>\<rparr>"
  have "\<exists>wk' ctx'. perform others chs code (write_callback (le_now env) True (le_closing env))
      (?wk, \<lparr>ctx_entry = Some a, ctx_total_size = 0\<rparr>) = Some (Inr (code, (wk', ctx')))
    \<and> wtask wk' = wtask ?wk \<and> ctx_entry ctx' = Some a \<and> cache_inv (wcache wk') \<and> entry_at (wcache wk') ?key = Some a
    \<and> contents (wcache wk') ?key = Some (True, [] @ concat chs)"
    using assms c by (intro perform_ok) (auto simp: fresh_load_def)
  then show ?thesis using c(1) assms by (auto simp: fresh_load_def)
qed

lemma cancel_path_run:
  assumes "cache_inv (wcache wk)"
  shows "\<exists>wk'. cancel_path path wk = Inr wk' \<and> wtask wk' = wtask wk \<and> cache_inv (wcache wk')
    \<and> (\<forall>k. k \<noteq> path \<longrightarrow> contents (wcache wk') k = contents (wcache wk) k)
    \<and> (contents (wcache wk) path = Some (True, d) \<longrightarrow> contents (wcache wk') path = None)"
  using cancel_correct [OF assms, of path] assms
  by (auto simp: cancel_path_def split: option.splits prod.splits bool.splits)

lemma load_ok:
  assumes "fresh_load others chs CURLE_OK env wk" "le_http_code env = 200"
  shows "\<exists>wk'. load_http_resp env wk = Some (Inr wk') \<and> task_result (wtask wk') = 0 \<and> cache_inv (wcache wk')
    \<and> contents (wcache wk') (task_key (wtask wk)) = Some (False, concat chs)"
proof -
  from transfer_run [OF assms(1)] obtain a c wk1 ctx1 where
    t: "cache_start_loading (wcache wk) (task_key (wtask wk)) (le_now env) (le_alloc env (wcache wk)) = Inr (Some a, c)"
      "le_transfer env (write_callback (le_now env) (le_realloc env) (le_closing env))
        (wk\<lparr>wcache := c, wtask := (wtask wk)\<lparr>task_entry := Some a\<rparr>\<rparr>, \<lparr>ctx_entry = Some a, ctx_total_size = 0\<rparr>)
        = Some (Inr (CURLE_OK, (wk1, ctx1)))"
      "ctx_entry ctx1 = Some a" "cache_inv (wcache wk1)" "entry_at (wcache wk1) (task_key (wtask wk)) = Some a"
      "contents (wcache wk1) (task_key (wtask wk)) = Some (True, concat chs)" by blast
  from finish_wakes [OF t(4-6), of "le_now env" "le_realloc env" "le_closing env"] obtain c' where
    "cache_finish_loading (wcache wk1) (Some a) (le_now env) (le_realloc env) (le_closing env)
       = Inr (0, c', filter (\<lambda>w. \<not> le_closing env w) (waiters (wcache wk1) (task_key (wtask wk))))"
    "cache_inv c'" "contents c' (task_key (wtask wk)) = Some (False, concat chs)" by auto
  with t assms show ?thesis
    by (simp add: load_http_resp_def Let_def fresh_load_def set_result_def)
qed

text \<open>
  Property C23. Loading a response succeeds: whatever pieces libcurl delivers, and whatever the
  other threads do to the rest of the cache meanwhile, the task ends without a fault, its result is
  0, and the cache then holds the complete response, in order, as finished.
\<close>

theorem load_stores_response:
  assumes "fresh_load others chs CURLE_OK env wk" "le_http_code env = 200"
  shows "\<exists>wk'. load_http_resp env wk = Some (Inr wk') \<and> task_result (wtask wk') = 0 \<and> cache_inv (wcache wk')
    \<and> contents (wcache wk') (task_key (wtask wk)) = Some (False, concat chs)"
  by (rule load_ok [OF assms])

text \<open>
  Property C36. A load that fails, or whose response is not "200", gives the result -1 and cancels the entry
  of the request's path. When the key of the task is that path the entry is gone; when it is not (the
  backend appends the Referer header to it) the entry stays in the cache as loading for ever.
\<close>

theorem failed_load_cancels_path:
  assumes "fresh_load others chs code env wk" "code \<noteq> CURLE_OK \<or> le_http_code env \<noteq> 200"
  shows "\<exists>wk'. load_http_resp env wk = Some (Inr wk') \<and> task_result (wtask wk') = -1 \<and> cache_inv (wcache wk')
    \<and> contents (wcache wk') (task_key (wtask wk))
       = (if task_key (wtask wk) = path_of (wtask wk) then None else Some (True, concat chs))"
proof -
  from transfer_run [OF assms(1)] obtain a c wk1 ctx1 where
    t: "cache_start_loading (wcache wk) (task_key (wtask wk)) (le_now env) (le_alloc env (wcache wk)) = Inr (Some a, c)"
      "le_transfer env (write_callback (le_now env) (le_realloc env) (le_closing env))
        (wk\<lparr>wcache := c, wtask := (wtask wk)\<lparr>task_entry := Some a\<rparr>\<rparr>, \<lparr>ctx_entry = Some a, ctx_total_size = 0\<rparr>)
        = Some (Inr (code, (wk1, ctx1)))"
      "cache_inv (wcache wk1)" "contents (wcache wk1) (task_key (wtask wk)) = Some (True, concat chs)" by blast
  from cancel_path_run [OF t(3), of "path_of (wtask wk)" "concat chs"] obtain wk2 where
    c2: "cancel_path (path_of (wtask wk)) wk1 = Inr wk2" "cache_inv (wcache wk2)"
      "\<And>k. k \<noteq> path_of (wtask wk) \<Longrightarrow> contents (wcache wk2) k = contents (wcache wk1) k"
      "contents (wcache wk1) (path_of (wtask wk)) = Some (True, concat chs) \<Longrightarrow> contents (wcache wk2) (path_of (wtask wk)) = None"
    by blast
  have run: "load_http_resp env wk = Some (Inr (set_result (-1) wk2))"
    using t(1,2) assms c2(1) by (auto simp: load_http_resp_def Let_def fresh_load_def path_of_def)
  have "contents (wcache wk2) (task_key (wtask wk))
      = (if task_key (wtask wk) = path_of (wtask wk) then None else Some (True, concat chs))"
    using c2(3,4) t(4) by metis
  with run c2(2) show ?thesis by (simp add: set_result_def)
qed

section \<open>Examples\<close>

definition demo_task :: "cstring \<Rightarrow> task_t" where
  "demo_task key = \<lparr>raw_req = [], task_req = \<lparr>rmethod = [71], rpath = [47], req_minor_version = 1, req_headers = []\<rparr>,
     task_entry = None, task_key = key, should_stop = False, task_result = 0, destroy_count = 0\<rparr>"

definition demo_env :: "byte list list \<Rightarrow> int \<Rightarrow> int \<Rightarrow> load_env" where
  "demo_env chs code http = \<lparr>le_alloc = plenty, le_curl_init = True, le_transfer = perform (\<lambda>s. s) chs code, le_http_code = http,
     le_now = 3, le_realloc = True, le_closing = (\<lambda>_. False)\<rparr>"

definition demo_worker :: "cache_t \<Rightarrow> cstring \<Rightarrow> worker" where
  "demo_worker c key = \<lparr>wcache = c, wtask = demo_task key, wwoken = []\<rparr>"

lemma demo_fresh_in:
  assumes "length (concat chs) \<le> 2 ^ 63" "cache_inv c" "contents c key = None"
  shows "fresh_load (\<lambda>s. s) chs code (demo_env chs code http) (demo_worker c key)"
proof -
  have "harmless k a (\<lambda>s. s)" for k a
    unfolding harmless_def by (metis (no_types, lifting) worker.surjective worker.update_convs(1))
  with assms env_ok_plenty show ?thesis
    by (simp add: fresh_load_def demo_env_def demo_worker_def demo_task_def)
qed

lemma one_bucket_cache_ok: "cache_inv one_bucket_cache" "contents one_bucket_cache = Map.empty"
proof -
  obtain c where c: "cache_init 0 0 1 100 True (\<lambda>_. True) = (0, Some c)" "cache_inv c" "contents c = Map.empty"
    using cache_init_inv [of 0 0 1 100 "fst (cache_init 0 0 1 100 True (\<lambda>_. True))" "snd (cache_init 0 0 1 100 True (\<lambda>_. True))"]
    by (auto simp: prod_eq_iff)
  then show "cache_inv one_bucket_cache" "contents one_bucket_cache = Map.empty" by (simp_all add: one_bucket_cache_def)
qed

lemma demo_fresh:
  "length (concat chs) \<le> 2 ^ 63 \<Longrightarrow>
   fresh_load (\<lambda>s. s) chs code (demo_env chs code http) (demo_worker one_bucket_cache key)"
  using one_bucket_cache_ok by (intro demo_fresh_in) simp_all

theorem load_stores_response_witness:
  "\<exists>wk'. load_http_resp (demo_env [[1, 2], [3]] CURLE_OK 200) (demo_worker one_bucket_cache [47]) = Some (Inr wk')
     \<and> contents (wcache wk') [47] = Some (False, [1, 2, 3])"
  using load_stores_response [OF demo_fresh [of "[[1, 2], [3]]" CURLE_OK 200 "[47]"]]
  by (auto simp: demo_env_def demo_worker_def demo_task_def)

theorem failed_load_cancels_path_witness:
  "\<exists>wk'. load_http_resp (demo_env [[1, 2]] CURLE_OK 404) (demo_worker one_bucket_cache [47, 82]) = Some (Inr wk')
     \<and> contents (wcache wk') [47, 82] = Some (True, [1, 2])"
  using failed_load_cancels_path [OF demo_fresh [of "[[1, 2]]" CURLE_OK 404 "[47, 82]"]]
  by (auto simp: demo_env_def demo_worker_def demo_task_def path_of_def strncpy_def cstr_def)

section \<open>Two loads of one key\<close>

text \<open>
  Two tasks for the same key whose transfers run at the same time: the pieces arrive in the order of the list, each at the
  task its mark names. Every call of the write callback has to accept its piece.
\<close>

fun deliver_pieces :: "int \<Rightarrow> (bool \<Rightarrow> task_t) \<Rightarrow> ptr \<Rightarrow> (bool \<times> byte list) list \<Rightarrow> cache_t \<Rightarrow> cache_t option" where
  "deliver_pieces now tasks p [] c = Some c"
| "deliver_pieces now tasks p ((w, ch) # zs) c =
     (case write_callback now True (\<lambda>_. False) (\<lparr>wcache = c, wtask = tasks w, wwoken = []\<rparr>, \<lparr>ctx_entry = p, ctx_total_size = 0\<rparr>) ch of
        Some (Inr (n, (wk, ctx))) \<Rightarrow> if n = of_nat (length ch) then deliver_pieces now tasks p zs (wcache wk) else None
      | _ \<Rightarrow> None)"

lemma deliver_pieces_all:
  assumes "cache_inv c" "entry_at c key = Some a" "contents c key = Some (True, d)" "\<And>w. \<not> should_stop (tasks w)"
    and "length d + length (concat (map snd zs)) \<le> 2 ^ 63"
  shows "\<exists>c'. deliver_pieces now tasks (Some a) zs c = Some c' \<and> cache_inv c' \<and> entry_at c' key = Some a
    \<and> contents c' key = Some (True, d @ concat (map snd zs))"
  using assms(1-3,5)
proof (induction zs arbitrary: c d)
  case (Cons z zs)
  obtain w ch where z: "z = (w, ch)" by (cases z)
  let ?wk = "\<lparr>wcache = c, wtask = tasks w, wwoken = []\<rparr>"
  from write_callback_ok [of ?wk key a "\<lparr>ctx_entry = Some a, ctx_total_size = 0\<rparr>" d ch now "\<lambda>_. False"] Cons.prems z assms(4)
  obtain wk ctx where wk: "write_callback now True (\<lambda>_. False) (?wk, \<lparr>ctx_entry = Some a, ctx_total_size = 0\<rparr>) ch
      = Some (Inr (of_nat (length ch), (wk, ctx)))" "cache_inv (wcache wk)" "entry_at (wcache wk) key = Some a"
    "contents (wcache wk) key = Some (True, d @ ch)" by auto
  from Cons.IH [OF wk(2-4)] Cons.prems(4) z wk(1) show ?case by simp
qed simp

text \<open>
  Property C37. Two requests that both find no entry for their key (\<open>CACHE_NOT_FOUND\<close>) launch two tasks. The second
  \<open>cache_start_loading\<close> gives the entry the first one is filling, both append to it, and nothing is refused: the finished
  entry holds the pieces of both responses in the order they arrived, so each response twice over, and only the \<open>-1\<close> of the second
  \<open>cache_finish_loading\<close>, which the worker ignores, tells of it.
\<close>

theorem two_loads_mix:
  assumes "cache_inv c" "contents c key = None" "env_ok c env" "\<And>w. \<not> should_stop (tasks w)"
    and "length (concat (map snd zs)) \<le> 2 ^ 63"
  shows "\<exists>a c1 c2 c3 woken. cache_start_loading c key now env = Inr (Some a, c1)
    \<and> cache_start_loading c1 key now env' = Inr (Some a, c1)
    \<and> deliver_pieces now tasks (Some a) zs c1 = Some c2
    \<and> cache_finish_loading c2 (Some a) now True closing = Inr (0, c3, woken)
    \<and> cache_finish_loading c3 (Some a) now True closing = Inr (-1, c3, [])
    \<and> contents c3 key = Some (False, concat (map snd zs))"
proof -
  have "entry_at c key = None" using assms(2) by (simp add: contents_None)
  from start_hands_over [OF assms(1) this assms(3)] obtain a c1 where
    c1: "cache_start_loading c key now env = Inr (Some a, c1)" "cache_inv c1" "entry_at c1 key = Some a"
      "contents c1 = (contents c)(key \<mapsto> (True, []))" by blast
  have "cache_start_loading c1 key now env' = Inr (Some a, c1)" by (rule start_loading_present [OF c1(2,3)])
  moreover obtain c2 where c2: "deliver_pieces now tasks (Some a) zs c1 = Some c2" "cache_inv c2" "entry_at c2 key = Some a"
    "contents c2 key = Some (True, concat (map snd zs))"
    using deliver_pieces_all [OF c1(2,3), of "[]" tasks zs now] c1(4) assms(4,5) by auto
  moreover obtain c3 woken where c3: "cache_finish_loading c2 (Some a) now True closing = Inr (0, c3, woken)" "cache_inv c3"
    "entry_at c3 = entry_at c2" "contents c3 = (contents c2)(key \<mapsto> (False, concat (map snd zs)))"
    using finish_wakes [OF c2(2-4), of now True closing] by blast
  moreover have "cache_finish_loading c3 (Some a) now True closing = Inr (-1, c3, [])"
    using c2(3) c3(3,4) by (intro append_refused(2) [OF c3(2), of key a "concat (map snd zs)"]) simp_all
  ultimately show ?thesis using c1(1) by auto
qed

theorem two_loads_mix_witness:
  "\<exists>a c1 c2 c3 woken. cache_start_loading one_bucket_cache [47] 3 (env_at 1) = Inr (Some a, c1)
    \<and> cache_start_loading c1 [47] 3 (env_at 2) = Inr (Some a, c1)
    \<and> deliver_pieces 3 (\<lambda>_. demo_task [47]) (Some a) [(True, [1]), (False, [1]), (False, [2]), (True, [2])] c1 = Some c2
    \<and> cache_finish_loading c2 (Some a) 3 True (\<lambda>_. False) = Inr (0, c3, woken)
    \<and> contents c3 [47] = Some (False, [1, 1, 2, 2])"
proof -
  have "env_ok one_bucket_cache (env_at 1)" by (rule env_ok_at) (simp add: one_bucket_cache_eq)
  from two_loads_mix [OF one_bucket_cache_ok(1) _ this, of "[47]" "\<lambda>_. demo_task [47]"
      "[(True, [1]), (False, [1]), (False, [2]), (True, [2])]" 3 "env_at 2" "\<lambda>_. False"]
  show ?thesis by (auto simp: demo_task_def one_bucket_cache_ok(2))
qed

end
