(* ===== verification/Backend.thy ===== *)
theory Backend
  imports Background_Worker
begin

text \<open>
  \<open>proxy/src/domain/backend.c\<close>: a backend thread. A request is parsed, its cache key is built, and
  the client is served from the cache, packet by packet while the response is still being
  loaded by a background worker.

  libuv is outside: a callback of the loop is an operation on the state of one connection, and what
  a libuv function answers is an argument. The backend shares the cache with the background workers
  and the garbage collector; \<open>others i\<close> is what those do to it before the \<open>i\<close>-th cache operation of
  this connection, with the handles they call \<open>uv_async_send\<close> for. libuv keeps one pending wake-up for a handle.
\<close>

section \<open>Data\<close>

record read_progress_t =
  progress_data :: "byte list option"
  progress_size :: usize
  last_offset :: usize
  total_size :: usize
  progress_loading :: bool

record write_req_t =
  wr_buf :: "byte list"
  wr_path :: "cstring option"
  progress :: read_progress_t
  has_task :: bool
  data_ready_async :: handle
  was_async_init :: bool
  did_register :: bool
  write_pending :: bool

text \<open>Why a request was closed, as the messages say.\<close>

datatype ending = All_Sent | Write_Failed | Cache_Failed

text \<open>
  One connection: the shared cache, the request, the bytes of the writes that \<open>uv_write\<close> accepted, all its calls so far (with the
  bytes, and whether it accepted them), whether a wake-up of its handle is pending, the number
  of clients of the backend, whether the task was asked to stop, whether the client's handle is
  closing, how the request ended, and the number of cache operations so far.
\<close>

record conn =
  ccache :: cache_t
  cwr :: write_req_t
  csent :: "byte list"
  cwrites :: "(byte list \<times> bool) list"
  cwoken :: bool
  client_count :: int
  task_stopped :: bool
  client_closing :: bool
  cended :: "ending option"
  cops :: nat

text \<open>\<open>mem\<close>, \<open>mem_table\<close>: what \<open>malloc\<close> answers in the \<open>i\<close>-th cache operation (the copy or the waiter; an entry of the table).\<close>

record uv_env =
  others :: "nat \<Rightarrow> cache_t \<Rightarrow> cache_t \<times> handle list"
  uv_write_ok :: "nat \<Rightarrow> bool"
  time_now :: "nat \<Rightarrow> int"
  mem :: "nat \<Rightarrow> bool"
  mem_table :: "nat \<Rightarrow> bool"

definition PACKET_SIZE :: usize where "PACKET_SIZE = 16384"

definition no_output :: lookup_out where
  "no_output = \<lparr>out_data = None, out_size = 0, out_loading = False\<rparr>"

section \<open>Operations\<close>

text \<open>The allocations of a request (here and in \<open>read_client\<close>, neither is tested by the code) always succeed.\<close>

definition alloc_write_req_t :: "cstring \<Rightarrow> byte list \<Rightarrow> handle \<Rightarrow> write_req_t" where
  "alloc_write_req_t path data async =
     \<lparr>wr_buf = data, wr_path = Some path,
      progress = \<lparr>progress_data = None, progress_size = 0, last_offset = 0, total_size = 0, progress_loading = False\<rparr>,
      has_task = False, data_ready_async = async, was_async_init = False, did_register = False, write_pending = False\<rparr>"

text \<open>Before every operation on the cache, the other threads have had a chance to use it.\<close>

definition others_act :: "uv_env \<Rightarrow> conn \<Rightarrow> conn" where
  "others_act env s = (case others env (cops s) (ccache s) of (c, woken) \<Rightarrow>
     s\<lparr>ccache := c, cwoken := cwoken s \<or> data_ready_async (cwr s) \<in> set woken, cops := cops s + 1\<rparr>)"

definition free_write_req :: "uv_env \<Rightarrow> ending \<Rightarrow> conn \<Rightarrow> conn res" where
  "free_write_req env why s =
     rbind (case wr_path (cwr s) of
         None \<Rightarrow> Inr s
       | Some path \<Rightarrow>
           if \<not> was_async_init (cwr s) then Inr s
           else let s = others_act env s in
             rbind (cache_unregister_waiter (ccache s) path (data_ready_async (cwr s))) (\<lambda>(_, c). Inr (s\<lparr>ccache := c\<rparr>)))
     (\<lambda>s. let s = (if has_task (cwr s) then s\<lparr>task_stopped := True\<rparr> else s);
              s = s\<lparr>cwr := (cwr s)\<lparr>progress := (progress (cwr s))\<lparr>progress_data := None\<rparr>, wr_path := None\<rparr>\<rparr>;
              s = (if client_closing s then s else s\<lparr>client_count := client_count s - 1, client_closing := True\<rparr>)
          in Inr (s\<lparr>cended := Some why\<rparr>))"

text \<open>\<open>cache_register_waiter\<close> with its result ignored, unless the request is registered already.\<close>

definition register_once :: "uv_env \<Rightarrow> cstring \<Rightarrow> conn \<Rightarrow> conn res" where
  "register_once env path s =
     (let s = others_act env s in
      rbind (cache_register_waiter (ccache s) path (data_ready_async (cwr s)) (mem env (cops s)) (mem_table env (cops s))) (\<lambda>(_, c).
        Inr (s\<lparr>ccache := c, cwr := (cwr s)\<lparr>did_register := True\<rparr>\<rparr>)))"

definition look :: "uv_env \<Rightarrow> cstring \<Rightarrow> conn \<Rightarrow> (cache_status_t \<times> lookup_out \<times> conn) res" where
  "look env path s =
     (let s = others_act env s in
      rbind (cache_lookup_partial (ccache s) path (last_offset (progress (cwr s))) PACKET_SIZE (time_now env (cops s)) (mem env (cops s)) no_output)
        (\<lambda>(st, out, c). Inr (st, out, s\<lparr>ccache := c\<rparr>)))"

lemma others_act_fields [simp]:
  "cwr (others_act env s) = cwr s" "csent (others_act env s) = csent s" "cwrites (others_act env s) = cwrites s"
  "cended (others_act env s) = cended s" "client_count (others_act env s) = client_count s"
  "client_closing (others_act env s) = client_closing s" "task_stopped (others_act env s) = task_stopped s"
  "cops (others_act env s) = cops s + 1" "ccache (others_act env s) = fst (others env (cops s) (ccache s))"
  "cwoken (others_act env s) \<longleftrightarrow> cwoken s \<or> data_ready_async (cwr s) \<in> set (snd (others env (cops s) (ccache s)))"
  by (simp_all add: others_act_def split: prod.split)

lemma look_keeps: "look env path s = Inr (st, out, s') \<Longrightarrow> cwr s' = cwr s \<and> csent s' = csent s \<and> cended s' = cended s"
  by (auto simp: look_def Let_def rbind_eq_Inr)

lemma register_once_keeps: "register_once env path s = Inr s' \<Longrightarrow> cwr s' = (cwr s)\<lparr>did_register := True\<rparr> \<and> csent s' = csent s \<and> cended s' = cended s"
  by (auto simp: register_once_def Let_def rbind_eq_Inr)

definition advance :: "byte list \<Rightarrow> usize \<Rightarrow> write_req_t \<Rightarrow> write_req_t" where
  "advance data n wr = wr\<lparr>wr_buf := data, progress := (progress wr)\<lparr>last_offset := last_offset (progress wr) + n\<rparr>\<rparr>"

definition out_bytes :: "lookup_out \<Rightarrow> byte list" where
  "out_bytes out = (case out_data out of None \<Rightarrow> [] | Some d \<Rightarrow> d)"

text \<open>A call of \<open>uv_write\<close> for the request.\<close>

definition write_out :: "uv_env \<Rightarrow> byte list \<Rightarrow> conn \<Rightarrow> conn" where
  "write_out env d s = (let ok = uv_write_ok env (cops s) in
     s\<lparr>csent := (if ok then csent s @ d else csent s), cwrites := cwrites s @ [(d, ok)]\<rparr>)"

text \<open>
  \<open>send_next_chunk\<close>. It calls itself once at most: before the inner call \<open>did_register\<close> was set.
\<close>

function send_next_chunk :: "uv_env \<Rightarrow> conn \<Rightarrow> conn res" where
  "send_next_chunk env s =
     (if write_pending (cwr s) then Inr s
      else case wr_path (cwr s) of
        None \<Rightarrow> Inl NullDeref
      | Some path \<Rightarrow> (case look env path s of
          Inl f \<Rightarrow> Inl f
        | Inr (status, out, s1) \<Rightarrow>
            if status = CACHE_DONE \<or> status = CACHE_FOUND then
              if out_size out > 0 then
                let wr = advance (out_bytes out) (out_size out) (cwr s1);
                    wr = wr\<lparr>progress := (progress wr)\<lparr>progress_data := out_data out, progress_size := out_size out\<rparr>\<rparr>
                in Inr (write_out env (out_bytes out) (s1\<lparr>cwr := wr\<rparr>))
              else if \<not> out_loading out then free_write_req env All_Sent s1
              else if did_register (cwr s1) then Inr s1
              else register_once env path s1
            else if status = CACHE_NOT_FOUND then
              if did_register (cwr s1) then Inr s1 else register_once env path s1
            else if status = CACHE_NEW_LOADED then
              if out_size out > 0 then
                let wr = advance (out_bytes out) (out_size out) (cwr s1)
                in Inr (write_out env (out_bytes out) (s1\<lparr>cwr := wr\<lparr>write_pending := uv_write_ok env (cops s1)\<rparr>\<rparr>))
              else Inr s1
            else if status = CACHE_NEW_NOT_LOADED then
              if did_register (cwr s1) then Inr s1
              else (case register_once env path s1 of
                  Inl f \<Rightarrow> Inl f
                | Inr s2 \<Rightarrow> (case look env path s2 of
                    Inl f \<Rightarrow> Inl f
                  | Inr (_, check, s3) \<Rightarrow>
                      if out_size check > 0 \<or> \<not> out_loading check then send_next_chunk env s3
                      else Inr s3))
            else free_write_req env Cache_Failed s1))"
  by pat_completeness auto
termination
  by (relation "measure (\<lambda>(env, s). if did_register (cwr s) then 0 else 1)")
    (auto dest!: look_keeps register_once_keeps)

declare send_next_chunk.simps [simp del]

definition on_data_ready :: "uv_env \<Rightarrow> conn \<Rightarrow> conn res" where
  "on_data_ready env s = (if write_pending (cwr s) then Inr s else send_next_chunk env s)"

definition echo_write :: "uv_env \<Rightarrow> conn \<Rightarrow> conn res" where
  "echo_write env s = free_write_req env All_Sent s"

definition echo_write_buffer_load :: "uv_env \<Rightarrow> int \<Rightarrow> conn \<Rightarrow> conn res" where
  "echo_write_buffer_load env status s =
     (let s = s\<lparr>cwr := (cwr s)\<lparr>write_pending := False\<rparr>\<rparr>; p = progress (cwr s) in
      if status \<noteq> 0 then free_write_req env Write_Failed s
      else if progress_loading p \<or> last_offset p < total_size p then send_next_chunk env s
      else free_write_req env All_Sent s)"

section \<open>Requests\<close>

text \<open>The value of the last header whose name matches "Referer".\<close>

definition referer_name :: cstring where
  "referer_name = [82, 101, 102, 101, 114, 101, 114]"

definition find_referer :: "phr_header list \<Rightarrow> cstring option" where
  "find_referer hs = fold (\<lambda>h r. if strncmp_eq referer_name (hname h) then Some (cstr (hvalue h)) else r) hs None"

text \<open>The cache key, built in a block of 512 bytes: the path followed by the referer.\<close>

definition client_key :: "http_req_t \<Rightarrow> cstring res" where
  "client_key req =
     (let path_len = length (rpath req) in
      if path_len \<ge> 512 then Inl OutOfBounds
      else let key = cstr (rpath req) in
        case find_referer (req_headers req) of
          None \<Rightarrow> Inr key
        | Some r \<Rightarrow> if path_len + length r \<ge> 512 then Inl OutOfBounds else Inr (key @ r))"

text \<open>
  What \<open>read_client\<close> starts: nothing, a write of the whole response, or the streaming of it (with the
  task that loads it, when the request launched one).
\<close>

datatype started =
    Skipped
  | Sending conn
  | Streaming conn "task_t option"

definition new_conn :: "cache_t \<Rightarrow> int \<Rightarrow> write_req_t \<Rightarrow> conn" where
  "new_conn c clients wr = \<lparr>ccache = c, cwr = wr, csent = [], cwrites = [], cwoken = False, client_count = clients, task_stopped = False,
     client_closing = False, cended = None, cops = 0\<rparr>"

definition start_streaming :: "uv_env \<Rightarrow> cache_t \<Rightarrow> int \<Rightarrow> cstring \<Rightarrow> handle \<Rightarrow> task_t option \<Rightarrow> (started \<times> cache_t) res" where
  "start_streaming env c clients key async task =
     (let wr = alloc_write_req_t key [] async;
          wr = wr\<lparr>progress := \<lparr>progress_data = None, progress_size = 0, last_offset = 0, total_size = 0, progress_loading = True\<rparr>,
                  has_task := (task \<noteq> None), was_async_init := True\<rparr>
      in rbind (send_next_chunk env (new_conn c clients wr)) (\<lambda>s. Inr (Streaming s task, ccache s)))"

text \<open>
  \<open>phr\<close> is the request parser, \<open>launch_err\<close> what \<open>uv_queue_work\<close> answers, \<open>async\<close> the handle of the
  new request. \<open>bytes\<close> are the \<open>nread\<close> bytes read, none when \<open>nread\<close> is not positive.
\<close>

definition read_client ::
  "(byte list \<Rightarrow> nat \<Rightarrow> nat \<Rightarrow> int \<times> http_req_t) \<Rightarrow> uv_env \<Rightarrow> int \<Rightarrow> handle \<Rightarrow> cache_t \<Rightarrow> int \<Rightarrow> byte list \<Rightarrow> (started \<times> cache_t) res" where
  "read_client phr env launch_err async c clients bytes =
     (if bytes = [] then Inr (Skipped, c)
      else rbind (parse_http_req phr bytes (length bytes) True) (\<lambda>(err, req).
        if err \<noteq> 0 then Inr (Skipped, c)
        else rbind (client_key req) (\<lambda>key.
          rbind (cache_lookup c key (time_now env 0) True no_output) (\<lambda>(status, out, c).
            if status = CACHE_FOUND then
              let s = new_conn c clients (alloc_write_req_t key (out_bytes out) async)
              in Inr (Sending (s\<lparr>csent := out_bytes out, cwrites := [(out_bytes out, True)]\<rparr>), c)
            else if status = CACHE_NOT_FOUND then
              let task = \<lparr>raw_req = bytes, task_req = req, task_entry = None, task_key = key, should_stop = False,
                          task_result = 0, destroy_count = 0\<rparr>
              in if fst (launch_bgw launch_err [] task) \<noteq> 0 then Inr (Skipped, c)
                 else start_streaming env c clients key async (Some task)
            else if status = CACHE_NEW_LOADED \<or> status = CACHE_NEW_NOT_LOADED then
              start_streaming env c clients key async None
            else Inr (Skipped, c)))))"

section \<open>Clients arriving and leaving\<close>

definition new_client :: "int \<Rightarrow> int" where
  "new_client count = count + 1"

definition on_close :: "int \<Rightarrow> int" where
  "on_close count = count - 1"

datatype uv_handle_type = UV_TCP | UV_OTHER

text \<open>
  The callback of the pipe from the master: \<open>pending\<close> is the type of the handle that waits in the
  pipe, if one does, and \<open>accepted\<close> whether \<open>uv_accept\<close> succeeds.
\<close>

definition read_pipe :: "int \<Rightarrow> uv_handle_type option \<Rightarrow> bool \<Rightarrow> int \<Rightarrow> (bool \<times> int) res" where
  "read_pipe nread pending accepted count =
     (if nread > 0 then
        (case pending of
           None \<Rightarrow> Inr (True, count)
         | Some UV_TCP \<Rightarrow> Inr (True, if accepted then new_client count else count)
         | Some UV_OTHER \<Rightarrow> Inl (ExitCall 1))
      else if nread < 0 then Inr (False, count)
      else Inr (True, count))"

text \<open>\<open>uv_loop_init\<close>, \<open>socketpair\<close> and \<open>uv_pipe_init\<close> answer 0 on success.\<close>

definition create_backend :: "int \<Rightarrow> int \<Rightarrow> int \<Rightarrow> int" where
  "create_backend loop_err pair_err pipe_err =
     (if loop_err \<noteq> 0 then -1 else if pair_err \<noteq> 0 then -1 else if pipe_err \<noteq> 0 then pipe_err else 0)"

definition destroy_backend :: int where
  "destroy_backend = 0"

end
