(* ===== verification/Backend_Stream.thy ===== *)
theory Backend_Stream
  imports Backend
begin

text \<open>
  A client gets the response: in every run of the callbacks of a connection, interleaved with other threads that only
  let the entry of its key grow, what is passed to \<open>uv_write\<close> is a prefix of the response, no callback faults, and when the request
  is closed as complete all of the response was passed on. The locale \<open>surroundings\<close> states what is relied on: an invariant of the
  cache that the other threads and the connection's own calls keep. \<open>notifying\<close> adds that a registered client is woken.
\<close>

section \<open>What the other threads may do\<close>

text \<open>
  They keep the cache well formed; they may create the entry of the key, append to it while it is loading and finish it, but do not
  remove it; and the handle \<open>h\<close> stays registered if it is.
\<close>

definition grows :: "cstring \<Rightarrow> handle \<Rightarrow> cache_t \<Rightarrow> cache_t \<Rightarrow> bool" where
  "grows key h c c' \<longleftrightarrow> cache_inv c' \<and> (h \<in> set (waiters c key) \<longrightarrow> h \<in> set (waiters c' key))
     \<and> (case contents c key of
          None \<Rightarrow> (case contents c' key of None \<Rightarrow> True | Some (_, d) \<Rightarrow> length d \<le> 2 ^ 63)
        | Some (ld, d) \<Rightarrow> (\<exists>ld' d'. contents c' key = Some (ld', d @ d') \<and> length (d @ d') \<le> 2 ^ 63
            \<and> (\<not> ld \<longrightarrow> \<not> ld' \<and> d' = [])))"

definition small :: "cstring \<Rightarrow> cache_t \<Rightarrow> bool" where
  "small key c \<longleftrightarrow> (case contents c key of None \<Rightarrow> True | Some (_, d) \<Rightarrow> length d \<le> 2 ^ 63)"

definition memory_ok :: "uv_env \<Rightarrow> bool" where
  "memory_ok env \<longleftrightarrow> (\<forall>i. mem env i \<and> mem_table env i)"

definition keeps_inv :: "uv_env \<Rightarrow> bool" where
  "keeps_inv env \<longleftrightarrow> (\<forall>i c. cache_inv c \<longrightarrow> cache_inv (fst (others env i c)))"

definition rely :: "cstring \<Rightarrow> handle \<Rightarrow> uv_env \<Rightarrow> bool" where
  "rely key h env \<longleftrightarrow> (\<forall>i c. cache_inv c \<longrightarrow> small key c \<longrightarrow> grows key h c (fst (others env i c)))"

lemma grows_inv: "grows key h c c' \<Longrightarrow> cache_inv c'"
  by (simp add: grows_def)

lemma grows_small: "grows key h c c' \<Longrightarrow> small key c'"
  by (auto simp: grows_def small_def split: option.splits prod.splits)

lemma grows_present: "grows key h c c' \<Longrightarrow> contents c key \<noteq> None \<Longrightarrow> contents c' key \<noteq> None"
  by (cases "contents c key") (auto simp: grows_def simp del: not_None_eq)

lemma grows_refl: "cache_inv c' \<Longrightarrow> small key c \<Longrightarrow> contents c' = contents c \<Longrightarrow>
  (h \<in> set (waiters c key) \<Longrightarrow> h \<in> set (waiters c' key)) \<Longrightarrow> grows key h c c'"
  by (auto simp: grows_def small_def split: option.splits prod.splits)

lemma grows_finished: "grows key h c c' \<Longrightarrow> contents c key = Some (False, d) \<Longrightarrow> contents c' key = Some (False, d)"
  by (auto simp: grows_def)

text \<open>The connection's own calls change no entry.\<close>

definition own :: "cache_t \<Rightarrow> cache_t \<Rightarrow> bool" where
  "own c c' \<longleftrightarrow> cache_inv c' \<and> contents c' = contents c \<and> entry_at c' = entry_at c
     \<and> (\<forall>a. entries c a = None \<longrightarrow> entries c' a = None)"

lemma grows_own:
  assumes "grows key h c c1" "own c1 c2" "h \<in> set (waiters c1 key) \<Longrightarrow> h \<in> set (waiters c2 key)"
  shows "grows key h c c2"
proof -
  have "contents c2 = contents c1" "cache_inv c2" using assms(2) by (simp_all add: own_def)
  with assms(1,3) show ?thesis unfolding grows_def by (cases "contents c key") auto
qed

lemma store_keeps_blocks: "store h p f = Inr h' \<Longrightarrow> h a = None \<Longrightarrow> h' a = None"
  by (auto simp: store_def split: option.splits)

lemma register_own:
  assumes "cache_inv c"
  obtains c' where "cache_register_waiter c key w True True = Inr (0, c')" "own c c'"
    "waiters c' key = w # waiters c key"
proof -
  from register_correct [OF assms, of key w] obtain c' where
    c': "cache_register_waiter c key w True True = Inr (0, c')" "cache_inv c'" "contents c' = contents c" "entry_at c' = entry_at c"
      "waiters c' key = w # waiters c key" by auto
  from c'(1) have "entries c' = entries c \<or> (\<exists>p f. store (entries c) p f = Inr (entries c'))"
    by (force simp: cache_register_waiter_def Let_def rbind_eq_Inr split: if_splits option.splits)
  then have "\<forall>a. entries c a = None \<longrightarrow> entries c' a = None" using store_keeps_blocks by metis
  with c' that show thesis by (simp add: own_def)
qed

lemma unregister_own:
  assumes "cache_inv c"
  obtains r c' where "cache_unregister_waiter c key w = Inr (r, c')" "own c c'"
proof -
  from unregister_correct [OF assms, of key w] assms obtain r c' where
    c': "cache_unregister_waiter c key w = Inr (r, c')" "cache_inv c'" "contents c' = contents c" "entry_at c' = entry_at c"
    by (auto split: option.splits)
  from c'(1) have "entries c' = entries c \<or> (\<exists>p f. store (entries c) p f = Inr (entries c'))"
    by (force simp: cache_unregister_waiter_def rbind_eq_Inr split: option.splits)
  then have "\<forall>a. entries c a = None \<longrightarrow> entries c' a = None" using store_keeps_blocks by metis
  with c' that show thesis by (simp add: own_def)
qed

text \<open>\<open>I i c\<close>: what is known of the cache before the \<open>i\<close>-th operation of the connection.\<close>

locale surroundings =
  fixes env :: uv_env and key :: cstring and h :: handle and I :: "nat \<Rightarrow> cache_t \<Rightarrow> bool"
  assumes memory: "memory_ok env"
    and well_formed: "I i c \<Longrightarrow> cache_inv c \<and> small key c"
    and others_keep: "I i c \<Longrightarrow> I (Suc i) (fst (others env i c)) \<and> grows key h c (fst (others env i c))"
    and own_keeps: "I i c \<Longrightarrow> own c c' \<Longrightarrow> I i c'"

text \<open>
  A registered client is woken whenever what the entry holds changes, other than by starting to load.
\<close>

locale notifying = surroundings +
  assumes wakes: "I i c \<Longrightarrow> h \<in> set (waiters c key) \<Longrightarrow>
      contents (fst (others env i c)) key \<notin> {contents c key, Some (True, [])} \<Longrightarrow> h \<in> set (snd (others env i c))"

section \<open>The invariant of a connection\<close>

text \<open>The bytes passed to \<open>uv_write\<close>, the ones it accepted, and whether it has refused a write.\<close>

definition passed :: "conn \<Rightarrow> byte list" where
  "passed s = concat (map fst (cwrites s))"

definition accepted :: "conn \<Rightarrow> byte list" where
  "accepted s = concat (map fst (filter snd (cwrites s)))"

definition refused :: "conn \<Rightarrow> bool" where
  "refused s \<longleftrightarrow> \<not> list_all snd (cwrites s)"

lemma log_cong:
  "cwrites s' = cwrites s \<Longrightarrow> passed s' = passed s"
  "cwrites s' = cwrites s \<Longrightarrow> accepted s' = accepted s"
  "cwrites s' = cwrites s \<Longrightarrow> refused s' = refused s"
  by (simp_all add: passed_def accepted_def refused_def)

lemma log_upd [simp]:
  "passed (s\<lparr>ccache := c\<rparr>) = passed s" "passed (s\<lparr>cwr := wr\<rparr>) = passed s" "passed (s\<lparr>cwoken := b\<rparr>) = passed s"
  "accepted (s\<lparr>ccache := c\<rparr>) = accepted s" "accepted (s\<lparr>cwr := wr\<rparr>) = accepted s" "accepted (s\<lparr>cwoken := b\<rparr>) = accepted s"
  "refused (s\<lparr>ccache := c\<rparr>) = refused s" "refused (s\<lparr>cwr := wr\<rparr>) = refused s" "refused (s\<lparr>cwoken := b\<rparr>) = refused s"
  "passed (others_act env s) = passed s" "accepted (others_act env s) = accepted s" "refused (others_act env s) = refused s"
  by (simp_all add: passed_def accepted_def refused_def)

lemma log_write [simp]:
  "passed (write_out env d s) = passed s @ d"
  "accepted (write_out env d s) = (if uv_write_ok env (cops s) then accepted s @ d else accepted s)"
  "refused (write_out env d s) \<longleftrightarrow> refused s \<or> \<not> uv_write_ok env (cops s)"
  by (simp_all add: passed_def accepted_def refused_def write_out_def Let_def)

lemma write_out_fields [simp]:
  "ccache (write_out env d s) = ccache s" "cwr (write_out env d s) = cwr s" "cended (write_out env d s) = cended s"
  "cops (write_out env d s) = cops s" "cwoken (write_out env d s) = cwoken s"
  "csent (write_out env d s) = (if uv_write_ok env (cops s) then csent s @ d else csent s)"
  "cwrites (write_out env d s) = cwrites s @ [(d, uv_write_ok env (cops s))]"
  by (simp_all add: write_out_def Let_def)

lemma all_accepted: "\<not> refused s \<Longrightarrow> accepted s = passed s"
  by (simp add: refused_def accepted_def passed_def list_all_iff filter_id_conv)

definition stream_ok :: "(nat \<Rightarrow> cache_t \<Rightarrow> bool) \<Rightarrow> cstring \<Rightarrow> conn \<Rightarrow> bool" where
  "stream_ok I key s \<longleftrightarrow> I (cops s) (ccache s) \<and> csent s = accepted s
     \<and> length (passed s) = unat (last_offset (progress (cwr s)))
     \<and> (case contents (ccache s) key of
          None \<Rightarrow> cwrites s = []
        | Some (_, d) \<Rightarrow> (\<exists>r. d = passed s @ r))"

lemma stream_ok_cong:
  assumes "ccache s' = ccache s" "cops s' = cops s" "csent s' = csent s" "cwrites s' = cwrites s"
    and "last_offset (progress (cwr s')) = last_offset (progress (cwr s))"
  shows "stream_ok I key s' = stream_ok I key s"
  using assms by (simp add: stream_ok_def log_cong(1,2) [OF assms(4)] cong: option.case_cong)

definition conn_ok :: "(nat \<Rightarrow> cache_t \<Rightarrow> bool) \<Rightarrow> cstring \<Rightarrow> handle \<Rightarrow> conn \<Rightarrow> bool" where
  "conn_ok I key h s \<longleftrightarrow> stream_ok I key s \<and> (case cended s of
     None \<Rightarrow> wr_path (cwr s) = Some key \<and> progress_loading (progress (cwr s)) \<and> was_async_init (cwr s)
       \<and> data_ready_async (cwr s) = h \<and> (did_register (cwr s) \<longrightarrow> h \<in> set (waiters (ccache s) key))
       \<and> (write_pending (cwr s) \<longrightarrow> cwrites s \<noteq> [])
   | Some All_Sent \<Rightarrow> contents (ccache s) key = Some (False, passed s)
   | Some Write_Failed \<Rightarrow> True
   | Some Cache_Failed \<Rightarrow> False)"

text \<open>A connection that neither writes nor is closed has nothing to send, and will be woken; unless its last write was refused.\<close>

definition idle_ok :: "cstring \<Rightarrow> handle \<Rightarrow> conn \<Rightarrow> bool" where
  "idle_ok key h s \<longleftrightarrow> cended s \<noteq> None \<or> write_pending (cwr s)
     \<or> (h \<in> set (waiters (ccache s) key) \<and> contents (ccache s) key = Some (True, passed s))"

lemma conn_okD:
  assumes "conn_ok I key h s" "cended s = None"
  shows "stream_ok I key s" "wr_path (cwr s) = Some key" "progress_loading (progress (cwr s))" "was_async_init (cwr s)"
    "data_ready_async (cwr s) = h" "did_register (cwr s) \<Longrightarrow> h \<in> set (waiters (ccache s) key)"
    "write_pending (cwr s) \<Longrightarrow> cwrites s \<noteq> []"
  using assms by (auto simp: conn_ok_def)

lemma conn_okI:
  assumes "stream_ok I key s" "cended s = None" "wr_path (cwr s) = Some key" "progress_loading (progress (cwr s))"
    "was_async_init (cwr s)" "data_ready_async (cwr s) = h" "did_register (cwr s) \<Longrightarrow> h \<in> set (waiters (ccache s) key)"
    "write_pending (cwr s) \<Longrightarrow> cwrites s \<noteq> []"
  shows "conn_ok I key h s"
  using assms by (simp add: conn_ok_def)

lemma unat_PACKET_SIZE [simp]: "unat PACKET_SIZE = 16384"
  by (simp add: PACKET_SIZE_def)

text \<open>The four answers a connection can get, by what the cache holds for the key.\<close>

lemma lookup_cases:
  assumes "stream_ok I key s" "(st, out) = lookup_spec (contents (ccache s) key) (length (passed s)) 16384 no_output"
  obtains (missing) "contents (ccache s) key = None" "st = CACHE_NOT_FOUND" "out_size out = 0" "\<not> out_loading out"
  | (more) ld r where "contents (ccache s) key = Some (ld, passed s @ r)" "r \<noteq> []" "st = CACHE_NEW_LOADED"
      "out_data out = Some (take 16384 r)" "unat (out_size out) = length (take 16384 r)"
  | (waiting) "contents (ccache s) key = Some (True, passed s)" "st = CACHE_NEW_NOT_LOADED" "out_size out = 0" "out_loading out"
  | (complete) "contents (ccache s) key = Some (False, passed s)" "st = CACHE_DONE" "out_size out = 0" "\<not> out_loading out"
proof (cases "contents (ccache s) key")
  case None
  with assms that(1) show ?thesis by (auto simp: no_output_def)
next
  case (Some x)
  obtain ld d where x: "x = (ld, d)" by (cases x)
  with assms(1) Some obtain r where r: "d = passed s @ r" by (auto simp: stream_ok_def)
  show ?thesis
  proof (cases "r = []")
    case True
    with assms(2) Some x r that(3,4) show ?thesis by (cases ld) (auto simp: no_output_def Let_def)
  next
    case False
    have "unat (of_nat (length (take 16384 r)) :: usize) = length (take 16384 r)"
      by (simp add: unat_of_nat min_def)
    with False assms(2) Some x r that(2) show ?thesis by (auto simp: no_output_def Let_def)
  qed
qed

section \<open>One packet\<close>

definition packet_sent :: "uv_env \<Rightarrow> conn \<Rightarrow> conn \<Rightarrow> byte list \<Rightarrow> usize \<Rightarrow> conn" where
  "packet_sent env s s1 d n = write_out env d (s1\<lparr>cwr := (advance d n (cwr s))\<lparr>write_pending := uv_write_ok env (cops s1)\<rparr>\<rparr>)"

context surroundings
begin

lemma inv: "I i c \<Longrightarrow> cache_inv c" and smallI: "I i c \<Longrightarrow> small key c"
  using well_formed by blast+

lemma mems [simp]: "mem env i" "mem_table env i"
  using memory by (simp_all add: memory_ok_def)

lemma stream_ok_grows:
  assumes "stream_ok I key s" "grows key h (ccache s) c" "I i c" "ccache s' = c" "cops s' = i" "csent s' = csent s"
    "cwrites s' = cwrites s" "last_offset (progress (cwr s')) = last_offset (progress (cwr s))"
  shows "stream_ok I key s'"
  using assms unfolding stream_ok_def log_cong(1,2) [OF assms(7)]
  by (cases "contents (ccache s) key") (auto simp: grows_def passed_def split: option.splits)

lemma stream_ok_own:
  assumes "stream_ok I key s" "own (ccache s) (ccache s')" "cops s' = cops s" "csent s' = csent s"
    "cwrites s' = cwrites s" "last_offset (progress (cwr s')) = last_offset (progress (cwr s))"
  shows "stream_ok I key s'"
proof -
  have "I (cops s) (ccache s')" using assms(1) own_keeps [OF _ assms(2)] by (simp add: stream_ok_def)
  moreover have "contents (ccache s') = contents (ccache s)" using assms(2) by (simp add: own_def)
  ultimately show ?thesis using assms(1,3-6) by (simp add: stream_ok_def log_cong(1,2) [OF assms(5)] cong: option.case_cong)
qed

lemma others_act_ok:
  assumes "stream_ok I key s"
  shows "stream_ok I key (others_act env s)" "grows key h (ccache s) (ccache (others_act env s))"
proof -
  have i: "I (cops s) (ccache s)" using assms by (simp add: stream_ok_def)
  show g: "grows key h (ccache s) (ccache (others_act env s))" using others_keep [OF i] by simp
  show "stream_ok I key (others_act env s)"
    by (rule stream_ok_grows [OF assms g]) (use others_keep [OF i] in simp_all)
qed

lemma grows_waiters: "grows key h c c' \<Longrightarrow> h \<in> set (waiters c key) \<Longrightarrow> h \<in> set (waiters c' key)"
  by (simp add: grows_def)

lemma look_run:
  assumes "stream_ok I key s"
  obtains st out s1 where "look env key s = Inr (st, out, s1)" "stream_ok I key s1" "grows key h (ccache s) (ccache s1)"
    "cwr s1 = cwr s" "csent s1 = csent s" "cwrites s1 = cwrites s" "cended s1 = cended s" "cops s1 = Suc (cops s)"
    "cwoken s1 = cwoken (others_act env s)" "contents (ccache s1) = contents (ccache (others_act env s))"
    "waiters (ccache s1) = waiters (ccache (others_act env s))"
    "(st, out) = lookup_spec (contents (ccache s1) key) (length (passed s)) 16384 no_output"
proof -
  let ?s = "others_act env s"
  note ok = others_act_ok [OF assms]
  then have i: "I (cops ?s) (ccache ?s)" by (simp add: stream_ok_def)
  have off: "unat (last_offset (progress (cwr s))) = length (passed s)" using assms by (simp add: stream_ok_def)
  from lookup_run [OF inv [OF i], of key "last_offset (progress (cwr s))" PACKET_SIZE "time_now env (cops ?s)" no_output]
  obtain st out c where
    r: "cache_lookup_partial (ccache ?s) key (last_offset (progress (cwr s))) PACKET_SIZE (time_now env (cops ?s)) True no_output
        = Inr (st, out, c)" "(st, out) = lookup_spec (contents (ccache ?s) key) (length (passed s)) 16384 no_output"
      "own (ccache ?s) c" unfolding off unat_PACKET_SIZE own_def by blast
  have w: "waiters c = waiters (ccache ?s)" by (rule lookup_keeps_waiters [OF inv [OF i] r(1)])
  have ok1: "stream_ok I key (?s\<lparr>ccache := c\<rparr>)" by (rule stream_ok_own [OF ok(1)]) (use r(3) in simp_all)
  have g: "grows key h (ccache s) c" by (rule grows_own [OF ok(2) r(3)]) (simp add: w)
  have lk: "look env key s = Inr (st, out, ?s\<lparr>ccache := c\<rparr>)" using r(1) by (simp add: look_def Let_def)
  show thesis by (rule that [OF lk ok1]) (use g r(2,3) w in \<open>simp_all add: own_def\<close>)
qed

lemma register_run:
  assumes "stream_ok I key s" "data_ready_async (cwr s) = h"
  obtains s1 where "register_once env key s = Inr s1" "stream_ok I key s1" "grows key h (ccache s) (ccache s1)"
    "cwr s1 = (cwr s)\<lparr>did_register := True\<rparr>" "csent s1 = csent s" "cwrites s1 = cwrites s" "cended s1 = cended s"
    "cops s1 = Suc (cops s)" "h \<in> set (waiters (ccache s1) key)" "cwoken s1 = cwoken (others_act env s)"
    "contents (ccache s1) = contents (ccache (others_act env s))"
proof -
  let ?s = "others_act env s"
  note ok = others_act_ok [OF assms(1)]
  then have i: "I (cops ?s) (ccache ?s)" by (simp add: stream_ok_def)
  obtain c where c: "cache_register_waiter (ccache ?s) key h True True = Inr (0, c)" "own (ccache ?s) c"
      "waiters c key = h # waiters (ccache ?s) key"
    by (rule register_own [OF inv [OF i], of key h])
  let ?s1 = "?s\<lparr>ccache := c, cwr := (cwr s)\<lparr>did_register := True\<rparr>\<rparr>"
  have ok1: "stream_ok I key ?s1" by (rule stream_ok_own [OF ok(1)]) (use c(2) in simp_all)
  have g: "grows key h (ccache s) c" by (rule grows_own [OF ok(2) c(2)]) (simp add: c(3))
  have rg: "register_once env key s = Inr ?s1" using c(1) assms(2) by (simp add: register_once_def Let_def)
  show thesis by (rule that [OF rg ok1]) (use g c(2,3) in \<open>simp_all add: own_def\<close>)
qed

lemma free_run:
  assumes "stream_ok I key s" "wr_path (cwr s) = Some key"
  obtains s' where "free_write_req env why s = Inr s'" "cended s' = Some why" "stream_ok I key s'" "cwrites s' = cwrites s"
    "client_closing s'" "cops s \<le> cops s'"
    "\<forall>d. contents (ccache s) key = Some (False, d) \<longrightarrow> contents (ccache s') key = Some (False, d)"
proof (cases "was_async_init (cwr s)")
  case False
  define s' where "s' = projr (free_write_req env why s)"
  have run: "free_write_req env why s = Inr s'" "ccache s' = ccache s" "cops s' = cops s" "csent s' = csent s" "cwrites s' = cwrites s"
      "cended s' = Some why" "client_closing s'" "last_offset (progress (cwr s')) = last_offset (progress (cwr s))"
    using False assms(2) by (auto simp: s'_def free_write_req_def Let_def)
  have "stream_ok I key s'" using assms(1) stream_ok_cong [OF run(2-5,8)] by simp
  with run that show thesis by simp
next
  case True
  let ?s = "others_act env s"
  note ok = others_act_ok [OF assms(1)]
  then have i: "I (cops ?s) (ccache ?s)" by (simp add: stream_ok_def)
  obtain r c where c: "cache_unregister_waiter (ccache ?s) key (data_ready_async (cwr s)) = Inr (r, c)" "own (ccache ?s) c"
    by (rule unregister_own [OF inv [OF i], of key "data_ready_async (cwr s)"])
  define s' where "s' = projr (free_write_req env why s)"
  have run: "free_write_req env why s = Inr s'" "ccache s' = c" "csent s' = csent s" "cwrites s' = cwrites s" "cended s' = Some why"
      "client_closing s'" "cops s' = Suc (cops s)" "last_offset (progress (cwr s')) = last_offset (progress (cwr s))"
    using True assms(2) c(1) by (auto simp: s'_def free_write_req_def Let_def)
  have ok': "stream_ok I key s'" by (rule stream_ok_own [OF ok(1)]) (use run c(2) in simp_all)
  show thesis
    by (rule that [OF run(1,5) ok' run(4,6)])
      (use run(2,7) grows_finished [OF ok(2)] c(2) in \<open>simp_all add: own_def\<close>)
qed

text \<open>The packet that \<open>send_next_chunk\<close> sends continues what was passed on.\<close>

lemma stream_ok_sent:
  assumes "stream_ok I key s" "contents (ccache s) key = Some (ld, passed s @ r)" "unat n = length (take m r)"
    and "last_offset (progress wr) = last_offset (progress (cwr s)) + n"
  shows "stream_ok I key (write_out env (take m r) (s\<lparr>cwr := wr\<rparr>))"
proof -
  have sz: "length (passed s) = unat (last_offset (progress (cwr s)))" "length (passed s @ r) \<le> 2 ^ 63"
    using assms(1,2) smallI [of "cops s" "ccache s"] by (auto simp: stream_ok_def small_def)
  have "length (take m r) \<le> length r" by simp
  then have "length (passed s) + length (take m r) < 2 ^ 64" using sz(2) by simp
  then have "unat (last_offset (progress (cwr s)) + n) = length (passed s @ take m r)"
    using sz(1) assms(3) by (simp add: unat_word_ariths)
  moreover have "passed s @ r = (passed s @ take m r) @ drop m r" by simp
  then have "\<exists>r'. passed s @ r = (passed s @ take m r) @ r'" by blast
  ultimately show ?thesis using assms by (simp add: stream_ok_def)
qed

lemma send_sends:
  assumes "\<not> write_pending (cwr s)" "wr_path (cwr s) = Some key" "look env key s = Inr (CACHE_NEW_LOADED, out, s1)"
    and "cwr s1 = cwr s" "out_data out = Some (take 16384 r)" "unat (out_size out) = length (take 16384 r)" "r \<noteq> []"
  shows "send_next_chunk env s = Inr (packet_sent env s s1 (take 16384 r) (out_size out))"
proof -
  have "out_size out \<noteq> 0" using assms(6,7) by (auto simp: unat_eq_0 [symmetric])
  then have "0 < out_size out" by (simp add: word_neq_0_conv)
  with assms show ?thesis
    by (subst send_next_chunk.simps) (simp add: out_bytes_def Let_def packet_sent_def)
qed

text \<open>The two cache operations of a packet keep the connection well formed.\<close>

lemma look_ok:
  assumes "conn_ok I key h s" "cended s = None"
  obtains st out s1 where "look env key s = Inr (st, out, s1)" "conn_ok I key h s1" "cended s1 = None" "cwr s1 = cwr s"
    "cwrites s1 = cwrites s" "cops s1 = Suc (cops s)" "cwoken s1 = cwoken (others_act env s)"
    "contents (ccache s1) = contents (ccache (others_act env s))" "grows key h (ccache s) (ccache s1)"
    "waiters (ccache s1) = waiters (ccache (others_act env s))"
    "(st, out) = lookup_spec (contents (ccache s1) key) (length (passed s1)) 16384 no_output"
proof -
  note ok = conn_okD [OF assms]
  obtain st out s1 where s1: "look env key s = Inr (st, out, s1)" "stream_ok I key s1" "grows key h (ccache s) (ccache s1)"
      "cwr s1 = cwr s" "cwrites s1 = cwrites s" "cended s1 = cended s" "cops s1 = Suc (cops s)"
      "cwoken s1 = cwoken (others_act env s)" "contents (ccache s1) = contents (ccache (others_act env s))"
      "waiters (ccache s1) = waiters (ccache (others_act env s))" "(st, out) = lookup_spec (contents (ccache s1) key) (length (passed s)) 16384 no_output"
    by (rule look_run [OF ok(1)])
  have "conn_ok I key h s1" using ok s1 assms(2) grows_waiters [OF s1(3)] by (intro conn_okI) simp_all
  with that s1 assms(2) log_cong(1) [OF s1(5)] show thesis by simp
qed

lemma register_ok:
  assumes "conn_ok I key h s" "cended s = None" "\<not> write_pending (cwr s)"
  obtains s2 where "register_once env key s = Inr s2" "conn_ok I key h s2" "cended s2 = None" "did_register (cwr s2)"
    "\<not> write_pending (cwr s2)" "cwrites s2 = cwrites s" "cops s2 = Suc (cops s)" "cwoken s2 = cwoken (others_act env s)"
    "contents (ccache s2) = contents (ccache (others_act env s))" "grows key h (ccache s) (ccache s2)"
proof -
  note ok = conn_okD [OF assms(1,2)]
  obtain s2 where s2: "register_once env key s = Inr s2" "stream_ok I key s2" "grows key h (ccache s) (ccache s2)"
      "cwr s2 = (cwr s)\<lparr>did_register := True\<rparr>" "cwrites s2 = cwrites s" "cended s2 = cended s" "cops s2 = Suc (cops s)"
      "h \<in> set (waiters (ccache s2) key)" "cwoken s2 = cwoken (others_act env s)"
      "contents (ccache s2) = contents (ccache (others_act env s))"
    by (rule register_run [OF ok(1,5)])
  have "conn_ok I key h s2" using ok s2 assms(2,3) by (intro conn_okI) simp_all
  with that s2 assms(2,3) show thesis by simp
qed

lemma packet_ok:
  assumes s: "conn_ok I key h s1" "cended s1 = None" "cwr s1 = cwr s"
    and m: "contents (ccache s1) key = Some (ld, passed s1 @ r)" "r \<noteq> []" "unat n = length (take 16384 r)"
  shows "conn_ok I key h (packet_sent env s s1 (take 16384 r) n)"
proof -
  note ok = conn_okD [OF s(1,2)]
  have "stream_ok I key (packet_sent env s s1 (take 16384 r) n)" unfolding packet_sent_def
    by (rule stream_ok_sent [OF ok(1) m(1,3)]) (simp add: advance_def s(3))
  then show ?thesis using ok s(2,3) by (intro conn_okI) (simp_all add: packet_sent_def advance_def)
qed

end

text \<open>
  What a packet leads to: a connection that writes, is closed or waits for the entry to change; one whose write was just refused; or
  one that has not found the entry and is registered for it.
\<close>

definition refused_now :: "conn \<Rightarrow> conn \<Rightarrow> bool" where
  "refused_now s s' \<longleftrightarrow> (\<exists>d. d \<noteq> [] \<and> cwrites s' = cwrites s @ [(d, False)])"

definition missed :: "uv_env \<Rightarrow> cstring \<Rightarrow> conn \<Rightarrow> conn \<Rightarrow> bool" where
  "missed env key s s' \<longleftrightarrow> \<not> write_pending (cwr s) \<and> contents (ccache (others_act env s)) key = None
     \<and> (\<exists>out s1. look env key s = Inr (CACHE_NOT_FOUND, out, s1)
         \<and> (if did_register (cwr s1) then Inr s1 else register_once env key s1) = Inr s')"

definition outcome :: "uv_env \<Rightarrow> cstring \<Rightarrow> handle \<Rightarrow> conn \<Rightarrow> conn \<Rightarrow> bool" where
  "outcome env key h s s' \<longleftrightarrow> idle_ok key h s' \<or> refused_now s s' \<or> missed env key s s'"

text \<open>One round of \<open>send_next_chunk\<close>; a client that registered and then found more starts a second one.\<close>

definition sent_ok :: "uv_env \<Rightarrow> cstring \<Rightarrow> handle \<Rightarrow> (nat \<Rightarrow> cache_t \<Rightarrow> bool) \<Rightarrow> conn \<Rightarrow> bool" where
  "sent_ok env key h I s \<longleftrightarrow>
     (\<exists>s'. send_next_chunk env s = Inr s' \<and> conn_ok I key h s' \<and> outcome env key h s s')
     \<or> (\<exists>s3. \<not> did_register (cwr s) \<and> did_register (cwr s3) \<and> conn_ok I key h s3 \<and> cended s3 = None \<and> cwrites s3 = cwrites s
          \<and> contents (ccache s3) key \<noteq> None \<and> send_next_chunk env s = send_next_chunk env s3)"

lemma sent_okI:
  "send_next_chunk env s = Inr s' \<Longrightarrow> conn_ok I key h s' \<Longrightarrow> outcome env key h s s' \<Longrightarrow> sent_ok env key h I s"
  by (auto simp: sent_ok_def)

context surroundings
begin

text \<open>A client with nothing to send registers and looks again.\<close>

lemma send_waits:
  assumes s: "\<not> write_pending (cwr s)" "wr_path (cwr s) = Some key" "\<not> did_register (cwr s)"
    and s1: "look env key s = Inr (CACHE_NEW_NOT_LOADED, out, s1)" "conn_ok I key h s1" "cended s1 = None" "cwr s1 = cwr s"
      "cwrites s1 = cwrites s" "contents (ccache s1) key \<noteq> None"
  shows "sent_ok env key h I s"
proof -
  have np: "\<not> write_pending (cwr s1)" using s(1) s1(4) by simp
  obtain s2 where s2: "register_once env key s1 = Inr s2" "conn_ok I key h s2" "cended s2 = None" "did_register (cwr s2)"
      "cwrites s2 = cwrites s1" "grows key h (ccache s1) (ccache s2)"
    by (rule register_ok [OF s1(2,3) np])
  obtain st check s3 where s3: "look env key s2 = Inr (st, check, s3)" "conn_ok I key h s3" "cended s3 = None" "cwr s3 = cwr s2"
      "cwrites s3 = cwrites s2" "grows key h (ccache s2) (ccache s3)"
      "(st, check) = lookup_spec (contents (ccache s3) key) (length (passed s3)) 16384 no_output"
    by (rule look_ok [OF s2(2,3)])
  have there: "contents (ccache s3) key \<noteq> None"
    using grows_present [OF s3(6)] grows_present [OF s2(6)] s1(6) by blast
  have run: "send_next_chunk env s = (if out_size check > 0 \<or> \<not> out_loading check then send_next_chunk env s3 else Inr s3)"
    using s s1(1,4) s2(1) s3(1) by (subst send_next_chunk.simps) simp
  show ?thesis
  proof (cases "out_size check > 0 \<or> \<not> out_loading check")
    case True
    with run have "send_next_chunk env s = send_next_chunk env s3" by simp
    moreover have "did_register (cwr s3)" "cwrites s3 = cwrites s" using s1(5) s2(4,5) s3(4,5) by simp_all
    ultimately show ?thesis using s(3) s3(2,3) there unfolding sent_ok_def by blast
  next
    case idle: False
    have "contents (ccache s3) key = Some (True, passed s3)"
      by (rule lookup_cases [OF conn_okD(1) [OF s3(2,3)] s3(7)]) (use idle there in \<open>auto simp: word_gt_0 unat_eq_0 [symmetric]\<close>)
    then have "idle_ok key h s3" using conn_okD(6) [OF s3(2,3)] s2(4) s3(4) by (simp add: idle_ok_def)
    with run idle s3(2) show ?thesis by (auto simp: outcome_def intro: sent_okI)
  qed
qed

lemma send_step:
  assumes s: "conn_ok I key h s" "cended s = None"
  shows "sent_ok env key h I s"
proof (cases "write_pending (cwr s)")
  case True
  then have "send_next_chunk env s = Inr s" by (subst send_next_chunk.simps) simp
  with True s show ?thesis by (auto simp: idle_ok_def outcome_def intro: sent_okI)
next
  case np: False
  note ok = conn_okD [OF s]
  obtain st out s1 where s1: "look env key s = Inr (st, out, s1)" "conn_ok I key h s1" "cended s1 = None" "cwr s1 = cwr s"
      "cwrites s1 = cwrites s" "cops s1 = Suc (cops s)" "contents (ccache s1) = contents (ccache (others_act env s))"
      "grows key h (ccache s) (ccache s1)"
      "(st, out) = lookup_spec (contents (ccache s1) key) (length (passed s1)) 16384 no_output"
    by (rule look_ok [OF s])
  note ok1 = conn_okD [OF s1(2,3)]
  have np1: "\<not> write_pending (cwr s1)" using np s1(4) by simp
  show ?thesis
  proof (rule lookup_cases [OF ok1(1) s1(9)], goal_cases missing more waiting complete)
    case missing
    obtain s2 where s2: "register_once env key s1 = Inr s2" "conn_ok I key h s2" "cended s2 = None" "did_register (cwr s2)"
      "\<not> write_pending (cwr s2)" "cwrites s2 = cwrites s1" "cops s2 = Suc (cops s1)"
      by (rule register_ok [OF s1(2,3) np1])
    have "send_next_chunk env s = Inr (if did_register (cwr s) then s1 else s2)"
      using missing np ok(2) s1(1,4) s2(1) by (subst send_next_chunk.simps) simp
    moreover have "missed env key s (if did_register (cwr s) then s1 else s2)"
      using missing(1,2) s1(1,4,7) s2(1) np unfolding missed_def by fastforce
    ultimately show ?thesis using s1(2) s2(2) by (cases "did_register (cwr s)") (auto simp: outcome_def intro: sent_okI)
  next
    case (more ld r)
    let ?s' = "packet_sent env s s1 (take 16384 r) (out_size out)"
    have "send_next_chunk env s = Inr ?s'" using more s1(1,4) np ok(2) by (intro send_sends) simp_all
    moreover have "conn_ok I key h ?s'" by (rule packet_ok [OF s1(2-4) more(1,2,5)])
    moreover have "idle_ok key h ?s' \<or> refused_now s ?s'" using s1(5) more(2)
      by (cases "uv_write_ok env (cops s1)") (auto simp: idle_ok_def refused_now_def packet_sent_def)
    ultimately show ?thesis by (auto simp: outcome_def intro: sent_okI)
  next
    case waiting
    show ?thesis
    proof (cases "did_register (cwr s)")
      case True
      then have "send_next_chunk env s = Inr s1" using np ok(2) s1(1,4) waiting by (subst send_next_chunk.simps) simp
      moreover have "idle_ok key h s1" using True ok1(6) s1(4) waiting by (simp add: idle_ok_def)
      ultimately show ?thesis using s1(2) by (auto simp: outcome_def intro: sent_okI)
    next
      case False
      show ?thesis by (rule send_waits [OF np ok(2) False _ s1(2-5)]) (use s1(1) waiting in simp_all)
    qed
  next
    case complete
    have run: "send_next_chunk env s = free_write_req env All_Sent s1"
      using np ok(2) s1(1,4) complete by (subst send_next_chunk.simps) simp
    obtain s' where s': "free_write_req env All_Sent s1 = Inr s'" "cended s' = Some All_Sent" "stream_ok I key s'" "cwrites s' = cwrites s1"
      "\<forall>d. contents (ccache s1) key = Some (False, d) \<longrightarrow> contents (ccache s') key = Some (False, d)"
      by (rule free_run [OF ok1(1,2), of All_Sent])
    have "conn_ok I key h s'" using s'(2,3) s'(5) complete(1) log_cong(1) [OF s'(4)] by (simp add: conn_ok_def)
    then show ?thesis using run s'(1,2) by (auto simp: idle_ok_def outcome_def intro: sent_okI)
  qed
qed

lemma send_ok:
  assumes s: "conn_ok I key h s" "cended s = None"
  obtains s' where "send_next_chunk env s = Inr s'" "conn_ok I key h s'" "outcome env key h s s'"
  using send_step [OF assms] unfolding sent_ok_def
proof (elim disjE exE conjE)
  fix s3
  assume s3: "did_register (cwr s3)" "conn_ok I key h s3" "cended s3 = None" "contents (ccache s3) key \<noteq> None" "cwrites s3 = cwrites s"
    "send_next_chunk env s = send_next_chunk env s3"
  have "contents (ccache (others_act env s3)) key \<noteq> None"
    using grows_present [OF others_act_ok(2) [OF conn_okD(1) [OF s3(2,3)]] s3(4)] .
  then have "\<not> missed env key s3 s'" for s' by (simp add: missed_def)
  with send_step [OF s3(2,3)] s3(1,5,6) that show thesis
    unfolding sent_ok_def outcome_def refused_now_def by auto
qed blast

lemma missed_present: "conn_ok I key h s \<Longrightarrow> cended s = None \<Longrightarrow> contents (ccache s) key \<noteq> None \<Longrightarrow> \<not> missed env key s s'"
  using grows_present [OF others_act_ok(2) [OF conn_okD(1)]] unfolding missed_def by blast

text \<open>A packet of a finished entry.\<close>

lemma send_finished:
  assumes s: "conn_ok I key h s" "cended s = None" "\<not> write_pending (cwr s)"
    and d: "contents (ccache s) key = Some (False, passed s @ r)" and w: "\<And>i. cops s \<le> i \<Longrightarrow> uv_write_ok env i"
  obtains s' where "send_next_chunk env s = Inr s'" "conn_ok I key h s'" "contents (ccache s') key = Some (False, passed s @ r)"
    "cops s \<le> cops s'" "if r = [] then cended s' = Some All_Sent \<and> cwrites s' = cwrites s
      else cended s' = None \<and> write_pending (cwr s') \<and> cwrites s' = cwrites s @ [(take 16384 r, True)]"
proof -
  note ok = conn_okD [OF s(1,2)]
  obtain st out s1 where s1: "look env key s = Inr (st, out, s1)" "conn_ok I key h s1" "cended s1 = None" "cwr s1 = cwr s"
      "cwrites s1 = cwrites s" "cops s1 = Suc (cops s)" "grows key h (ccache s) (ccache s1)"
      "(st, out) = lookup_spec (contents (ccache s1) key) (length (passed s1)) 16384 no_output"
    by (rule look_ok [OF s(1,2)])
  have d1: "contents (ccache s1) key = Some (False, passed s1 @ r)"
    using grows_finished [OF s1(7) d] log_cong(1) [OF s1(5)] by simp
  note ok1 = conn_okD [OF s1(2,3)]
  show thesis
  proof (rule lookup_cases [OF ok1(1) s1(8)], goal_cases missing more waiting complete)
    case (more ld r')
    then have r: "r' = r" "r \<noteq> []" using d1 by auto
    let ?s' = "packet_sent env s s1 (take 16384 r) (out_size out)"
    have run: "send_next_chunk env s = Inr ?s'" using more s1(1,4) s(3) ok(2) r by (intro send_sends) simp_all
    have ok': "conn_ok I key h ?s'" by (rule packet_ok [OF s1(2-4) d1 r(2)]) (use more(5) r(1) in simp)
    show thesis by (rule that [OF run ok']) (use d1 s1(3,5,6) w [of "cops s1"] r(2) log_cong(1) [OF s1(5)] in \<open>simp_all add: packet_sent_def\<close>)
  next
    case complete
    then have r: "r = []" using d1 by simp
    have run: "send_next_chunk env s = free_write_req env All_Sent s1"
      using s(3) ok(2) s1(1,4) complete by (subst send_next_chunk.simps) simp
    obtain s' where s': "free_write_req env All_Sent s1 = Inr s'" "cended s' = Some All_Sent" "stream_ok I key s'" "cwrites s' = cwrites s1"
        "cops s1 \<le> cops s'" "\<forall>d. contents (ccache s1) key = Some (False, d) \<longrightarrow> contents (ccache s') key = Some (False, d)"
      by (rule free_run [OF ok1(1,2), of All_Sent])
    have d': "contents (ccache s') key = Some (False, passed s')" using s'(6) complete(1) log_cong(1) [OF s'(4)] by simp
    have ok': "conn_ok I key h s'" using s'(2,3) d' by (simp add: conn_ok_def)
    show thesis by (rule that [OF run [unfolded s'(1)] ok']) (use r d' s'(2,4,5) s1(5,6) log_cong(1) [OF s1(5)] log_cong(1) [OF s'(4)] in simp_all)
  qed (use d1 in auto)
qed

text \<open>The callbacks.\<close>

lemma ready_ok:
  assumes s: "conn_ok I key h s" "cended s = None"
  obtains s' where "on_data_ready env s = Inr s'" "conn_ok I key h s'" "outcome env key h s s'"
proof (cases "write_pending (cwr s)")
  case True
  with s that [of s] show thesis by (simp add: on_data_ready_def outcome_def idle_ok_def)
next
  case False
  obtain s' where "send_next_chunk env s = Inr s'" "conn_ok I key h s'" "outcome env key h s s'" by (rule send_ok [OF s])
  with False that show thesis by (simp add: on_data_ready_def)
qed

lemma unwritten_ok:
  assumes "conn_ok I key h s" "cended s = None"
  shows "conn_ok I key h (s\<lparr>cwr := (cwr s)\<lparr>write_pending := False\<rparr>\<rparr>)"
proof -
  note ok = conn_okD [OF assms]
  have "stream_ok I key (s\<lparr>cwr := (cwr s)\<lparr>write_pending := False\<rparr>\<rparr>)"
    using ok(1) stream_ok_cong [of "s\<lparr>cwr := (cwr s)\<lparr>write_pending := False\<rparr>\<rparr>" s I key] by simp
  then show ?thesis using ok assms(2) by (intro conn_okI) simp_all
qed

lemma written_ok:
  assumes s: "conn_ok I key h s" "cended s = None"
  obtains s' where "echo_write_buffer_load env status s = Inr s'" "conn_ok I key h s'"
    "contents (ccache s) key \<noteq> None \<longrightarrow> idle_ok key h s' \<or> refused_now s s'"
proof -
  let ?s = "s\<lparr>cwr := (cwr s)\<lparr>write_pending := False\<rparr>\<rparr>"
  have ok: "conn_ok I key h ?s" "cended ?s = None" using unwritten_ok [OF s] s(2) by simp_all
  note d = conn_okD [OF ok]
  obtain s1 where s1: "free_write_req env Write_Failed ?s = Inr s1" "cended s1 = Some Write_Failed" "stream_ok I key s1"
    by (rule free_run [OF d(1,2), of Write_Failed]) blast
  obtain s2 where s2: "send_next_chunk env ?s = Inr s2" "conn_ok I key h s2" "outcome env key h ?s s2" by (rule send_ok [OF ok])
  show thesis
  proof (cases "status = 0")
    case True
    have "idle_ok key h s2 \<or> refused_now s s2" if "contents (ccache s) key \<noteq> None"
      using missed_present [OF ok] that s2(3) by (auto simp: outcome_def refused_now_def)
    with True s2(1,2) d(3) that show thesis by (simp add: echo_write_buffer_load_def Let_def)
  next
    case False
    have "conn_ok I key h s1" "idle_ok key h s1" using s1(2,3) by (simp_all add: conn_ok_def idle_ok_def)
    with False s1(1) that show thesis by (simp add: echo_write_buffer_load_def Let_def)
  qed
qed

end

text \<open>The request as \<open>read_client\<close> sets it up for streaming.\<close>

definition fresh_conn :: "cache_t \<Rightarrow> int \<Rightarrow> cstring \<Rightarrow> handle \<Rightarrow> bool \<Rightarrow> conn" where
  "fresh_conn c clients key async task = new_conn c clients ((alloc_write_req_t key [] async)
    \<lparr>progress := \<lparr>progress_data = None, progress_size = 0, last_offset = 0, total_size = 0, progress_loading = True\<rparr>,
     has_task := task, was_async_init := True\<rparr>)"

lemma start_streaming_eq:
  "start_streaming env c clients key async task
    = rbind (send_next_chunk env (fresh_conn c clients key async (task \<noteq> None))) (\<lambda>s. Inr (Streaming s task, ccache s))"
  by (simp add: start_streaming_def fresh_conn_def)

lemma fresh_conn_fields [simp]:
  "ccache (fresh_conn c clients key async task) = c" "cended (fresh_conn c clients key async task) = None"
  "cwrites (fresh_conn c clients key async task) = []" "csent (fresh_conn c clients key async task) = []"
  "cwoken (fresh_conn c clients key async task) = False" "cops (fresh_conn c clients key async task) = 0"
  "wr_path (cwr (fresh_conn c clients key async task)) = Some key"
  "write_pending (cwr (fresh_conn c clients key async task)) = False"
  "did_register (cwr (fresh_conn c clients key async task)) = False"
  "data_ready_async (cwr (fresh_conn c clients key async task)) = async"
  "was_async_init (cwr (fresh_conn c clients key async task)) = True"
  "progress_loading (progress (cwr (fresh_conn c clients key async task))) = True"
  "last_offset (progress (cwr (fresh_conn c clients key async task))) = 0"
  "has_task (cwr (fresh_conn c clients key async task)) = task"
  by (simp_all add: fresh_conn_def new_conn_def alloc_write_req_t_def)

context surroundings
begin

lemma fresh_conn_ok:
  assumes "I 0 c"
  shows "conn_ok I key h (fresh_conn c clients key h task)"
proof -
  have "stream_ok I key (fresh_conn c clients key h task)"
    using assms by (simp add: stream_ok_def passed_def accepted_def split: option.split)
  then show ?thesis by (intro conn_okI) simp_all
qed

lemma start_ok:
  assumes "I 0 c"
  obtains s where "start_streaming env c clients key h task = Inr (Streaming s task, ccache s)" "conn_ok I key h s"
    "outcome env key h (fresh_conn c clients key h (task \<noteq> None)) s"
proof -
  obtain s where "send_next_chunk env (fresh_conn c clients key h (task \<noteq> None)) = Inr s" "conn_ok I key h s"
      "outcome env key h (fresh_conn c clients key h (task \<noteq> None)) s"
    by (rule send_ok [OF fresh_conn_ok [OF assms] fresh_conn_fields(2)])
  then show thesis by (intro that) (simp_all add: start_streaming_eq)
qed

end

section \<open>Whole connections\<close>

text \<open>
  The life of a streaming connection: libuv calls \<open>on_data_ready\<close> after a wake-up, and \<open>echo_write_buffer_load\<close> once for each write
  it accepted; in between, the cache changes as \<open>may\<close> allows. When the request is closed, so is the life of the connection.
\<close>

inductive conn_step :: "uv_env \<Rightarrow> (cache_t \<Rightarrow> cache_t \<Rightarrow> bool) \<Rightarrow> conn \<Rightarrow> conn res \<Rightarrow> bool" for env :: uv_env and may where
  ready: "cended s = None \<Longrightarrow> conn_step env may s (on_data_ready env s)"
| written: "cended s = None \<Longrightarrow> write_pending (cwr s) \<Longrightarrow> conn_step env may s (echo_write_buffer_load env status s)"
| elsewhere: "cended s = None \<Longrightarrow> may (ccache s) c \<Longrightarrow> conn_step env may s (Inr (s\<lparr>ccache := c\<rparr>))"

inductive conn_runs :: "uv_env \<Rightarrow> (cache_t \<Rightarrow> cache_t \<Rightarrow> bool) \<Rightarrow> conn \<Rightarrow> conn res \<Rightarrow> bool" for env :: uv_env and may where
  here: "conn_runs env may s (Inr s)"
| more_steps: "conn_runs env may s (Inr s') \<Longrightarrow> conn_step env may s' r \<Longrightarrow> conn_runs env may s r"

text \<open>What \<open>rely\<close> promises for every well-formed cache makes it \<open>surroundings\<close>.\<close>

definition any_cache :: "cstring \<Rightarrow> nat \<Rightarrow> cache_t \<Rightarrow> bool" where
  "any_cache key i c \<longleftrightarrow> cache_inv c \<and> small key c"

lemma rely_surroundings:
  assumes "rely key h env" "memory_ok env"
  shows "surroundings env key h (any_cache key)"
proof
  show "memory_ok env" by (rule assms(2))
  show "any_cache key i c \<Longrightarrow> cache_inv c \<and> small key c" for i c by (simp add: any_cache_def)
  show "any_cache key i c \<Longrightarrow> any_cache key (Suc i) (fst (others env i c)) \<and> grows key h c (fst (others env i c))" for i c
  proof
    assume "any_cache key i c"
    then show "grows key h c (fst (others env i c))" using assms(1) by (simp add: rely_def any_cache_def)
    then show "any_cache key (Suc i) (fst (others env i c))" using grows_small by (simp add: any_cache_def grows_inv)
  qed
  show "any_cache key i c \<Longrightarrow> own c c' \<Longrightarrow> any_cache key i c'" for i c c'
    by (simp add: any_cache_def own_def small_def)
qed

lemma conn_ok_elsewhere:
  assumes env: "rely key h env" "memory_ok env" and s: "conn_ok (any_cache key) key h s" "cended s = None"
    and g: "grows key h (ccache s) c"
  shows "conn_ok (any_cache key) key h (s\<lparr>ccache := c\<rparr>)"
proof -
  note ok = conn_okD [OF s] and sur = rely_surroundings [OF env]
  have "any_cache key (cops s) c" using g grows_small [OF g] by (simp add: any_cache_def grows_def)
  then have "stream_ok (any_cache key) key (s\<lparr>ccache := c\<rparr>)"
    by (intro surroundings.stream_ok_grows [OF sur ok(1) g]) simp_all
  then show ?thesis using ok s(2) surroundings.grows_waiters [OF sur g] by (intro conn_okI) simp_all
qed

lemma conn_step_ok:
  assumes env: "rely key h env" "memory_ok env" and s: "conn_ok (any_cache key) key h s" and st: "conn_step env (grows key h) s r"
  shows "\<exists>s'. r = Inr s' \<and> conn_ok (any_cache key) key h s'"
  using st
proof cases
  case ready
  then show ?thesis using surroundings.ready_ok [OF rely_surroundings [OF env] s] by metis
next
  case (written status)
  then show ?thesis using surroundings.written_ok [OF rely_surroundings [OF env] s] by metis
next
  case (elsewhere c)
  then show ?thesis using conn_ok_elsewhere [OF env s] by auto
qed

lemma conn_runs_ok:
  assumes run: "conn_runs env (grows key h) s r" and env: "rely key h env" "memory_ok env" and s: "conn_ok (any_cache key) key h s"
  shows "\<exists>s'. r = Inr s' \<and> conn_ok (any_cache key) key h s'"
  using run s
proof (induction rule: conn_runs.induct)
  case (more_steps s s' r)
  then show ?case using conn_step_ok [OF env] by blast
qed simp


section \<open>Completion\<close>

text \<open>
  What libuv does for a connection as long as it has something to do: it calls \<open>on_data_ready\<close> when a wake-up is pending, and
  \<open>echo_write_buffer_load\<close> when a write completes; when both are possible, the list says which comes first.
\<close>

fun drive :: "uv_env \<Rightarrow> bool list \<Rightarrow> conn \<Rightarrow> conn res" where
  "drive env [] s = Inr s"
| "drive env (b # bs) s =
     (if cended s \<noteq> None then Inr s
      else if cwoken s \<and> (b \<or> \<not> write_pending (cwr s)) then rbind (on_data_ready env (s\<lparr>cwoken := False\<rparr>)) (drive env bs)
      else if write_pending (cwr s) then rbind (echo_write_buffer_load env 0 s) (drive env bs)
      else Inr s)"

lemma drive_ended: "cended s \<noteq> None \<Longrightarrow> drive env bs s = Inr s"
  by (cases bs) simp_all

lemma conn_ok_woken [simp]: "conn_ok I key h (s\<lparr>cwoken := b\<rparr>) = conn_ok I key h s"
  using stream_ok_cong [of "s\<lparr>cwoken := b\<rparr>" s I key] by (simp add: conn_ok_def passed_def split: option.split ending.split)

text \<open>The callbacks still needed for \<open>r\<close> more bytes of a finished entry.\<close>

definition calls_left :: "byte list \<Rightarrow> conn \<Rightarrow> nat" where
  "calls_left r s = 2 * length r + (if cwoken s \<and> write_pending (cwr s) then 2 else 1)"

lemma calls_left_drop: "r \<noteq> [] \<Longrightarrow> calls_left (drop 16384 r) s' \<le> 2 * length r"
  by (cases r) (auto simp: calls_left_def)

context surroundings
begin

lemma drive_finishes:
  "conn_ok I key h s \<Longrightarrow> cended s = None \<Longrightarrow> cwoken s \<or> write_pending (cwr s) \<Longrightarrow>
    contents (ccache s) key = Some (False, passed s @ r) \<Longrightarrow> (\<And>i. cops s \<le> i \<Longrightarrow> uv_write_ok env i) \<Longrightarrow> calls_left r s \<le> length bs \<Longrightarrow>
    \<exists>s'. drive env bs s = Inr s' \<and> conn_ok I key h s' \<and> cended s' = Some All_Sent \<and> passed s' = passed s @ r \<and> refused s' = refused s"
proof (induction bs arbitrary: s r)
  case Nil
  then show ?case by (simp add: calls_left_def split: if_splits)
next
  case (Cons b bs)
  note ok = Cons.prems
  let ?go = "\<lambda>s1. \<exists>s'. drive env bs s1 = Inr s' \<and> conn_ok I key h s' \<and> cended s' = Some All_Sent \<and> passed s' = passed s @ r \<and> refused s' = refused s"
  have send: "\<exists>s1. send_next_chunk env s0 = Inr s1 \<and> ?go s1"
    if s0: "conn_ok I key h s0" "cended s0 = None" "\<not> write_pending (cwr s0)" "ccache s0 = ccache s" "cops s0 = cops s" "cwrites s0 = cwrites s"
    for s0
  proof -
    have d: "contents (ccache s0) key = Some (False, passed s0 @ r)" "\<And>i. cops s0 \<le> i \<Longrightarrow> uv_write_ok env i"
      using ok(4,5) s0(4,5) log_cong(1) [OF s0(6)] by simp_all
    obtain s1 where s1: "send_next_chunk env s0 = Inr s1" "conn_ok I key h s1" "contents (ccache s1) key = Some (False, passed s0 @ r)"
        "cops s0 \<le> cops s1" "if r = [] then cended s1 = Some All_Sent \<and> cwrites s1 = cwrites s0
          else cended s1 = None \<and> write_pending (cwr s1) \<and> cwrites s1 = cwrites s0 @ [(take 16384 r, True)]"
      by (rule send_finished [OF s0(1-3) d])
    have "?go s1"
    proof (cases "r = []")
      case True
      with s1(2,5) s0(6) drive_ended [of s1 env bs] show ?thesis by (auto simp: passed_def refused_def)
    next
      case False
      then have s2: "cended s1 = None" "write_pending (cwr s1)" "cwrites s1 = cwrites s @ [(take 16384 r, True)]"
        using s1(5) s0(6) by simp_all
      then have log: "passed s1 = passed s @ take 16384 r" "refused s1 = refused s" by (simp_all add: passed_def refused_def)
      have "Suc (2 * length r) \<le> calls_left r s" by (simp add: calls_left_def)
      then have "calls_left (drop 16384 r) s1 \<le> length bs" using calls_left_drop [OF False, of s1] ok(6) by simp
      moreover have "contents (ccache s1) key = Some (False, passed s1 @ drop 16384 r)"
        using s1(3) log(1) log_cong(1) [OF s0(6)] by simp
      moreover have "uv_write_ok env i" if "cops s1 \<le> i" for i using ok(5) that s1(4) s0(5) by simp
      ultimately have "\<exists>s'. drive env bs s1 = Inr s' \<and> conn_ok I key h s' \<and> cended s' = Some All_Sent \<and> passed s' = passed s1 @ drop 16384 r
          \<and> refused s' = refused s1" using Cons.IH [OF s1(2) s2(1)] s2(2) by blast
      then show ?thesis using log by simp
    qed
    with s1(1) show ?thesis by blast
  qed
  consider (wasted) "cwoken s" "write_pending (cwr s)" b | (woken) "cwoken s" "\<not> write_pending (cwr s)"
    | (written) "write_pending (cwr s)" "\<not> (cwoken s \<and> b)" using ok(3) by blast
  then show ?case
  proof cases
    case wasted
    let ?s = "s\<lparr>cwoken := False\<rparr>"
    have "calls_left r ?s \<le> length bs" using ok(6) wasted(1,2) by (simp add: calls_left_def)
    from Cons.IH [OF _ _ _ _ _ this] ok wasted show ?thesis by (simp add: on_data_ready_def)
  next
    case woken
    with send [of "s\<lparr>cwoken := False\<rparr>"] ok(1,2) show ?thesis by (auto simp: on_data_ready_def)
  next
    case written
    with send [of "s\<lparr>cwr := (cwr s)\<lparr>write_pending := False\<rparr>\<rparr>"] unwritten_ok [OF ok(1,2)] ok(2) conn_okD(3) [OF ok(1,2)]
    show ?thesis by (auto simp: echo_write_buffer_load_def Let_def)
  qed
qed

end

section \<open>Quiet connections\<close>

text \<open>
  A connection with nothing pending that has not been refused a write is registered, and the entry is missing or still loading; what
  it holds is sent, or none of it.
\<close>

definition settled :: "cstring \<Rightarrow> handle \<Rightarrow> conn \<Rightarrow> bool" where
  "settled key h s \<longleftrightarrow> cended s \<noteq> None \<or> refused s \<or> write_pending (cwr s) \<or> cwoken s
     \<or> (h \<in> set (waiters (ccache s) key) \<and> (contents (ccache s) key \<in> {None, Some (True, passed s)}
          \<or> cwrites s = [] \<and> (\<exists>d. contents (ccache s) key = Some (True, d))))"

definition entered :: "cstring \<Rightarrow> conn \<Rightarrow> bool" where
  "entered key s \<longleftrightarrow> cended s \<noteq> None \<or> did_register (cwr s) \<or> contents (ccache s) key \<noteq> None"

lemma idle_settled: "idle_ok key h s \<Longrightarrow> settled key h s"
  by (auto simp: idle_ok_def settled_def)

lemma refused_now_refused: "refused_now s s' \<Longrightarrow> refused s'"
  by (auto simp: refused_now_def refused_def)

lemma refused_settled: "refused_now s s' \<Longrightarrow> settled key h s'"
  by (simp add: refused_now_refused settled_def)

lemma settled_woken [simp]: "entered key (s\<lparr>cwoken := b\<rparr>) = entered key s"
  by (simp add: entered_def)

context surroundings
begin

lemma others_conn_ok:
  assumes "conn_ok I key h s" "cended s = None"
  shows "conn_ok I key h (others_act env s)"
proof -
  note ok = conn_okD [OF assms] and o = others_act_ok [OF conn_okD(1) [OF assms]]
  show ?thesis by (rule conn_okI [OF o(1)]) (use ok assms(2) grows_waiters [OF o(2)] in simp_all)
qed

lemma others_entered: "conn_ok I key h s \<Longrightarrow> entered key s \<Longrightarrow> cended s = None \<Longrightarrow> entered key (others_act env s)"
  using grows_present [OF others_act_ok(2) [OF conn_okD(1)]] by (auto simp: entered_def)

lemma wrote_present: "conn_ok I key h s \<Longrightarrow> cended s = None \<Longrightarrow> cwrites s \<noteq> [] \<Longrightarrow> contents (ccache s) key \<noteq> None"
  by (cases "contents (ccache s) key") (simp_all add: conn_ok_def stream_ok_def)

lemma missed_registered:
  assumes s: "conn_ok I key h s" "cended s = None" and m: "missed env key s s'"
  shows "did_register (cwr s')" "h \<in> set (waiters (ccache s') key)" "cended s' = None" "cwrites s' = []"
    "if did_register (cwr s) then contents (ccache s') key = None
     else \<exists>s1. contents (ccache s1) key = None \<and> conn_ok I key h s1 \<and> cops s1 = Suc (cops s) \<and> register_once env key s1 = Inr s'"
proof -
  obtain out s1 where s1: "\<not> write_pending (cwr s)" "contents (ccache (others_act env s)) key = None"
      "look env key s = Inr (CACHE_NOT_FOUND, out, s1)" "(if did_register (cwr s1) then Inr s1 else register_once env key s1) = Inr s'"
    using m unfolding missed_def by blast
  have "conn_ok I key h s1 \<and> cended s1 = None \<and> cwr s1 = cwr s \<and> cops s1 = Suc (cops s) \<and> cwrites s1 = cwrites s
      \<and> contents (ccache s1) key = None"
    by (rule look_ok [OF s]) (use s1(2,3) in auto)
  then have s2: "conn_ok I key h s1" "cended s1 = None" "cwr s1 = cwr s" "cops s1 = Suc (cops s)" "cwrites s1 = cwrites s"
      "contents (ccache s1) key = None" by blast+
  have w: "cwrites s = []" using wrote_present [OF s2(1,2)] s2(5,6) by auto
  have np: "\<not> write_pending (cwr s1)" using s1(1) s2(3) by simp
  have "did_register (cwr s') \<and> h \<in> set (waiters (ccache s') key) \<and> cended s' = None \<and> cwrites s' = []
      \<and> (if did_register (cwr s) then contents (ccache s') key = None
         else \<exists>s1. contents (ccache s1) key = None \<and> conn_ok I key h s1 \<and> cops s1 = Suc (cops s) \<and> register_once env key s1 = Inr s')"
  proof (cases "did_register (cwr s1)")
    case True
    then show ?thesis using s1(4) s2 w conn_okD(6) [OF s2(1,2)] by simp
  next
    case False
    obtain s3 where s3: "register_once env key s1 = Inr s3" "conn_ok I key h s3" "cended s3 = None" "did_register (cwr s3)"
        "cwrites s3 = cwrites s1"
      by (rule register_ok [OF s2(1,2) np]) blast
    have "s' = s3" using s1(4) s3(1) False by simp
    with False s2 s3 w conn_okD(6) [OF s3(2,3)] s3(1) show ?thesis by auto
  qed
  then show "did_register (cwr s')" "h \<in> set (waiters (ccache s') key)" "cended s' = None" "cwrites s' = []"
    "if did_register (cwr s) then contents (ccache s') key = None
     else \<exists>s1. contents (ccache s1) key = None \<and> conn_ok I key h s1 \<and> cops s1 = Suc (cops s) \<and> register_once env key s1 = Inr s'"
    by blast+
qed

lemma outcome_entered:
  assumes "conn_ok I key h s" "cended s = None" "conn_ok I key h s'" "outcome env key h s s'"
  shows "entered key s'"
  using assms(4) unfolding outcome_def
proof (elim disjE)
  assume "idle_ok key h s'"
  then show ?thesis using wrote_present [OF assms(3)] conn_okD(7) [OF assms(3)] by (auto simp: idle_ok_def entered_def)
next
  assume "refused_now s s'"
  then have "cwrites s' \<noteq> []" by (auto simp: refused_now_def)
  then show ?thesis using wrote_present [OF assms(3)] by (auto simp: entered_def)
next
  assume "missed env key s s'"
  from missed_registered(1) [OF assms(1,2) this] show ?thesis by (simp add: entered_def)
qed

lemma outcome_settled:
  assumes "conn_ok I key h s" "cended s = None" "entered key s" "outcome env key h s s'"
  shows "settled key h s'"
  using assms(4) unfolding outcome_def
proof (elim disjE)
  assume m: "missed env key s s'"
  then have "did_register (cwr s)" using assms(2,3) missed_present [OF assms(1,2)] by (auto simp: entered_def)
  with missed_registered(2,5) [OF assms(1,2) m] show ?thesis by (simp add: settled_def)
qed (rule idle_settled refused_settled, assumption)+

end

context notifying
begin

lemma others_settled:
  assumes s: "conn_ok I key h s" "cended s = None" and st: "settled key h s"
  shows "settled key h (others_act env s)"
proof (cases "refused s \<or> write_pending (cwr s) \<or> cwoken s")
  case True
  then show ?thesis by (auto simp: settled_def)
next
  case False
  let ?c = "ccache s" and ?c' = "fst (others env (cops s) (ccache s))"
  note ok = conn_okD [OF s]
  have i: "I (cops s) ?c" using ok(1) by (simp add: stream_ok_def)
  have g: "grows key h ?c ?c'" using others_keep [OF i] by simp
  have r: "h \<in> set (waiters ?c key)" and now: "contents ?c key \<in> {None, Some (True, passed s)}
      \<or> cwrites s = [] \<and> (\<exists>d. contents ?c key = Some (True, d))"
    using st s(2) False by (auto simp: settled_def)
  have r': "h \<in> set (waiters ?c' key)" by (rule grows_waiters [OF g r])
  consider (same) "contents ?c' key = contents ?c key" | (new) "contents ?c' key = Some (True, [])" | (more) "h \<in> set (snd (others env (cops s) ?c))"
    using wakes [OF i r] by blast
  then show ?thesis
  proof cases
    case same
    with now r' show ?thesis by (simp add: settled_def)
  next
    case new
    have "passed s = []"
    proof (cases "contents ?c key")
      case None
      then show ?thesis using ok(1) by (simp add: stream_ok_def passed_def)
    next
      case (Some x)
      with g new ok(1) show ?thesis by (auto simp: stream_ok_def grows_def)
    qed
    with new r' show ?thesis by (simp add: settled_def)
  next
    case more
    then show ?thesis using ok(5) by (simp add: settled_def)
  qed
qed

end

section \<open>Any other threads\<close>

text \<open>
  Whatever the other threads do to the cache, sweeps and failed loads included, as long as it stays well formed: no callback faults.
\<close>

definition intact :: "cstring \<Rightarrow> conn \<Rightarrow> bool" where
  "intact key s \<longleftrightarrow> cache_inv (ccache s) \<and> csent s = accepted s
     \<and> (cended s = None \<longrightarrow> wr_path (cwr s) = Some key \<and> progress_loading (progress (cwr s)))"

lemma intact_write:
  "intact key s1 \<Longrightarrow> wr_path wr = Some key \<Longrightarrow> progress_loading (progress wr) \<Longrightarrow> intact key (write_out env d (s1\<lparr>cwr := wr\<rparr>))"
  by (simp add: intact_def)

lemma look_safe:
  assumes env: "memory_ok env" "keeps_inv env" and s: "intact key s" "cended s = None"
  obtains st out s1 where "look env key s = Inr (st, out, s1)" "intact key s1" "cended s1 = None" "cwr s1 = cwr s"
proof -
  let ?s = "others_act env s"
  have i: "cache_inv (ccache ?s)" using env(2) s(1) by (simp add: keeps_inv_def intact_def)
  from lookup_run [OF i, of key "last_offset (progress (cwr s))" PACKET_SIZE "time_now env (cops ?s)" no_output] obtain st out c where
    c: "cache_lookup_partial (ccache ?s) key (last_offset (progress (cwr s))) PACKET_SIZE (time_now env (cops ?s)) True no_output
      = Inr (st, out, c)" "cache_inv c" by blast
  show thesis by (rule that [of st out "?s\<lparr>ccache := c\<rparr>"]) (use c s env(1) in \<open>simp_all add: look_def Let_def intact_def memory_ok_def\<close>)
qed

lemma register_safe:
  assumes env: "memory_ok env" "keeps_inv env" and s: "intact key s" "cended s = None"
  obtains s1 where "register_once env key s = Inr s1" "intact key s1" "cended s1 = None" "cwr s1 = (cwr s)\<lparr>did_register := True\<rparr>"
proof -
  let ?s = "others_act env s"
  have i: "cache_inv (ccache ?s)" using env(2) s(1) by (simp add: keeps_inv_def intact_def)
  obtain c where c: "cache_register_waiter (ccache ?s) key (data_ready_async (cwr s)) True True = Inr (0, c)" "own (ccache ?s) c"
    by (rule register_own [OF i]) blast
  show thesis
    by (rule that [of "?s\<lparr>ccache := c, cwr := (cwr s)\<lparr>did_register := True\<rparr>\<rparr>"])
      (use c s env(1) in \<open>simp_all add: register_once_def Let_def intact_def memory_ok_def own_def\<close>)
qed

lemma free_safe:
  assumes env: "keeps_inv env" and s: "intact key s" "cended s = None"
  obtains s1 where "free_write_req env why s = Inr s1" "intact key s1" "cended s1 = Some why"
proof (cases "was_async_init (cwr s)")
  case False
  with s that show thesis by (auto simp: free_write_req_def Let_def intact_def accepted_def)
next
  case True
  let ?s = "others_act env s"
  have i: "cache_inv (ccache ?s)" using env s(1) by (simp add: keeps_inv_def intact_def)
  obtain r c where c: "cache_unregister_waiter (ccache ?s) key (data_ready_async (cwr s)) = Inr (r, c)" "own (ccache ?s) c"
    by (rule unregister_own [OF i])
  then show thesis using True s that by (auto simp: free_write_req_def Let_def intact_def accepted_def own_def)
qed

lemma send_safe:
  assumes env: "memory_ok env" "keeps_inv env"
  shows "intact key s \<Longrightarrow> cended s = None \<Longrightarrow> \<exists>s'. send_next_chunk env s = Inr s' \<and> intact key s'"
proof (induction "if did_register (cwr s) then 0 else 1 :: nat" arbitrary: s rule: less_induct)
  case less
  obtain st out s1 where s1: "look env key s = Inr (st, out, s1)" "intact key s1" "cended s1 = None" "cwr s1 = cwr s"
    by (rule look_safe [OF env less.prems])
  have path: "wr_path (cwr s) = Some key" "progress_loading (progress (cwr s))" using less.prems by (simp_all add: intact_def)
  obtain s2 where s2: "register_once env key s1 = Inr s2" "intact key s2" "cended s2 = None" "cwr s2 = (cwr s1)\<lparr>did_register := True\<rparr>"
    by (rule register_safe [OF env s1(2,3)])
  obtain st' out' s3 where s3: "look env key s2 = Inr (st', out', s3)" "intact key s3" "cended s3 = None" "cwr s3 = cwr s2"
    by (rule look_safe [OF env s2(2,3)])
  obtain f1 where f1: "free_write_req env All_Sent s1 = Inr f1" "intact key f1" by (rule free_safe [OF env(2) s1(2,3)]) blast
  obtain f2 where f2: "free_write_req env Cache_Failed s1 = Inr f2" "intact key f2" by (rule free_safe [OF env(2) s1(2,3)]) blast
  have again: "\<exists>s'. send_next_chunk env s3 = Inr s' \<and> intact key s'" if "\<not> did_register (cwr s)"
    using less.hyps [OF _ s3(2,3)] that s2(4) s3(4) by simp
  have wr: "intact key (write_out env d (s1\<lparr>cwr := wr\<rparr>))" if "wr_path wr = Some key" "progress_loading (progress wr)" for d wr
    by (rule intact_write [OF s1(2) that])
  note run = send_next_chunk.simps [of env s] path(1) s1(1,4) s2(1) s3(1) f1(1) f2(1)
  show ?case
  proof (cases "write_pending (cwr s)")
    case True
    with less.prems(1) show ?thesis by (simp add: run)
  next
    case False
    show ?thesis
    proof (cases st)
      case CACHE_NEW_NOT_LOADED
      with False again s1(2) s3(2) show ?thesis by (simp add: run)
    qed (use False path s1(2) s2(2) f1(2) f2(2) in \<open>simp_all add: run advance_def wr\<close>)
  qed
qed

lemma step_safe:
  assumes env: "memory_ok env" "keeps_inv env" and s: "intact key s" and st: "conn_step env (\<lambda>_. cache_inv) s r"
  shows "\<exists>s'. r = Inr s' \<and> intact key s'"
  using st
proof cases
  case ready
  then show ?thesis using send_safe [OF env s] s by (simp add: on_data_ready_def)
next
  case (written status)
  let ?s = "s\<lparr>cwr := (cwr s)\<lparr>write_pending := False\<rparr>\<rparr>"
  have ok: "intact key ?s" "cended ?s = None" using s written(2) by (simp_all add: intact_def)
  obtain s1 where s1: "free_write_req env Write_Failed ?s = Inr s1" "intact key s1" by (rule free_safe [OF env(2) ok]) blast
  have "progress_loading (progress (cwr s))" using s written(2) by (simp add: intact_def)
  with written(1) s1 send_safe [OF env ok] show ?thesis by (simp add: echo_write_buffer_load_def Let_def)
next
  case (elsewhere c)
  with s show ?thesis by (simp add: intact_def)
qed

lemma runs_safe:
  assumes "conn_runs env (\<lambda>_. cache_inv) s r" "memory_ok env" "keeps_inv env" "intact key s"
  shows "\<exists>s'. r = Inr s' \<and> intact key s'"
  using assms(1,4)
proof (induction rule: conn_runs.induct)
  case (more_steps s s' r)
  then show ?case using step_safe [OF assms(2,3)] by blast
qed simp

lemma start_safe:
  assumes env: "memory_ok env" "keeps_inv env" and c: "cache_inv c"
  obtains s where "start_streaming env c clients key async task = Inr (Streaming s task, ccache s)" "intact key s"
proof -
  have "intact key (fresh_conn c clients key async (task \<noteq> None))" using c by (simp add: intact_def accepted_def)
  with send_safe [OF env this] that show thesis by (auto simp: start_streaming_eq)
qed

section \<open>Properties\<close>

text \<open>
  Property C2. Streaming a response. The allocator never fails here, and the other threads keep the cache well formed. Whatever else
  they do to it (sweep, cancel or replace the entry, unregister the client), a streaming request starts without a fault and no
  callback of it faults, and what the client gets is exactly the bytes of the writes that \<open>uv_write\<close> accepted. If
  the other threads let the entry of the key only grow, then the bytes passed to \<open>uv_write\<close> are always a prefix of what the entry
  holds, and when the request is closed as completely sent they are the complete response. The client gets all bytes that were passed on
  unless \<open>uv_write\<close> has refused one of the writes: the code goes on behind a refused packet, which leaves a hole in what the client gets.
\<close>

theorem client_gets_response:
  assumes "memory_ok env" "keeps_inv env" "cache_inv c"
  shows "\<exists>s. start_streaming env c clients key async task = Inr (Streaming s task, ccache s)
    \<and> (\<forall>r. conn_runs env (\<lambda>_. cache_inv) s r \<longrightarrow> (\<exists>s'. r = Inr s' \<and> csent s' = accepted s'))
    \<and> (rely key async env \<and> small key c \<longrightarrow> (\<forall>r. conn_runs env (grows key async) s r \<longrightarrow> (\<exists>s'. r = Inr s'
        \<and> (case contents (ccache s') key of None \<Rightarrow> cwrites s' = [] | Some (_, d) \<Rightarrow> (\<exists>rest. d = passed s' @ rest))
        \<and> (cended s' = Some All_Sent \<longrightarrow> contents (ccache s') key = Some (False, passed s'))
        \<and> (\<not> refused s' \<longrightarrow> csent s' = passed s'))))"
proof -
  obtain s where s: "start_streaming env c clients key async task = Inr (Streaming s task, ccache s)" "intact key s"
    by (rule start_safe [OF assms])
  have "\<exists>s'. r = Inr s' \<and> conn_ok (any_cache key) key async s'"
    if env: "rely key async env" "small key c" and run: "conn_runs env (grows key async) s r" for r
  proof -
    have "any_cache key 0 c" using assms(3) env(2) by (simp add: any_cache_def)
    then have "conn_ok (any_cache key) key async s"
      by (rule surroundings.start_ok [OF rely_surroundings [OF env(1) assms(1)], of c clients task]) (use s(1) in simp)
    then show ?thesis by (rule conn_runs_ok [OF run env(1) assms(1)])
  qed
  moreover have "\<exists>s'. r = Inr s' \<and> csent s' = accepted s'" if "conn_runs env (\<lambda>_. cache_inv) s r" for r
    using runs_safe [OF that assms(1,2) s(2)] by (auto simp: intact_def)
  ultimately show ?thesis using s(1) all_accepted by (fastforce simp: conn_ok_def stream_ok_def)
qed

text \<open>
  Property C22. No lost wake-up once the entry exists: after \<open>send_next_chunk\<close> the request is closed,
  or a write is in flight, or the entry is still loading, everything it holds was passed on, and the
  request is registered with it, so that the next append or the end of the load wakes it; or \<open>uv_write\<close> has just refused the
  packet, and then the request may hang. It holds
  although other threads may append between the lookup and the registration, because the code looks
  again after registering. The allocator does not fail, and the other threads let the entry only grow.
\<close>

theorem no_lost_wakeup:
  assumes "rely key h env" "memory_ok env" "conn_ok (any_cache key) key h s" "cended s = None" "contents (ccache s) key \<noteq> None"
  shows "\<exists>s'. send_next_chunk env s = Inr s' \<and> (cended s' \<noteq> None \<or> write_pending (cwr s')
     \<or> h \<in> set (waiters (ccache s') key) \<and> contents (ccache s') key = Some (True, passed s')
     \<or> (\<exists>d. d \<noteq> [] \<and> cwrites s' = cwrites s @ [(d, False)]))"
proof -
  note sur = rely_surroundings [OF assms(1,2)]
  obtain s' where "send_next_chunk env s = Inr s'" "outcome env key h s s'"
    by (rule surroundings.send_ok [OF sur assms(3,4)]) blast
  with surroundings.missed_present [OF sur assms(3-5)] show ?thesis by (auto simp: outcome_def idle_ok_def refused_now_def)
qed

section \<open>Examples\<close>

definition quiet :: uv_env where
  "quiet = \<lparr>others = (\<lambda>_ c. (c, [])), uv_write_ok = (\<lambda>_. True), time_now = (\<lambda>_. 9), mem = (\<lambda>_. True), mem_table = (\<lambda>_. True)\<rparr>"

lemma quiet_ok: "rely key h quiet" "memory_ok quiet" "keeps_inv quiet"
  by (auto simp: rely_def quiet_def memory_ok_def keeps_inv_def intro: grows_refl)

definition demo_conn :: "cache_t \<Rightarrow> conn" where
  "demo_conn c = (new_conn c 1 ((alloc_write_req_t [107] [] 4)
     \<lparr>progress := \<lparr>progress_data = None, progress_size = 0, last_offset = 1, total_size = 0, progress_loading = True\<rparr>,
      was_async_init := True\<rparr>))\<lparr>csent := [1], cwrites := [([1], True)]\<rparr>"




lemma demo_conn_ok: "conn_ok (any_cache [107]) [107] 4 (demo_conn cache_of_one)"
  using cache_of_one_ok
  by (simp add: conn_ok_def stream_ok_def any_cache_def small_def demo_conn_def new_conn_def alloc_write_req_t_def passed_def accepted_def)

theorem client_gets_response_witness:
  "\<exists>s. start_streaming quiet cache_of_one 1 [107] 4 None = Inr (Streaming s None, ccache s) \<and> csent s = accepted s
     \<and> (case contents (ccache s) [107] of None \<Rightarrow> cwrites s = [] | Some (_, d) \<Rightarrow> (\<exists>rest. d = passed s @ rest))"
proof -
  have small: "rely [107] 4 quiet \<and> small [107] cache_of_one" using cache_of_one_ok(4) quiet_ok(1) by (simp add: small_def)
  from client_gets_response [OF quiet_ok(2,3) cache_of_one_ok(1), of 1 "[107]" 4 None] obtain s where
    s: "start_streaming quiet cache_of_one 1 [107] 4 None = Inr (Streaming s None, ccache s)"
      "\<forall>r. conn_runs quiet (\<lambda>_. cache_inv) s r \<longrightarrow> (\<exists>s'. r = Inr s' \<and> csent s' = accepted s')"
      "\<forall>r. conn_runs quiet (grows [107] 4) s r \<longrightarrow> (\<exists>s'. r = Inr s'
        \<and> (case contents (ccache s') [107] of None \<Rightarrow> cwrites s' = [] | Some (_, d) \<Rightarrow> (\<exists>rest. d = passed s' @ rest)))"
    using small by blast
  show ?thesis using s(1) s(2) [rule_format, OF conn_runs.here] s(3) [rule_format, OF conn_runs.here] by auto
qed

theorem no_lost_wakeup_witness:
  "\<exists>s'. send_next_chunk quiet (demo_conn cache_of_one) = Inr s' \<and> (cended s' \<noteq> None \<or> write_pending (cwr s')
     \<or> 4 \<in> set (waiters (ccache s') [107]) \<and> contents (ccache s') [107] = Some (True, passed s')
     \<or> (\<exists>d. d \<noteq> [] \<and> cwrites s' = cwrites (demo_conn cache_of_one) @ [(d, False)]))"
proof -
  have "cended (demo_conn cache_of_one) = None" "contents (ccache (demo_conn cache_of_one)) [107] \<noteq> None"
    using cache_of_one_ok(4) by (simp_all add: demo_conn_def new_conn_def)
  from no_lost_wakeup [OF quiet_ok(1,2) demo_conn_ok this] show ?thesis .
qed

section \<open>Requests\<close>




text \<open>
  Two requests for different paths can have the same key, because the path and the
  referer are joined without a separator; the second client then gets the response of the first. Any
  header whose name is a prefix of "Referer" counts as the referer.
\<close>

lemma different_paths_same_key:
  "\<exists>req1 req2. rpath req1 \<noteq> rpath req2 \<and> client_key req1 = client_key req2 \<and> client_key req1 = Inr [47, 97, 98]
     \<and> (\<exists>h \<in> set (req_headers req1). hname h = [82])"
proof -
  let ?r1 = "\<lparr>rmethod = [71], rpath = [47, 97], req_minor_version = 1, req_headers = [\<lparr>hname = [82], hvalue = [98]\<rparr>]\<rparr>"
  let ?r2 = "\<lparr>rmethod = [71], rpath = [47, 97, 98], req_minor_version = 1, req_headers = []\<rparr>"
  have "client_key ?r1 = Inr [47, 97, 98]" "client_key ?r2 = Inr [47, 97, 98]"
    by (simp_all add: client_key_def find_referer_def cstr_def strncmp_eq_def referer_name_def)
  then show ?thesis by (intro exI [of _ ?r1] exI [of _ ?r2]) simp
qed

end
