(* ===== verification/Proxy_Serves.thy ===== *)
theory Proxy_Serves
  imports Backend_Stream
begin

text \<open>
  The background worker and a connection together. \<open>Backend_Stream\<close> shows what a client gets when
  the other threads only let the entry of its key grow; here the other thread is the worker that
  \<open>read_client\<close> launched. Its operations on the cache (start the entry, one write callback for each
  piece libcurl delivers, finish the entry), with the clients they wake, are interleaved in any way with the operations of the
  connection, and further threads use the rest of the cache in between. That the worker wakes a registered client is proved from
  its operations (\<open>load_ops_wake\<close>); it is the law of the locale \<open>notifying\<close>.
\<close>

section \<open>The operations of a load\<close>

text \<open>
  One successful load: the block the allocator gives for the entry, whether \<open>realloc\<close> succeeds, the pieces of the response, the
  time, the handles that are closing, and the task. \<open>load_op job k\<close> is the \<open>k\<close>-th operation of
  \<open>load_http_resp\<close> on the cache, with the handles it calls \<open>uv_async_send\<close> for.
\<close>

record load_job =
  job_block :: addr
  job_memory :: bool
  job_chunks :: "byte list list"
  job_now :: int
  job_closing :: "handle \<Rightarrow> bool"
  job_task :: task_t

definition load_op :: "load_job \<Rightarrow> nat \<Rightarrow> cache_t \<Rightarrow> cache_t \<times> handle list" where
  "load_op job k c =
     (if k = 0 then
        (case cache_start_loading c (task_key (job_task job)) (job_now job) (env_at (job_block job)) of
           Inr (_, c') \<Rightarrow> (c', []) | Inl _ \<Rightarrow> (c, []))
      else if k \<le> length (job_chunks job) then
        (case write_callback (job_now job) (job_memory job) (job_closing job)
            (\<lparr>wcache = c, wtask = job_task job, wwoken = []\<rparr>, \<lparr>ctx_entry = Some (job_block job), ctx_total_size = 0\<rparr>)
            (job_chunks job ! (k - 1)) of
           Some (Inr (_, (wk, _))) \<Rightarrow> (wcache wk, wwoken wk) | _ \<Rightarrow> (c, []))
      else if k = Suc (length (job_chunks job)) then
        (case cache_finish_loading c (Some (job_block job)) (job_now job) (job_memory job) (job_closing job) of
           Inr (_, c', woken) \<Rightarrow> (c', woken) | Inl _ \<Rightarrow> (c, []))
      else (c, []))"

text \<open>Several operations, one after the other.\<close>

definition load_ops :: "load_job \<Rightarrow> nat list \<Rightarrow> cache_t \<Rightarrow> cache_t \<times> handle list" where
  "load_ops job ks c = fold (\<lambda>k (c, woken). (fst (load_op job k c), woken @ snd (load_op job k c))) ks (c, [])"

lemma load_ops_simps [simp]:
  "load_ops job [] c = (c, [])"
  "load_ops job (ks @ [k]) c = (fst (load_op job k (fst (load_ops job ks c))), snd (load_ops job ks c) @ snd (load_op job k (fst (load_ops job ks c))))"
  by (simp_all add: load_ops_def split: prod.split)

definition response :: "load_job \<Rightarrow> byte list" where
  "response job = concat (job_chunks job)"

definition job_ok :: "load_job \<Rightarrow> bool" where
  "job_ok job \<longleftrightarrow> \<not> should_stop (job_task job) \<and> job_memory job \<and> length (response job) \<le> 2 ^ 63"

text \<open>What the cache holds for the key after the first \<open>k\<close> operations.\<close>

definition loaded :: "load_job \<Rightarrow> nat \<Rightarrow> (bool \<times> byte list) option" where
  "loaded job k = (if k = 0 then None
     else Some (k \<le> Suc (length (job_chunks job)), concat (take (k - 1) (job_chunks job))))"

definition at_phase :: "load_job \<Rightarrow> nat \<Rightarrow> cache_t \<Rightarrow> bool" where
  "at_phase job k c \<longleftrightarrow> cache_inv c \<and> contents c (task_key (job_task job)) = loaded job k
     \<and> (if k = 0 then entries c (job_block job) = None else entry_at c (task_key (job_task job)) = Some (job_block job))"

lemma concat_take_le: "length (concat (take k xss)) \<le> length (concat xss)"
  by (metis append_take_drop_id concat_append le_add1 length_append)

lemma concat_take_snoc: "0 < k \<Longrightarrow> k \<le> length xss \<Longrightarrow> concat (take (k - 1) xss) @ xss ! (k - 1) = concat (take k xss)"
  by (cases k) (simp_all add: take_Suc_conv_app_nth)

lemma append_room:
  assumes "job_ok job" "0 < k" "k \<le> length (job_chunks job)"
  shows "length (concat (take (k - 1) (job_chunks job))) + length (job_chunks job ! (k - 1)) \<le> 2 ^ 63"
  using arg_cong [OF concat_take_snoc [OF assms(2,3)], of length] concat_take_le [of k "job_chunks job"] assms(1)
  by (simp add: job_ok_def response_def)

text \<open>One operation: the next phase, the clients stay registered, and they are woken unless the entry was just started or is finished.\<close>

lemma load_op_phase:
  assumes "job_ok job" "at_phase job k c"
  shows "at_phase job (Suc k) (fst (load_op job k c))"
    "waiters (fst (load_op job k c)) (task_key (job_task job)) = waiters c (task_key (job_task job))"
    "set (snd (load_op job k c)) \<subseteq> set (waiters c (task_key (job_task job)))"
    "0 < k \<Longrightarrow> k \<le> Suc (length (job_chunks job)) \<Longrightarrow>
      snd (load_op job k c) = filter (\<lambda>w. \<not> job_closing job w) (waiters c (task_key (job_task job)))"
proof -
  let ?key = "task_key (job_task job)" and ?a = "job_block job" and ?n = "length (job_chunks job)"
  let ?woken = "filter (\<lambda>w. \<not> job_closing job w) (waiters c ?key)"
  have inv: "cache_inv c" and ct: "contents c ?key = loaded job k" using assms(2) by (simp_all add: at_phase_def)
  have mem: "job_memory job" "\<not> should_stop (job_task job)" using assms(1) by (simp_all add: job_ok_def)
  consider (start) "k = 0" | (append) "0 < k" "k \<le> ?n" | (finish) "k = Suc ?n" | (idle) "k > Suc ?n" by linarith
  then have "at_phase job (Suc k) (fst (load_op job k c)) \<and> waiters (fst (load_op job k c)) ?key = waiters c ?key
      \<and> set (snd (load_op job k c)) \<subseteq> set (waiters c ?key) \<and> (0 < k \<and> k \<le> Suc ?n \<longrightarrow> snd (load_op job k c) = ?woken)"
  proof cases
    case start
    then have "entry_at c ?key = None" "env_ok c (env_at ?a)"
      using assms(2) ct by (auto simp: at_phase_def loaded_def contents_None env_ok_at)
    from start_hands_over [OF inv this, of "job_now job"] start_loading_absent [OF inv this, of "job_now job"] obtain c' where
      "cache_start_loading c ?key (job_now job) (env_at ?a) = Inr (Some ?a, c')" "cache_inv c'" "entry_at c' ?key = Some ?a"
      "contents c' ?key = Some (True, [])" "waiters c' ?key = waiters c ?key" by (auto simp: env_at_def)
    with start show ?thesis by (simp add: load_op_def at_phase_def loaded_def)
  next
    case append
    let ?d = "concat (take (k - 1) (job_chunks job))" and ?ch = "job_chunks job ! (k - 1)"
    have a: "entry_at c ?key = Some ?a" "contents c ?key = Some (True, ?d)"
      using append assms(2) ct by (simp_all add: at_phase_def loaded_def)
    note room = append_room [OF assms(1) append]
    obtain e where e: "entries c ?a = Some e" "is_loading e" using inv a by (auto simp: contents_Some)
    from append_wakes [OF inv a room, of "job_now job" "job_closing job"] obtain c' where
      "cache_append_data c (Some ?a) ?ch (job_now job) True (job_closing job) = Some (Inr (0, c', ?woken))" "cache_inv c'"
      "entry_at c' = entry_at c" "contents c' ?key = Some (True, ?d @ ?ch)" "waiters c' = waiters c" by auto
    with append a e mem show ?thesis unfolding concat_take_snoc [OF append]
      by (auto simp: load_op_def at_phase_def loaded_def write_callback_def Let_def)
  next
    case finish
    then have a: "entry_at c ?key = Some ?a" "contents c ?key = Some (True, concat (job_chunks job))"
      using assms(2) ct by (simp_all add: at_phase_def loaded_def)
    from finish_wakes [OF inv a, of "job_now job" "job_memory job" "job_closing job"] finish a show ?thesis
      by (auto simp: load_op_def at_phase_def loaded_def)
  next
    case idle
    then show ?thesis using assms(2) by (auto simp: load_op_def at_phase_def loaded_def)
  qed
  then show "at_phase job (Suc k) (fst (load_op job k c))" "waiters (fst (load_op job k c)) ?key = waiters c ?key"
    "set (snd (load_op job k c)) \<subseteq> set (waiters c ?key)" "0 < k \<Longrightarrow> k \<le> Suc ?n \<Longrightarrow> snd (load_op job k c) = ?woken" by simp_all
qed

text \<open>Any number of operations lets the entry grow, which is what a connection relies on.\<close>

lemma concat_take_extends: "k \<le> m \<Longrightarrow> \<exists>r. concat (take m xss) = concat (take k xss) @ r"
  by (metis concat_append le_add_diff_inverse take_add)

lemma phase_grows:
  assumes "job_ok job" "at_phase job k c" "at_phase job m c'" "k \<le> m"
    and "h \<in> set (waiters c (task_key (job_task job))) \<longrightarrow> h \<in> set (waiters c' (task_key (job_task job)))"
  shows "grows (task_key (job_task job)) h c c'"
proof -
  have size: "length (concat (take j (job_chunks job))) \<le> 2 ^ 63" for j
    using concat_take_le [of j "job_chunks job"] assms(1) by (simp add: job_ok_def response_def)
  obtain r where r: "concat (take (m - 1) (job_chunks job)) = concat (take (k - 1) (job_chunks job)) @ r"
    using concat_take_extends [OF diff_le_mono [OF assms(4), of 1], of "job_chunks job"] by blast
  have over: "r = []" if "\<not> k \<le> Suc (length (job_chunks job))" using that assms(4) r by simp
  from assms(2,3) have ct: "contents c (task_key (job_task job)) = loaded job k" "contents c' (task_key (job_task job)) = loaded job m"
      "cache_inv c'" by (simp_all add: at_phase_def)
  show ?thesis
  proof (cases "k = 0")
    case True
    with ct assms(5) size show ?thesis by (simp add: grows_def loaded_def)
  next
    case False
    with assms(4) have c': "contents c' (task_key (job_task job))
        = Some (m \<le> Suc (length (job_chunks job)), concat (take (k - 1) (job_chunks job)) @ r)"
      using ct(2) r by (simp add: loaded_def)
    have "contents c (task_key (job_task job)) = Some (k \<le> Suc (length (job_chunks job)), concat (take (k - 1) (job_chunks job)))"
      using False ct(1) by (simp add: loaded_def)
    moreover have "length (concat (take (k - 1) (job_chunks job)) @ r) \<le> 2 ^ 63" using size [of "m - 1"] r by simp
    ultimately show ?thesis using ct(3) c' assms(4,5) over unfolding grows_def by auto
  qed
qed

lemma load_ops_phase:
  assumes "job_ok job" "at_phase job k c"
  shows "k \<le> m \<Longrightarrow> at_phase job m (fst (load_ops job [k..<m] c))
    \<and> waiters (fst (load_ops job [k..<m] c)) (task_key (job_task job)) = waiters c (task_key (job_task job))
    \<and> set (snd (load_ops job [k..<m] c)) \<subseteq> set (waiters c (task_key (job_task job)))"
proof (induction m rule: dec_induct)
  case base
  then show ?case using assms(2) by simp
next
  case (step m)
  then have "at_phase job m (fst (load_ops job [k..<m] c))" by simp
  from load_op_phase(1-3) [OF assms(1) this] step show ?case by simp
qed

text \<open>A registered client is woken by any operations that change what the entry holds, other than by starting it.\<close>

lemma load_ops_wake:
  assumes "job_ok job" "at_phase job k c" "h \<in> set (waiters c (task_key (job_task job)))" "\<not> job_closing job h"
  shows "k \<le> m \<Longrightarrow> contents (fst (load_ops job [k..<m] c)) (task_key (job_task job)) \<in> {contents c (task_key (job_task job)), Some (True, [])}
    \<or> h \<in> set (snd (load_ops job [k..<m] c))"
proof (induction m rule: dec_induct)
  case (step m)
  let ?c = "fst (load_ops job [k..<m] c)" and ?key = "task_key (job_task job)"
  have p: "at_phase job m ?c" "h \<in> set (waiters ?c ?key)" using load_ops_phase [OF assms(1,2) step(1)] assms(3) by auto
  note op = load_op_phase [OF assms(1) p(1)]
  consider (start) "m = 0" | (wakes) "0 < m" "m \<le> Suc (length (job_chunks job))" | (idle) "m > Suc (length (job_chunks job))" by linarith
  then show ?case
  proof cases
    case start
    then have "contents (fst (load_op job m ?c)) ?key = Some (True, [])" using op(1) by (simp add: at_phase_def loaded_def)
    with step(1) show ?thesis by simp
  next
    case wakes
    with op(4) p(2) assms(4) step(1) show ?thesis by simp
  next
    case idle
    then have "load_op job m ?c = (?c, [])" by (simp add: load_op_def)
    with step show ?thesis by simp
  qed
qed simp

section \<open>Interleaving\<close>

text \<open>
  What the further threads may do: use the cache in any way that keeps it well formed and leaves
  the entry of the key, the worker's block and the registration of the client's handle alone.
\<close>

definition calm :: "load_job \<Rightarrow> handle \<Rightarrow> cache_t \<Rightarrow> cache_t \<times> handle list \<Rightarrow> bool" where
  "calm job h c r \<longleftrightarrow> (case r of (c', woken) \<Rightarrow> cache_inv c' \<and> contents c' (task_key (job_task job)) = contents c (task_key (job_task job))
     \<and> entry_at c' (task_key (job_task job)) = entry_at c (task_key (job_task job))
     \<and> (entries c (job_block job) = None \<longrightarrow> entries c' (job_block job) = None)
     \<and> (h \<in> set (waiters c' (task_key (job_task job))) \<longleftrightarrow> h \<in> set (waiters c (task_key (job_task job)))) \<and> h \<notin> set woken)"

text \<open>
  A schedule says how many operations the worker has done when the connection comes to its \<open>i\<close>-th
  one; \<open>proxy_env\<close> is the environment of the connection under it.
\<close>

definition done_before :: "(nat \<Rightarrow> nat) \<Rightarrow> nat \<Rightarrow> nat" where
  "done_before sched i = (if i = 0 then 0 else sched (i - 1))"

definition proxy_env :: "load_job \<Rightarrow> (nat \<Rightarrow> nat) \<Rightarrow> (nat \<Rightarrow> cache_t \<Rightarrow> cache_t \<times> handle list) \<Rightarrow> (nat \<Rightarrow> bool) \<Rightarrow> (nat \<Rightarrow> int) \<Rightarrow> uv_env" where
  "proxy_env job sched further write_ok time =
     \<lparr>others = (\<lambda>i c. case further i c of (c1, woken1) \<Rightarrow>
        (case load_ops job [done_before sched i..<sched i] c1 of (c2, woken2) \<Rightarrow> (c2, woken1 @ woken2))),
      uv_write_ok = write_ok, time_now = time, mem = (\<lambda>_. True), mem_table = (\<lambda>_. True)\<rparr>"

definition proxy_ok :: "load_job \<Rightarrow> handle \<Rightarrow> (nat \<Rightarrow> nat) \<Rightarrow> (nat \<Rightarrow> cache_t \<Rightarrow> cache_t \<times> handle list) \<Rightarrow> bool" where
  "proxy_ok job h sched further \<longleftrightarrow> job_ok job \<and> mono sched \<and> \<not> job_closing job h
     \<and> (\<forall>i c. cache_inv c \<longrightarrow> calm job h c (further i c))"

lemma calm_phase: "calm job h c r \<Longrightarrow> at_phase job k c \<Longrightarrow> at_phase job k (fst r)"
  by (auto simp: calm_def at_phase_def split: if_splits)

lemma done_before_le: "mono sched \<Longrightarrow> done_before sched i \<le> sched i"
  by (auto simp: done_before_def intro: monoD)

locale proxy =
  fixes job :: load_job and h :: handle and sched :: "nat \<Rightarrow> nat" and further :: "nat \<Rightarrow> cache_t \<Rightarrow> cache_t \<times> handle list"
    and write_ok :: "nat \<Rightarrow> bool" and time :: "nat \<Rightarrow> int"
  assumes ok: "proxy_ok job h sched further"
begin

lemma job: "job_ok job" and sched: "mono sched" and still: "\<not> job_closing job h"
  and further: "cache_inv c \<Longrightarrow> calm job h c (further i c)"
  using ok by (auto simp: proxy_ok_def)

lemma others_eq: "others (proxy_env job sched further write_ok time) i c =
    (fst (load_ops job [done_before sched i..<sched i] (fst (further i c))),
     snd (further i c) @ snd (load_ops job [done_before sched i..<sched i] (fst (further i c))))"
  by (simp add: proxy_env_def split: prod.split)

lemma others_phase:
  assumes "at_phase job (done_before sched i) c"
  shows "at_phase job (sched i) (fst (others (proxy_env job sched further write_ok time) i c))"
    "grows (task_key (job_task job)) h c (fst (others (proxy_env job sched further write_ok time) i c))"
    "h \<in> set (waiters c (task_key (job_task job))) \<Longrightarrow>
      contents (fst (others (proxy_env job sched further write_ok time) i c)) (task_key (job_task job))
        \<notin> {contents c (task_key (job_task job)), Some (True, [])} \<Longrightarrow>
      h \<in> set (snd (others (proxy_env job sched further write_ok time) i c))"
proof -
  let ?key = "task_key (job_task job)" and ?c = "fst (further i c)"
  have fc: "calm job h c (further i c)" using further assms by (simp add: at_phase_def)
  have p: "at_phase job (done_before sched i) ?c" by (rule calm_phase [OF fc assms])
  have w: "h \<in> set (waiters ?c ?key) \<longleftrightarrow> h \<in> set (waiters c ?key)" "contents ?c ?key = contents c ?key"
    using fc by (auto simp: calm_def)
  note le = done_before_le [OF sched, of i] and ops = load_ops_phase [OF job p done_before_le [OF sched]]
  show ph: "at_phase job (sched i) (fst (others (proxy_env job sched further write_ok time) i c))" using ops by (simp add: others_eq)
  show "grows ?key h c (fst (others (proxy_env job sched further write_ok time) i c))"
    by (rule phase_grows [OF job assms ph le]) (use ops w(1) in \<open>auto simp: others_eq\<close>)
  show "h \<in> set (snd (others (proxy_env job sched further write_ok time) i c))"
    if "h \<in> set (waiters c ?key)"
      "contents (fst (others (proxy_env job sched further write_ok time) i c)) ?key \<notin> {contents c ?key, Some (True, [])}"
    using load_ops_wake [OF job p _ still le] that w by (auto simp: others_eq)
qed

end

text \<open>The worker satisfies what a connection relies on, in every phase.\<close>

sublocale proxy \<subseteq> notifying "proxy_env job sched further write_ok time" "task_key (job_task job)" h "\<lambda>i. at_phase job (done_before sched i)"
proof
  show "memory_ok (proxy_env job sched further write_ok time)" by (simp add: memory_ok_def proxy_env_def)
  have size: "length (concat (take j (job_chunks job))) \<le> 2 ^ 63" for j
    using concat_take_le [of j "job_chunks job"] job by (simp add: job_ok_def response_def)
  show "cache_inv c \<and> small (task_key (job_task job)) c" if "at_phase job (done_before sched i) c" for i c
    using that size by (auto simp: at_phase_def small_def loaded_def)
  show "at_phase job (done_before sched (Suc i)) (fst (others (proxy_env job sched further write_ok time) i c))
      \<and> grows (task_key (job_task job)) h c (fst (others (proxy_env job sched further write_ok time) i c))"
    if "at_phase job (done_before sched i) c" for i c
    using others_phase(1,2) [OF that] by (simp add: done_before_def)
  show "at_phase job (done_before sched i) c'" if "at_phase job (done_before sched i) c" "own c c'" for i c c'
    using that by (auto simp: at_phase_def own_def split: if_splits)
qed (rule others_phase(3))

section \<open>Runs\<close>

text \<open>
  The callbacks libuv makes for the request, one by one: \<open>on_data_ready\<close> when a wake-up is pending, which it clears, and
  \<open>echo_write_buffer_load\<close> for an accepted write, with any status. In between, the worker and the further threads go on. When the request is
  closed, no callback is left.
\<close>

inductive serve_runs :: "uv_env \<Rightarrow> conn \<Rightarrow> conn res \<Rightarrow> bool" for env :: uv_env where
  started: "serve_runs env s (Inr s)"
| woken: "serve_runs env s (Inr s') \<Longrightarrow> cended s' = None \<Longrightarrow> cwoken s' \<Longrightarrow> serve_runs env s (on_data_ready env (s'\<lparr>cwoken := False\<rparr>))"
| wrote: "serve_runs env s (Inr s') \<Longrightarrow> cended s' = None \<Longrightarrow> write_pending (cwr s') \<Longrightarrow>
    serve_runs env s (echo_write_buffer_load env status s')"
| elsewhere: "serve_runs env s (Inr s') \<Longrightarrow> cended s' = None \<Longrightarrow> serve_runs env s (Inr (others_act env s'))"

text \<open>The load is finished when all its operations were done before the last one of the connection.\<close>

definition finished :: "load_job \<Rightarrow> (nat \<Rightarrow> nat) \<Rightarrow> conn \<Rightarrow> bool" where
  "finished job sched s \<longleftrightarrow> Suc (length (job_chunks job)) < done_before sched (cops s)"

text \<open>The whole load falls between the first two operations of the connection.\<close>

definition hidden_load :: "load_job \<Rightarrow> (nat \<Rightarrow> nat) \<Rightarrow> bool" where
  "hidden_load job sched \<longleftrightarrow> sched 0 = 0 \<and> Suc (length (job_chunks job)) < sched 1"

definition served :: "load_job \<Rightarrow> handle \<Rightarrow> (nat \<Rightarrow> nat) \<Rightarrow> conn \<Rightarrow> bool" where
  "served job h sched s \<longleftrightarrow> conn_ok (\<lambda>i. at_phase job (done_before sched i)) (task_key (job_task job)) h s
     \<and> entered (task_key (job_task job)) s \<and> (settled (task_key (job_task job)) h s \<or> hidden_load job sched)"

context proxy
begin

abbreviation penv :: uv_env where "penv \<equiv> proxy_env job sched further write_ok time"

abbreviation jkey :: cstring where "jkey \<equiv> task_key (job_task job)"

lemma at_conn: "conn_ok (\<lambda>i. at_phase job (done_before sched i)) jkey h s \<Longrightarrow> at_phase job (done_before sched (cops s)) (ccache s)"
  by (simp add: conn_ok_def stream_ok_def)

lemma outcome_served:
  assumes "conn_ok (\<lambda>i. at_phase job (done_before sched i)) jkey h s" "cended s = None" "entered jkey s"
    and "conn_ok (\<lambda>i. at_phase job (done_before sched i)) jkey h s'" "outcome penv jkey h s s'"
  shows "served job h sched s'"
  using outcome_entered [OF assms(1,2,4,5)] outcome_settled [OF assms(1-3,5)] assms(4) by (simp add: served_def)

lemma start_served:
  assumes "at_phase job 0 c"
  obtains s where "start_streaming penv c clients jkey h task = Inr (Streaming s task, ccache s)" "served job h sched s"
    "outcome penv jkey h (fresh_conn c clients jkey h (task \<noteq> None)) s"
proof -
  have at: "at_phase job (done_before sched 0) c" using assms by (simp add: done_before_def)
  let ?s0 = "fresh_conn c clients jkey h (task \<noteq> None)"
  note ok0 = fresh_conn_ok [OF at, of clients "task \<noteq> None"]
  obtain s where s: "start_streaming penv c clients jkey h task = Inr (Streaming s task, ccache s)"
      "conn_ok (\<lambda>i. at_phase job (done_before sched i)) jkey h s" "outcome penv jkey h ?s0 s"
    by (rule start_ok [OF at])
  have "settled jkey h s \<or> hidden_load job sched"
  proof (cases "missed penv jkey ?s0 s")
    case False
    with s(3) show ?thesis by (auto simp: outcome_def intro: idle_settled refused_settled)
  next
    case True
    note m = missed_registered [OF ok0 fresh_conn_fields(2) True]
    have "contents (ccache (others_act penv ?s0)) jkey = None" using True by (simp add: missed_def)
    moreover have "at_phase job (sched 0) (ccache (others_act penv ?s0))" using others_phase(1) [OF at] by simp
    ultimately have z: "sched 0 = 0" by (simp add: at_phase_def loaded_def split: if_splits)
    from m(5) obtain s1 where s1: "conn_ok (\<lambda>i. at_phase job (done_before sched i)) jkey h s1" "cops s1 = 1"
        "register_once penv jkey s1 = Inr s" by auto
    have "cops s = 2" using s1(2,3) by (auto simp: register_once_def Let_def rbind_eq_Inr)
    then have "contents (ccache s) jkey = loaded job (sched 1)" using at_conn [OF s(2)] by (simp add: at_phase_def done_before_def)
    with m(2,4) z show ?thesis by (auto simp: settled_def hidden_load_def loaded_def)
  qed
  with s outcome_entered [OF ok0 fresh_conn_fields(2) s(2,3)] that show thesis by (simp add: served_def)
qed

lemma runs_served:
  "serve_runs penv s r \<Longrightarrow> served job h sched s \<Longrightarrow> \<exists>s'. r = Inr s' \<and> served job h sched s'"
proof (induction rule: serve_runs.induct)
  case (woken s s')
  then have s': "conn_ok (\<lambda>i. at_phase job (done_before sched i)) jkey h (s'\<lparr>cwoken := False\<rparr>)" "cended (s'\<lparr>cwoken := False\<rparr>) = None"
      "entered jkey (s'\<lparr>cwoken := False\<rparr>)" by (auto simp: served_def)
  obtain s1 where "on_data_ready penv (s'\<lparr>cwoken := False\<rparr>) = Inr s1" "conn_ok (\<lambda>i. at_phase job (done_before sched i)) jkey h s1"
      "outcome penv jkey h (s'\<lparr>cwoken := False\<rparr>) s1" by (rule ready_ok [OF s'(1,2)])
  with outcome_served [OF s'] show ?case by blast
next
  case (wrote s s' status)
  then have s': "conn_ok (\<lambda>i. at_phase job (done_before sched i)) jkey h s'" "cended s' = None" by (auto simp: served_def)
  have there: "contents (ccache s') jkey \<noteq> None" by (rule wrote_present [OF s' conn_okD(7) [OF s' wrote(3)]])
  obtain s1 where s1: "echo_write_buffer_load penv status s' = Inr s1" "conn_ok (\<lambda>i. at_phase job (done_before sched i)) jkey h s1"
      "contents (ccache s') jkey \<noteq> None \<longrightarrow> idle_ok jkey h s1 \<or> refused_now s' s1" by (rule written_ok [OF s'])
  have "outcome penv jkey h s' s1" using s1(3) there by (auto simp: outcome_def)
  with s1(1) outcome_served [OF s' _ s1(2)] there show ?case by (simp add: entered_def)
next
  case (elsewhere s s')
  then have s': "conn_ok (\<lambda>i. at_phase job (done_before sched i)) jkey h s'" "entered jkey s'"
      "settled jkey h s' \<or> hidden_load job sched" by (auto simp: served_def)
  with others_conn_ok [OF s'(1) elsewhere(2)] others_entered [OF s'(1,2) elsewhere(2)] others_settled [OF s'(1) elsewhere(2)]
  show ?case by (auto simp: served_def)
qed simp

lemma served_sent:
  assumes "served job h sched s"
  shows "\<exists>rest. response job = passed s @ rest" "csent s = accepted s" "cended s = Some All_Sent \<Longrightarrow> passed s = response job"
    "finished job sched s \<Longrightarrow> contents (ccache s) jkey = Some (False, response job)"
proof -
  let ?k = "done_before sched (cops s)"
  have st: "stream_ok (\<lambda>i. at_phase job (done_before sched i)) jkey s" and c: "conn_ok (\<lambda>i. at_phase job (done_before sched i)) jkey h s"
    using assms by (auto simp: served_def conn_ok_def)
  have ct: "contents (ccache s) jkey = loaded job ?k" using at_conn [OF c] by (simp add: at_phase_def)
  show "csent s = accepted s" using st by (simp add: stream_ok_def)
  obtain r where "concat (job_chunks job) = concat (take (?k - 1) (job_chunks job)) @ r"
    using concat_take_extends [of "?k - 1" "max (?k - 1) (length (job_chunks job))" "job_chunks job"] by auto
  with ct st show "\<exists>rest. response job = passed s @ rest"
    by (cases "?k = 0") (auto simp: loaded_def stream_ok_def response_def passed_def)
  show "passed s = response job" if "cended s = Some All_Sent"
    using c that ct by (auto simp: conn_ok_def loaded_def response_def split: if_splits)
  show "contents (ccache s) jkey = Some (False, response job)" if "finished job sched s"
    using that ct by (simp add: finished_def loaded_def response_def)
qed

text \<open>Where nothing is pending.\<close>

lemma served_quiet:
  assumes "served job h sched s" "cended s = None" "\<not> write_pending (cwr s)" "\<not> cwoken s"
  shows "refused s \<or> hidden_load job sched \<or> (\<not> finished job sched s \<and> h \<in> set (waiters (ccache s) jkey)
      \<and> (cwrites s = [] \<or> contents (ccache s) jkey = Some (True, passed s)))"
proof -
  have "settled jkey h s \<or> hidden_load job sched" using assms(1) by (simp add: served_def)
  moreover have "cwrites s = []" if "contents (ccache s) jkey = None"
    using assms(1) that by (simp add: served_def conn_ok_def stream_ok_def)
  moreover have "\<not> finished job sched s" if "contents (ccache s) jkey \<in> {None, Some (True, d)}" for d
    using served_sent(4) [OF assms(1)] that by auto
  ultimately show ?thesis using assms(2-4) by (auto simp: settled_def)
qed

lemma served_drive:
  assumes "served job h sched s" "cended s = None" "finished job sched s" "cwoken s \<or> write_pending (cwr s)"
    and w: "\<And>i. cops s \<le> i \<Longrightarrow> write_ok i" and bs: "2 * length (response job) + 2 \<le> length bs"
  shows "\<exists>s'. drive penv bs s = Inr s' \<and> cended s' = Some All_Sent \<and> passed s' = response job
    \<and> (\<not> refused s \<longrightarrow> csent s' = response job)"
proof -
  have c: "conn_ok (\<lambda>i. at_phase job (done_before sched i)) jkey h s" using assms(1) by (simp add: served_def)
  obtain r where r: "response job = passed s @ r" using served_sent(1) [OF assms(1)] by blast
  have d: "contents (ccache s) jkey = Some (False, passed s @ r)" using served_sent(4) [OF assms(1,3)] r by simp
  have "length r \<le> length (response job)" using r by simp
  then have "calls_left r s \<le> length bs" using bs by (simp add: calls_left_def)
  moreover have "uv_write_ok penv i" if "cops s \<le> i" for i using w [OF that] by (simp add: proxy_env_def)
  ultimately obtain s' where s': "drive penv bs s = Inr s'" "conn_ok (\<lambda>i. at_phase job (done_before sched i)) jkey h s'"
      "cended s' = Some All_Sent" "passed s' = passed s @ r" "refused s' = refused s"
    using drive_finishes [OF c assms(2,4) d] by blast
  have "csent s' = accepted s'" using s'(2) by (simp add: conn_ok_def stream_ok_def)
  with s' r all_accepted [of s'] show ?thesis by auto
qed

end

section \<open>The hidden load\<close>

text \<open>A client registered too late: nothing is pending, nobody will wake it, and the complete response is in the cache.\<close>

definition stuck :: "load_job \<Rightarrow> handle \<Rightarrow> (nat \<Rightarrow> nat) \<Rightarrow> conn \<Rightarrow> bool" where
  "stuck job h sched s \<longleftrightarrow> served job h sched s \<and> finished job sched s \<and> cended s = None \<and> \<not> write_pending (cwr s) \<and> \<not> cwoken s
     \<and> cwrites s = [] \<and> h \<in> set (waiters (ccache s) (task_key (job_task job)))"

context proxy
begin

lemma not_woken:
  assumes "at_phase job (done_before sched i) c" "h \<notin> set (waiters c jkey)"
  shows "h \<notin> set (waiters (fst (others penv i c)) jkey)" "h \<notin> set (snd (others penv i c))"
proof -
  have fc: "calm job h c (further i c)" using further assms by (simp add: at_phase_def)
  have p: "at_phase job (done_before sched i) (fst (further i c))" by (rule calm_phase [OF fc assms(1)])
  show "h \<notin> set (waiters (fst (others penv i c)) jkey)" "h \<notin> set (snd (others penv i c))"
    using load_ops_phase [OF job p done_before_le [OF sched]] fc assms(2) by (auto simp: others_eq calm_def)
qed

lemma idle_ops: "Suc (length (job_chunks job)) < k \<Longrightarrow> load_ops job [k..<m] c = (c, [])"
proof (induction m)
  case (Suc m)
  then show ?case by (cases "k \<le> m") (simp_all add: load_op_def)
qed simp

lemma stuck_others: "stuck job h sched s \<Longrightarrow> stuck job h sched (others_act penv s)"
proof -
  assume s: "stuck job h sched s"
  then have c: "conn_ok (\<lambda>i. at_phase job (done_before sched i)) jkey h s" by (simp add: stuck_def served_def)
  obtain s' where s': "Inr (others_act penv s) = (Inr s' :: conn res)" "served job h sched s'"
    using runs_served [OF serve_runs.elsewhere [OF serve_runs.started]] s by (auto simp: stuck_def)
  have at: "cache_inv (ccache s)" using at_conn [OF c] by (simp add: at_phase_def)
  have idle: "load_ops job [done_before sched (cops s)..<sched (cops s)] c' = (c', [])" for c'
    by (rule idle_ops) (use s in \<open>simp add: stuck_def finished_def\<close>)
  have "done_before sched (cops s) \<le> done_before sched (Suc (cops s))" using done_before_le [OF sched, of "cops s"] by (simp add: done_before_def)
  then have "finished job sched (others_act penv s)" using s by (simp add: stuck_def finished_def)
  moreover have "data_ready_async (cwr s) = h" by (rule conn_okD(5) [OF c]) (use s in \<open>simp add: stuck_def\<close>)
  ultimately show ?thesis using s s' further [OF at, of "cops s"] by (auto simp: stuck_def others_eq idle calm_def)
qed

lemma runs_stuck: "serve_runs penv s r \<Longrightarrow> stuck job h sched s \<Longrightarrow> \<exists>s'. r = Inr s' \<and> stuck job h sched s'"
proof (induction rule: serve_runs.induct)
  case (elsewhere s s')
  then show ?case using stuck_others by auto
qed (auto simp: stuck_def)

lemma hidden_load_sticks:
  assumes c: "at_phase job 0 c" "h \<notin> set (waiters c jkey)" and hidden: "hidden_load job sched"
  obtains s where "start_streaming penv c clients jkey h task = Inr (Streaming s task, ccache s)" "stuck job h sched s"
proof -
  have at: "at_phase job (done_before sched 0) c" using c(1) by (simp add: done_before_def)
  let ?s0 = "fresh_conn c clients jkey h (task \<noteq> None)"
  have s0: "conn_ok (\<lambda>i. at_phase job (done_before sched i)) jkey h ?s0" "cended ?s0 = None" using fresh_conn_ok [OF at] by simp_all
  obtain st out s1 where s1: "look penv jkey ?s0 = Inr (st, out, s1)" "conn_ok (\<lambda>i. at_phase job (done_before sched i)) jkey h s1"
      "cended s1 = None" "cwr s1 = cwr ?s0" "cwrites s1 = cwrites ?s0" "cops s1 = Suc (cops ?s0)"
      "cwoken s1 = cwoken (others_act penv ?s0)" "contents (ccache s1) = contents (ccache (others_act penv ?s0))"
      "waiters (ccache s1) = waiters (ccache (others_act penv ?s0))"
      "(st, out) = lookup_spec (contents (ccache s1) jkey) (length (passed s1)) 16384 no_output"
    by (rule look_ok [OF s0])
  have none: "contents (ccache s1) jkey = None"
    using s1(8) others_phase(1) [OF at] hidden by (simp add: hidden_load_def at_phase_def loaded_def)
  have st: "st = CACHE_NOT_FOUND" using s1(10) none by simp
  have un: "h \<notin> set (waiters (ccache s1) jkey)" "\<not> cwoken s1" using not_woken [OF at c(2)] s1(7,9) by simp_all
  have np: "\<not> write_pending (cwr s1)" using s1(4) by simp
  obtain s2 where s2: "register_once penv jkey s1 = Inr s2" "conn_ok (\<lambda>i. at_phase job (done_before sched i)) jkey h s2" "cended s2 = None"
      "did_register (cwr s2)" "\<not> write_pending (cwr s2)" "cwrites s2 = cwrites s1" "cops s2 = Suc (cops s1)"
      "cwoken s2 = cwoken (others_act penv s1)" "contents (ccache s2) = contents (ccache (others_act penv s1))"
    by (rule register_ok [OF s1(2,3) np])
  have run: "start_streaming penv c clients jkey h task = Inr (Streaming s2 task, ccache s2)"
    using s1(1,4) st s2(1) by (simp add: start_streaming_eq send_next_chunk.simps [of penv ?s0] del: not_None_eq)
  have "at_phase job (done_before sched (cops s1)) (ccache s1)" by (rule at_conn [OF s1(2)])
  from not_woken [OF this un(1)] have "\<not> cwoken s2" using s2(8) un(2) conn_okD(5) [OF s1(2,3)] by simp
  moreover obtain s where "start_streaming penv c clients jkey h task = Inr (Streaming s task, ccache s)" "served job h sched s"
    by (rule start_served [OF c(1)])
  then have "served job h sched s2" using run by simp
  moreover have "h \<in> set (waiters (ccache s2) jkey)" by (rule conn_okD(6) [OF s2(2,3,4)])
  moreover have "finished job sched s2" using hidden s1(6) s2(7) by (simp add: finished_def hidden_load_def done_before_def)
  ultimately have "stuck job h sched s2" using s2(3,5,6) s1(5) by (simp add: stuck_def)
  with run that show thesis by blast
qed

end

section \<open>The load is these operations\<close>

lemma callback_is_load_op:
  assumes "job_ok job" "at_phase job k (wcache wk)" "0 < k" "k \<le> length (job_chunks job)"
    and "ctx_entry ctx = Some (job_block job)" "\<not> should_stop (wtask wk)"
  shows "\<exists>wk' ctx'. write_callback (job_now job) True (job_closing job) (wk, ctx) (job_chunks job ! (k - 1))
      = Some (Inr (of_nat (length (job_chunks job ! (k - 1))), (wk', ctx')))
    \<and> wcache wk' = fst (load_op job k (wcache wk)) \<and> wwoken wk' = wwoken wk @ snd (load_op job k (wcache wk))
    \<and> wtask wk' = wtask wk \<and> ctx_entry ctx' = ctx_entry ctx"
proof -
  let ?key = "task_key (job_task job)" and ?a = "job_block job"
  let ?d = "concat (take (k - 1) (job_chunks job))" and ?ch = "job_chunks job ! (k - 1)"
  have a: "cache_inv (wcache wk)" "entry_at (wcache wk) ?key = Some ?a" "contents (wcache wk) ?key = Some (True, ?d)"
    using assms(2-4) by (simp_all add: at_phase_def loaded_def)
  note room = append_room [OF assms(1,3,4)]
  obtain e where e: "entries (wcache wk) ?a = Some e" "is_loading e" using a by (auto simp: contents_Some)
  from append_wakes [OF a room, of "job_now job" "job_closing job"] e assms show ?thesis
    by (auto simp: write_callback_def load_op_def Let_def job_ok_def)
qed

lemma load_ops_Cons [simp]:
  "load_ops job (k # ks) c = (fst (load_ops job ks (fst (load_op job k c))), snd (load_op job k c) @ snd (load_ops job ks (fst (load_op job k c))))"
proof (induction ks rule: rev_induct)
  case Nil
  then show ?case using load_ops_simps(2) [of job "[]"] by simp
next
  case (snoc j ks)
  then show ?case using load_ops_simps(2) [of job "k # ks"] by simp
qed

lemma perform_is_load_ops:
  assumes "job_ok job" "at_phase job (Suc (length done)) (wcache wk)" "job_chunks job = done @ chs"
    and "ctx_entry ctx = Some (job_block job)" "\<not> should_stop (wtask wk)"
  shows "\<exists>wk' ctx'. perform (\<lambda>s. s) chs code (write_callback (job_now job) True (job_closing job)) (wk, ctx) = Some (Inr (code, (wk', ctx')))
    \<and> wcache wk' = fst (load_ops job [Suc (length done)..<Suc (length (job_chunks job))] (wcache wk))
    \<and> wwoken wk' = wwoken wk @ snd (load_ops job [Suc (length done)..<Suc (length (job_chunks job))] (wcache wk)) \<and> ctx_entry ctx' = ctx_entry ctx"
  using assms(2-)
proof (induction chs arbitrary: "done" wk ctx)
  case (Cons ch chs)
  let ?k = "Suc (length done)"
  have k: "0 < ?k" "?k \<le> length (job_chunks job)" "job_chunks job ! (?k - 1) = ch" using Cons.prems(2) by simp_all
  from callback_is_load_op [OF assms(1) Cons.prems(1) k(1,2) Cons.prems(3,4)] k(3) obtain wk1 ctx1 where
    s1: "write_callback (job_now job) True (job_closing job) (wk, ctx) ch = Some (Inr (of_nat (length ch), (wk1, ctx1)))"
      "wcache wk1 = fst (load_op job ?k (wcache wk))" "wwoken wk1 = wwoken wk @ snd (load_op job ?k (wcache wk))"
      "wtask wk1 = wtask wk" "ctx_entry ctx1 = ctx_entry ctx" by auto
  have "at_phase job (Suc (length (done @ [ch]))) (wcache wk1)"
    using load_op_phase(1) [OF assms(1) Cons.prems(1)] s1(2) by simp
  from Cons.IH [OF this, of ctx1] Cons.prems s1 obtain wk' ctx' where
    "perform (\<lambda>s. s) chs code (write_callback (job_now job) True (job_closing job)) (wk1, ctx1) = Some (Inr (code, (wk', ctx')))"
    "wcache wk' = fst (load_ops job [Suc ?k..<Suc (length (job_chunks job))] (wcache wk1))"
    "wwoken wk' = wwoken wk1 @ snd (load_ops job [Suc ?k..<Suc (length (job_chunks job))] (wcache wk1))" "ctx_entry ctx' = ctx_entry ctx" by auto
  moreover have "[?k..<Suc (length (job_chunks job))] = ?k # [Suc ?k..<Suc (length (job_chunks job))]"
    using k(2) by (simp add: upt_conv_Cons)
  ultimately show ?case using s1 by (auto simp del: upt_Suc)
qed simp

text \<open>Undisturbed, \<open>load_http_resp\<close> does all of them, one after the other, and wakes the clients they wake.\<close>

lemma load_is_its_operations:
  assumes "job_ok job" "at_phase job 0 (wcache wk)" "job_task job = wtask wk" "length (rpath (task_req (wtask wk))) < 1024"
    and "le_alloc env (wcache wk) = env_at (job_block job)" "le_curl_init env" "le_realloc env" "le_now env = job_now job"
    and "le_closing env = job_closing job" "le_transfer env = perform (\<lambda>s. s) (job_chunks job) CURLE_OK" "le_http_code env = 200"
  shows "\<exists>wk'. load_http_resp env wk = Some (Inr wk') \<and> task_result (wtask wk') = 0
    \<and> wcache wk' = fst (load_ops job [0..<Suc (Suc (length (job_chunks job)))] (wcache wk))
    \<and> wwoken wk' = wwoken wk @ snd (load_ops job [0..<Suc (Suc (length (job_chunks job)))] (wcache wk))"
proof -
  let ?key = "task_key (wtask wk)" and ?a = "job_block job" and ?n = "length (job_chunks job)"
  have "cache_inv (wcache wk)" "entry_at (wcache wk) ?key = None" "env_ok (wcache wk) (env_at ?a)"
    using assms(2,3) by (auto simp: at_phase_def loaded_def contents_None env_ok_at)
  from start_loading_absent [OF this, of "job_now job"] obtain c where
    c: "cache_start_loading (wcache wk) ?key (job_now job) (env_at ?a) = Inr (Some ?a, c)" by (auto simp: env_at_def)
  then have op0: "load_op job 0 (wcache wk) = (c, [])" using assms(3) by (simp add: load_op_def)
  let ?wk = "wk\<lparr>wcache := c, wtask := (wtask wk)\<lparr>task_entry := Some ?a\<rparr>\<rparr>"
  have p1: "at_phase job (Suc (length ([] :: byte list list))) (wcache ?wk)" using load_op_phase(1) [OF assms(1,2)] op0 by simp
  have mem: "job_memory job" using assms(1) by (simp add: job_ok_def)
  have "\<not> should_stop (wtask ?wk)" using assms(1,3) by (simp add: job_ok_def)
  from perform_is_load_ops [OF assms(1) p1 _ _ this, of "job_chunks job" "\<lparr>ctx_entry = Some ?a, ctx_total_size = 0\<rparr>" CURLE_OK]
  obtain wk1 ctx1 where s1: "perform (\<lambda>s. s) (job_chunks job) CURLE_OK (write_callback (job_now job) True (job_closing job))
      (?wk, \<lparr>ctx_entry = Some ?a, ctx_total_size = 0\<rparr>) = Some (Inr (CURLE_OK, (wk1, ctx1)))"
    "wcache wk1 = fst (load_ops job [1..<Suc ?n] c)" "wwoken wk1 = wwoken wk @ snd (load_ops job [1..<Suc ?n] c)" "ctx_entry ctx1 = Some ?a"
    by auto
  have "at_phase job 1 c" using p1 by simp
  from load_ops_phase [OF assms(1) this, of "Suc ?n"] s1(2) have p2: "at_phase job (Suc ?n) (wcache wk1)" by simp
  then obtain c' woken where c': "cache_finish_loading (wcache wk1) (Some ?a) (job_now job) True (job_closing job) = Inr (0, c', woken)"
    using finish_wakes [of "wcache wk1" "task_key (job_task job)" ?a "concat (job_chunks job)" "job_now job" True "job_closing job"]
    by (auto simp: at_phase_def loaded_def)
  have u: "[0..<Suc (Suc ?n)] = (0 # [1..<Suc ?n]) @ [Suc ?n]" using upt_conv_Cons [of 0 "Suc ?n"] by simp
  have "load_op job (Suc ?n) (wcache wk1) = (c', woken)" using c' mem by (simp add: load_op_def)
  then have "c' = fst (load_ops job [0..<Suc (Suc ?n)] (wcache wk))"
    "wwoken wk1 @ woken = wwoken wk @ snd (load_ops job [0..<Suc (Suc ?n)] (wcache wk))"
    using s1(2,3) op0 unfolding u load_ops_simps(2) by (simp_all del: upt_Suc)
  then show ?thesis using c s1 c' assms by (simp add: load_http_resp_def Let_def set_result_def)
qed

section \<open>Properties\<close>

text \<open>
  Property C1. A client of an unknown key is streamed the response while the worker that \<open>read_client\<close> launched loads it, in every
  interleaving of the operations of both on the cache and of the callbacks. Relied on: the load succeeds and fits into memory, the
  allocator never fails, and the further threads that use the cache leave the entry of this key and the
  registration of this client alone (no sweep of the entry while it is served, no second load of the same key). Any call of \<open>uv_write\<close> may be refused,
  and a write may complete with any status. Then no callback faults; the client gets the bytes of the accepted writes, and
  the bytes passed to \<open>uv_write\<close> are always a prefix of the response; a request closed as completely sent has been passed all of it. The
  connection never goes to sleep for nothing: if it is open with no write and no wake-up pending, then it was refused a write, or the whole load
  fell between its first two operations (the race of C38), or the load is not finished, the client is registered, and the entry
  holds no more than what was passed on unless nothing was passed yet. And once the load has finished, if a callback is pending and \<open>uv_write\<close> accepts
  what follows, the callbacks close the request with the whole response passed on, and it has reached the client if no write was refused before;
  two callbacks for each byte, and two more, are enough.
\<close>

theorem client_gets_loaded_response:
  assumes "proxy_ok job async sched further" "env = proxy_env job sched further write_ok time"
    and "cache_inv c" "contents c (task_key (job_task job)) = None" "entries c (job_block job) = None"
  shows "\<exists>s. start_streaming env c clients (task_key (job_task job)) async (Some (job_task job))
        = Inr (Streaming s (Some (job_task job)), ccache s)
    \<and> (\<forall>r. serve_runs env s r \<longrightarrow> (\<exists>s'. r = Inr s' \<and> csent s' = accepted s'
        \<and> (\<exists>rest. response job = passed s' @ rest)
        \<and> (cended s' = Some All_Sent \<longrightarrow> passed s' = response job)
        \<and> (cended s' = None \<and> \<not> write_pending (cwr s') \<and> \<not> cwoken s' \<longrightarrow>
            refused s' \<or> hidden_load job sched
            \<or> \<not> finished job sched s' \<and> async \<in> set (waiters (ccache s') (task_key (job_task job)))
              \<and> (cwrites s' = [] \<or> contents (ccache s') (task_key (job_task job)) = Some (True, passed s')))
        \<and> (cended s' = None \<and> finished job sched s' \<and> (cwoken s' \<or> write_pending (cwr s')) \<and> (\<forall>i \<ge> cops s'. write_ok i) \<longrightarrow>
            (\<forall>bs. 2 * length (response job) + 2 \<le> length bs \<longrightarrow>
              (\<exists>s''. drive env bs s' = Inr s'' \<and> cended s'' = Some All_Sent \<and> passed s'' = response job
                \<and> (\<not> refused s' \<longrightarrow> csent s'' = response job))))))"
proof -
  have p: "proxy job async sched further" by (rule proxy.intro [OF assms(1)])
  have "at_phase job 0 c" using assms(3-5) by (simp add: at_phase_def loaded_def)
  then obtain s where
    s: "start_streaming env c clients (task_key (job_task job)) async (Some (job_task job))
        = Inr (Streaming s (Some (job_task job)), ccache s)" "served job async sched s"
    unfolding assms(2) by (rule proxy.start_served [OF p])
  have run: "\<exists>s'. r = Inr s' \<and> served job async sched s'" if "serve_runs env s r" for r
    using proxy.runs_served [OF p] that s(2) unfolding assms(2) .
  show ?thesis
    by (rule exI [of _ s], rule conjI [OF s(1)], intro allI impI, drule run)
      (use proxy.served_sent(1-3) [OF p] proxy.served_quiet [OF p] proxy.served_drive [OF p] in \<open>auto simp: assms(2)\<close>)
qed

text \<open>
  Property C38. The first packet of a fresh request has a race. For every load and every interleaving in which the worker does the whole
  load between the lookup that finds nothing and the registration (both are operations of \<open>send_next_chunk\<close>), the request hangs:
  it is registered, but with an entry nobody will append to again; it has sent nothing, it is open, no write and no wake-up is
  pending, although the complete response is in the cache; and that stays so whatever the further threads do with the rest of
  the cache. (After "not found" the code does not look again.)
\<close>

theorem fresh_request_can_hang:
  assumes "proxy_ok job async sched further" "env = proxy_env job sched further write_ok time"
    and "cache_inv c" "contents c (task_key (job_task job)) = None" "entries c (job_block job) = None"
    and "async \<notin> set (waiters c (task_key (job_task job)))" "sched 0 = 0" "Suc (length (job_chunks job)) < sched 1"
  shows "\<exists>s. start_streaming env c clients (task_key (job_task job)) async task = Inr (Streaming s task, ccache s)
    \<and> (\<forall>r. serve_runs env s r \<longrightarrow> (\<exists>s'. r = Inr s' \<and> cended s' = None \<and> \<not> write_pending (cwr s') \<and> \<not> cwoken s' \<and> cwrites s' = []
        \<and> async \<in> set (waiters (ccache s') (task_key (job_task job)))
        \<and> contents (ccache s') (task_key (job_task job)) = Some (False, response job)))"
proof -
  have p: "proxy job async sched further" by (rule proxy.intro [OF assms(1)])
  have c: "at_phase job 0 c" "hidden_load job sched" using assms(3-5,7,8) by (simp_all add: at_phase_def loaded_def hidden_load_def)
  obtain s where s: "start_streaming env c clients (task_key (job_task job)) async task = Inr (Streaming s task, ccache s)"
      "stuck job async sched s"
    using proxy.hidden_load_sticks [OF p c(1) assms(6) c(2)] unfolding assms(2) by blast
  have "\<exists>s'. r = Inr s' \<and> stuck job async sched s'" if "serve_runs env s r" for r
    using proxy.runs_stuck [OF p] that s(2) unfolding assms(2) .
  then show ?thesis using s(1) proxy.served_sent(4) [OF p] by (fastforce simp: stuck_def)
qed

section \<open>Examples\<close>

definition demo_job :: load_job where
  "demo_job = \<lparr>job_block = 5, job_memory = True, job_chunks = [[1, 2], [3]], job_now = 3, job_closing = (\<lambda>_. False), job_task = demo_task [47]\<rparr>"

definition demo_proxy :: "(nat \<Rightarrow> nat) \<Rightarrow> uv_env" where
  "demo_proxy sched = proxy_env demo_job sched (\<lambda>_ c. (c, [])) (\<lambda>_. True) (\<lambda>_. 9)"

lemma demo_proxy_ok: "mono sched \<Longrightarrow> proxy_ok demo_job 4 sched (\<lambda>_ c. (c, []))"
  by (simp add: proxy_ok_def job_ok_def response_def demo_job_def calm_def demo_task_def)

lemma demo_job_simps [simp]: "task_key (demo_task [47]) = [47]" "job_task demo_job = demo_task [47]" "response demo_job = [1, 2, 3]"
  "length (job_chunks demo_job) = 2" "job_block demo_job = 5"
  by (simp_all add: demo_job_def demo_task_def response_def)

lemma empty_cache: "cache_inv one_bucket_cache" "contents one_bucket_cache [47] = None" "entries one_bucket_cache 5 = None"
    "4 \<notin> set (waiters one_bucket_cache [47])"
proof -
  show c: "cache_inv one_bucket_cache" "contents one_bucket_cache [47] = None" "entries one_bucket_cache 5 = None"
    using one_bucket_cache_ok by (simp_all add: one_bucket_cache_eq)
  have "bucket_of one_bucket_cache [47] = Inr 0" by (rule one_bucket) (simp_all add: one_bucket_cache_eq)
  then show "4 \<notin> set (waiters one_bucket_cache [47])"
    using c(2) by (simp add: waiters_def contents_None) (simp add: one_bucket_cache_eq)
qed

lemma empty_job: "contents one_bucket_cache (task_key (job_task demo_job)) = None" "entries one_bucket_cache (job_block demo_job) = None"
    "4 \<notin> set (waiters one_bucket_cache (task_key (job_task demo_job)))"
  using empty_cache by simp_all

lemma steady: "mono (\<lambda>i. 2 * i :: nat)" "mono (\<lambda>i. 4 * i :: nat)"
  by (simp_all add: mono_def)

interpretation demo: proxy demo_job 4 "\<lambda>i. 2 * i" "\<lambda>_ c. (c, [])" "\<lambda>_. True" "\<lambda>_. 9"
  by unfold_locales (rule demo_proxy_ok [OF steady(1)])

theorem client_gets_loaded_response_witness:
  "\<exists>s. start_streaming (demo_proxy (\<lambda>i. 2 * i)) one_bucket_cache 1 [47] 4 (Some (demo_task [47])) = Inr (Streaming s (Some (demo_task [47])), ccache s)
     \<and> (\<forall>r. serve_runs (demo_proxy (\<lambda>i. 2 * i)) s r \<longrightarrow> (\<exists>s'. r = Inr s' \<and> (\<exists>rest. [1, 2, 3] = passed s' @ rest)
       \<and> (cended s' = None \<and> finished demo_job (\<lambda>i. 2 * i) s' \<and> (cwoken s' \<or> write_pending (cwr s')) \<longrightarrow>
           (\<exists>s''. drive (demo_proxy (\<lambda>i. 2 * i)) (replicate 8 True) s' = Inr s'' \<and> passed s'' = [1, 2, 3]))))"
proof -
  let ?env = "demo_proxy (\<lambda>i. 2 * i)"
  note run = client_gets_loaded_response [OF demo_proxy_ok [OF steady(1)] demo_proxy_def empty_cache(1) empty_job(1,2), of 1, unfolded demo_job_simps(1-3)]
  from run obtain s where s: "start_streaming ?env one_bucket_cache 1 [47] 4 (Some (demo_task [47])) = Inr (Streaming s (Some (demo_task [47])), ccache s)"
      "\<forall>r. serve_runs ?env s r \<longrightarrow> (\<exists>s'. r = Inr s' \<and> (\<exists>rest. [1, 2, 3] = passed s' @ rest)
        \<and> (cended s' = None \<and> finished demo_job (\<lambda>i. 2 * i) s' \<and> (cwoken s' \<or> write_pending (cwr s')) \<and> (\<forall>i \<ge> cops s'. True) \<longrightarrow>
            (\<forall>bs. 2 * length [1 :: byte, 2, 3] + 2 \<le> length bs \<longrightarrow>
              (\<exists>s''. drive ?env bs s' = Inr s'' \<and> cended s'' = Some All_Sent \<and> passed s'' = [1, 2, 3]
                \<and> (\<not> refused s' \<longrightarrow> csent s'' = [1, 2, 3])))))"
    by (elim exE conjE) (erule that, erule all_forward, erule imp_forward, assumption, erule ex_forward, elim conjE, intro conjI, assumption+)
  have len: "2 * length [1 :: byte, 2, 3] + 2 \<le> length (replicate 8 True)" by simp
  show ?thesis
    by (rule exI [of _ s], rule conjI [OF s(1)], rule all_forward [OF s(2)], erule imp_forward, assumption, erule ex_forward)
      (use len in blast)
qed

theorem fresh_request_can_hang_witness:
  "\<exists>s. start_streaming (demo_proxy (\<lambda>i. 4 * i)) one_bucket_cache 1 [47] 4 None = Inr (Streaming s None, ccache s)
    \<and> (\<forall>r. serve_runs (demo_proxy (\<lambda>i. 4 * i)) s r \<longrightarrow> (\<exists>s'. r = Inr s' \<and> cended s' = None \<and> cwrites s' = []
        \<and> contents (ccache s') [47] = Some (False, [1, 2, 3])))"
proof -
  have hid: "4 * 0 = (0 :: nat)" "Suc (length (job_chunks demo_job)) < 4 * 1" by simp_all
  from fresh_request_can_hang [OF demo_proxy_ok [OF steady(2)] demo_proxy_def empty_cache(1) empty_job hid, of 1 None]
  show ?thesis unfolding demo_job_simps(1-3) by blast
qed

end
