(* ===== verification/Backend_Loop.thy ===== *)
theory Backend_Loop
  imports Backend
begin

text \<open>
  The life of a backend thread, \<open>run_backend\<close>: it opens its end of the pipe from the master and runs the event
  loop, whose callbacks accept clients and count them. libuv is outside: the events are an argument.
\<close>

section \<open>Buffers\<close>

text \<open>
  The callbacks that give libuv a buffer for a read: the block (\<open>None\<close> when \<open>malloc\<close> fails) and its length. With
  no block libuv reports \<open>UV_ENOBUFS\<close>, a negative number, to the read callback.
\<close>

record uv_buf_t =
  base :: ptr
  blen :: usize

definition alloc_pipe_buf :: "ptr \<Rightarrow> usize \<Rightarrow> uv_buf_t" where
  "alloc_pipe_buf m suggested_size = \<lparr>base = m, blen = suggested_size\<rparr>"

definition alloc_client_buf :: "ptr \<Rightarrow> usize \<Rightarrow> uv_buf_t" where
  "alloc_client_buf m suggested_size = \<lparr>base = m, blen = suggested_size\<rparr>"

definition UV_ENOBUFS :: int where "UV_ENOBUFS = -105"

text \<open>What libuv passes on as \<open>nread\<close> when \<open>n\<close> bytes are there.\<close>

definition nread_of :: "uv_buf_t \<Rightarrow> nat \<Rightarrow> int" where
  "nread_of b n = (if base b = None \<or> blen b = 0 then UV_ENOBUFS else int (min n (unat (blen b))))"

section \<open>The event loop\<close>

text \<open>
  \<open>Pipe_Read\<close>: data on the pipe, with the block for it, the suggested size, the number of bytes, the handle that comes with
  them and whether \<open>uv_accept\<close> succeeds. \<open>Client_Closed\<close>: \<open>on_close\<close> of a client.
\<close>

datatype loop_event =
    Pipe_Read ptr usize nat "uv_handle_type option" bool
  | Pipe_Error int
  | Client_Closed

fun backend_event :: "loop_event \<Rightarrow> bool \<times> int \<Rightarrow> (bool \<times> int) res" where
  "backend_event (Pipe_Read m sz n pending accepted) (open, count) =
     (if \<not> open then Inr (open, count) else read_pipe (nread_of (alloc_pipe_buf m sz) n) pending accepted count)"
| "backend_event (Pipe_Error e) (open, count) = (if \<not> open then Inr (open, count) else read_pipe e None False count)"
| "backend_event Client_Closed (open, count) = (if count \<le> 0 then Inr (open, count) else Inr (open, on_close count))"

fun uv_run :: "loop_event list \<Rightarrow> bool \<times> int \<Rightarrow> (bool \<times> int) res" where
  "uv_run [] s = Inr s"
| "uv_run (e # es) s = rbind (backend_event e s) (uv_run es)"

text \<open>
  \<open>run_backend\<close> returns \<open>NULL\<close> in every case. The result here: whether both ends of the pipe were closed, and the number of clients when
  the loop ends.
\<close>

definition run_backend :: "int \<Rightarrow> loop_event list \<Rightarrow> int \<Rightarrow> (bool \<times> int) res" where
  "run_backend open_err events count =
     (if open_err \<noteq> 0 then Inr (True, count)
      else rbind (uv_run events (True, count)) (\<lambda>(_, count). Inr (False, count)))"

section \<open>The number of clients\<close>

fun arrivals :: "loop_event list \<Rightarrow> bool \<Rightarrow> nat" where
  "arrivals [] open = 0"
| "arrivals (Pipe_Read m sz n pending accepted # es) open =
     (let nread = nread_of (alloc_pipe_buf m sz) n in
      (if open \<and> nread > 0 \<and> pending = Some UV_TCP \<and> accepted then 1 else 0) + arrivals es (open \<and> nread \<ge> 0))"
| "arrivals (Pipe_Error e # es) open = arrivals es (open \<and> e \<ge> 0)"
| "arrivals (Client_Closed # es) open = arrivals es open"

definition departures :: "loop_event list \<Rightarrow> nat" where
  "departures es = length (filter (\<lambda>e. e = Client_Closed) es)"

text \<open>
  When only connections come through the pipe, the loop ends without a fault; the counter never becomes negative, is
  at most what came in more than went, and never below that difference.
\<close>

definition only_connections :: "loop_event list \<Rightarrow> bool" where
  "only_connections es \<longleftrightarrow> (\<forall>m sz n accepted. Pipe_Read m sz n (Some UV_OTHER) accepted \<notin> set es)"

lemma uv_run_counts:
  assumes "only_connections es" "0 \<le> count"
  shows "\<exists>open' count'. uv_run es (open, count) = Inr (open', count') \<and> 0 \<le> count'
    \<and> count + int (arrivals es open) - int (departures es) \<le> count' \<and> count' \<le> count + int (arrivals es open)"
  using assms
proof (induction es arbitrary: "open" count)
  case (Cons e es)
  have oc: "only_connections es" using Cons.prems(1) by (simp add: only_connections_def)
  show ?case
  proof (cases e)
    case (Pipe_Read m sz n pending accepted)
    then have "pending \<noteq> Some UV_OTHER" using Cons.prems(1) by (auto simp: only_connections_def)
    then consider "pending = None" | "pending = Some UV_TCP" by (cases pending; cases "the pending") auto
    then show ?thesis
      using Cons.IH [OF oc, of count "open \<and> nread_of (alloc_pipe_buf m sz) n \<ge> 0"]
        Cons.IH [OF oc, of "count + 1" True] Cons.prems(2) Pipe_Read
      by cases (auto simp: read_pipe_def new_client_def departures_def Let_def not_less)
  next
    case (Pipe_Error x)
    then show ?thesis using Cons.IH [OF oc, of count "open \<and> x \<ge> 0"] Cons.prems(2)
      by (auto simp: read_pipe_def departures_def)
  next
    case Client_Closed
    then show ?thesis using Cons.IH [OF oc, of count "open"] Cons.IH [OF oc, of "count - 1" "open"] Cons.prems(2)
      by (auto simp: on_close_def departures_def)
  qed
qed (simp add: departures_def)

lemma run_backend_returns:
  assumes "only_connections es" "0 \<le> count"
  shows "\<exists>closed count'. run_backend err es count = Inr (closed, count') \<and> closed = (err \<noteq> 0) \<and> 0 \<le> count'"
  using uv_run_counts [OF assms, of True] assms(2) by (auto simp: run_backend_def)

end
