(* ===== verification/Thread_Pool.thy ===== *)
theory Thread_Pool
  imports Prelude
begin

text \<open>
  The thread pool, \<open>proxy/lib/thread_pool/thread_pool.c\<close> (\<open>threads/lab1.8/thread_pool/\<close> has the same
  code): an array of thread slots that a daemon thread scans for finished threads.

  What pthread functions answer is an argument. The mutex is a field of the pool; \<open>None\<close> is a call
  that waits for it for ever. The interplay of the daemon with \<open>destroy_thread_pool\<close> is a step
  relation at the end.
\<close>

section \<open>Data\<close>

datatype thread_state_t =
    THREAD_FREE
  | THREAD_JOINED_BY_DEAMON
  | THREAD_JOINED_BY_USER
  | THREAD_DETACHED

type_synonym pthread_t = nat

record thread_info_t =
  thread :: pthread_t
  state :: thread_state_t

text \<open>\<open>pool_live\<close>: whether the array is allocated.\<close>

record thread_pool_t =
  threads :: "thread_info_t list"
  thread_count :: usize
  pool_live :: bool
  pool_locked :: bool

definition CAPACITY :: nat where "CAPACITY = 10"
definition REALLOC_MAGIC :: usize where "REALLOC_MAGIC = 2"
definition THREADS_MALLOC_ERR :: int where "THREADS_MALLOC_ERR = -1"
definition MUTEX_INIT_ERR :: int where "MUTEX_INIT_ERR = -2"
definition THREADS_REALLOC_ERR :: int where "THREADS_REALLOC_ERR = -3"
definition EBUSY :: int where "EBUSY = 16"

section \<open>Operations\<close>

text \<open>\<open>result\<close>: what \<open>pthread_tryjoin_np\<close> returns for the thread.\<close>

definition is_thread_running :: "int \<Rightarrow> int" where
  "is_thread_running result = (if result = 0 then 0 else if result = EBUSY then 1 else -1)"

text \<open>One scan of the daemon, from slot \<open>i\<close> on; \<open>tryjoin\<close> answers for a thread.\<close>

fun scan_from :: "(pthread_t \<Rightarrow> int) \<Rightarrow> thread_info_t list \<Rightarrow> thread_info_t list res" where
  "scan_from tryjoin [] = Inr []"
| "scan_from tryjoin (t # ts) =
     (if state t = THREAD_FREE then rbind (scan_from tryjoin ts) (\<lambda>ts. Inr (t # ts))
      else let result = is_thread_running (tryjoin (thread t));
               t = (if result = 0 then t\<lparr>state := THREAD_FREE\<rparr> else t) in
        if result < 0 then Inl (ExitCall result)
        else rbind (scan_from tryjoin ts) (\<lambda>ts. Inr (t # ts)))"

definition deamon_scan :: "(pthread_t \<Rightarrow> int) \<Rightarrow> thread_pool_t \<Rightarrow> thread_pool_t res option" where
  "deamon_scan tryjoin p =
     (if pool_locked p then None
      else Some (rbind (scan_from tryjoin (take (unat (thread_count p)) (threads p)))
        (\<lambda>ts. Inr (p\<lparr>threads := ts @ drop (unat (thread_count p)) (threads p)\<rparr>))))"

definition create_thread_pool :: "bool \<Rightarrow> int \<Rightarrow> int \<Rightarrow> int \<times> thread_pool_t option" where
  "create_thread_pool malloc_ok mutex_err create_err =
     (if \<not> malloc_ok then (THREADS_MALLOC_ERR, None)
      else if mutex_err \<noteq> 0 then (MUTEX_INIT_ERR, None)
      else if create_err \<noteq> 0 then (create_err, None)
      else (0, Some \<lparr>threads = replicate CAPACITY \<lparr>thread = 0, state = THREAD_FREE\<rparr>,
                     thread_count = of_nat CAPACITY, pool_live = True, pool_locked = False\<rparr>))"

text \<open>\<open>err\<close> is what \<open>pthread_create\<close> returns, \<open>tid\<close> the thread it makes.\<close>

definition create_thread :: "int \<Rightarrow> pthread_t \<Rightarrow> thread_info_t \<Rightarrow> int \<times> thread_info_t" where
  "create_thread err tid t = (if err \<noteq> 0 then (err, t) else (0, t\<lparr>thread := tid, state := THREAD_FREE\<rparr>))"

fun free_slot :: "thread_info_t list \<Rightarrow> nat option" where
  "free_slot [] = None"
| "free_slot (t # ts) = (if state t = THREAD_FREE then Some 0 else map_option Suc (free_slot ts))"

definition create_at :: "int \<Rightarrow> pthread_t \<Rightarrow> nat \<Rightarrow> thread_pool_t \<Rightarrow> (int \<times> thread_pool_t) res" where
  "create_at err tid i p =
     (if i \<ge> length (threads p) then Inl OutOfBounds
      else let (e, t) = create_thread err tid (threads p ! i); p = p\<lparr>threads := (threads p)[i := t]\<rparr> in
        if e \<noteq> 0 then Inr (e, p) else Inr (int i, p\<lparr>pool_locked := False\<rparr>))"

definition add_thread :: "int \<Rightarrow> bool \<Rightarrow> pthread_t \<Rightarrow> thread_pool_t \<Rightarrow> (int \<times> thread_pool_t) res option" where
  "add_thread err realloc_ok tid p =
     (if pool_locked p then None
      else let p = p\<lparr>pool_locked := True\<rparr> in
        case free_slot (take (unat (thread_count p)) (threads p)) of
          Some i \<Rightarrow> Some (create_at err tid i p)
        | None \<Rightarrow>
            if \<not> realloc_ok then Some (Inr (THREADS_REALLOC_ERR, p\<lparr>threads := [], pool_live := False, pool_locked := False\<rparr>))
            else let n = unat (thread_count p);
                     p = p\<lparr>threads := take n (threads p) @ replicate n \<lparr>thread = 0, state = THREAD_FREE\<rparr>,
                           thread_count := thread_count p * REALLOC_MAGIC\<rparr>
              in Some (create_at err tid (unat (thread_count p div REALLOC_MAGIC)) p))"

text \<open>The cancelling loop of \<open>destroy_thread_pool\<close>: the first error of \<open>pthread_cancel\<close> ends it.\<close>

fun cancel_all :: "(pthread_t \<Rightarrow> int) \<Rightarrow> thread_info_t list \<Rightarrow> int" where
  "cancel_all cancel [] = 0"
| "cancel_all cancel (t # ts) =
     (if state t \<noteq> THREAD_FREE \<and> cancel (thread t) \<noteq> 0 then cancel (thread t) else cancel_all cancel ts)"

text \<open>
  \<open>destroy_thread_pool\<close> when the daemon ends at its cancellation (see below for when it does).
\<close>

definition destroy_thread_pool :: "(pthread_t \<Rightarrow> int) \<Rightarrow> thread_pool_t \<Rightarrow> (int \<times> thread_pool_t) option" where
  "destroy_thread_pool cancel p =
     (if pool_locked p then None
      else let err = cancel_all cancel (take (unat (thread_count p)) (threads p)) in
        if err \<noteq> 0 then Some (err, p\<lparr>pool_locked := True\<rparr>)
        else Some (0, p\<lparr>threads := [], pool_live := False, pool_locked := False\<rparr>))"

section \<open>Slots\<close>

text \<open>
  Every slot is free, always: \<open>create_thread\<close> itself sets the state to \<open>THREAD_FREE\<close>.
\<close>

definition pool_inv :: "thread_pool_t \<Rightarrow> bool" where
  "pool_inv p \<longleftrightarrow> pool_live p \<and> length (threads p) = 10 \<and> thread_count p = 10 \<and> (\<forall>t \<in> set (threads p). state t = THREAD_FREE)"

lemma create_thread_pool_inv: "create_thread_pool ok me ce = (r, Some p) \<Longrightarrow> r = 0 \<and> pool_inv p \<and> \<not> pool_locked p"
  by (auto simp: create_thread_pool_def pool_inv_def CAPACITY_def split: if_splits)

lemma free_slot_first: "ts \<noteq> [] \<Longrightarrow> state (hd ts) = THREAD_FREE \<Longrightarrow> free_slot ts = Some 0"
  by (cases ts) auto

lemma add_thread_first_slot:
  assumes "pool_inv p" "\<not> pool_locked p"
  shows "add_thread 0 ok tid p = Some (Inr (0, p\<lparr>threads := (threads p)[0 := (threads p ! 0)\<lparr>thread := tid, state := THREAD_FREE\<rparr>]\<rparr>))"
proof -
  from assms obtain t ts where t: "threads p = t # ts" "state t = THREAD_FREE" "length ts = 9"
    by (cases "threads p") (auto simp: pool_inv_def)
  have "free_slot (take (unat (thread_count p)) (threads p)) = Some 0"
    using assms t by (intro free_slot_first) (auto simp: pool_inv_def)
  with assms t show ?thesis by (simp add: add_thread_def Let_def create_at_def create_thread_def)
qed

lemma add_thread_fails:
  assumes "pool_inv p" "\<not> pool_locked p" "err \<noteq> 0"
  shows "add_thread err ok tid p = Some (Inr (err, p\<lparr>pool_locked := True\<rparr>))"
proof -
  from assms obtain t ts where t: "threads p = t # ts" "state t = THREAD_FREE" "length ts = 9"
    by (cases "threads p") (auto simp: pool_inv_def)
  have "free_slot (take (unat (thread_count p)) (threads p)) = Some 0"
    using assms t by (intro free_slot_first) (auto simp: pool_inv_def)
  with assms t show ?thesis by (simp add: add_thread_def Let_def create_at_def create_thread_def)
qed

lemma add_thread_inv:
  assumes "pool_inv p" "\<not> pool_locked p"
  shows "\<exists>p'. add_thread 0 ok tid p = Some (Inr (0, p')) \<and> pool_inv p' \<and> \<not> pool_locked p' \<and> thread (threads p' ! 0) = tid
    \<and> (\<forall>i > 0. threads p' ! i = threads p ! i)"
proof -
  have "set ((threads p)[0 := t]) \<subseteq> insert t (set (threads p))" for t by (rule set_update_subset_insert)
  with assms add_thread_first_slot [OF assms, of ok tid] show ?thesis by (fastforce simp: pool_inv_def)
qed

text \<open>Adding threads one after the other.\<close>

fun add_threads :: "pthread_t list \<Rightarrow> thread_pool_t \<Rightarrow> (int list \<times> thread_pool_t) res option" where
  "add_threads [] p = Some (Inr ([], p))"
| "add_threads (tid # tids) p = (case add_thread 0 True tid p of
     None \<Rightarrow> None
   | Some (Inl f) \<Rightarrow> Some (Inl f)
   | Some (Inr (r, p)) \<Rightarrow> (case add_threads tids p of
       None \<Rightarrow> None | Some (Inl f) \<Rightarrow> Some (Inl f) | Some (Inr (rs, p)) \<Rightarrow> Some (Inr (r # rs, p))))"

lemma add_threads_run:
  assumes "pool_inv p" "\<not> pool_locked p"
  shows "\<exists>p'. add_threads tids p = Some (Inr (replicate (length tids) 0, p')) \<and> pool_inv p' \<and> \<not> pool_locked p'
    \<and> thread (threads p' ! 0) = (if tids = [] then thread (threads p ! 0) else last tids)
    \<and> (\<forall>i > 0. threads p' ! i = threads p ! i)"
  using assms
proof (induction tids arbitrary: p)
  case (Cons tid tids)
  from add_thread_inv [OF Cons.prems, of True tid] obtain p1 where
    p1: "add_thread 0 True tid p = Some (Inr (0, p1))" "pool_inv p1" "\<not> pool_locked p1" "thread (threads p1 ! 0) = tid"
      "\<forall>i > 0. threads p1 ! i = threads p ! i" by blast
  from Cons.IH [OF p1(2,3)] obtain p2 where
    "add_threads tids p1 = Some (Inr (replicate (length tids) 0, p2))" "pool_inv p2" "\<not> pool_locked p2"
      "thread (threads p2 ! 0) = (if tids = [] then thread (threads p1 ! 0) else last tids)"
      "\<forall>i > 0. threads p2 ! i = threads p1 ! i" by blast
  with p1 show ?case by simp
qed simp

text \<open>The daemon never joins any of these threads.\<close>

lemma scan_from_free: "(\<forall>t \<in> set ts. state t = THREAD_FREE) \<Longrightarrow> scan_from tryjoin ts = Inr ts"
  by (induction ts) auto

lemma deamon_scan_idle: "pool_inv p \<Longrightarrow> \<not> pool_locked p \<Longrightarrow> deamon_scan tryjoin p = Some (Inr p)"
  by (auto simp: deamon_scan_def pool_inv_def scan_from_free)

section \<open>The interface the master relies on\<close>

text \<open>
  The proxy's master takes every non-zero answer of the pool for an error; so a pool is usable for
  it only when starting a thread answers 0. The pool does, because its threads never occupy a slot.
\<close>

locale spawner =
  fixes inv :: "'p \<Rightarrow> bool"
    and spawn :: "pthread_t \<Rightarrow> 'p \<Rightarrow> (int \<times> 'p) res option"
  assumes spawn_zero: "inv p \<Longrightarrow> \<exists>p'. spawn tid p = Some (Inr (0, p')) \<and> inv p'"
begin

fun spawns :: "pthread_t list \<Rightarrow> 'p \<Rightarrow> (int list \<times> 'p) res option" where
  "spawns [] p = Some (Inr ([], p))"
| "spawns (tid # tids) p = (case spawn tid p of
     None \<Rightarrow> None
   | Some (Inl f) \<Rightarrow> Some (Inl f)
   | Some (Inr (r, p)) \<Rightarrow> (case spawns tids p of
       None \<Rightarrow> None | Some (Inl f) \<Rightarrow> Some (Inl f) | Some (Inr (rs, p)) \<Rightarrow> Some (Inr (r # rs, p))))"

lemma spawns_zero: "inv p \<Longrightarrow> \<exists>p'. spawns tids p = Some (Inr (replicate (length tids) 0, p')) \<and> inv p'"
proof (induction tids arbitrary: p)
  case (Cons tid tids)
  then obtain p1 where "spawn tid p = Some (Inr (0, p1))" "inv p1" using spawn_zero by blast
  with Cons.IH [of p1] show ?case by auto
qed simp

end

interpretation pool_spawner: spawner "\<lambda>p. pool_inv p \<and> \<not> pool_locked p" "add_thread 0 True"
  by unfold_locales (use add_thread_inv in blast)

section \<open>Destroying the pool\<close>

text \<open>
  \<open>destroy_thread_pool\<close> locks the pool, cancels the daemon and joins it while it holds the lock. The
  daemon acts on the cancellation in \<open>pthread_testcancel\<close> and in \<open>usleep\<close>, but not in
  \<open>pthread_mutex_lock\<close>, which is not a cancellation point.
\<close>

datatype deamon_pc = D_Test | D_Lock | D_Scan | D_Unlock | D_Test2 | D_Sleep | D_Ended

datatype main_pc = M_Lock | M_Cancel | M_Join | M_Free | M_Done

datatype owner = Nobody | Deamon | Main

record pool_conf =
  dpc :: deamon_pc
  mpc :: main_pc
  mutex :: owner
  cancelled :: bool

inductive pool_step :: "pool_conf \<Rightarrow> pool_conf \<Rightarrow> bool" where
  test: "dpc s \<in> {D_Test, D_Test2} \<Longrightarrow> \<not> cancelled s \<Longrightarrow>
    pool_step s (s\<lparr>dpc := (if dpc s = D_Test then D_Lock else D_Sleep)\<rparr>)"
| cancel_point: "dpc s \<in> {D_Test, D_Test2, D_Sleep} \<Longrightarrow> cancelled s \<Longrightarrow> pool_step s (s\<lparr>dpc := D_Ended\<rparr>)"
| d_lock: "dpc s = D_Lock \<Longrightarrow> mutex s = Nobody \<Longrightarrow> pool_step s (s\<lparr>dpc := D_Scan, mutex := Deamon\<rparr>)"
| d_scan: "dpc s = D_Scan \<Longrightarrow> pool_step s (s\<lparr>dpc := D_Unlock\<rparr>)"
| d_unlock: "dpc s = D_Unlock \<Longrightarrow> pool_step s (s\<lparr>dpc := D_Test2, mutex := Nobody\<rparr>)"
| d_sleep: "dpc s = D_Sleep \<Longrightarrow> \<not> cancelled s \<Longrightarrow> pool_step s (s\<lparr>dpc := D_Test\<rparr>)"
| m_lock: "mpc s = M_Lock \<Longrightarrow> mutex s = Nobody \<Longrightarrow> pool_step s (s\<lparr>mpc := M_Cancel, mutex := Main\<rparr>)"
| m_cancel: "mpc s = M_Cancel \<Longrightarrow> pool_step s (s\<lparr>mpc := M_Join, cancelled := True\<rparr>)"
| m_join: "mpc s = M_Join \<Longrightarrow> dpc s = D_Ended \<Longrightarrow> pool_step s (s\<lparr>mpc := M_Free\<rparr>)"
| m_free: "mpc s = M_Free \<Longrightarrow> pool_step s (s\<lparr>mpc := M_Done, mutex := Nobody\<rparr>)"

inductive_cases pool_stepE: "pool_step s s'"

definition pool_start :: pool_conf where
  "pool_start = \<lparr>dpc = D_Test, mpc = M_Lock, mutex = Nobody, cancelled = False\<rparr>"

definition pool_safe :: "pool_conf \<Rightarrow> bool" where
  "pool_safe s \<longleftrightarrow> (mutex s = Main \<longleftrightarrow> mpc s \<in> {M_Cancel, M_Join, M_Free})
     \<and> (mutex s = Deamon \<longleftrightarrow> dpc s \<in> {D_Scan, D_Unlock})
     \<and> (cancelled s \<longleftrightarrow> mpc s \<in> {M_Join, M_Free, M_Done})
     \<and> (mpc s \<in> {M_Free, M_Done} \<longrightarrow> dpc s = D_Ended) \<and> (dpc s = D_Ended \<longrightarrow> cancelled s)"

lemma pool_step_safe: "pool_step s s' \<Longrightarrow> pool_safe s \<Longrightarrow> pool_safe s'"
  by (erule pool_stepE; simp add: pool_safe_def; (elim disjE conjE)?; simp)

lemma pool_reach_safe: "pool_step\<^sup>*\<^sup>* pool_start s \<Longrightarrow> pool_safe s"
proof (induction rule: rtranclp_induct)
  case base
  show ?case by (simp add: pool_start_def pool_safe_def)
qed (rule pool_step_safe)

definition pool_stuck :: "pool_conf \<Rightarrow> bool" where
  "pool_stuck s \<longleftrightarrow> dpc s = D_Lock \<and> mpc s = M_Join \<and> mutex s = Main"

lemma pool_stops: "pool_safe s \<Longrightarrow> mpc s = M_Done \<or> pool_stuck s \<Longrightarrow> \<not> pool_step s s'"
  by (rule notI, erule pool_stepE; simp add: pool_safe_def pool_stuck_def; elim disjE conjE; simp)

lemma pool_moves:
  assumes "pool_safe s" "mpc s \<noteq> M_Done" "\<not> pool_stuck s"
  shows "\<exists>s'. pool_step s s'"
proof (cases "dpc s")
  case D_Lock
  show ?thesis
  proof (cases "mutex s")
    case Nobody
    with D_Lock show ?thesis by (blast intro: pool_step.d_lock)
  next
    case Deamon
    with D_Lock assms(1) show ?thesis by (simp add: pool_safe_def)
  next
    case Main
    with D_Lock assms show ?thesis by (auto simp: pool_safe_def pool_stuck_def intro: pool_step.m_cancel pool_step.m_free)
  qed
next
  case D_Ended
  with assms show ?thesis
    by (cases "mpc s") (auto simp: pool_safe_def intro: pool_step.m_join pool_step.m_free)
qed (use assms in \<open>cases "cancelled s"; blast intro: pool_step.intros\<close>)+

section \<open>Properties\<close>

text \<open>
  Property C30. Every thread added to a new pool goes into slot 0 and gets the answer 0: the pool
  never grows, it only remembers the last thread, and a scan of the daemon joins none of them. (The
  slot of a thread that was just created is marked \<open>THREAD_FREE\<close>.) When \<open>pthread_create\<close> then fails, \<open>add_thread\<close>
  returns its error with the mutex still locked: every later \<open>add_thread\<close>, scan of the daemon and
  \<open>destroy_thread_pool\<close> waits for ever.
\<close>

theorem pool_reuses_first_slot:
  "case create_thread_pool True 0 0 of (r, Some p) \<Rightarrow>
     r = 0 \<and> (\<exists>p'. add_threads tids p = Some (Inr (replicate (length tids) 0, p'))
       \<and> unat (thread_count p') = CAPACITY \<and> thread (threads p' ! 0) = (if tids = [] then 0 else last tids)
       \<and> deamon_scan tryjoin p' = Some (Inr p')
       \<and> (\<exists>p''. add_thread 11 True tid p' = Some (Inr (11, p'')) \<and> add_thread 0 True tid p'' = None
          \<and> deamon_scan tryjoin p'' = None \<and> destroy_thread_pool cancel p'' = None))
   | _ \<Rightarrow> False"
proof -
  obtain p where p: "create_thread_pool True 0 0 = (0, Some p)" by (simp add: create_thread_pool_def)
  have inv: "pool_inv p" "\<not> pool_locked p" using create_thread_pool_inv [OF p] by auto
  from add_threads_run [OF inv, of tids] obtain p' where
    p': "add_threads tids p = Some (Inr (replicate (length tids) 0, p'))" "pool_inv p'" "\<not> pool_locked p'"
      "thread (threads p' ! 0) = (if tids = [] then thread (threads p ! 0) else last tids)" by blast
  have "thread (threads p ! 0) = 0" using p by (auto simp: create_thread_pool_def CAPACITY_def)
  moreover have "\<exists>p''. add_thread 11 True tid p' = Some (Inr (11, p'')) \<and> add_thread 0 True tid p'' = None
      \<and> deamon_scan tryjoin p'' = None \<and> destroy_thread_pool cancel p'' = None"
    using p'(2,3) by (simp add: add_thread_fails) (simp add: add_thread_def deamon_scan_def destroy_thread_pool_def)
  moreover have "unat (thread_count p') = CAPACITY" using p'(2) by (simp add: pool_inv_def CAPACITY_def)
  ultimately show ?thesis using p p' deamon_scan_idle [OF p'(2,3), of tryjoin] by auto
qed

text \<open>
  Destroying the pool can deadlock, in one way only: the daemon is waiting for the
  mutex while the destroying thread, which holds it, joins the daemon. Such a state is reachable and has no
  successor, and every other reachable state before the end has one.
\<close>

theorem destroy_deadlock:
  "(\<exists>s. pool_step\<^sup>*\<^sup>* pool_start s \<and> pool_stuck s) \<and>
   (\<forall>s. pool_step\<^sup>*\<^sup>* pool_start s \<longrightarrow> (\<nexists>s'. pool_step s s') \<longleftrightarrow> mpc s = M_Done \<or> pool_stuck s)"
proof (intro conjI allI impI)
  let ?s1 = "pool_start\<lparr>dpc := D_Lock\<rparr>"
  let ?s2 = "?s1\<lparr>mpc := M_Cancel, mutex := Main\<rparr>"
  let ?s3 = "?s2\<lparr>mpc := M_Join, cancelled := True\<rparr>"
  have "pool_step pool_start ?s1" using pool_step.test [of pool_start] by (simp add: pool_start_def)
  moreover have "pool_step ?s1 ?s2" by (rule pool_step.m_lock) (simp_all add: pool_start_def)
  moreover have "pool_step ?s2 ?s3" by (rule pool_step.m_cancel) simp
  ultimately have "pool_step\<^sup>*\<^sup>* pool_start ?s3" by (meson rtranclp.rtrancl_into_rtrancl rtranclp.rtrancl_refl)
  moreover have "pool_stuck ?s3" by (simp add: pool_stuck_def)
  ultimately show "\<exists>s. pool_step\<^sup>*\<^sup>* pool_start s \<and> pool_stuck s" by blast
next
  fix s
  assume "pool_step\<^sup>*\<^sup>* pool_start s"
  then have safe: "pool_safe s" by (rule pool_reach_safe)
  show "(\<nexists>s'. pool_step s s') \<longleftrightarrow> mpc s = M_Done \<or> pool_stuck s"
  proof
    assume "\<nexists>s'. pool_step s s'"
    with pool_moves [OF safe] show "mpc s = M_Done \<or> pool_stuck s" by blast
  next
    assume "mpc s = M_Done \<or> pool_stuck s"
    with pool_stops [OF safe] show "\<nexists>s'. pool_step s s'" by blast
  qed
qed

theorem destroy_deadlock_witness:
  "(\<nexists>s'. pool_step pool_start s') \<longleftrightarrow> mpc pool_start = M_Done \<or> pool_stuck pool_start"
  using destroy_deadlock by blast

end
