(* ===== verification/Master.thy ===== *)
theory Master
  imports Thread_Pool Backend Cache_Store
begin

text \<open>
  \<open>proxy/src/domain/master.c\<close> and \<open>main.c\<close>: the master thread accepts connections, hands each to a
  backend thread with room for it, and starts a new backend when all are full. libuv's answers are
  arguments; of the array \<open>backends\<close> with \<open>MAX_BACKEND_NUM\<close> elements only the client counts matter
  here. \<open>None\<close> is a call that waits for ever (for the mutex of the thread pool).
\<close>

section \<open>Data\<close>

definition MAX_BACKEND_NUM :: nat where "MAX_BACKEND_NUM = 10"
definition MAX_BACKEND_CONNECTIONS_NUM :: int where "MAX_BACKEND_CONNECTIONS_NUM = 10"
definition MAX_CACHE_SIZE :: usize where "MAX_CACHE_SIZE = 10 * 1024 * 1024"
definition MAX_CACHE_ENTRIES :: usize where "MAX_CACHE_ENTRIES = 128"
definition BUCKET_COUNT :: usize where "BUCKET_COUNT = 64"
definition DEFAULT_TTL :: int where "DEFAULT_TTL = 100"
definition ERR_CANNOT_START_NOT_INIT :: int where "ERR_CANNOT_START_NOT_INIT = 71"
definition ERR_CANNOT_INIT_SERVER_SOCKET :: int where "ERR_CANNOT_INIT_SERVER_SOCKET = 72"
definition ERR_SERVER_LISTEN_ERR :: int where "ERR_SERVER_LISTEN_ERR = 73"

record master_t =
  child_threads :: thread_pool_t
  backends :: "int list"
  cur_backend_count :: usize
  mcache :: cache_t
  was_init :: bool
  total_clients_ever :: usize

record init_env =
  ie_malloc :: bool
  ie_mutex_err :: int
  ie_create_err :: int
  ie_loop :: bool
  ie_tcp_err :: int
  ie_addr_err :: int
  ie_bind_err :: int
  ie_calloc :: bool
  ie_bucket_mutex :: "nat \<Rightarrow> bool"

record backend_env =
  be_loop_err :: int
  be_pair_err :: int
  be_pipe_err :: int
  be_master_pipe_err :: int
  be_open_err :: int
  be_create_err :: int
  be_realloc :: bool
  be_tid :: pthread_t

section \<open>Operations\<close>

definition init_master_thread :: "init_env \<Rightarrow> int \<times> master_t option" where
  "init_master_thread e =
     (case create_thread_pool (ie_malloc e) (ie_mutex_err e) (ie_create_err e) of
        (err, None) \<Rightarrow> (err, None)
      | (err, Some pool) \<Rightarrow>
          if err \<noteq> 0 then (err, None)
          else if \<not> ie_loop e then (ERR_CANNOT_INIT_SERVER_SOCKET, None)
          else if ie_tcp_err e \<noteq> 0 then (ie_tcp_err e, None)
          else if ie_addr_err e \<noteq> 0 then (ie_addr_err e, None)
          else if ie_bind_err e \<noteq> 0 then (ie_bind_err e, None)
          else (case cache_init MAX_CACHE_SIZE MAX_CACHE_ENTRIES BUCKET_COUNT DEFAULT_TTL (ie_calloc e) (ie_bucket_mutex e) of
              (err, None) \<Rightarrow> (err, None)
            | (err, Some c) \<Rightarrow>
                if err \<noteq> 0 then (err, None)
                else (0, Some \<lparr>child_threads = pool, backends = replicate MAX_BACKEND_NUM 0, cur_backend_count = 0,
                               mcache = c, was_init = True, total_clients_ever = 0\<rparr>)))"

text \<open>
  \<open>add_backend\<close>: the element after the last one in use is set up; nothing compares the count with
  \<open>MAX_BACKEND_NUM\<close>.
\<close>

definition add_backend :: "backend_env \<Rightarrow> master_t \<Rightarrow> (int \<times> master_t) res option" where
  "add_backend e m =
     (if unat (cur_backend_count m) \<ge> length (backends m) then Some (Inl OutOfBounds)
      else let err = create_backend (be_loop_err e) (be_pair_err e) (be_pipe_err e) in
        if err \<noteq> 0 then Some (Inr (err, m))
        else let m = m\<lparr>backends := (backends m)[unat (cur_backend_count m) := 0]\<rparr> in
          if be_master_pipe_err e \<noteq> 0 then Some (Inr (be_master_pipe_err e, m))
          else if be_open_err e \<noteq> 0 then Some (Inr (be_open_err e, m))
          else (case add_thread (be_create_err e) (be_realloc e) (be_tid e) (child_threads m) of
              None \<Rightarrow> None
            | Some (Inl f) \<Rightarrow> Some (Inl f)
            | Some (Inr (err, pool)) \<Rightarrow>
                let m = m\<lparr>child_threads := pool\<rparr> in
                if err \<noteq> 0 then Some (Inr (err, m))
                else Some (Inr (0, m\<lparr>cur_backend_count := cur_backend_count m + 1\<rparr>))))"

text \<open>The loop of \<open>get_backend\<close>: the first backend with room for another client.\<close>

fun first_with_room :: "int list \<Rightarrow> nat option" where
  "first_with_room [] = None"
| "first_with_room (n # ns) = (if n < MAX_BACKEND_CONNECTIONS_NUM then Some 0 else map_option Suc (first_with_room ns))"

text \<open>
  The answer of \<open>get_backend\<close> is an index. The result of \<open>add_backend\<close> is ignored, so that the index
  \<open>cur_backend_count - 1\<close> wraps around when there is no backend at all.
\<close>

definition get_backend :: "backend_env \<Rightarrow> master_t \<Rightarrow> (nat \<times> master_t) res option" where
  "get_backend e m =
     (case first_with_room (take (unat (cur_backend_count m)) (backends m)) of
        Some i \<Rightarrow> Some (Inr (i, m))
      | None \<Rightarrow> (case add_backend e m of
          None \<Rightarrow> None
        | Some (Inl f) \<Rightarrow> Some (Inl f)
        | Some (Inr (_, m)) \<Rightarrow>
            let i = unat (cur_backend_count m - 1) in
            if i \<ge> length (backends m) then Some (Inl OutOfBounds) else Some (Inr (i, m))))"

text \<open>\<open>malloc_ok\<close>: the write request; \<open>write_err\<close>: the answer of \<open>uv_write2\<close>.\<close>

definition send_client_to_backend :: "bool \<Rightarrow> int \<Rightarrow> int" where
  "send_client_to_backend malloc_ok write_err = (if \<not> malloc_ok then -1 else write_err)"

text \<open>
  The backend the client was sent to, if it was. \<open>tcp_ok\<close>: whether \<open>malloc\<close> has memory for the handle
  of the client; \<open>uv_tcp_init\<close> is called on its result without a test.
\<close>

definition on_new_connection ::
  "backend_env \<Rightarrow> bool \<Rightarrow> int \<Rightarrow> bool \<Rightarrow> int \<Rightarrow> int \<Rightarrow> master_t \<Rightarrow> (nat option \<times> master_t) res option" where
  "on_new_connection e tcp_ok accept_err malloc_ok write_err status m =
     (let m = m\<lparr>total_clients_ever := total_clients_ever m + 1\<rparr> in
      if status < 0 then Some (Inr (None, m))
      else (case get_backend e m of
          None \<Rightarrow> None
        | Some (Inl f) \<Rightarrow> Some (Inl f)
        | Some (Inr (i, m)) \<Rightarrow>
            if \<not> tcp_ok then Some (Inl NullDeref)
            else if accept_err \<noteq> 0 then Some (Inr (None, m))
            else if send_client_to_backend malloc_ok write_err \<noteq> 0 then Some (Inr (None, m))
            else Some (Inr (Some i, m))))"

text \<open>\<open>run\<close> is what \<open>uv_run\<close> returns when the loop ends.\<close>

definition start_master_thread :: "int \<Rightarrow> bool \<Rightarrow> pthread_t \<Rightarrow> int \<Rightarrow> int \<Rightarrow> master_t \<Rightarrow> (int \<times> master_t) res option" where
  "start_master_thread create_err realloc_ok tid listen_err run m =
     (if \<not> was_init m then Some (Inr (ERR_CANNOT_START_NOT_INIT, m))
      else (case add_thread create_err realloc_ok tid (child_threads m) of
          None \<Rightarrow> None
        | Some (Inl f) \<Rightarrow> Some (Inl f)
        | Some (Inr (err, pool)) \<Rightarrow>
            let m = m\<lparr>child_threads := pool\<rparr> in
            if err \<noteq> 0 then Some (Inr (err, m))
            else if listen_err \<noteq> 0 then Some (Inr (ERR_SERVER_LISTEN_ERR, m))
            else Some (Inr (run, m))))"

definition fini_master_thread :: "(pthread_t \<Rightarrow> int) \<Rightarrow> master_t \<Rightarrow> (int \<times> master_t) option" where
  "fini_master_thread cancel m = (case destroy_thread_pool cancel (child_threads m) of
     None \<Rightarrow> None
   | Some (err, pool) \<Rightarrow>
       if err \<noteq> 0 then Some (err, m\<lparr>child_threads := pool\<rparr>)
       else Some (0, m\<lparr>child_threads := pool, was_init := False\<rparr>))"

text \<open>One round of \<open>cache_cleaner_thread\<close>, and \<open>main\<close>.\<close>

definition cache_cleaner_round :: "int \<Rightarrow> master_t \<Rightarrow> master_t res" where
  "cache_cleaner_round now m = rbind (cache_clean_expired (mcache m) now) (\<lambda>c. Inr (m\<lparr>mcache := c\<rparr>))"

definition main :: "init_env \<Rightarrow> int \<Rightarrow> bool \<Rightarrow> pthread_t \<Rightarrow> int \<Rightarrow> int \<Rightarrow> (pthread_t \<Rightarrow> int) \<Rightarrow> int res option" where
  "main ie create_err realloc_ok tid listen_err run cancel =
     (case init_master_thread ie of
        (err, None) \<Rightarrow> Some (Inr err)
      | (err, Some m) \<Rightarrow>
          if err \<noteq> 0 then Some (Inr err)
          else (case start_master_thread create_err realloc_ok tid listen_err run m of
              None \<Rightarrow> None
            | Some (Inl f) \<Rightarrow> Some (Inl f)
            | Some (Inr (err, m)) \<Rightarrow>
                if err \<noteq> 0 then Some (Inr err)
                else (case fini_master_thread cancel m of
                    None \<Rightarrow> None | Some (err, _) \<Rightarrow> Some (Inr err))))"

section \<open>Invariant\<close>

definition master_inv :: "master_t \<Rightarrow> bool" where
  "master_inv m \<longleftrightarrow> pool_inv (child_threads m) \<and> \<not> pool_locked (child_threads m) \<and> was_init m
     \<and> length (backends m) = MAX_BACKEND_NUM \<and> unat (cur_backend_count m) \<le> MAX_BACKEND_NUM \<and> cache_inv (mcache m)"

lemma first_with_room_Some:
  "first_with_room ns = Some i \<Longrightarrow> i < length ns \<and> ns ! i < MAX_BACKEND_CONNECTIONS_NUM
     \<and> (\<forall>j < i. ns ! j \<ge> MAX_BACKEND_CONNECTIONS_NUM)"
proof (induction ns arbitrary: i)
  case (Cons n ns)
  show ?case
  proof (cases "n < MAX_BACKEND_CONNECTIONS_NUM")
    case True
    with Cons.prems show ?thesis by simp
  next
    case False
    with Cons.prems obtain k where k: "first_with_room ns = Some k" "i = Suc k" by auto
    with Cons.IH [OF k(1)] False show ?thesis by (auto simp: less_Suc_eq_0_disj)
  qed
qed simp

lemma first_with_room_None:
  "first_with_room ns = None \<longleftrightarrow> (\<forall>i < length ns. ns ! i \<ge> MAX_BACKEND_CONNECTIONS_NUM)"
  by (induction ns) (auto simp: less_Suc_eq_0_disj)

lemma first_with_room_is:
  assumes "i < length ns" "ns ! i < MAX_BACKEND_CONNECTIONS_NUM" "\<forall>j < i. ns ! j \<ge> MAX_BACKEND_CONNECTIONS_NUM"
  shows "first_with_room ns = Some i"
proof (cases "first_with_room ns")
  case None
  with assms(1,2) show ?thesis by (auto simp: first_with_room_None not_le)
next
  case (Some k)
  from first_with_room_Some [OF this] assms have "\<not> k < i" "\<not> i < k" by force+
  with Some show ?thesis by simp
qed

definition answers_ok :: "backend_env \<Rightarrow> bool" where
  "answers_ok e \<longleftrightarrow> be_loop_err e = 0 \<and> be_pair_err e = 0 \<and> be_pipe_err e = 0 \<and> be_master_pipe_err e = 0
     \<and> be_open_err e = 0 \<and> be_create_err e = 0 \<and> be_realloc e"

lemma add_backend_run:
  assumes "master_inv m" "answers_ok e" "unat (cur_backend_count m) < MAX_BACKEND_NUM"
  shows "\<exists>m'. add_backend e m = Some (Inr (0, m')) \<and> master_inv m' \<and> cur_backend_count m' = cur_backend_count m + 1
    \<and> backends m' = (backends m)[unat (cur_backend_count m) := 0] \<and> unat (cur_backend_count m') = Suc (unat (cur_backend_count m))"
proof -
  have "pool_inv (child_threads m) \<and> \<not> pool_locked (child_threads m)" using assms(1) by (simp add: master_inv_def)
  from pool_spawner.spawn_zero [OF this, of "be_tid e"] obtain pool where
    "add_thread 0 True (be_tid e) (child_threads m) = Some (Inr (0, pool))" "pool_inv pool" "\<not> pool_locked pool" by blast
  moreover have "unat (cur_backend_count m + 1) = Suc (unat (cur_backend_count m))"
    using assms(3) by (simp add: unat_word_ariths MAX_BACKEND_NUM_def)
  ultimately show ?thesis using assms
    by (simp add: add_backend_def Let_def answers_ok_def create_backend_def master_inv_def)
qed

lemma init_ok:
  assumes "ie_malloc e" "ie_mutex_err e = 0" "ie_create_err e = 0" "ie_loop e" "ie_tcp_err e = 0" "ie_addr_err e = 0"
    and "ie_bind_err e = 0" "ie_calloc e" "ie_bucket_mutex e = (\<lambda>_. True)"
  shows "\<exists>m m'. init_master_thread e = (0, Some m) \<and> master_inv m \<and> cur_backend_count m = 0 \<and> length (buckets (mcache m)) = 64
    \<and> start_master_thread 0 True tid 0 run m = Some (Inr (run, m')) \<and> master_inv m'"
proof -
  obtain c where c: "cache_init MAX_CACHE_SIZE MAX_CACHE_ENTRIES BUCKET_COUNT DEFAULT_TTL True (\<lambda>_. True) = (0, Some c)"
      "cache_inv c" "length (buckets c) = 64"
  proof -
    obtain r s where rs: "cache_init MAX_CACHE_SIZE MAX_CACHE_ENTRIES BUCKET_COUNT DEFAULT_TTL True (\<lambda>_. True) = (r, s)"
      by (rule prod.exhaust)
    from cache_init_inv [OF this] rs that show ?thesis by (auto simp: BUCKET_COUNT_def)
  qed
  obtain pool where pool: "create_thread_pool True 0 0 = (0, Some pool)" by (simp add: create_thread_pool_def)
  have inv: "pool_inv pool \<and> \<not> pool_locked pool" using create_thread_pool_inv [OF pool] by auto
  let ?m = "\<lparr>child_threads = pool, backends = replicate MAX_BACKEND_NUM 0, cur_backend_count = 0,
    mcache = c, was_init = True, total_clients_ever = 0\<rparr>"
  have i: "init_master_thread e = (0, Some ?m)" using assms c(1) pool by (simp add: init_master_thread_def)
  have m: "master_inv ?m" using c inv by (simp add: master_inv_def)
  from pool_spawner.spawn_zero [OF inv, of tid] obtain pool' where
    p': "add_thread 0 True tid pool = Some (Inr (0, pool'))" "pool_inv pool' \<and> \<not> pool_locked pool'" by blast
  then have "start_master_thread 0 True tid 0 run ?m = Some (Inr (run, ?m\<lparr>child_threads := pool'\<rparr>))"
    by (simp add: start_master_thread_def)
  moreover have "master_inv (?m\<lparr>child_threads := pool'\<rparr>)" using m p'(2) by (simp add: master_inv_def)
  ultimately show ?thesis using i m c(3) by (intro exI [of _ ?m] exI [of _ "?m\<lparr>child_threads := pool'\<rparr>"]) simp
qed

section \<open>Properties\<close>

text \<open>
  Property C31. Where a new connection goes, with \<open>n\<close> backends in use, when \<open>malloc\<close>, libuv and the thread
  pool report no error: to the backend \<open>i\<close> if \<open>i\<close> is the first of them with fewer than
  \<open>MAX_BACKEND_CONNECTIONS_NUM\<close> clients, and then no backend is added; if all \<open>n\<close> are full and \<open>n\<close> is less than
  \<open>MAX_BACKEND_NUM\<close>, to a new backend behind them; if all \<open>MAX_BACKEND_NUM\<close> are full the master writes past the
  end of its array. When a new backend is needed and cannot be created, the error is ignored: the client goes to the
  last backend although that is full, and when there is none yet the master reads before its array.
\<close>

theorem connection_dispatch:
  assumes "master_inv m" "answers_ok e" "n = unat (cur_backend_count m)"
  shows "(\<forall>i < n. backends m ! i < MAX_BACKEND_CONNECTIONS_NUM \<and> (\<forall>j < i. backends m ! j \<ge> MAX_BACKEND_CONNECTIONS_NUM) \<longrightarrow>
      (\<exists>m'. on_new_connection e True 0 True 0 0 m = Some (Inr (Some i, m')) \<and> master_inv m'
        \<and> backends m' = backends m \<and> cur_backend_count m' = cur_backend_count m \<and> child_threads m' = child_threads m))
    \<and> ((\<forall>j < n. backends m ! j \<ge> MAX_BACKEND_CONNECTIONS_NUM) \<longrightarrow>
      (if n < MAX_BACKEND_NUM
       then \<exists>m'. on_new_connection e True 0 True 0 0 m = Some (Inr (Some n, m')) \<and> master_inv m'
          \<and> unat (cur_backend_count m') = Suc n \<and> backends m' = (backends m)[n := 0]
       else on_new_connection e True 0 True 0 0 m = Some (Inl OutOfBounds))
      \<and> (\<forall>e'. n < MAX_BACKEND_NUM \<and> create_backend (be_loop_err e') (be_pair_err e') (be_pipe_err e') \<noteq> 0 \<longrightarrow>
          (if n = 0 then on_new_connection e' True 0 True 0 0 m = Some (Inl OutOfBounds)
           else \<exists>m'. on_new_connection e' True 0 True 0 0 m = Some (Inr (Some (n - 1), m')) \<and> backends m' = backends m)))"
  (is "?room \<and> (?full \<longrightarrow> ?new \<and> ?fails)")
proof (intro conjI impI)
  let ?m = "m\<lparr>total_clients_ever := total_clients_ever m + 1\<rparr>"
  let ?ns = "take n (backends m)"
  have inv: "master_inv ?m" using assms(1) by (simp add: master_inv_def)
  have len: "length (backends m) = MAX_BACKEND_NUM" "n \<le> MAX_BACKEND_NUM"
    using assms(1,3) by (auto simp: master_inv_def)
  have same: "\<forall>i < n. ?ns ! i = backends m ! i" by simp
  show ?room
  proof (intro allI impI)
    fix i assume "i < n" "backends m ! i < MAX_BACKEND_CONNECTIONS_NUM \<and> (\<forall>j < i. backends m ! j \<ge> MAX_BACKEND_CONNECTIONS_NUM)"
    then have "first_with_room ?ns = Some i" using len by (intro first_with_room_is) auto
    with inv assms(3) show "\<exists>m'. on_new_connection e True 0 True 0 0 m = Some (Inr (Some i, m')) \<and> master_inv m'
        \<and> backends m' = backends m \<and> cur_backend_count m' = cur_backend_count m \<and> child_threads m' = child_threads m"
      by (simp add: on_new_connection_def get_backend_def Let_def send_client_to_backend_def)
  qed
  assume ?full
  then have None: "first_with_room ?ns = None" by (simp add: first_with_room_None)
  show ?new
  proof (cases "n < MAX_BACKEND_NUM")
    case True
    then have "unat (cur_backend_count ?m) < MAX_BACKEND_NUM" using assms(3) by simp
    from add_backend_run [OF inv assms(2) this] obtain m' where
      "add_backend e ?m = Some (Inr (0, m'))" "master_inv m'" "cur_backend_count m' = cur_backend_count m + 1"
      "backends m' = (backends m)[n := 0]" "unat (cur_backend_count m') = Suc n"
      using assms(3) by auto
    with True None len assms(3) show ?thesis
      by (simp add: on_new_connection_def get_backend_def Let_def send_client_to_backend_def)
  next
    case False
    with None len assms(3) show ?thesis by (simp add: on_new_connection_def get_backend_def add_backend_def Let_def)
  qed
  have "unat (- 1 :: usize) = 2 ^ 64 - 1" by (simp add: unsigned_minus_1_eq_mask mask_eq_exp_minus_1)
  then have "unat (cur_backend_count m - 1) = (if n = 0 then 2 ^ 64 - 1 else n - 1)"
    by (cases "cur_backend_count m = 0") (simp_all add: assms(3) unat_eq_0 unat_minus_one)
  then show ?fails using None len assms(3)
    by (auto simp: on_new_connection_def get_backend_def add_backend_def Let_def send_client_to_backend_def MAX_BACKEND_NUM_def)
qed

section \<open>Examples\<close>

definition good_init :: init_env where
  "good_init = \<lparr>ie_malloc = True, ie_mutex_err = 0, ie_create_err = 0, ie_loop = True, ie_tcp_err = 0, ie_addr_err = 0,
     ie_bind_err = 0, ie_calloc = True, ie_bucket_mutex = (\<lambda>_. True)\<rparr>"

definition good_backend :: backend_env where
  "good_backend = \<lparr>be_loop_err = 0, be_pair_err = 0, be_pipe_err = 0, be_master_pipe_err = 0, be_open_err = 0,
     be_create_err = 0, be_realloc = True, be_tid = 7\<rparr>"

lemma good_backend_ok: "answers_ok good_backend"
  by (simp add: answers_ok_def good_backend_def)

lemma good_init_ok:
  "\<exists>m m'. init_master_thread good_init = (0, Some m) \<and> master_inv m \<and> cur_backend_count m = 0
     \<and> start_master_thread 0 True 1 0 run m = Some (Inr (run, m')) \<and> master_inv m'"
  using init_ok [of good_init 1 run] by (auto simp: good_init_def)

theorem connection_dispatch_witness:
  "\<exists>m m'. init_master_thread good_init = (0, Some m)
     \<and> on_new_connection good_backend True 0 True 0 0 m = Some (Inr (Some 0, m')) \<and> unat (cur_backend_count m') = 1
     \<and> on_new_connection (good_backend\<lparr>be_loop_err := 1\<rparr>) True 0 True 0 0 m = Some (Inl OutOfBounds)"
proof -
  obtain m where m: "init_master_thread good_init = (0, Some m)" "master_inv m" "cur_backend_count m = 0"
    using good_init_ok by blast
  then have "0 = unat (cur_backend_count m)" by simp
  from connection_dispatch [OF m(2) good_backend_ok this] m(1) show ?thesis
    by (auto simp: MAX_BACKEND_NUM_def create_backend_def dest: spec [of _ "good_backend\<lparr>be_loop_err := 1\<rparr>"])
qed

end
