(* ===== verification/Lock_Counter.thy ===== *)
theory Lock_Counter
  imports Prelude
begin

text \<open>
  The multi-threaded tests of \<open>sync/2.4/tests.c\<close>: threads that each take a lock, increment a shared
  counter and release the lock, \<open>ITERATIONS\<close> times. The increment is a read and a write. The lock
  is any algorithm with the laws of the locale \<open>lock_algorithm\<close>; the spin lock and the futex mutex
  of \<open>sync/2.4\<close> interpret it.
\<close>

section \<open>Lock algorithms\<close>

text \<open>
  Where a thread is with respect to the lock: out of it, at some point of the locking code, in the
  critical section, or at some point of the unlocking code.
\<close>

datatype ('a, 'r) lphase = Out | Acquiring 'a | Held | Releasing 'r

definition after_acq :: "'a option \<Rightarrow> ('a, 'r) lphase" where
  "after_acq x = (case x of None \<Rightarrow> Held | Some a \<Rightarrow> Acquiring a)"

definition after_rel :: "'r option \<Rightarrow> ('a, 'r) lphase" where
  "after_rel x = (case x of None \<Rightarrow> Out | Some r \<Rightarrow> Releasing r)"

lemma after_acq_simps [simp]: "after_acq None = Held" "after_acq (Some a) = Acquiring a"
  by (simp_all add: after_acq_def)

lemma after_rel_simps [simp]: "after_rel None = Out" "after_rel (Some r) = Releasing r"
  by (simp_all add: after_rel_def)

text \<open>
  \<open>acq t a l x l'\<close>: thread \<open>t\<close> at point \<open>a\<close> of the locking code makes one step on the shared state of the
  lock; \<open>x\<close> is where it is then, \<open>None\<close> when it got the lock. \<open>rel\<close> is the same for the unlocking code.
\<close>

locale lock_algorithm =
  fixes acq :: "nat \<Rightarrow> 'a \<Rightarrow> 'l \<Rightarrow> 'a option \<Rightarrow> 'l \<Rightarrow> bool"
    and rel :: "nat \<Rightarrow> 'r \<Rightarrow> 'l \<Rightarrow> 'r option \<Rightarrow> 'l \<Rightarrow> bool"
    and a0 :: 'a
    and r0 :: 'r
    and l0 :: 'l
    and linv :: "(nat \<Rightarrow> ('a, 'r) lphase) \<Rightarrow> 'l \<Rightarrow> bool"
  assumes linv_init: "linv (\<lambda>_. Out) l0"
    and linv_start: "linv p l \<Longrightarrow> p t = Out \<Longrightarrow> linv (p(t := Acquiring a0)) l"
    and linv_acq: "linv p l \<Longrightarrow> p t = Acquiring a \<Longrightarrow> acq t a l x l' \<Longrightarrow> linv (p(t := after_acq x)) l'"
    and linv_leave: "linv p l \<Longrightarrow> p t = Held \<Longrightarrow> linv (p(t := Releasing r0)) l"
    and linv_rel: "linv p l \<Longrightarrow> p t = Releasing r \<Longrightarrow> rel t r l y l' \<Longrightarrow> linv (p(t := after_rel y)) l'"
    and exclusive: "linv p l \<Longrightarrow> p t = Held \<Longrightarrow> p u = Held \<Longrightarrow> t = u"
    and progress: "linv p l \<Longrightarrow> p t \<noteq> Out \<Longrightarrow>
      \<exists>u. p u = Held \<or> (\<exists>a x l'. p u = Acquiring a \<and> acq u a l x l') \<or> (\<exists>r x l'. p u = Releasing r \<and> rel u r l x l')"
section \<open>The counting threads\<close>

text \<open>In the critical section: before the read, between read and write (with the value read), after.\<close>

datatype ('a, 'r) cphase = Idle | Locking 'a | Reading | Writing i32 | Written | Unlocking 'r

fun lview :: "('a, 'r) cphase \<Rightarrow> ('a, 'r) lphase" where
  "lview Idle = Out"
| "lview (Locking a) = Acquiring a"
| "lview Reading = Held"
| "lview (Writing v) = Held"
| "lview Written = Held"
| "lview (Unlocking r) = Releasing r"

record ('a, 'r, 'l) cconf =
  cphase :: "nat \<Rightarrow> ('a, 'r) cphase"
  todo :: "nat \<Rightarrow> nat"
  clock :: 'l
  counter :: i32

definition locking :: "'a option \<Rightarrow> ('a, 'r) cphase" where
  "locking x = (case x of None \<Rightarrow> Reading | Some a \<Rightarrow> Locking a)"

definition unlocking :: "'r option \<Rightarrow> ('a, 'r) cphase" where
  "unlocking x = (case x of None \<Rightarrow> Idle | Some r \<Rightarrow> Unlocking r)"

lemma lview_locking [simp]: "lview (locking x) = after_acq x"
  by (cases x) (simp_all add: locking_def)

lemma lview_unlocking [simp]: "lview (unlocking x) = after_rel x"
  by (cases x) (simp_all add: unlocking_def)

text \<open>One step of thread \<open>t\<close> of \<open>n\<close>. \<open>todo t\<close> counts the increments it has still to make.\<close>

inductive count_step ::
  "(nat \<Rightarrow> 'a \<Rightarrow> 'l \<Rightarrow> 'a option \<Rightarrow> 'l \<Rightarrow> bool) \<Rightarrow> (nat \<Rightarrow> 'r \<Rightarrow> 'l \<Rightarrow> 'r option \<Rightarrow> 'l \<Rightarrow> bool) \<Rightarrow> 'a \<Rightarrow> 'r \<Rightarrow> nat
    \<Rightarrow> ('a, 'r, 'l) cconf \<Rightarrow> ('a, 'r, 'l) cconf \<Rightarrow> bool"
  for acq rel a0 r0 n where
  begin_lock: "t < n \<Longrightarrow> cphase s t = Idle \<Longrightarrow> todo s t > 0 \<Longrightarrow>
    count_step acq rel a0 r0 n s (s\<lparr>cphase := (cphase s)(t := Locking a0)\<rparr>)"
| lock_code: "t < n \<Longrightarrow> cphase s t = Locking a \<Longrightarrow> acq t a (clock s) x l' \<Longrightarrow>
    count_step acq rel a0 r0 n s (s\<lparr>cphase := (cphase s)(t := locking x), clock := l'\<rparr>)"
| read_counter: "t < n \<Longrightarrow> cphase s t = Reading \<Longrightarrow>
    count_step acq rel a0 r0 n s (s\<lparr>cphase := (cphase s)(t := Writing (counter s))\<rparr>)"
| write_counter: "t < n \<Longrightarrow> cphase s t = Writing v \<Longrightarrow>
    count_step acq rel a0 r0 n s (s\<lparr>cphase := (cphase s)(t := Written), counter := v + 1, todo := (todo s)(t := todo s t - 1)\<rparr>)"
| begin_unlock: "t < n \<Longrightarrow> cphase s t = Written \<Longrightarrow>
    count_step acq rel a0 r0 n s (s\<lparr>cphase := (cphase s)(t := Unlocking r0)\<rparr>)"
| unlock_code: "t < n \<Longrightarrow> cphase s t = Unlocking r \<Longrightarrow> rel t r (clock s) x l' \<Longrightarrow>
    count_step acq rel a0 r0 n s (s\<lparr>cphase := (cphase s)(t := unlocking x), clock := l'\<rparr>)"

inductive_cases count_stepE: "count_step acq rel a0 r0 n s s'"

definition count_start :: "'l \<Rightarrow> nat \<Rightarrow> ('a, 'r, 'l) cconf" where
  "count_start l k = \<lparr>cphase = (\<lambda>_. Idle), todo = (\<lambda>_. k), clock = l, counter = 0\<rparr>"

definition all_finished :: "nat \<Rightarrow> ('a, 'r, 'l) cconf \<Rightarrow> bool" where
  "all_finished n s \<longleftrightarrow> (\<forall>t < n. cphase s t = Idle \<and> todo s t = 0)"

text \<open>
  The counter is the number of increments made, and a thread between read and write has read the
  current value; threads in the locking code or the critical section before the write have work to do.
\<close>

definition views :: "(nat \<Rightarrow> ('a, 'r) cphase) \<Rightarrow> nat \<Rightarrow> ('a, 'r) lphase" where
  "views f = (\<lambda>t. lview (f t))"

definition made :: "nat \<Rightarrow> nat \<Rightarrow> (nat \<Rightarrow> nat) \<Rightarrow> nat" where
  "made n k d = (\<Sum>t<n. k - d t)"

fun has_work :: "('a, 'r) cphase \<Rightarrow> bool" where
  "has_work (Locking a) = True"
| "has_work Reading = True"
| "has_work (Writing v) = True"
| "has_work _ = False"

definition count_inv :: "((nat \<Rightarrow> ('a, 'r) lphase) \<Rightarrow> 'l \<Rightarrow> bool) \<Rightarrow> nat \<Rightarrow> nat \<Rightarrow> ('a, 'r, 'l) cconf \<Rightarrow> bool" where
  "count_inv linv n k s \<longleftrightarrow> linv (views (cphase s)) (clock s)
     \<and> (\<forall>t. todo s t \<le> k) \<and> (\<forall>t. t \<ge> n \<longrightarrow> cphase s t = Idle)
     \<and> counter s = of_nat (made n k (todo s))
     \<and> (\<forall>t v. cphase s t = Writing v \<longrightarrow> v = counter s)
     \<and> (\<forall>t. has_work (cphase s t) \<longrightarrow> todo s t > 0)"

lemma views_apply [simp]: "views f t = lview (f t)"
  by (simp add: views_def)

lemma views_upd [simp]: "views (f(t := x)) = (views f)(t := lview x)"
  by (auto simp: views_def)

lemma views_idem: "lview x = lview (f t) \<Longrightarrow> (views f)(t := lview x) = views f"
  by (simp add: fun_upd_idem)

lemma made_one_more:
  assumes "t < n" "0 < d t" "d t \<le> k"
  shows "made n k (d(t := d t - 1)) = Suc (made n k d)"
proof -
  have "made n k (d(t := d t - 1)) = (k - (d t - 1)) + (\<Sum>u \<in> {..<n} - {t}. k - d u)"
    unfolding made_def using assms(1) by (subst sum.remove [of _ t]) auto
  moreover have "made n k d = (k - d t) + (\<Sum>u \<in> {..<n} - {t}. k - d u)"
    unfolding made_def using assms(1) by (subst sum.remove [of _ t]) auto
  ultimately show ?thesis using assms by simp
qed

lemma has_work_locking [simp]: "has_work (locking x)"
  by (simp add: locking_def split: option.split)

lemma has_work_unlocking [simp]: "\<not> has_work (unlocking x)"
  by (simp add: unlocking_def split: option.split)

lemma not_writing [simp]: "locking x \<noteq> Writing v" "unlocking x \<noteq> Writing v"
  by (simp_all add: locking_def unlocking_def split: option.split)

context lock_algorithm
begin

lemma count_inv_start: "count_inv linv n k (count_start l0 k)"
  using linv_init by (simp add: count_inv_def count_start_def made_def views_def)

lemma count_inv_step:
  assumes "count_step acq rel a0 r0 n s s'" "count_inv linv n k s"
  shows "count_inv linv n k s'"
proof -
  have I: "linv (views (cphase s)) (clock s)" "\<And>t. todo s t \<le> k" "\<And>t. t \<ge> n \<Longrightarrow> cphase s t = Idle"
    "counter s = of_nat (made n k (todo s))" "\<And>t v. cphase s t = Writing v \<Longrightarrow> v = counter s"
    "\<And>t. has_work (cphase s t) \<Longrightarrow> todo s t > 0"
    using assms(2) unfolding count_inv_def by blast+
  show ?thesis using assms(1)
  proof cases
    case (begin_lock t)
    with I linv_start [OF I(1), of t] show ?thesis by (simp add: count_inv_def)
  next
    case (lock_code t a x l')
    have "linv ((views (cphase s))(t := after_acq x)) l'"
      using linv_acq [OF I(1) _ lock_code(4)] lock_code(3) by simp
    moreover have "todo s t > 0" using I(6) [of t] lock_code(3) by simp
    ultimately show ?thesis using lock_code I by (simp add: count_inv_def)
  next
    case (read_counter t)
    then have "(views (cphase s))(t := Held) = views (cphase s)" by (simp add: fun_upd_idem)
    moreover have "todo s t > 0" using I(6) [of t] read_counter(3) by simp
    ultimately show ?thesis using read_counter I by (simp add: count_inv_def)
  next
    case (write_counter t v)
    then have l: "(views (cphase s))(t := Held) = views (cphase s)" by (simp add: fun_upd_idem)
    have v: "v = counter s" using I(5) write_counter(3) by blast
    have w: "todo s t > 0" using I(6) [of t] write_counter(3) by simp
    have others: "cphase s u \<noteq> Writing w" if "u \<noteq> t" for u w
      using exclusive [OF I(1), of t u] write_counter(3) that by auto
    have "made n k ((todo s)(t := todo s t - 1)) = Suc (made n k (todo s))"
      using write_counter(2) w I(2) by (intro made_one_more)
    then have "v + 1 = of_nat (made n k ((todo s)(t := todo s t - 1)))" using v I(4) by (simp add: of_nat_Suc_word)
    moreover have "todo s u - 1 \<le> k" for u using I(2) [of u] by linarith
    ultimately show ?thesis using write_counter(1,2) l I others by (simp add: count_inv_def del: One_nat_def)
  next
    case (begin_unlock t)
    with I linv_leave [OF I(1), of t] show ?thesis by (simp add: count_inv_def)
  next
    case (unlock_code t r x l')
    have "linv ((views (cphase s))(t := after_rel x)) l'"
      using linv_rel [OF I(1) _ unlock_code(4)] unlock_code(3) by simp
    then show ?thesis using unlock_code I by (simp add: count_inv_def)
  qed
qed

lemma count_inv_reach: "(count_step acq rel a0 r0 n)\<^sup>*\<^sup>* (count_start l0 k) s \<Longrightarrow> count_inv linv n k s"
  by (induction rule: rtranclp_induct) (auto intro: count_inv_start count_inv_step)

text \<open>When all threads are done, the counter is the number of threads times their iterations.\<close>

lemma count_final:
  assumes "(count_step acq rel a0 r0 n)\<^sup>*\<^sup>* (count_start l0 k) s" "all_finished n s"
  shows "counter s = of_nat (n * k)"
proof -
  have "counter s = of_nat (made n k (todo s))" using count_inv_reach [OF assms(1)] by (simp add: count_inv_def)
  moreover have "made n k (todo s) = n * k" using assms(2) by (simp add: all_finished_def made_def)
  ultimately show ?thesis by simp
qed

text \<open>At most one thread is in the critical section.\<close>

lemma count_exclusive:
  assumes "(count_step acq rel a0 r0 n)\<^sup>*\<^sup>* (count_start l0 k) s" "lview (cphase s t) = Held" "lview (cphase s u) = Held"
  shows "t = u"
  using count_inv_reach [OF assms(1)] assms(2,3) exclusive [of "views (cphase s)" "clock s" t u] by (simp add: count_inv_def)

text \<open>As long as a thread is not done, some thread can make a step.\<close>

lemma count_progress:
  assumes r: "(count_step acq rel a0 r0 n)\<^sup>*\<^sup>* (count_start l0 k) s" and "\<not> all_finished n s"
  shows "\<exists>s'. count_step acq rel a0 r0 n s s'"
proof -
  have inv: "count_inv linv n k s" by (rule count_inv_reach [OF r])
  from assms(2) obtain t where t: "t < n" "cphase s t \<noteq> Idle \<or> todo s t > 0" by (auto simp: all_finished_def)
  show ?thesis
  proof (cases "cphase s t = Idle")
    case True
    with t show ?thesis by (blast intro: count_step.begin_lock)
  next
    case False
    then have o: "views (cphase s) t \<noteq> Out" by (cases "cphase s t") auto
    have l: "linv (views (cphase s)) (clock s)" using inv by (simp add: count_inv_def)
    from progress [OF l o] obtain u where u: "views (cphase s) u = Held
        \<or> (\<exists>a x l'. views (cphase s) u = Acquiring a \<and> acq u a (clock s) x l')
        \<or> (\<exists>r x l'. views (cphase s) u = Releasing r \<and> rel u r (clock s) x l')" by blast
    then have "cphase s u \<noteq> Idle" by auto
    then have "u < n" using inv by (meson count_inv_def not_le)
    with u show ?thesis by (cases "cphase s u") (auto intro: count_step.intros)
  qed
qed

end

end
