(* ===== verification/Spinlock.thy ===== *)
theory Spinlock
  imports Lock_Counter
begin

text \<open>
  The spin lock \<open>sync/2.4/spinlock/spinlock.c\<close>: every operation as a function of the value of
  \<open>is_acquired\<close> for a thread that runs alone (\<open>None\<close>: the loop never ends), and the locking and
  unlocking code as steps of threads that run together.
\<close>

section \<open>Operations\<close>

definition ERR_TRY_UNLOCK_NOT_LOCKED :: int where "ERR_TRY_UNLOCK_NOT_LOCKED = -2"
definition ERR_CAS_FUNC :: int where "ERR_CAS_FUNC = -3"
definition SLBUSY :: int where "SLBUSY = 0"

text \<open>\<open>__sync_val_compare_and_swap\<close>: the old value, and the new one stored.\<close>

definition cas :: "i32 \<Rightarrow> i32 \<Rightarrow> i32 \<Rightarrow> i32 \<times> i32" where
  "cas v old new = (v, if v = old then new else v)"

definition spinlock_init :: "i32 \<Rightarrow> int \<times> i32" where
  "spinlock_init v = (0, 0)"

partial_function (option) spinlock_lock :: "i32 \<Rightarrow> (int \<times> i32) option" where
  "spinlock_lock v = (let (actual, v') = cas v 0 1 in
     if actual \<noteq> 0 \<and> actual \<noteq> 1 then Some (ERR_CAS_FUNC, v')
     else if actual \<noteq> 0 then spinlock_lock v'
     else Some (0, v'))"

definition spinlock_trylock :: "i32 \<Rightarrow> int \<times> i32" where
  "spinlock_trylock v = (let (actual, v') = cas v 0 1 in
     if actual \<noteq> 0 \<and> actual \<noteq> 1 then (ERR_CAS_FUNC, v')
     else if actual = 1 then (SLBUSY, v')
     else (1, v'))"

definition spinlock_unlock :: "i32 \<Rightarrow> int \<times> i32" where
  "spinlock_unlock v = (let (actual, v') = cas v 1 0 in
     if actual \<noteq> 0 \<and> actual \<noteq> 1 then (ERR_CAS_FUNC, v')
     else if actual = 0 then (ERR_TRY_UNLOCK_NOT_LOCKED, v')
     else (0, v'))"

lemma spinlock_lock_free: "spinlock_lock 0 = Some (0, 1)"
  by (subst spinlock_lock.simps) (simp add: cas_def)

section \<open>Steps\<close>

text \<open>
  One round of the loop of \<open>spinlock_lock\<close>, and the compare-and-swap of \<open>spinlock_unlock\<close>. The exit of the loop with
  \<open>ERR_CAS_FUNC\<close>, for a value that is neither 0 nor 1, is in \<open>spinlock_lock\<close> above and not in the step: by \<open>spin_inv\<close> the value is
  always 0 or 1 here.
\<close>

definition spin_acq :: "nat \<Rightarrow> unit \<Rightarrow> i32 \<Rightarrow> unit option \<Rightarrow> i32 \<Rightarrow> bool" where
  "spin_acq t a v x v' \<longleftrightarrow> (let (actual, w) = cas v 0 1 in v' = w \<and> x = (if actual = 0 then None else Some ()))"

definition spin_rel :: "nat \<Rightarrow> unit \<Rightarrow> i32 \<Rightarrow> unit option \<Rightarrow> i32 \<Rightarrow> bool" where
  "spin_rel t r v x v' \<longleftrightarrow> x = None \<and> v' = snd (spinlock_unlock v)"

definition spin_owner :: "(unit, unit) lphase \<Rightarrow> bool" where
  "spin_owner ph = (ph = Held \<or> ph = Releasing ())"

definition spin_inv :: "(nat \<Rightarrow> (unit, unit) lphase) \<Rightarrow> i32 \<Rightarrow> bool" where
  "spin_inv p v \<longleftrightarrow> v = (if (\<exists>t. spin_owner (p t)) then 1 else 0) \<and> (\<forall>t u. spin_owner (p t) \<longrightarrow> spin_owner (p u) \<longrightarrow> t = u)"

lemma spin_owner_simps [simp]:
  "\<not> spin_owner Out" "\<not> spin_owner (Acquiring a)" "spin_owner Held" "spin_owner (Releasing r)"
  by (simp_all add: spin_owner_def)

lemma spin_inv_same:
  assumes "spin_inv p v" "spin_owner x = spin_owner (p t)"
  shows "spin_inv (p(t := x)) v"
proof -
  have "spin_owner ((p(t := x)) u) = spin_owner (p u)" for u using assms(2) by simp
  with assms(1) show ?thesis by (simp add: spin_inv_def)
qed

interpretation spin: lock_algorithm spin_acq spin_rel "()" "()" 0 spin_inv
proof unfold_locales
  show "spin_inv (\<lambda>_. Out) 0" by (simp add: spin_inv_def)
next
  fix p l t
  assume "spin_inv p l" "p t = Out"
  then show "spin_inv (p(t := Acquiring ())) l" by (intro spin_inv_same) simp_all
next
  fix p l t a x l'
  assume i: "spin_inv p l" and t: "p t = Acquiring a" and s: "spin_acq t a l x l'"
  show "spin_inv (p(t := after_acq x)) l'"
  proof (cases "l = 0")
    case True
    then have "\<not> spin_owner (p u)" for u using i by (auto simp: spin_inv_def split: if_splits)
    with s True show ?thesis by (auto simp: spin_acq_def cas_def spin_inv_def)
  next
    case False
    with s have "l' = l" "x = Some ()" by (auto simp: spin_acq_def cas_def)
    with i t show ?thesis by (auto intro: spin_inv_same)
  qed
next
  fix p l t
  assume "spin_inv p l" "p t = Held"
  then show "spin_inv (p(t := Releasing ())) l" by (intro spin_inv_same) simp_all
next
  fix p l t r y l'
  assume i: "spin_inv p l" and t: "p t = Releasing r" and s: "spin_rel t r l y l'"
  have own: "spin_owner (p t)" using t by simp
  then have l: "l = 1" "\<And>u. spin_owner (p u) \<Longrightarrow> u = t" using i by (auto simp: spin_inv_def)
  then have "l' = 0" "y = None" using s by (auto simp: spin_rel_def spinlock_unlock_def cas_def)
  moreover have "\<not> spin_owner ((p(t := Out)) u)" for u using l(2) by auto
  ultimately show "spin_inv (p(t := after_rel y)) l'" by (simp add: spin_inv_def)
next
  fix p l t u
  assume "spin_inv p l" "p t = Held" "p u = Held"
  then show "t = u" by (metis spin_inv_def spin_owner_simps(3))
next
  fix p :: "nat \<Rightarrow> (unit, unit) lphase" and l t
  assume "p t \<noteq> Out"
  then show "\<exists>u. p u = Held \<or> (\<exists>a x l'. p u = Acquiring a \<and> spin_acq u a l x l') \<or> (\<exists>r x l'. p u = Releasing r \<and> spin_rel u r l x l')"
    by (cases "p t") (auto simp: spin_acq_def spin_rel_def split_beta)
qed

section \<open>Properties\<close>

text \<open>
  Property C25. The spin lock test: in every interleaving of \<open>n\<close> threads that each increment the
  counter \<open>k\<close> times under the spin lock, at most one thread is in its critical section, and when all
  have finished the counter is \<open>n * k\<close> (10 threads and 100000 iterations in the test, so that the 32-bit
  counter does not wrap).
\<close>

theorem spinlock_counter:
  assumes "(count_step spin_acq spin_rel () () n)\<^sup>*\<^sup>* (count_start 0 k) s"
  shows "(\<forall>t u. lview (cphase s t) = Held \<and> lview (cphase s u) = Held \<longrightarrow> t = u)
    \<and> (all_finished n s \<longrightarrow> counter s = of_nat (n * k))"
  using spin.count_exclusive [OF assms] spin.count_final [OF assms] by blast

theorem spinlock_counter_witness:
  "\<exists>s. (count_step spin_acq spin_rel () () 1)\<^sup>*\<^sup>* (count_start 0 1) s \<and> all_finished 1 s \<and> counter s = 1"
proof -
  let ?C = "count_step spin_acq spin_rel () () 1"
  let ?s0 = "count_start 0 1 :: (unit, unit, i32) cconf"
  let ?s1 = "?s0\<lparr>cphase := (cphase ?s0)(0 := Locking ())\<rparr>"
  let ?s2 = "?s1\<lparr>cphase := (cphase ?s1)(0 := locking None), clock := 1\<rparr>"
  let ?s3 = "?s2\<lparr>cphase := (cphase ?s2)(0 := Writing (counter ?s2))\<rparr>"
  let ?s4 = "?s3\<lparr>cphase := (cphase ?s3)(0 := Written), counter := counter ?s2 + 1, todo := (todo ?s3)(0 := todo ?s3 0 - 1)\<rparr>"
  let ?s5 = "?s4\<lparr>cphase := (cphase ?s4)(0 := Unlocking ())\<rparr>"
  let ?s6 = "?s5\<lparr>cphase := (cphase ?s5)(0 := unlocking None), clock := 0\<rparr>"
  have "?C ?s0 ?s1" by (rule count_step.begin_lock) (simp_all add: count_start_def)
  moreover have "?C ?s1 ?s2" by (rule count_step.lock_code) (simp_all add: count_start_def spin_acq_def cas_def)
  moreover have "?C ?s2 ?s3" by (rule count_step.read_counter) (simp_all add: locking_def)
  moreover have "?C ?s3 ?s4" by (rule count_step.write_counter) simp_all
  moreover have "?C ?s4 ?s5" by (rule count_step.begin_unlock) simp_all
  moreover have "?C ?s5 ?s6" by (rule count_step.unlock_code) (simp_all add: spin_rel_def spinlock_unlock_def cas_def)
  ultimately have r: "?C\<^sup>*\<^sup>* ?s0 ?s6" by (meson rtranclp.rtrancl_into_rtrancl rtranclp.rtrancl_refl)
  moreover have "all_finished 1 ?s6" by (simp add: all_finished_def unlocking_def count_start_def)
  ultimately show ?thesis using spinlock_counter [OF r] by auto
qed

end
