(* ===== verification/Futex_Mutex.thy ===== *)
theory Futex_Mutex
  imports Lock_Counter
begin

text \<open>
  The mutex \<open>sync/2.4/mutex/mutex.c\<close> on a futex. Every atomic operation and every system call of
  the locking and unlocking code is a step. The kernel's side is the set of sleeping threads:
  \<open>FUTEX_WAIT\<close> puts a thread to sleep if the value is still 2, in one step; \<open>FUTEX_WAKE\<close> wakes one
  sleeper, if there is one; and, if \<open>spur\<close> says so, a sleeper may also wake up spuriously.
\<close>

section \<open>The code\<close>

record futex =
  fstate :: i32
  sleepers :: "nat set"

definition cmpxchg :: "i32 \<Rightarrow> i32 \<Rightarrow> i32 \<Rightarrow> i32 \<times> i32" where
  "cmpxchg v expected desired = (v, if v = expected then desired else v)"

definition mutex_init :: "i32 \<Rightarrow> int \<times> i32" where
  "mutex_init v = (0, 0)"

definition mutex_trylock :: "i32 \<Rightarrow> int \<times> i32" where
  "mutex_trylock v = (if v = 0 then (1, 1) else (0, v))"

text \<open>
  The points of \<open>mutex_lock\<close>: before the first compare-and-exchange, before the test of \<open>c\<close>, before
  \<open>FUTEX_WAIT\<close>, in it, and before the compare-and-exchange at the end of the loop.
\<close>

datatype lock_pc = Cas01 | Test i32 | Wait | Sleep | Cas02

text \<open>The points of \<open>mutex_unlock\<close>: before the subtraction, the store and \<open>FUTEX_WAKE\<close>.\<close>

datatype unlock_pc = Sub | Store | Wake

inductive mutex_lock :: "bool \<Rightarrow> nat \<Rightarrow> lock_pc \<Rightarrow> futex \<Rightarrow> lock_pc option \<Rightarrow> futex \<Rightarrow> bool" for spur :: bool where
  cas01: "cmpxchg (fstate f) 0 1 = (c, v) \<Longrightarrow>
    mutex_lock spur t Cas01 f (if c \<noteq> 0 then Some (Test c) else None) (f\<lparr>fstate := v\<rparr>)"
| test2: "mutex_lock spur t (Test 2) f (Some Wait) f"
| test: "c \<noteq> 2 \<Longrightarrow> cmpxchg (fstate f) 1 2 = (r, v) \<Longrightarrow>
    mutex_lock spur t (Test c) f (Some (if r \<noteq> 0 then Wait else Cas02)) (f\<lparr>fstate := v\<rparr>)"
| wait: "fstate f = 2 \<Longrightarrow> mutex_lock spur t Wait f (Some Sleep) (f\<lparr>sleepers := insert t (sleepers f)\<rparr>)"
| again: "fstate f \<noteq> 2 \<Longrightarrow> mutex_lock spur t Wait f (Some Cas02) f"
| woken: "t \<notin> sleepers f \<Longrightarrow> mutex_lock spur t Sleep f (Some Cas02) f"
| spurious: "spur \<Longrightarrow> mutex_lock spur t Sleep f (Some Cas02) (f\<lparr>sleepers := sleepers f - {t}\<rparr>)"
| cas02: "cmpxchg (fstate f) 0 2 = (c, v) \<Longrightarrow>
    mutex_lock spur t Cas02 f (if c \<noteq> 0 then Some (Test c) else None) (f\<lparr>fstate := v\<rparr>)"

inductive mutex_unlock :: "nat \<Rightarrow> unlock_pc \<Rightarrow> futex \<Rightarrow> unlock_pc option \<Rightarrow> futex \<Rightarrow> bool" where
  sub: "mutex_unlock t Sub f (if fstate f \<noteq> 1 then Some Store else None) (f\<lparr>fstate := fstate f - 1\<rparr>)"
| store_zero: "mutex_unlock t Store f (Some Wake) (f\<lparr>fstate := 0\<rparr>)"
| wake_one: "u \<in> sleepers f \<Longrightarrow> mutex_unlock t Wake f None (f\<lparr>sleepers := sleepers f - {u}\<rparr>)"
| wake_none: "sleepers f = {} \<Longrightarrow> mutex_unlock t Wake f None f"

inductive_cases mutex_lockE: "mutex_lock spur t pc f x f'"
inductive_cases mutex_unlockE: "mutex_unlock t pc f x f'"

section \<open>Invariant\<close>

text \<open>A thread owns the mutex from its last compare-and-exchange to the operation that frees it.\<close>

fun owns :: "(lock_pc, unlock_pc) lphase \<Rightarrow> bool" where
  "owns Held = True"
| "owns (Releasing Sub) = True"
| "owns (Releasing Store) = True"
| "owns _ = False"

text \<open>
  Threads that keep the sleepers alive: one that is about to wake a sleeper, and one that is awake in
  the loop of \<open>mutex_lock\<close> and will get the mutex with the value 2 or set the value to 2.
\<close>

fun cares :: "nat set \<Rightarrow> nat \<Rightarrow> (lock_pc, unlock_pc) lphase \<Rightarrow> bool" where
  "cares W t (Acquiring Cas01) = False"
| "cares W t (Acquiring Sleep) = (t \<notin> W)"
| "cares W t (Acquiring _) = True"
| "cares W t (Releasing Store) = True"
| "cares W t (Releasing Wake) = True"
| "cares W t _ = False"

definition futex_inv :: "(nat \<Rightarrow> (lock_pc, unlock_pc) lphase) \<Rightarrow> futex \<Rightarrow> bool" where
  "futex_inv p f \<longleftrightarrow> fstate f \<in> {0, 1, 2} \<and> (fstate f \<noteq> 0 \<longleftrightarrow> (\<exists>t. owns (p t)))
     \<and> (\<forall>t u. owns (p t) \<longrightarrow> owns (p u) \<longrightarrow> t = u)
     \<and> (\<forall>t \<in> sleepers f. p t = Acquiring Sleep)
     \<and> (sleepers f \<noteq> {} \<longrightarrow> fstate f = 2 \<or> (\<exists>t. cares (sleepers f) t (p t)))"

lemma owns_not_cares [simp]: "owns (Acquiring a) = False" "owns Out = False" "owns (Releasing Wake) = False"
  by simp_all

lemma futex_invD:
  assumes "futex_inv p f"
  shows "fstate f \<in> {0, 1, 2}" "owns (p t) \<Longrightarrow> fstate f \<noteq> 0" "fstate f \<noteq> 0 \<Longrightarrow> \<exists>t. owns (p t)"
    "owns (p t) \<Longrightarrow> owns (p u) \<Longrightarrow> t = u" "t \<in> sleepers f \<Longrightarrow> p t = Acquiring Sleep"
    "sleepers f \<noteq> {} \<Longrightarrow> fstate f \<noteq> 2 \<Longrightarrow> \<exists>t. cares (sleepers f) t (p t)"
  using assms unfolding futex_inv_def by blast+

lemma cares_mono: "cares W t ph \<Longrightarrow> W' \<subseteq> W \<Longrightarrow> cares W' t ph"
  by (induction W t ph rule: cares.induct) auto

text \<open>A step of one thread that neither takes nor gives the ownership.\<close>

lemma futex_inv_keep:
  assumes inv: "futex_inv p f" and own: "owns x = owns (p t)"
    and st: "fstate f' \<in> {0, 1, 2}" "fstate f' = 0 \<longleftrightarrow> fstate f = 0"
    and W: "\<And>u. u \<in> sleepers f' \<Longrightarrow> (p(t := x)) u = Acquiring Sleep"
    and alive: "sleepers f' \<noteq> {} \<Longrightarrow> fstate f' = 2 \<or> (\<exists>u. cares (sleepers f') u ((p(t := x)) u))"
  shows "futex_inv (p(t := x)) f'"
proof -
  have "owns ((p(t := x)) u) = owns (p u)" for u using own by simp
  then show ?thesis unfolding futex_inv_def using futex_invD [OF inv] st W alive by metis
qed

text \<open>A step of a thread that does not touch the futex and that no sleeper depends on.\<close>

lemma futex_inv_local:
  assumes inv: "futex_inv p f" and "owns x = owns (p t)" "\<not> cares (sleepers f) t (p t)" "p t \<noteq> Acquiring Sleep"
  shows "futex_inv (p(t := x)) f"
proof (rule futex_inv_keep [OF inv assms(2) futex_invD(1) [OF inv]])
  fix u
  assume "u \<in> sleepers f"
  with futex_invD(5) [OF inv, of u] assms(4) show "(p(t := x)) u = Acquiring Sleep" by auto
next
  assume "sleepers f \<noteq> {}"
  with futex_invD(6) [OF inv] assms(3) show "fstate f = 2 \<or> (\<exists>u. cares (sleepers f) u ((p(t := x)) u))"
    by (metis fun_upd_other)
qed simp

lemma futex_inv_take:
  assumes inv: "futex_inv p f" and "fstate f = 0" "owns x" "fstate f' \<in> {1, 2}" "sleepers f' = sleepers f" "t \<notin> sleepers f"
    and alive: "sleepers f \<noteq> {} \<Longrightarrow> fstate f' = 2 \<or> (\<exists>u. u \<noteq> t \<and> cares (sleepers f) u (p u))"
  shows "futex_inv (p(t := x)) f'"
proof -
  have none: "\<not> owns (p u)" for u using futex_invD(2) [OF inv, of u] assms(2) by blast
  have "sleepers f' \<noteq> {} \<longrightarrow> fstate f' = 2 \<or> (\<exists>u. cares (sleepers f') u ((p(t := x)) u))"
    using alive assms(5) by (metis fun_upd_other)
  then show ?thesis unfolding futex_inv_def using none assms(2-6) futex_invD(5) [OF inv] by auto
qed

lemma futex_inv_give:
  assumes inv: "futex_inv p f" and "owns (p t)" "\<not> owns x" "fstate f' = 0" "sleepers f' = sleepers f" "t \<notin> sleepers f"
    and alive: "sleepers f \<noteq> {} \<Longrightarrow> (\<exists>u. cares (sleepers f) u ((p(t := x)) u))"
  shows "futex_inv (p(t := x)) f'"
proof -
  have none: "\<not> owns ((p(t := x)) u)" for u using futex_invD(4) [OF inv assms(2), of u] assms(3) by auto
  show ?thesis unfolding futex_inv_def using none assms futex_invD(5) [OF inv] by auto
qed

lemma carerI: "cares W t ph \<Longrightarrow> \<exists>u. cares W u ((p(t := ph)) u)"
  by (rule exI [of _ t]) simp

lemma other_carer:
  assumes "futex_inv p f" "sleepers f \<noteq> {}" "fstate f \<noteq> 2" "\<not> cares (sleepers f) t (p t)"
  shows "\<exists>u. u \<noteq> t \<and> cares (sleepers f) u (p u)"
  using futex_invD(6) [OF assms(1-3)] assms(4) by metis

text \<open>An attempt to take the mutex, from 0 to 1 or from 0 to 2.\<close>

lemma futex_try:
  assumes inv: "futex_inv p f" and t: "p t = Acquiring a" "a = Cas01 \<and> n = 1 \<or> a = Cas02 \<and> n = 2"
    and cas: "cmpxchg (fstate f) 0 n = (c, v)"
  shows "futex_inv (p(t := after_acq (if c \<noteq> 0 then Some (Test c) else None))) (f\<lparr>fstate := v\<rparr>)"
proof -
  have awake: "t \<notin> sleepers f" using futex_invD(5) [OF inv, of t] t by auto
  show ?thesis
  proof (cases "fstate f = 0")
    case True
    with cas have f: "c = 0" "v = n" by (auto simp: cmpxchg_def)
    have "n = 2 \<or> (\<exists>u. u \<noteq> t \<and> cares (sleepers f) u (p u))" if ne: "sleepers f \<noteq> {}"
      using other_carer [OF inv ne, of t] True t by auto
    then show ?thesis using True f awake t(2) by (intro futex_inv_take [OF inv]) auto
  next
    case False
    with cas have "v = fstate f" "c \<noteq> 0" by (auto simp: cmpxchg_def)
    then show ?thesis using t awake futex_invD(1,5) [OF inv] by (intro futex_inv_keep [OF inv]) (auto intro!: carerI)
  qed
qed

lemma futex_lock_step:
  assumes inv: "futex_inv p f" and t: "p t = Acquiring a" and st: "mutex_lock spur t a f x f'"
  shows "futex_inv (p(t := after_acq x)) f'"
proof -
  have awake: "t \<notin> sleepers f" if "a \<noteq> Sleep" using futex_invD(5) [OF inv, of t] t that by auto
  have own: "\<not> owns (p t)" using t by simp
  note D = futex_invD(1,5) [OF inv]
  show ?thesis using st
  proof cases
    case (cas01 c v)
    with futex_try [OF inv t, of 1 c v] show ?thesis by simp
  next
    case (cas02 c v)
    with futex_try [OF inv t, of 2 c v] show ?thesis by simp
  next
    case (test c r v)
    have "fstate f' \<in> {0, 1, 2}" "fstate f' = 0 \<longleftrightarrow> fstate f = 0" "sleepers f' = sleepers f"
      using test D(1) by (auto simp: cmpxchg_def split: if_splits)
    then show ?thesis using test own awake D by (intro futex_inv_keep [OF inv]) (auto intro!: carerI)
  qed (use own awake D in \<open>intro futex_inv_keep [OF inv]; auto intro!: carerI\<close>)+
qed

lemma futex_unlock_step:
  assumes inv: "futex_inv p f" and t: "p t = Releasing r" and st: "mutex_unlock t r f x f'"
  shows "futex_inv (p(t := after_rel x)) f'"
proof -
  have awake: "t \<notin> sleepers f" using futex_invD(5) [OF inv, of t] t by auto
  note D = futex_invD(1,5) [OF inv]
  show ?thesis using st
  proof cases
    case sub
    then have own: "owns (p t)" using t by simp
    then have "fstate f \<noteq> 0" by (rule futex_invD(2) [OF inv])
    show ?thesis
    proof (cases "fstate f = 1")
      case True
      have "\<exists>u. cares (sleepers f) u ((p(t := Out)) u)" if ne: "sleepers f \<noteq> {}"
        using other_carer [OF inv ne, of t] True t sub(1) by (auto intro: exI)
      then show ?thesis using True sub own awake by (intro futex_inv_give [OF inv]) simp_all
    next
      case False
      with D(1) \<open>fstate f \<noteq> 0\<close> have "fstate f = 2" by blast
      then show ?thesis using sub t awake D(2) by (intro futex_inv_keep [OF inv]) (auto intro!: carerI)
    qed
  next
    case store_zero
    then show ?thesis using t awake carerI [of "sleepers f" t "Releasing Wake" p] by (intro futex_inv_give [OF inv]) simp_all
  next
    case (wake_one u)
    then have u: "p u = Acquiring Sleep" "u \<noteq> t" using D(2) t by auto
    have "cares (sleepers f - {u}) u ((p(t := Out)) u)" using u by simp
    then show ?thesis using wake_one t D u by (intro futex_inv_keep [OF inv]) auto
  next
    case wake_none
    then show ?thesis using t D(1) by (intro futex_inv_keep [OF inv]) auto
  qed
qed

lemma lock_moves: "a \<noteq> Sleep \<or> t \<notin> sleepers f \<Longrightarrow> \<exists>x f'. mutex_lock spur t a f x f'"
proof (cases a)
  case (Test c)
  then show ?thesis by (cases "c = 2") (blast intro: mutex_lock.test2 mutex_lock.test cmpxchg_def)+
next
  case Wait
  then show ?thesis by (cases "fstate f = 2") (auto intro: mutex_lock.wait mutex_lock.again)
qed (blast intro: mutex_lock.cas01 mutex_lock.woken mutex_lock.cas02 cmpxchg_def)+

lemma unlock_moves: "\<exists>x f'. mutex_unlock t r f x f'"
proof (cases r)
  case Wake
  then show ?thesis by (cases "sleepers f = {}") (auto intro: mutex_unlock.wake_one mutex_unlock.wake_none)
qed (auto intro: mutex_unlock.sub mutex_unlock.store_zero)

text \<open>Whenever somebody is at the mutex, somebody can go on: a sleeper depends on a thread that is awake.\<close>

lemma somebody_awake:
  assumes i: "futex_inv p l" and t: "p t \<noteq> Out"
  shows "\<exists>u. p u \<noteq> Out \<and> u \<notin> sleepers l"
proof (cases "t \<in> sleepers l")
  case True
  then have ne: "sleepers l \<noteq> {}" by blast
  obtain u where u: "owns (p u) \<or> cares (sleepers l) u (p u)"
    using futex_invD(3) [OF i] futex_invD(6) [OF i ne] by (cases "fstate l = 2") fastforce+
  then have "p u \<noteq> Out" by auto
  moreover have "u \<notin> sleepers l" using u futex_invD(5) [OF i, of u] by auto
  ultimately show ?thesis by blast
qed (use t in blast)

definition futex0 :: futex where
  "futex0 = \<lparr>fstate = 0, sleepers = {}\<rparr>"

interpretation futexm: lock_algorithm "mutex_lock spur" mutex_unlock Cas01 Sub futex0 futex_inv for spur
proof unfold_locales
  show "futex_inv (\<lambda>_. Out) futex0" by (simp add: futex_inv_def futex0_def)
next
  fix p l t
  assume "futex_inv p l" "p t = Out"
  then show "futex_inv (p(t := Acquiring Cas01)) l" by (intro futex_inv_local) simp_all
next
  fix p l t a x l'
  assume "futex_inv p l" "p t = Acquiring a" "mutex_lock spur t a l x l'"
  then show "futex_inv (p(t := after_acq x)) l'" by (rule futex_lock_step)
next
  fix p l t
  assume "futex_inv p l" "p t = Held"
  then show "futex_inv (p(t := Releasing Sub)) l" by (intro futex_inv_local) simp_all
next
  fix p l t r y l'
  assume "futex_inv p l" "p t = Releasing r" "mutex_unlock t r l y l'"
  then show "futex_inv (p(t := after_rel y)) l'" by (rule futex_unlock_step)
next
  fix p l t u
  assume "futex_inv p l" "p t = Held" "p u = Held"
  then show "t = u" using futex_invD(4) [of p l t u] by simp
next
  fix p l t
  assume "futex_inv p l" "p t \<noteq> Out"
  then obtain u where u: "p u \<noteq> Out" "u \<notin> sleepers l" using somebody_awake by blast
  with lock_moves [of _ u l spur] unlock_moves [of u _ l]
  show "\<exists>u. p u = Held \<or> (\<exists>a x l'. p u = Acquiring a \<and> mutex_lock spur u a l x l')
      \<or> (\<exists>r x l'. p u = Releasing r \<and> mutex_unlock u r l x l')" by (intro exI [of _ u]) (cases "p u"; auto)
qed

section \<open>Properties\<close>

text \<open>
  Property C6. The futex mutex test: in every interleaving of \<open>n\<close> threads that each increment the
  counter \<open>k\<close> times under the mutex, with or without spurious wake-ups, at most one thread is in its
  critical section, and when all have finished the counter is \<open>n * k\<close>.
\<close>

theorem futex_mutex_counter:
  assumes "(count_step (mutex_lock spur) mutex_unlock Cas01 Sub n)\<^sup>*\<^sup>* (count_start futex0 k) s"
  shows "(\<forall>t u. lview (cphase s t) = Held \<and> lview (cphase s u) = Held \<longrightarrow> t = u)
    \<and> (all_finished n s \<longrightarrow> counter s = of_nat (n * k))"
  using futexm.count_exclusive [OF assms] futexm.count_final [OF assms] by blast

theorem futex_mutex_counter_witness:
  "\<exists>s. (count_step (mutex_lock False) mutex_unlock Cas01 Sub 1)\<^sup>*\<^sup>* (count_start futex0 1) s \<and> all_finished 1 s \<and> counter s = 1"
proof -
  let ?C = "count_step (mutex_lock False) mutex_unlock Cas01 Sub 1"
  let ?s0 = "count_start futex0 1 :: (lock_pc, unlock_pc, futex) cconf"
  let ?s1 = "?s0\<lparr>cphase := (cphase ?s0)(0 := Locking Cas01)\<rparr>"
  let ?s2 = "?s1\<lparr>cphase := (cphase ?s1)(0 := locking None), clock := futex0\<lparr>fstate := 1\<rparr>\<rparr>"
  let ?s3 = "?s2\<lparr>cphase := (cphase ?s2)(0 := Writing (counter ?s2))\<rparr>"
  let ?s4 = "?s3\<lparr>cphase := (cphase ?s3)(0 := Written), counter := counter ?s2 + 1, todo := (todo ?s3)(0 := todo ?s3 0 - 1)\<rparr>"
  let ?s5 = "?s4\<lparr>cphase := (cphase ?s4)(0 := Unlocking Sub)\<rparr>"
  let ?s6 = "?s5\<lparr>cphase := (cphase ?s5)(0 := unlocking None), clock := futex0\<rparr>"
  have l: "mutex_lock False 0 Cas01 futex0 None (futex0\<lparr>fstate := 1\<rparr>)"
    using mutex_lock.cas01 [of futex0 0 1 False 0] by (simp add: futex0_def cmpxchg_def)
  have u: "mutex_unlock 0 Sub (futex0\<lparr>fstate := 1\<rparr>) None futex0"
    using mutex_unlock.sub [of 0 "futex0\<lparr>fstate := 1\<rparr>"] by (simp add: futex0_def)
  have "?C ?s0 ?s1" by (rule count_step.begin_lock) (simp_all add: count_start_def)
  moreover have "?C ?s1 ?s2" by (rule count_step.lock_code) (use l in \<open>simp_all add: count_start_def\<close>)
  moreover have "?C ?s2 ?s3" by (rule count_step.read_counter) (simp_all add: locking_def)
  moreover have "?C ?s3 ?s4" by (rule count_step.write_counter) simp_all
  moreover have "?C ?s4 ?s5" by (rule count_step.begin_unlock) simp_all
  moreover have "?C ?s5 ?s6" by (rule count_step.unlock_code) (use u in simp_all)
  ultimately have r: "?C\<^sup>*\<^sup>* ?s0 ?s6" by (meson rtranclp.rtrancl_into_rtrancl rtranclp.rtrancl_refl)
  moreover have "all_finished 1 ?s6" by (simp add: all_finished_def unlocking_def count_start_def)
  ultimately show ?thesis using futex_mutex_counter [OF r] by auto
qed

text \<open>
  Property C14. No wake-up is lost: as long as some thread has not finished, some thread can make a
  step, even without spurious wake-ups. So it never happens that all remaining threads sleep in
  \<open>FUTEX_WAIT\<close>.
\<close>

theorem futex_mutex_never_stuck:
  assumes "(count_step (mutex_lock False) mutex_unlock Cas01 Sub n)\<^sup>*\<^sup>* (count_start futex0 k) s" "\<not> all_finished n s"
  shows "\<exists>s'. count_step (mutex_lock False) mutex_unlock Cas01 Sub n s s'"
  by (rule futexm.count_progress [OF assms])

theorem futex_mutex_never_stuck_witness:
  "\<exists>s'. count_step (mutex_lock False) mutex_unlock Cas01 Sub 2 (count_start futex0 1) s'"
proof -
  have "\<not> all_finished 2 (count_start futex0 1 :: (lock_pc, unlock_pc, futex) cconf)"
    by (simp add: all_finished_def count_start_def) presburger
  from futex_mutex_never_stuck [OF rtranclp.rtrancl_refl this] show ?thesis .
qed

end
