(* ===== verification/Lock_Tests.thy ===== *)
theory Lock_Tests
  imports Spinlock Futex_Mutex
begin

text \<open>
  The single-threaded tests of \<open>sync/2.4/tests.c\<close> and its counting threads. A test is the value of its
  verdict; \<open>None\<close> is a test that never ends. The futex mutex without other threads is a function of
  its value: \<open>mutex_lock\<close> of a locked mutex sleeps for ever.
\<close>

definition NUM_THREADS :: nat where "NUM_THREADS = 10"
definition ITERATIONS :: nat where "ITERATIONS = 100000"
definition MBUSY :: int where "MBUSY = 0"

section \<open>The mutex used by one thread\<close>

definition mutex_lock_alone :: "i32 \<Rightarrow> (int \<times> i32) option" where
  "mutex_lock_alone v = (case cmpxchg v 0 1 of (c, v') \<Rightarrow> if c \<noteq> 0 then None else Some (0, v'))"

definition mutex_unlock_alone :: "i32 \<Rightarrow> int \<times> i32" where
  "mutex_unlock_alone v = (if v \<noteq> 1 then (0, 0) else (0, v - 1))"

text \<open>They are the steps of the code, when nobody else takes one.\<close>

lemma mutex_lock_alone_step:
  assumes "mutex_lock_alone (fstate f) = Some (r, v)"
  shows "mutex_lock spur t Cas01 f None (f\<lparr>fstate := v\<rparr>)"
proof -
  have "cmpxchg (fstate f) 0 1 = (0, v)" using assms by (auto simp: mutex_lock_alone_def cmpxchg_def split: if_splits)
  from mutex_lock.cas01 [OF this] show ?thesis by simp
qed

lemma mutex_unlock_alone_step:
  "fstate f = 1 \<Longrightarrow> mutex_unlock t Sub f None (f\<lparr>fstate := snd (mutex_unlock_alone (fstate f))\<rparr>)"
  using mutex_unlock.sub [of t f] by (simp add: mutex_unlock_alone_def)

section \<open>The tests\<close>

text \<open>\<open>counter == 1\<close> after one increment under the lock.\<close>

definition test_spinlock_basic_functionality :: "i32 \<Rightarrow> bool option" where
  "test_spinlock_basic_functionality junk =
     (let counter = (0 :: i32); lock = snd (spinlock_init junk) in
      case spinlock_lock lock of None \<Rightarrow> None
      | Some (_, lock) \<Rightarrow> let counter = counter + 1; lock = snd (spinlock_unlock lock) in Some (counter = 1))"

definition test_mutex_basic_functionality :: "i32 \<Rightarrow> bool option" where
  "test_mutex_basic_functionality junk =
     (let counter = (0 :: i32); mtx = snd (mutex_init junk) in
      case mutex_lock_alone mtx of None \<Rightarrow> None
      | Some (_, mtx) \<Rightarrow> let counter = counter + 1; mtx = snd (mutex_unlock_alone mtx) in Some (counter = 1))"

definition test_spinlock_trylock :: "i32 \<Rightarrow> bool option" where
  "test_spinlock_trylock junk =
     (case spinlock_lock (snd (spinlock_init junk)) of None \<Rightarrow> None
      | Some (_, lock) \<Rightarrow>
          let (r, lock) = spinlock_trylock lock;
              (lock, is_failed) = (if r \<noteq> 0 then (snd (spinlock_unlock lock), True) else (lock, False));
              lock = snd (spinlock_unlock lock);
              (r, lock) = spinlock_trylock lock;
              (lock, is_failed) = (if r \<noteq> 0 then (snd (spinlock_unlock lock), is_failed) else (lock, True))
          in Some (\<not> is_failed))"

definition test_mutex_trylock :: "i32 \<Rightarrow> bool option" where
  "test_mutex_trylock junk =
     (case mutex_lock_alone (snd (mutex_init junk)) of None \<Rightarrow> None
      | Some (_, mtx) \<Rightarrow>
          let (r, mtx) = mutex_trylock mtx;
              (mtx, is_failed) = (if r \<noteq> MBUSY then (snd (mutex_unlock_alone mtx), True) else (mtx, False));
              mtx = snd (mutex_unlock_alone mtx);
              (r, mtx) = mutex_trylock mtx;
              (mtx, is_failed) = (if r \<noteq> MBUSY then (snd (mutex_unlock_alone mtx), is_failed) else (mtx, True))
          in Some (\<not> is_failed))"

text \<open>The verdict of the multi-threaded tests once all threads are joined.\<close>

definition test_multithreaded :: "('a, 'r, 'l) cconf \<Rightarrow> bool" where
  "test_multithreaded s = (counter s = of_nat NUM_THREADS * of_nat ITERATIONS)"

text \<open>
  Every test of \<open>tests.c\<close> passes: the single-threaded ones end with "PASSED", and so do the
  multi-threaded ones in every interleaving of their ten threads.
\<close>

lemma lock_tests_pass:
  "test_spinlock_basic_functionality junk = Some True \<and> test_spinlock_trylock junk = Some True
   \<and> test_mutex_basic_functionality junk = Some True \<and> test_mutex_trylock junk = Some True
   \<and> (\<forall>s. (count_step spin_acq spin_rel () () NUM_THREADS)\<^sup>*\<^sup>* (count_start 0 ITERATIONS) s \<longrightarrow>
        all_finished NUM_THREADS s \<longrightarrow> test_multithreaded s)
   \<and> (\<forall>s. (count_step (mutex_lock True) mutex_unlock Cas01 Sub NUM_THREADS)\<^sup>*\<^sup>* (count_start futex0 ITERATIONS) s \<longrightarrow>
        all_finished NUM_THREADS s \<longrightarrow> test_multithreaded s)"
proof (intro conjI allI impI)
  show "test_spinlock_basic_functionality junk = Some True"
    by (simp add: test_spinlock_basic_functionality_def spinlock_init_def spinlock_lock_free)
  show "test_spinlock_trylock junk = Some True"
    by (simp add: test_spinlock_trylock_def spinlock_init_def spinlock_lock_free spinlock_trylock_def spinlock_unlock_def
        cas_def SLBUSY_def)
  show "test_mutex_basic_functionality junk = Some True"
    by (simp add: test_mutex_basic_functionality_def mutex_init_def mutex_lock_alone_def cmpxchg_def)
  show "test_mutex_trylock junk = Some True"
    by (simp add: test_mutex_trylock_def mutex_init_def mutex_lock_alone_def cmpxchg_def mutex_trylock_def MBUSY_def
        mutex_unlock_alone_def)
next
  fix s
  assume "(count_step spin_acq spin_rel () () NUM_THREADS)\<^sup>*\<^sup>* (count_start 0 ITERATIONS) s" "all_finished NUM_THREADS s"
  from spin.count_final [OF this] show "test_multithreaded s" by (simp add: test_multithreaded_def)
next
  fix s
  assume "(count_step (mutex_lock True) mutex_unlock Cas01 Sub NUM_THREADS)\<^sup>*\<^sup>* (count_start futex0 ITERATIONS) s"
    "all_finished NUM_THREADS s"
  from futexm.count_final [OF this] show "test_multithreaded s" by (simp add: test_multithreaded_def)
qed

end
