(* ===== verification/Swap_List.thy ===== *)
theory Swap_List
  imports Http
begin

text \<open>
  The list programs \<open>sync/2.3/2.3-2.4.c\<close> (a mutex per node) and \<open>sync/2.3/2.3m.c\<close> (a read-write lock
  per node): three threads count pairs of neighbours, three threads swap neighbours at random
  places. Here every function is a function of the heap and of what \<open>rand()\<close> returns, for a thread
  that is not disturbed; a node's lock is a field, and \<open>None\<close> is a thread that waits for a lock for ever.
\<close>

section \<open>Data\<close>

definition MAX_STRING_LENGTH :: nat where "MAX_STRING_LENGTH = 100"

record Node =
  nvalue :: cstring
  nnext :: ptr
  sync :: bool

record Storage =
  sfirst :: ptr
  ssize :: int

text \<open>A computation that may wait for ever, fault, or go on.\<close>

definition wbind :: "'a res option \<Rightarrow> ('a \<Rightarrow> 'b res option) \<Rightarrow> 'b res option" where
  "wbind m f = (case m of None \<Rightarrow> None | Some (Inl e) \<Rightarrow> Some (Inl e) | Some (Inr x) \<Rightarrow> f x)"

lemma wbind_simps [simp]:
  "wbind None f = None" "wbind (Some (Inl e)) f = Some (Inl e)" "wbind (Some (Inr x)) f = f x"
  by (simp_all add: wbind_def)

definition mutex_lock_node :: "Node heap \<Rightarrow> ptr \<Rightarrow> Node heap res option" where
  "mutex_lock_node h p = wbind (Some (deref h p)) (\<lambda>n.
     if sync n then None else Some (store h p (\<lambda>n. n\<lparr>sync := True\<rparr>)))"

definition mutex_unlock_node :: "Node heap \<Rightarrow> ptr \<Rightarrow> Node heap res option" where
  "mutex_unlock_node h p = Some (store h p (\<lambda>n. n\<lparr>sync := False\<rparr>))"

section \<open>Building and freeing the list\<close>

text \<open>\<open>m\<close> is the block \<open>malloc\<close> returns; the value is cut to 99 characters.\<close>

definition create_node :: "Node heap \<Rightarrow> ptr \<Rightarrow> cstring \<Rightarrow> ptr \<times> Node heap" where
  "create_node h m value = (case m of None \<Rightarrow> (None, h)
     | Some a \<Rightarrow> (Some a, h(a \<mapsto> \<lparr>nvalue = cstr (strncpy value (MAX_STRING_LENGTH - 1)), nnext = None, sync = False\<rparr>)))"

text \<open>\<open>while (current->next != NULL) current = current->next\<close>\<close>

partial_function (option) last_node :: "Node heap \<Rightarrow> ptr \<Rightarrow> ptr res option" where
  "last_node h p = (case deref h p of Inl e \<Rightarrow> Some (Inl e)
     | Inr n \<Rightarrow> (case nnext n of None \<Rightarrow> Some (Inr p) | Some q \<Rightarrow> last_node h (Some q)))"

definition add_node :: "Node heap \<Rightarrow> Storage \<Rightarrow> ptr \<Rightarrow> cstring \<Rightarrow> (int \<times> Node heap \<times> Storage) res option" where
  "add_node h st m value =
     (let (new_node, h) = create_node h m value in
      if new_node = None then Some (Inr (-1, h, st))
      else if sfirst st = None then Some (Inr (0, h, st\<lparr>sfirst := new_node\<rparr>))
      else wbind (last_node h (sfirst st)) (\<lambda>current.
        wbind (Some (store h current (\<lambda>n. n\<lparr>nnext := new_node\<rparr>))) (\<lambda>h. Some (Inr (0, h, st)))))"

definition free_list :: "Node heap \<Rightarrow> Storage \<Rightarrow> (Node heap \<times> Storage) res option" where
  "free_list h st = wbind (free_chain nnext h (sfirst st)) (\<lambda>h. Some (Inr (h, st\<lparr>sfirst := None\<rparr>)))"

section \<open>Swapping\<close>

text \<open>
  Hand over hand to the node before the pair: \<open>k\<close> steps from \<open>prev\<close>, whose lock is held.
\<close>

fun walk :: "nat \<Rightarrow> Node heap \<Rightarrow> ptr \<Rightarrow> (ptr \<times> Node heap) res option" where
  "walk 0 h prev = Some (Inr (prev, h))"
| "walk (Suc k) h prev = wbind (Some (deref h prev)) (\<lambda>n.
     if nnext n = None then Some (Inr (prev, h))
     else wbind (mutex_lock_node h (nnext n)) (\<lambda>h.
          wbind (mutex_unlock_node h prev) (\<lambda>h. walk k h (nnext n))))"

text \<open>
  One round of the loop of \<open>safe_swap_nodes\<close>; the result says whether the nodes were swapped or the
  loop goes round again.
\<close>

definition swap_round :: "Node heap \<Rightarrow> ptr \<Rightarrow> nat \<Rightarrow> (bool \<times> Node heap) res option" where
  "swap_round h first randElem =
     wbind (mutex_lock_node h first) (\<lambda>h.
     wbind (walk (randElem - 1) h first) (\<lambda>(prev, h).
     wbind (Some (deref h prev)) (\<lambda>pn.
       if nnext pn = None then wbind (mutex_unlock_node h prev) (\<lambda>h. Some (Inr (False, h)))
       else wbind (Some (deref h (nnext pn))) (\<lambda>cn.
         if nnext cn = None then wbind (mutex_unlock_node h prev) (\<lambda>h. Some (Inr (False, h)))
         else wbind (mutex_lock_node h (nnext pn)) (\<lambda>h.
           let current = nnext pn in
           wbind (Some (deref h current)) (\<lambda>cn.
           wbind (mutex_lock_node h (nnext cn)) (\<lambda>h.
             let next = nnext cn in
             wbind (Some (deref h next)) (\<lambda>nn.
               let next_next = nnext nn in
               wbind (Some (store h prev (\<lambda>n. n\<lparr>nnext := next\<rparr>))) (\<lambda>h.
               wbind (Some (store h current (\<lambda>n. n\<lparr>nnext := next_next\<rparr>))) (\<lambda>h.
               wbind (Some (store h next (\<lambda>n. n\<lparr>nnext := current\<rparr>))) (\<lambda>h.
               wbind (mutex_unlock_node h prev) (\<lambda>h.
               wbind (mutex_unlock_node h current) (\<lambda>h.
               wbind (mutex_unlock_node h next) (\<lambda>h. Some (Inr (True, h))))))))))))))))"

text \<open>
  \<open>rs\<close>: what \<open>rand()\<close> returns in the rounds before the thread sees \<open>stop\<close>. The remainder is taken of
  \<open>size - 3\<close>.
\<close>

fun swap_loop :: "Node heap \<Rightarrow> Storage \<Rightarrow> nat list \<Rightarrow> (int \<times> Node heap) res option" where
  "swap_loop h st [] = Some (Inr (0, h))"
| "swap_loop h st (r # rs) =
     (if ssize st - 3 = 0 then Some (Inl DivByZero)
      else wbind (swap_round h (sfirst st) (nat (int r mod (ssize st - 3) + 1))) (\<lambda>(done, h).
        if done then Some (Inr (1, h)) else swap_loop h st rs))"

definition safe_swap_nodes :: "Node heap \<Rightarrow> Storage \<Rightarrow> nat list \<Rightarrow> (int \<times> Node heap) res option" where
  "safe_swap_nodes h st rs = (if ssize st < 3 then Some (Inr (0, h)) else swap_loop h st rs)"

section \<open>Counting\<close>

text \<open>
  One pass of a counting thread: \<open>n\<close> steps before it sees \<open>stop\<close>; \<open>cmp\<close> compares the lengths of two
  neighbours.
\<close>

fun count_pass :: "(nat \<Rightarrow> nat \<Rightarrow> bool) \<Rightarrow> nat \<Rightarrow> Node heap \<Rightarrow> ptr \<Rightarrow> usize \<Rightarrow> (usize \<times> Node heap) res option" where
  "count_pass cmp 0 h current local_count = Some (Inr (local_count, h))"
| "count_pass cmp (Suc k) h current local_count =
     (if current = None then Some (Inr (local_count, h))
      else wbind (Some (deref h current)) (\<lambda>n.
        if nnext n = None then Some (Inr (local_count, h))
        else wbind (mutex_lock_node h current) (\<lambda>h.
          wbind (Some (deref h current)) (\<lambda>n.
          wbind (mutex_lock_node h (nnext n)) (\<lambda>h.
          wbind (Some (deref h (nnext n))) (\<lambda>n2.
            let local_count = (if cmp (length (nvalue n)) (length (nvalue n2)) then local_count + 1 else local_count) in
            wbind (mutex_unlock_node h current) (\<lambda>h.
            wbind (mutex_unlock_node h (nnext n)) (\<lambda>h. count_pass cmp k h (nnext n) local_count))))))))"

definition count_ascending :: "nat \<Rightarrow> Node heap \<Rightarrow> Storage \<Rightarrow> (usize \<times> Node heap) res option" where
  "count_ascending k h st = count_pass (<) k h (sfirst st) 0"

definition count_descending :: "nat \<Rightarrow> Node heap \<Rightarrow> Storage \<Rightarrow> (usize \<times> Node heap) res option" where
  "count_descending k h st = count_pass (>) k h (sfirst st) 0"

definition count_equal :: "nat \<Rightarrow> Node heap \<Rightarrow> Storage \<Rightarrow> (usize \<times> Node heap) res option" where
  "count_equal k h st = count_pass (=) k h (sfirst st) 0"

end
