(* ===== verification/Swap_RW.thy ===== *)
theory Swap_RW
  imports Swap_List
begin

text \<open>
  The list program \<open>sync/2.3/2.3m.c\<close>, which has a read-write lock in every node. The list functions
  are those of \<open>2.3-2.4.c\<close> with read locks, except \<open>safe_swap_nodes\<close>: it finds the three nodes under read
  locks, lets go of them, takes write locks on the same nodes and checks that they are still neighbours.
  The threads run interleaved, statement by statement, as in \<open>Swap_Threads\<close>.
\<close>

section \<open>Nodes and their locks\<close>

text \<open>A read-write lock knows its readers and its writer by their thread number.\<close>

record rwnode =
  rvalue :: cstring
  rnext :: ptr
  readers :: "nat list"
  writer :: "nat option"

definition rw_rdlock :: "rwnode heap \<Rightarrow> nat \<Rightarrow> ptr \<Rightarrow> rwnode heap res option" where
  "rw_rdlock h t p = wbind (Some (deref h p)) (\<lambda>n.
     if writer n \<noteq> None then None else Some (store h p (\<lambda>n. n\<lparr>readers := t # readers n\<rparr>)))"

definition rw_wrlock :: "rwnode heap \<Rightarrow> nat \<Rightarrow> ptr \<Rightarrow> rwnode heap res option" where
  "rw_wrlock h t p = wbind (Some (deref h p)) (\<lambda>n.
     if writer n \<noteq> None \<or> readers n \<noteq> [] then None else Some (store h p (\<lambda>n. n\<lparr>writer := Some t\<rparr>)))"

definition rw_unlock :: "rwnode heap \<Rightarrow> nat \<Rightarrow> ptr \<Rightarrow> rwnode heap res option" where
  "rw_unlock h t p = Some (store h p (\<lambda>n. if writer n = Some t then n\<lparr>writer := None\<rparr> else n\<lparr>readers := remove1 t (readers n)\<rparr>))"

section \<open>Building and freeing the list\<close>

text \<open>\<open>ierr\<close> is what \<open>pthread_rwlock_init\<close> returns.\<close>

definition rw_create_node :: "rwnode heap \<Rightarrow> ptr \<Rightarrow> cstring \<Rightarrow> int \<Rightarrow> ptr \<times> rwnode heap" where
  "rw_create_node h m value ierr = (case m of None \<Rightarrow> (None, h)
     | Some a \<Rightarrow> if ierr \<noteq> 0 then (None, h)
         else (Some a, h(a \<mapsto> \<lparr>rvalue = cstr (strncpy value (MAX_STRING_LENGTH - 1)), rnext = None, readers = [], writer = None\<rparr>)))"

partial_function (option) rw_last_node :: "rwnode heap \<Rightarrow> ptr \<Rightarrow> ptr res option" where
  "rw_last_node h p = (case deref h p of Inl e \<Rightarrow> Some (Inl e)
     | Inr n \<Rightarrow> (case rnext n of None \<Rightarrow> Some (Inr p) | Some q \<Rightarrow> rw_last_node h (Some q)))"

definition rw_add_node :: "rwnode heap \<Rightarrow> Storage \<Rightarrow> ptr \<Rightarrow> cstring \<Rightarrow> int \<Rightarrow> (int \<times> rwnode heap \<times> Storage) res option" where
  "rw_add_node h st m value ierr =
     (let (new_node, h) = rw_create_node h m value ierr in
      if new_node = None then Some (Inr (-1, h, st))
      else if sfirst st = None then Some (Inr (0, h, st\<lparr>sfirst := new_node\<rparr>))
      else wbind (rw_last_node h (sfirst st)) (\<lambda>current.
        wbind (Some (store h current (\<lambda>n. n\<lparr>rnext := new_node\<rparr>))) (\<lambda>h. Some (Inr (0, h, st)))))"

text \<open>A failing \<open>pthread_rwlock_destroy\<close> only prints a warning.\<close>

definition rw_free_list :: "rwnode heap \<Rightarrow> Storage \<Rightarrow> (rwnode heap \<times> Storage) res option" where
  "rw_free_list h st = wbind (free_chain rnext h (sfirst st)) (\<lambda>h. Some (Inr (h, st\<lparr>sfirst := None\<rparr>)))"

text \<open>The loop of \<open>main\<close> that builds the list, and the way out when a node cannot be added.\<close>

fun rw_build :: "rwnode heap \<Rightarrow> Storage \<Rightarrow> (ptr \<times> cstring) list \<Rightarrow> (int \<times> rwnode heap \<times> Storage) res option" where
  "rw_build h st [] = Some (Inr (0, h, st))"
| "rw_build h st ((m, v) # vs) = wbind (rw_add_node h st m v 0) (\<lambda>(r, h, st).
     if r \<noteq> 0 then wbind (rw_free_list h st) (\<lambda>(h, st). Some (Inr (1, h, st))) else rw_build h st vs)"

section \<open>Statements\<close>

text \<open>
  \<open>RFirst\<close> to \<open>RU3\<close> are the search under read locks, \<open>WL1\<close> to \<open>WL3\<close> the write locks, \<open>WTest\<close> the test
  that the nodes are still neighbours, \<open>WB1\<close> to \<open>WB3\<close> the way out when they are not, \<open>WN\<close> to
  \<open>WS3\<close> the swap and \<open>WU1\<close> to \<open>WU3\<close> its unlocks; \<open>KHead\<close> to \<open>KU2\<close> a counting pass. The last pointer of \<open>RHand\<close>,
  \<open>RGotC\<close>, \<open>RGotN\<close> and \<open>KCmp\<close> is the node locked last.
\<close>

datatype rwpc =
    RIdle
  | RFinished
  | RFirst nat
  | RWalk nat nat ptr
  | RLockW nat nat ptr ptr
  | RHand nat nat ptr ptr
  | RCheck ptr
  | RLockC ptr ptr
  | RGotC ptr ptr
  | RLockN ptr ptr ptr
  | RGotN ptr ptr ptr
  | RU1 ptr ptr ptr
  | RU2 ptr ptr ptr
  | RU3 ptr ptr ptr
  | WL1 ptr ptr ptr
  | WL2 ptr ptr ptr
  | WL3 ptr ptr ptr
  | WTest ptr ptr ptr
  | WB1 ptr ptr ptr
  | WB2 ptr ptr
  | WB3 ptr
  | WN ptr ptr ptr
  | WS1 ptr ptr ptr ptr
  | WS2 ptr ptr ptr ptr
  | WS3 ptr ptr ptr
  | WU1 ptr ptr ptr
  | WU2 ptr ptr
  | WU3 ptr
  | KHead ptr usize
  | KLock1 ptr usize
  | KGot ptr usize
  | KLock2 ptr ptr usize
  | KCmp ptr ptr usize
  | KU1 ptr ptr usize
  | KU2 ptr usize

type_synonym rwrole = "(nat \<Rightarrow> nat \<Rightarrow> bool) option"
type_synonym rwres = "(rwpc \<times> rwnode heap) res option"

definition becomes :: "rwnode heap res option \<Rightarrow> rwpc \<Rightarrow> rwres" where
  "becomes m k = wbind m (\<lambda>h. Some (Inr (k, h)))"

definition goes :: "rwnode heap \<Rightarrow> rwpc \<Rightarrow> rwres" where
  "goes h k = Some (Inr (k, h))"

definition looks :: "rwnode heap \<Rightarrow> ptr \<Rightarrow> (rwnode \<Rightarrow> rwres) \<Rightarrow> rwres" where
  "looks h p f = wbind (Some (deref h p)) f"

definition links :: "rwnode heap \<Rightarrow> ptr \<Rightarrow> ptr \<Rightarrow> rwnode heap res option" where
  "links h p q = Some (store h p (\<lambda>n. n\<lparr>rnext := q\<rparr>))"

definition rw_begin :: "Storage \<Rightarrow> bool \<Rightarrow> nat \<Rightarrow> rwrole \<Rightarrow> rwpc res" where
  "rw_begin st stop r role =
     (if stop then Inr RFinished
      else case role of
        Some cmp \<Rightarrow> Inr (KHead (sfirst st) 0)
      | None \<Rightarrow> if ssize st < 3 then Inr RIdle
          else if ssize st - 3 = 0 then Inl DivByZero
          else Inr (RFirst (nat (int r mod (ssize st - 3) + 1))))"

fun rwstep :: "Storage \<Rightarrow> bool \<Rightarrow> nat \<Rightarrow> rwrole \<Rightarrow> nat \<Rightarrow> rwnode heap \<Rightarrow> rwpc \<Rightarrow> rwres" where
  "rwstep st stop r role t h RIdle = Some (rbind (rw_begin st stop r role) (\<lambda>k. Inr (k, h)))"
| "rwstep st stop r role t h RFinished = None"
| "rwstep st stop r role t h (RFirst e) = becomes (rw_rdlock h t (sfirst st)) (RWalk e 1 (sfirst st))"
| "rwstep st stop r role t h (RWalk e ind prev) = looks h prev (\<lambda>n.
     goes h (if ind < e \<and> rnext n \<noteq> None then RLockW e ind prev (rnext n) else RCheck prev))"
| "rwstep st stop r role t h (RLockW e ind prev q) = becomes (rw_rdlock h t q) (RHand e ind prev q)"
| "rwstep st stop r role t h (RHand e ind prev q) = looks h prev (\<lambda>n. becomes (rw_unlock h t prev) (RWalk e (Suc ind) (rnext n)))"
| "rwstep st stop r role t h (RCheck prev) = looks h prev (\<lambda>n.
     if rnext n = None then becomes (rw_unlock h t prev) RIdle
     else looks h (rnext n) (\<lambda>c.
       if rnext c = None then becomes (rw_unlock h t prev) RIdle else goes h (RLockC prev (rnext n))))"
| "rwstep st stop r role t h (RLockC prev q) = becomes (rw_rdlock h t q) (RGotC prev q)"
| "rwstep st stop r role t h (RGotC prev q) = looks h prev (\<lambda>n. looks h (rnext n) (\<lambda>c. goes h (RLockN prev (rnext n) (rnext c))))"
| "rwstep st stop r role t h (RLockN prev current q) = becomes (rw_rdlock h t q) (RGotN prev current q)"
| "rwstep st stop r role t h (RGotN prev current q) = looks h current (\<lambda>c. goes h (RU1 prev current (rnext c)))"
| "rwstep st stop r role t h (RU1 prev current next) = becomes (rw_unlock h t prev) (RU2 prev current next)"
| "rwstep st stop r role t h (RU2 prev current next) = becomes (rw_unlock h t current) (RU3 prev current next)"
| "rwstep st stop r role t h (RU3 prev current next) = becomes (rw_unlock h t next) (WL1 prev current next)"
| "rwstep st stop r role t h (WL1 prev current next) = becomes (rw_wrlock h t prev) (WL2 prev current next)"
| "rwstep st stop r role t h (WL2 prev current next) = becomes (rw_wrlock h t current) (WL3 prev current next)"
| "rwstep st stop r role t h (WL3 prev current next) = becomes (rw_wrlock h t next) (WTest prev current next)"
| "rwstep st stop r role t h (WTest prev current next) = looks h prev (\<lambda>p.
     if rnext p \<noteq> current then goes h (WB1 prev current next)
     else looks h current (\<lambda>c.
       if rnext c \<noteq> next then goes h (WB1 prev current next) else goes h (WN prev current next)))"
| "rwstep st stop r role t h (WB1 prev current next) = becomes (rw_unlock h t prev) (WB2 current next)"
| "rwstep st stop r role t h (WB2 current next) = becomes (rw_unlock h t current) (WB3 next)"
| "rwstep st stop r role t h (WB3 next) = becomes (rw_unlock h t next) RIdle"
| "rwstep st stop r role t h (WN prev current next) = looks h next (\<lambda>n. goes h (WS1 prev current next (rnext n)))"
| "rwstep st stop r role t h (WS1 prev current next next_next) = becomes (links h prev next) (WS2 prev current next next_next)"
| "rwstep st stop r role t h (WS2 prev current next next_next) = becomes (links h current next_next) (WS3 prev current next)"
| "rwstep st stop r role t h (WS3 prev current next) = becomes (links h next current) (WU1 prev current next)"
| "rwstep st stop r role t h (WU1 prev current next) = becomes (rw_unlock h t prev) (WU2 current next)"
| "rwstep st stop r role t h (WU2 current next) = becomes (rw_unlock h t current) (WU3 next)"
| "rwstep st stop r role t h (WU3 next) = becomes (rw_unlock h t next) RIdle"
| "rwstep st stop r role t h (KHead current k) =
     (if current = None then goes h RIdle
      else looks h current (\<lambda>n. goes h (if rnext n = None \<or> stop then RIdle else KLock1 current k)))"
| "rwstep st stop r role t h (KLock1 current k) = becomes (rw_rdlock h t current) (KGot current k)"
| "rwstep st stop r role t h (KGot current k) = looks h current (\<lambda>n. goes h (KLock2 current (rnext n) k))"
| "rwstep st stop r role t h (KLock2 current q k) = becomes (rw_rdlock h t q) (KCmp current q k)"
| "rwstep st stop r role t h (KCmp current q k) = looks h current (\<lambda>n. looks h (rnext n) (\<lambda>n2.
     goes h (KU1 current (rnext n)
       (if (case role of None \<Rightarrow> False | Some cmp \<Rightarrow> cmp (length (rvalue n)) (length (rvalue n2))) then k + 1 else k))))"
| "rwstep st stop r role t h (KU1 current next k) = becomes (rw_unlock h t current) (KU2 next k)"
| "rwstep st stop r role t h (KU2 next k) = becomes (rw_unlock h t next) (KHead next k)"

section \<open>The system\<close>

record rwsys =
  rwheap :: "rwnode heap"
  rwpcs :: "nat \<Rightarrow> rwpc"
  rwwork :: "nat \<Rightarrow> usize"
  rwstop :: bool

definition rw_completes :: "rwpc \<Rightarrow> rwpc \<Rightarrow> bool" where
  "rw_completes k k' \<longleftrightarrow> k' = RIdle \<and> (case k of WU3 _ \<Rightarrow> True | KHead _ _ \<Rightarrow> True | _ \<Rightarrow> False)"

definition rw_move :: "rwsys \<Rightarrow> nat \<Rightarrow> rwpc \<Rightarrow> rwnode heap \<Rightarrow> rwsys" where
  "rw_move s t k h = s\<lparr>rwheap := h, rwpcs := (rwpcs s)(t := k),
     rwwork := (rwwork s)(t := rwwork s t + (if rw_completes (rwpcs s t) k then 1 else 0))\<rparr>"

inductive rw_sys_step :: "Storage \<Rightarrow> (nat \<Rightarrow> rwrole) \<Rightarrow> rwsys \<Rightarrow> rwsys \<Rightarrow> bool" for st roles where
  rw_thread: "rwstep st (rwstop s) r (roles t) t (rwheap s) (rwpcs s t) = Some (Inr (k, h)) \<Longrightarrow>
    rw_sys_step st roles s (rw_move s t k h)"
| rw_main_stop: "rw_sys_step st roles s (s\<lparr>rwstop := True\<rparr>)"

inductive_cases rw_sys_stepE: "rw_sys_step st roles s s'"

definition rw_start :: "rwnode heap \<Rightarrow> rwsys" where
  "rw_start h = \<lparr>rwheap = h, rwpcs = \<lambda>_. RIdle, rwwork = \<lambda>_. 0, rwstop = False\<rparr>"

text \<open>A given sequence of statements: the thread and what \<open>rand()\<close> returns.\<close>

fun rw_run :: "Storage \<Rightarrow> (nat \<Rightarrow> rwrole) \<Rightarrow> (nat \<times> nat) list \<Rightarrow> rwsys \<Rightarrow> rwsys option" where
  "rw_run st roles [] s = Some s"
| "rw_run st roles ((t, r) # trs) s =
     (case rwstep st (rwstop s) r (roles t) t (rwheap s) (rwpcs s t) of
        Some (Inr (k, h)) \<Rightarrow> rw_run st roles trs (rw_move s t k h) | _ \<Rightarrow> None)"

lemma rw_run_reach: "rw_run st roles trs s = Some s' \<Longrightarrow> (rw_sys_step st roles)\<^sup>*\<^sup>* s s'"
proof (induction trs arbitrary: s)
  case (Cons tr trs)
  obtain t r where tr: "tr = (t, r)" by (cases tr)
  from Cons.prems tr obtain k h where
    "rwstep st (rwstop s) r (roles t) t (rwheap s) (rwpcs s t) = Some (Inr (k, h))" "rw_run st roles trs (rw_move s t k h) = Some s'"
    by (auto split: option.splits sum.splits)
  with Cons.IH rw_sys_step.rw_thread show ?case by (metis converse_rtranclp_into_rtranclp)
qed simp

end
