(* ===== verification/Swap_RW_Deadlock.thy ===== *)
theory Swap_RW_Deadlock
  imports Swap_RW
begin

text \<open>
  The program of \<open>sync/2.3/2.3m.c\<close> can deadlock: a thread that let go of its read locks may find the same
  three nodes in another order when it takes its write locks, so that two threads lock the same two nodes
  in opposite orders.
\<close>

section \<open>A schedule\<close>

definition rw_list5 :: "rwnode heap" where
  "rw_list5 = [0 \<mapsto> \<lparr>rvalue = [97], rnext = Some 1, readers = [], writer = None\<rparr>,
     1 \<mapsto> \<lparr>rvalue = [98], rnext = Some 2, readers = [], writer = None\<rparr>,
     2 \<mapsto> \<lparr>rvalue = [99], rnext = Some 3, readers = [], writer = None\<rparr>,
     3 \<mapsto> \<lparr>rvalue = [100], rnext = Some 4, readers = [], writer = None\<rparr>,
     4 \<mapsto> \<lparr>rvalue = [101], rnext = None, readers = [], writer = None\<rparr>]"

definition rw_storage5 :: Storage where
  "rw_storage5 = \<lparr>sfirst = Some 0, ssize = 5\<rparr>"

text \<open>
  Thread \<open>u\<close> finds the nodes 0, 1 and 2; thread \<open>v\<close> finds them too, swaps 1 and 2, and then finds 2, 1 and 3.
\<close>

definition rw_swapped5 :: "rwnode heap" where
  "rw_swapped5 = rw_list5(0 \<mapsto> \<lparr>rvalue = [97], rnext = Some 2, readers = [], writer = None\<rparr>,
     1 \<mapsto> \<lparr>rvalue = [98], rnext = Some 3, readers = [], writer = None\<rparr>,
     2 \<mapsto> \<lparr>rvalue = [99], rnext = Some 1, readers = [], writer = None\<rparr>)"

definition rw_state :: "nat \<Rightarrow> nat \<Rightarrow> rwnode heap \<Rightarrow> rwpc \<Rightarrow> rwpc \<Rightarrow> usize \<Rightarrow> rwsys" where
  "rw_state u v h k l n = \<lparr>rwheap = h, rwpcs = (\<lambda>_. RIdle)(u := k, v := l), rwwork = (\<lambda>_. 0)(v := n), rwstop = False\<rparr>"

lemmas rw_eval = rw_move_def rw_completes_def rw_begin_def becomes_def goes_def looks_def links_def rw_rdlock_def rw_wrlock_def
  rw_unlock_def

lemma rw_run_append: "rw_run st roles (trs @ trs') s = (case rw_run st roles trs s of None \<Rightarrow> None | Some s \<Rightarrow> rw_run st roles trs' s)"
proof (induction trs arbitrary: s)
  case (Cons tr trs)
  then show ?case by (cases tr) (auto split: option.splits sum.splits)
qed simp

lemmas rw_run_eval = rw_eval numeral_eq_Suc rw_list5_def rw_swapped5_def rw_storage5_def rw_state_def fun_upd_idem_iff

lemma first_search:
  assumes "roles u = None" "u \<noteq> v"
  shows "rw_run rw_storage5 roles (replicate 11 (u, 0)) (rw_state u v rw_list5 RIdle RIdle 0)
    = Some (rw_state u v rw_list5 (WL1 (Some 0) (Some 1) (Some 2)) RIdle 0)"
  using assms by (simp add: rw_run_eval fun_upd_twist) (simp add: fun_eq_iff)

lemma whole_swap:
  assumes "roles v = None" "u \<noteq> v"
  shows "rw_run rw_storage5 roles (replicate 22 (v, 0)) (rw_state u v rw_list5 k RIdle 0) = Some (rw_state u v rw_swapped5 k RIdle 1)"
  using assms by (simp add: rw_run_eval fun_upd_twist)

lemma second_search:
  assumes "roles v = None" "u \<noteq> v"
  shows "rw_run rw_storage5 roles (replicate 14 (v, 1)) (rw_state u v rw_swapped5 k RIdle 1)
    = Some (rw_state u v rw_swapped5 k (WL1 (Some 2) (Some 1) (Some 3)) 1)"
  using assms by (simp add: rw_run_eval fun_upd_twist)


text \<open>Thread \<open>v\<close> takes its first write lock, thread \<open>u\<close> its first two.\<close>

definition rw_locked5 :: "nat \<Rightarrow> nat \<Rightarrow> rwnode heap" where
  "rw_locked5 u v = rw_swapped5(0 \<mapsto> \<lparr>rvalue = [97], rnext = Some 2, readers = [], writer = Some u\<rparr>,
     1 \<mapsto> \<lparr>rvalue = [98], rnext = Some 3, readers = [], writer = Some u\<rparr>,
     2 \<mapsto> \<lparr>rvalue = [99], rnext = Some 1, readers = [], writer = Some v\<rparr>)"

definition rw_stuck :: "nat \<Rightarrow> nat \<Rightarrow> rwsys" where
  "rw_stuck u v = rw_state u v (rw_locked5 u v) (WL3 (Some 0) (Some 1) (Some 2)) (WL2 (Some 2) (Some 1) (Some 3)) 1"

lemma opposite_locks:
  assumes "roles u = None" "roles v = None" "u \<noteq> v"
  shows "rw_run rw_storage5 roles [(v, 0), (u, 0), (u, 0)]
      (rw_state u v rw_swapped5 (WL1 (Some 0) (Some 1) (Some 2)) (WL1 (Some 2) (Some 1) (Some 3)) 1) = Some (rw_stuck u v)"
  using assms by (simp add: rw_run_eval rw_stuck_def rw_locked5_def fun_upd_twist) (simp add: fun_eq_iff)

definition rw_schedule :: "nat \<Rightarrow> nat \<Rightarrow> (nat \<times> nat) list" where
  "rw_schedule u v = replicate 11 (u, 0) @ replicate 22 (v, 0) @ replicate 14 (v, 1) @ [(v, 0), (u, 0), (u, 0)]"

lemma schedule_gets_stuck:
  assumes r: "roles u = None" "roles v = None" "u \<noteq> v"
  shows "rw_run rw_storage5 roles (rw_schedule u v) (rw_start rw_list5) = Some (rw_stuck u v)"
proof -
  have start: "rw_start rw_list5 = rw_state u v rw_list5 RIdle RIdle 0" by (simp add: rw_start_def rw_state_def fun_eq_iff)
  show ?thesis
    by (simp only: rw_schedule_def rw_run_append start first_search [of roles, OF r(1,3)] whole_swap [of roles, OF r(2,3)]
        second_search [of roles, OF r(2,3)] opposite_locks [of roles, OF r] option.case)
qed

lemma stuck_reachable:
  assumes "roles u = None" "roles v = None" "u \<noteq> v"
  shows "(rw_sys_step rw_storage5 roles)\<^sup>*\<^sup>* (rw_start rw_list5) (rw_stuck u v)"
  by (rule rw_run_reach [OF schedule_gets_stuck [of roles, OF assms]])

section \<open>No way out\<close>

text \<open>
  From there on thread \<open>u\<close> waits for node 2 and thread \<open>v\<close> for node 1; every other thread stops at the first
  node, which thread \<open>u\<close> has locked.
\<close>

definition rw_jammed :: "nat \<Rightarrow> nat \<Rightarrow> rwsys \<Rightarrow> bool" where
  "rw_jammed u v s \<longleftrightarrow> rwheap s = rw_locked5 u v \<and> rwpcs s u = WL3 (Some 0) (Some 1) (Some 2) \<and> rwpcs s v = WL2 (Some 2) (Some 1) (Some 3)
     \<and> (\<forall>t. t \<notin> {u, v} \<longrightarrow> rwpcs s t \<in> {RIdle, RFinished, KHead (Some 0) 0, KLock1 (Some 0) 0} \<union> range RFirst)"

lemma locked5_nodes:
  "rw_locked5 u v 0 = Some \<lparr>rvalue = [97], rnext = Some 2, readers = [], writer = Some u\<rparr>"
  "rw_locked5 u v (Suc 0) = Some \<lparr>rvalue = [98], rnext = Some 3, readers = [], writer = Some u\<rparr>"
  "rw_locked5 u v 2 = Some \<lparr>rvalue = [99], rnext = Some 1, readers = [], writer = Some v\<rparr>"
  by (simp_all add: rw_locked5_def)

lemma jammed_step:
  assumes "rw_sys_step rw_storage5 roles s s'" "rw_jammed u v s"
  shows "rw_jammed u v s'"
  using assms(1)
proof cases
  case (rw_thread r t k h)
  have h: "rwheap s = rw_locked5 u v" "sfirst rw_storage5 = Some 0" using assms(2) by (simp_all add: rw_jammed_def rw_storage5_def)
  have "rw_wrlock (rw_locked5 u v) u (Some 2) = None" "rw_wrlock (rw_locked5 u v) v (Some 1) = None"
    by (simp_all add: rw_wrlock_def locked5_nodes)
  then have "rwstep rw_storage5 (rwstop s) r (roles t) t (rwheap s) (rwpcs s t) = None" if "t = u \<or> t = v"
    using that assms(2) by (auto simp: rw_jammed_def becomes_def)
  with rw_thread(2) have t: "t \<notin> {u, v}" by auto
  then have pc: "rwpcs s t \<in> {RIdle, RFinished, KHead (Some 0) 0, KLock1 (Some 0) 0} \<union> range RFirst"
    using assms(2) by (simp add: rw_jammed_def)
  have "h = rw_locked5 u v \<and> k \<in> {RIdle, RFinished, KHead (Some 0) 0, KLock1 (Some 0) 0} \<union> range RFirst"
    using pc rw_thread(2) h
    by (auto simp: rw_begin_def becomes_def rw_rdlock_def looks_def goes_def locked5_nodes rbind_eq_Inr split: if_splits option.splits)
  with t assms(2) rw_thread(1) show ?thesis by (auto simp: rw_jammed_def rw_move_def)
next
  case rw_main_stop
  with assms(2) show ?thesis by (simp add: rw_jammed_def)
qed

lemma stuck_jammed: "u \<noteq> v \<Longrightarrow> rw_jammed u v (rw_stuck u v)"
  by (auto simp: rw_jammed_def rw_stuck_def rw_state_def)

end
