(* ===== verification/Swap_Laws.thy ===== *)
theory Swap_Laws
  imports Swap_List
begin

text \<open>
  What the list operations do to the list: \<open>add_node\<close> appends, \<open>free_list\<close> frees every node, a swap
  exchanges two inner neighbours, a count counts. No operation of an undisturbed thread faults, waits, or
  leaves a lock behind.
\<close>

section \<open>Chains by position\<close>

lemma chain_nth:
  assumes "chain nx h p as" "j < length as"
  shows "\<exists>n. h (as ! j) = Some n \<and> nx n = (if Suc j < length as then Some (as ! Suc j) else None)"
  using assms
proof (induction as arbitrary: p j)
  case (Cons a as)
  then obtain n where n: "h a = Some n" "chain nx h (nx n) as" by auto
  show ?case
  proof (cases j)
    case 0
    with n show ?thesis by (cases as) auto
  next
    case (Suc i)
    with Cons.prems(2) have "i < length as" by simp
    from Cons.IH [OF n(2) this] obtain n' where
      "h (as ! i) = Some n'" "nx n' = (if Suc i < length as then Some (as ! Suc i) else None)" by blast
    with Suc show ?thesis by simp
  qed
qed simp

lemma chain_swap_neighbours:
  assumes ch: "chain nx h q (us @ p # c # n # vs)" and h: "h p = Some pn" "h c = Some cn" "h n = Some nn"
    and nx: "nx pn' = Some n" "nx nn' = Some c" "nx cn' = nx nn"
  shows "chain nx (h(p \<mapsto> pn', c \<mapsto> cn', n \<mapsto> nn')) q (us @ p # n # c # vs)"
proof -
  have d: "distinct (us @ p # c # n # vs)" by (rule chain_distinct [OF ch])
  have seg: "segment nx h q us (Some p)" and rest: "segment nx h (nx nn) vs None"
    using ch h by (auto simp: chain_def segment_append)
  let ?h = "h(p \<mapsto> pn', c \<mapsto> cn', n \<mapsto> nn')"
  have "segment nx ?h q us (Some p)" using seg d by (subst segment_cong [of us ?h h]) auto
  moreover have "segment nx ?h (nx nn) vs None" using rest d by (subst segment_cong [of vs ?h h]) auto
  ultimately show ?thesis using d nx by (auto simp: chain_def segment_append)
qed

section \<open>The list and its locks\<close>

definition list_rep :: "Node heap \<Rightarrow> ptr \<Rightarrow> addr list \<Rightarrow> bool" where
  "list_rep h p as \<longleftrightarrow> chain nnext h p as \<and> (\<forall>a n. h a = Some n \<longrightarrow> \<not> sync n)"

definition values_of :: "Node heap \<Rightarrow> addr list \<Rightarrow> cstring list" where
  "values_of h as = map (\<lambda>a. nvalue (the (h a))) as"

text \<open>The heap with the lock of one node taken.\<close>

definition locked :: "addr \<Rightarrow> Node heap \<Rightarrow> Node heap" where
  "locked a h = h(a \<mapsto> (the (h a))\<lparr>sync := True\<rparr>)"

lemma lock_free_node: "h a = Some n \<Longrightarrow> \<not> sync n \<Longrightarrow> mutex_lock_node h (Some a) = Some (Inr (locked a h))"
  by (simp add: mutex_lock_node_def locked_def)

lemma locked_other [simp]: "a \<noteq> b \<Longrightarrow> locked a h b = h b"
  by (simp add: locked_def)

lemma locked_same: "h a = Some n \<Longrightarrow> locked a h a = Some (n\<lparr>sync := True\<rparr>)"
  by (simp add: locked_def)

lemma unlock_twice: "sync n = False \<Longrightarrow> n\<lparr>sync := False\<rparr> = n"
  by simp

lemma unlock_next: "sync n = False \<Longrightarrow> n\<lparr>nnext := x, sync := False\<rparr> = n\<lparr>nnext := x\<rparr>"
  by simp

lemma unlock_locked:
  assumes "h a = Some n" "\<not> sync n"
  shows "mutex_unlock_node (locked a h) (Some a) = Some (Inr h)"
  using assms by (auto simp: mutex_unlock_node_def locked_def unlock_twice fun_eq_iff)

lemma unlock_behind:
  assumes "h a = Some n" "\<not> sync n" "a \<noteq> b"
  shows "mutex_unlock_node (locked b (locked a h)) (Some a) = Some (Inr (locked b h))"
  using assms by (auto simp: mutex_unlock_node_def locked_def unlock_twice fun_eq_iff)

lemma walk_run:
  assumes "list_rep h p as" "j + k < length as"
  shows "walk k (locked (as ! j) h) (Some (as ! j)) = Some (Inr (Some (as ! (j + k)), locked (as ! (j + k)) h))"
  using assms(2)
proof (induction k arbitrary: j)
  case (Suc k)
  have ch: "chain nnext h p as" and un: "\<And>a n. h a = Some n \<Longrightarrow> \<not> sync n" using assms(1) by (auto simp: list_rep_def)
  obtain n where n: "h (as ! j) = Some n" "nnext n = Some (as ! Suc j)" using chain_nth [OF ch, of j] Suc.prems by auto
  obtain m where m: "h (as ! Suc j) = Some m" using chain_nth [OF ch, of "Suc j"] Suc.prems by auto
  have ne: "as ! j \<noteq> as ! Suc j" using chain_distinct [OF ch] Suc.prems by (simp add: nth_eq_iff_index_eq)
  have "mutex_lock_node (locked (as ! j) h) (Some (as ! Suc j)) = Some (Inr (locked (as ! Suc j) (locked (as ! j) h)))"
    using m un ne by (intro lock_free_node) simp_all
  moreover have "mutex_unlock_node (locked (as ! Suc j) (locked (as ! j) h)) (Some (as ! j)) = Some (Inr (locked (as ! Suc j) h))"
    using n(1) un ne by (intro unlock_behind) simp_all
  ultimately show ?case using n Suc.IH [of "Suc j"] Suc.prems by (simp add: locked_same)
qed simp

section \<open>Swapping\<close>

definition swapped :: "nat \<Rightarrow> 'a list \<Rightarrow> 'a list" where
  "swapped i xs = xs[i := xs ! Suc i, Suc i := xs ! i]"

lemma split_three:
  assumes "i + 2 < length as"
  shows "as = take i as @ as ! i # as ! Suc i # as ! (i + 2) # drop (i + 3) as"
proof -
  have "drop i as = as ! i # as ! Suc i # as ! (i + 2) # drop (i + 3) as"
    using assms by (simp add: Cons_nth_drop_Suc [symmetric] numeral_eq_Suc)
  then show ?thesis by (metis append_take_drop_id)
qed

lemma swapped_split:
  "swapped (Suc (length us)) (us @ p # c # n # vs) = us @ p # n # c # vs"
  by (simp add: swapped_def list_update_append nth_append)

lemma swap_round_run:
  assumes rep: "list_rep h p as" and i: "i + 2 < length as" and p: "p = Some (as ! 0)"
  shows "\<exists>h'. swap_round h p (Suc i) = Some (Inr (True, h')) \<and> list_rep h' p (swapped (Suc i) as)
    \<and> (\<forall>a. map_option nvalue (h' a) = map_option nvalue (h a))"
proof -
  have ch: "chain nnext h p as" and un: "\<And>a n. h a = Some n \<Longrightarrow> \<not> sync n" using rep by (auto simp: list_rep_def)
  define P C N where "P = as ! i" and "C = as ! Suc i" and "N = as ! (i + 2)"
  obtain pn where pn: "h P = Some pn" "nnext pn = Some C" using chain_nth [OF ch, of i] i by (auto simp: P_def C_def)
  obtain cn where cn: "h C = Some cn" "nnext cn = Some N" using chain_nth [OF ch, of "Suc i"] i by (auto simp: C_def N_def)
  obtain nn where nn: "h N = Some nn" using chain_nth [OF ch, of "i + 2"] i by (auto simp: N_def)
  have d: "P \<noteq> C" "P \<noteq> N" "C \<noteq> N" using chain_distinct [OF ch] i by (auto simp: P_def C_def N_def nth_eq_iff_index_eq)
  have us: "pn\<lparr>nnext := x, sync := False\<rparr> = pn\<lparr>nnext := x\<rparr>" "cn\<lparr>nnext := x, sync := False\<rparr> = cn\<lparr>nnext := x\<rparr>"
      "nn\<lparr>nnext := x, sync := False\<rparr> = nn\<lparr>nnext := x\<rparr>" for x
    using un pn(1) cn(1) nn by (auto intro: unlock_next)
  have "0 < length as" using i by linarith
  with chain_nth [OF ch, of 0] obtain m where m: "h (as ! 0) = Some m" by blast
  have w: "walk i (locked (as ! 0) h) p = Some (Inr (Some P, locked P h))"
    using walk_run [OF rep, of 0 i] i p by (simp add: P_def)
  let ?h = "h(P \<mapsto> pn\<lparr>nnext := Some N\<rparr>, C \<mapsto> cn\<lparr>nnext := nnext nn\<rparr>, N \<mapsto> nn\<lparr>nnext := Some C\<rparr>)"
  have "mutex_lock_node h p = Some (Inr (locked (as ! 0) h))" using m un p by (simp add: lock_free_node)
  moreover have "mutex_lock_node (locked P h) (Some C) = Some (Inr (locked C (locked P h)))"
    using cn(1) un d by (intro lock_free_node) simp_all
  moreover have "mutex_lock_node (locked C (locked P h)) (Some N) = Some (Inr (locked N (locked C (locked P h))))"
    using nn un d by (intro lock_free_node) simp_all
  ultimately have run: "swap_round h p (Suc i) = Some (Inr (True, ?h))"
    using w pn cn nn d us unfolding swap_round_def
    by (simp add: locked_def mutex_unlock_node_def Let_def fun_upd_twist)
  have "chain nnext ?h p (take i as @ P # N # C # drop (i + 3) as)"
    using ch pn cn nn split_three [OF i] by (intro chain_swap_neighbours) (auto simp: P_def C_def N_def)
  moreover have "swapped (Suc i) as = take i as @ P # N # C # drop (i + 3) as"
    using swapped_split [of "take i as" P C N "drop (i + 3) as"] split_three [OF i] i by (simp add: P_def C_def N_def)
  moreover have "\<not> sync x" if "?h a = Some x" for a x using that un pn(1) cn(1) nn by (auto split: if_splits)
  ultimately have "list_rep ?h p (swapped (Suc i) as)" by (auto simp: list_rep_def)
  moreover have "map_option nvalue (?h a) = map_option nvalue (h a)" for a using pn(1) cn(1) nn by simp
  ultimately show ?thesis using run by blast
qed

section \<open>Adding and freeing\<close>

lemma last_node_run:
  "chain nnext h p as \<Longrightarrow> as \<noteq> [] \<Longrightarrow> last_node h p = Some (Inr (Some (last as)))"
proof (induction as arbitrary: p)
  case (Cons a as)
  then obtain n where n: "p = Some a" "h a = Some n" "chain nnext h (nnext n) as" by auto
  show ?case
  proof (cases "as = []")
    case True
    with n show ?thesis by (subst last_node.simps) simp
  next
    case False
    then obtain b bs where "as = b # bs" by (cases as) auto
    with n Cons.IH [OF n(3) False] False show ?thesis by (subst last_node.simps) simp
  qed
qed simp

lemma add_node_run:
  assumes rep: "list_rep h (sfirst st) as" and m: "h m = None"
  shows "\<exists>h' st'. add_node h st (Some m) value = Some (Inr (0, h', st')) \<and> list_rep h' (sfirst st') (as @ [m]) \<and> ssize st' = ssize st
    \<and> values_of h' (as @ [m]) = values_of h as @ [cstr (strncpy value (MAX_STRING_LENGTH - 1))] \<and> dom h' = insert m (dom h)"
proof -
  have ch: "chain nnext h (sfirst st) as" and un: "\<And>a n. h a = Some n \<Longrightarrow> \<not> sync n" using rep by (auto simp: list_rep_def)
  define x where "x = \<lparr>nvalue = cstr (strncpy value (MAX_STRING_LENGTH - 1)), nnext = None, sync = False\<rparr>"
  have c: "create_node h (Some m) value = (Some m, h(m \<mapsto> x))" by (simp add: create_node_def x_def)
  have mn: "m \<notin> set as" using chain_dom [OF ch] m by auto
  show ?thesis
  proof (cases "as = []")
    case True
    with ch have "sfirst st = None" by simp
    with c True un show ?thesis by (auto simp: add_node_def list_rep_def values_of_def x_def)
  next
    case False
    then have f: "sfirst st \<noteq> None" using chain_null_iff [OF ch] by blast
    obtain n where n: "h (last as) = Some n" "nnext n = None" using chain_last_live [OF ch False] by blast
    have lm: "last as \<noteq> m" using n m by auto
    have ch': "chain nnext (h(m \<mapsto> x)) (sfirst st) as" by (rule chain_update_other [OF ch mn])
    let ?h = "h(m \<mapsto> x, last as \<mapsto> n\<lparr>nnext := Some m\<rparr>)"
    have "chain nnext ?h (sfirst st) (as @ [m])"
      by (rule chain_link_behind [OF ch False n(1) m]) (simp_all add: x_def)
    moreover have "\<not> sync y" if "?h a = Some y" for a y using that un n(1) by (auto simp: x_def split: if_splits)
    ultimately have "list_rep ?h (sfirst st) (as @ [m])" by (auto simp: list_rep_def)
    moreover have "add_node h st (Some m) value = Some (Inr (0, ?h, st))"
      using c f last_node_run [OF ch' False] n(1) lm by (auto simp: add_node_def)
    moreover have "values_of ?h (as @ [m]) = values_of h as @ [cstr (strncpy value (MAX_STRING_LENGTH - 1))]"
      using mn lm n(1) by (auto simp: values_of_def x_def)
    moreover have "dom ?h = insert m (dom h)" using n(1) by auto
    ultimately show ?thesis by blast
  qed
qed

lemma free_list_run:
  assumes "list_rep h (sfirst st) as" "dom h = set as"
  shows "free_list h st = Some (Inr (Map.empty, st\<lparr>sfirst := None\<rparr>))"
proof -
  have "chain nnext h (sfirst st) as" using assms(1) by (simp add: list_rep_def)
  from free_chain_chain [OF this] assms(2) show ?thesis by (simp add: free_list_def restrict_dom_empty)
qed

section \<open>Counting\<close>

fun pairs_with :: "(nat \<Rightarrow> nat \<Rightarrow> bool) \<Rightarrow> cstring list \<Rightarrow> nat" where
  "pairs_with cmp (v # w # vs) = (if cmp (length v) (length w) then 1 else 0) + pairs_with cmp (w # vs)"
| "pairs_with cmp _ = 0"

lemma count_pass_run:
  assumes "list_rep h p as" "length as \<le> k"
  shows "count_pass cmp k h p c = Some (Inr (c + of_nat (pairs_with cmp (values_of h as)), h))"
  using assms
proof (induction as arbitrary: p c k)
  case Nil
  then show ?case by (cases k) (auto simp: list_rep_def values_of_def)
next
  case (Cons a as)
  then obtain k' where k: "k = Suc k'" by (cases k) auto
  have ch: "chain nnext h p (a # as)" and un: "\<And>a n. h a = Some n \<Longrightarrow> \<not> sync n" using Cons.prems(1) by (auto simp: list_rep_def)
  then obtain n where n: "p = Some a" "h a = Some n" "chain nnext h (nnext n) as" by auto
  show ?case
  proof (cases as)
    case Nil
    with n k show ?thesis by (simp add: values_of_def)
  next
    case (Cons b bs)
    with n obtain m where b: "nnext n = Some b" "h b = Some m" by auto
    have ab: "a \<noteq> b" using chain_head_notin [OF ch] Cons by auto
    have "list_rep h (nnext n) as" using n(3) un by (auto simp: list_rep_def)
    from Cons.IH [OF this, of k'] Cons.prems(2) k
    have ih: "count_pass cmp k' h (Some b) d = Some (Inr (d + of_nat (pairs_with cmp (values_of h as)), h))" for d
      using b(1) by simp
    have s: "n\<lparr>sync := False\<rparr> = n" "m\<lparr>sync := False\<rparr> = m" using un n(2) b(2) by (auto intro: unlock_twice)
    have l1: "mutex_lock_node h (Some a) = Some (Inr (locked a h))" using n(2) un by (intro lock_free_node)
    have l2: "mutex_lock_node (locked a h) (Some b) = Some (Inr (locked b (locked a h)))"
      using b(2) un ab by (intro lock_free_node) simp_all
    have u1: "mutex_unlock_node (locked b (locked a h)) (Some a) = Some (Inr (locked b h))"
      using n(2) un ab by (intro unlock_behind) simp_all
    have u2: "mutex_unlock_node (locked b h) (Some b) = Some (Inr h)" using b(2) un by (intro unlock_locked)
    have v: "values_of h (a # as) = nvalue n # nvalue m # values_of h bs" using n(2) b(2) Cons by (simp add: values_of_def)
    have v': "values_of h as = nvalue m # values_of h bs" using b(2) Cons by (simp add: values_of_def)
    have "locked b (locked a h) b = Some (m\<lparr>sync := True\<rparr>)" using b(2) ab by (intro locked_same) simp
    with n b k l1 l2 u1 u2 ih v v' show ?thesis
      by (simp add: locked_same add.assoc)
  qed
qed

lemma pairs_partition:
  "vs \<noteq> [] \<Longrightarrow> pairs_with (<) vs + pairs_with (>) vs + pairs_with (=) vs = length vs - 1"
proof (induction vs)
  case (Cons v vs)
  then show ?case by (cases vs) auto
qed simp

section \<open>Properties\<close>

text \<open>The list that \<open>main\<close> builds: one \<open>add_node\<close> for each value, with the blocks \<open>malloc\<close> returns.\<close>

fun build :: "Node heap \<Rightarrow> Storage \<Rightarrow> (addr \<times> cstring) list \<Rightarrow> (int \<times> Node heap \<times> Storage) res option" where
  "build h st [] = Some (Inr (0, h, st))"
| "build h st ((m, v) # vs) = wbind (add_node h st (Some m) v) (\<lambda>(r, h, st).
     if r \<noteq> 0 then Some (Inr (1, h, st)) else build h st vs)"

lemma build_run:
  assumes "list_rep h (sfirst st) as" "dom h = set as" "distinct (map fst vs)" "set (map fst vs) \<inter> set as = {}"
  shows "\<exists>h' st'. build h st vs = Some (Inr (0, h', st')) \<and> list_rep h' (sfirst st') (as @ map fst vs) \<and> ssize st' = ssize st
    \<and> dom h' = set (as @ map fst vs)
    \<and> values_of h' (as @ map fst vs) = values_of h as @ map (\<lambda>v. cstr (strncpy (snd v) (MAX_STRING_LENGTH - 1))) vs"
  using assms
proof (induction vs arbitrary: h st as)
  case (Cons x vs)
  obtain m v where x: "x = (m, v)" by (cases x)
  with Cons.prems have "h m = None" by auto
  from add_node_run [OF Cons.prems(1) this, of v] obtain h1 st1 where
    s1: "add_node h st (Some m) v = Some (Inr (0, h1, st1))" "list_rep h1 (sfirst st1) (as @ [m])" "ssize st1 = ssize st"
      "values_of h1 (as @ [m]) = values_of h as @ [cstr (strncpy v (MAX_STRING_LENGTH - 1))]" "dom h1 = insert m (dom h)" by blast
  have "dom h1 = set (as @ [m])" "distinct (map fst vs)" "set (map fst vs) \<inter> set (as @ [m]) = {}"
    using s1(5) Cons.prems x by auto
  from Cons.IH [OF s1(2) this] s1 x show ?case by auto
qed simp

lemma swapped_values:
  assumes "Suc i < length as" "\<And>a. map_option nvalue (h' a) = map_option nvalue (h a)" "set as \<subseteq> dom h"
  shows "values_of h' (swapped i as) = swapped i (values_of h as)"
proof -
  have "nvalue (the (h' a)) = nvalue (the (h a))" if "a \<in> set as" for a
    using assms(2) [of a] assms(3) that by (cases "h a"; cases "h' a") auto
  then have "values_of h' as = values_of h as" by (simp add: values_of_def)
  moreover have "values_of h' (swapped i as) = swapped i (values_of h' as)"
    using assms(1) by (simp add: values_of_def swapped_def map_update)
  ultimately show ?thesis by simp
qed

lemma swapped_set: "Suc i < length as \<Longrightarrow> set (swapped i as) = set as"
  unfolding swapped_def by (rule set_swap) auto

text \<open>
  Property C26. What \<open>safe_swap_nodes\<close> does to an unlocked list of \<open>size\<close> nodes, in its first round:
  nothing for fewer than three nodes; with exactly three it divides by zero; with more it exchanges the
  nodes at the positions \<open>i\<close> and \<open>i + 1\<close> with \<open>i = r mod (size - 3) + 1\<close>, so that the first and the last
  node never move. It follows no null pointer, keeps the values in their nodes and releases every lock.
\<close>

theorem swap_exchanges_neighbours:
  assumes "list_rep h (sfirst st) as" "ssize st = int (length as)"
  shows "if length as < 3 then safe_swap_nodes h st (r # rs) = Some (Inr (0, h))
    else if length as = 3 then safe_swap_nodes h st (r # rs) = Some (Inl DivByZero)
    else let i = r mod (length as - 3) + 1 in
      0 < i \<and> i + 1 < length as - 1 \<and> (\<exists>h'. safe_swap_nodes h st (r # rs) = Some (Inr (1, h'))
        \<and> list_rep h' (sfirst st) (swapped i as) \<and> set (swapped i as) = set as
        \<and> values_of h' (swapped i as) = swapped i (values_of h as))"
proof (cases "length as \<le> 3")
  case True
  with assms(2) show ?thesis by (auto simp: safe_swap_nodes_def)
next
  case False
  define j where "j = r mod (length as - 3)"
  have j: "j < length as - 3" using False by (simp add: j_def)
  have ch: "chain nnext h (sfirst st) as" using assms(1) by (simp add: list_rep_def)
  then have f: "sfirst st = Some (as ! 0)" using False by (cases as) auto
  have "int r mod (int (length as) - 3) = int j" using False by (simp add: j_def zmod_int of_nat_diff)
  then have n: "nat (int r mod (ssize st - 3) + 1) = Suc j" using assms(2) by simp
  have "j + 2 < length as" using j by linarith
  from swap_round_run [OF assms(1) this f] obtain h' where
    h': "swap_round h (sfirst st) (Suc j) = Some (Inr (True, h'))" "list_rep h' (sfirst st) (swapped (Suc j) as)"
      "\<And>a. map_option nvalue (h' a) = map_option nvalue (h a)" by blast
  have "safe_swap_nodes h st (r # rs) = Some (Inr (1, h'))"
    using h'(1) n False assms(2) by (simp add: safe_swap_nodes_def)
  moreover have "values_of h' (swapped (Suc j) as) = swapped (Suc j) (values_of h as)"
    using j h'(3) chain_dom [OF ch] by (intro swapped_values) auto
  moreover have "set (swapped (Suc j) as) = set as" using j by (intro swapped_set) linarith
  ultimately show ?thesis using False h'(2) j by (auto simp: Let_def j_def [symmetric])
qed

text \<open>
  The three counting threads: a pass over an unlocked list counts the neighbours whose
  lengths ascend, descend or are equal, leaves the list and its locks as they were, and the three
  counts add up to the number of pairs of neighbours.
\<close>

lemma counts_add_up:
  assumes "list_rep h (sfirst st) as" "as \<noteq> []" "length as \<le> k"
  shows "\<exists>a d e. count_ascending k h st = Some (Inr (of_nat a, h)) \<and> count_descending k h st = Some (Inr (of_nat d, h))
    \<and> count_equal k h st = Some (Inr (of_nat e, h)) \<and> a + d + e = length as - 1"
proof -
  have "values_of h as \<noteq> []" using assms(2) by (simp add: values_of_def)
  from pairs_partition [OF this] show ?thesis
    using count_pass_run [OF assms(1,3), of _ 0]
    by (auto simp: count_ascending_def count_descending_def count_equal_def values_of_def)
qed

text \<open>
  Property C33. Building the list and freeing it: adding values one after the other gives a list of these
  values in order, each cut to 99 characters, and \<open>free_list\<close> then frees every node once.
\<close>

theorem build_then_free:
  assumes "distinct (map fst vs)"
  shows "\<exists>h st. build Map.empty \<lparr>sfirst = None, ssize = n\<rparr> vs = Some (Inr (0, h, st)) \<and> list_rep h (sfirst st) (map fst vs)
    \<and> values_of h (map fst vs) = map (\<lambda>v. take 99 (cstr (snd v))) vs
    \<and> free_list h st = Some (Inr (Map.empty, st\<lparr>sfirst := None\<rparr>))"
proof -
  have "list_rep Map.empty (sfirst \<lparr>sfirst = None, ssize = n\<rparr>) []" by (simp add: list_rep_def)
  from build_run [OF this _ assms] obtain h st where
    b: "build Map.empty \<lparr>sfirst = None, ssize = n\<rparr> vs = Some (Inr (0, h, st))" "list_rep h (sfirst st) (map fst vs)"
      "dom h = set (map fst vs)" "values_of h (map fst vs) = map (\<lambda>v. cstr (strncpy (snd v) (MAX_STRING_LENGTH - 1))) vs"
    by (auto simp: values_of_def)
  with b free_list_run [OF b(2,3)] show ?thesis by (auto simp: MAX_STRING_LENGTH_def cstr_strncpy)
qed

section \<open>Examples\<close>

definition demo_list :: "Node heap" where
  "demo_list = [1 \<mapsto> \<lparr>nvalue = [97], nnext = Some 2, sync = False\<rparr>, 2 \<mapsto> \<lparr>nvalue = [97, 98], nnext = Some 3, sync = False\<rparr>,
     3 \<mapsto> \<lparr>nvalue = [99], nnext = Some 4, sync = False\<rparr>, 4 \<mapsto> \<lparr>nvalue = [100], nnext = None, sync = False\<rparr>]"

lemma demo_list_rep: "list_rep demo_list (sfirst \<lparr>sfirst = Some 1, ssize = 4\<rparr>) [1, 2, 3, 4]"
  by (auto simp: list_rep_def demo_list_def split: if_splits)

theorem swap_exchanges_neighbours_witness:
  "\<exists>h'. safe_swap_nodes demo_list \<lparr>sfirst = Some 1, ssize = 4\<rparr> [7] = Some (Inr (1, h')) \<and> list_rep h' (Some 1) [1, 3, 2, 4]"
  using swap_exchanges_neighbours [OF demo_list_rep, of 7 "[]"] by (auto simp: swapped_def)

theorem build_then_free_witness:
  "\<exists>h st. build Map.empty \<lparr>sfirst = None, ssize = 2\<rparr> [(5, [97]), (6, [98, 99])] = Some (Inr (0, h, st))
     \<and> free_list h st = Some (Inr (Map.empty, st\<lparr>sfirst := None\<rparr>))"
  using build_then_free [of "[(5, [97]), (6, [98, 99])]" 2] by auto

end
