(* ===== verification/Swap_Threads.thy ===== *)
theory Swap_Threads
  imports Swap_Laws
begin

text \<open>
  The threads of \<open>sync/2.3/2.3-2.4.c\<close> running together: any number of swapping and counting threads,
  interleaved statement by statement. A statement reads or writes at most one node that the thread
  has not locked; \<open>lock\<close> statements wait, everything else goes on.
\<close>

section \<open>Statements\<close>

text \<open>
  Where a thread is, with the values of its local variables. The names follow \<open>safe_swap_nodes\<close>
  (\<open>S...\<close>) and the counting functions (\<open>C...\<close>); the third pointer of \<open>SHand\<close>, \<open>SGotC\<close>, \<open>SRead\<close>
  and \<open>CCmp\<close> is the node locked last.
\<close>

datatype pc =
    Idle
  | Finished
  | SFirst nat
  | SWalk nat nat ptr
  | SLockW nat nat ptr ptr
  | SHand nat nat ptr ptr
  | SCheck ptr
  | SLockC ptr ptr
  | SGotC ptr ptr
  | SLockN ptr ptr ptr
  | SRead ptr ptr ptr
  | SW1 ptr ptr ptr ptr
  | SW2 ptr ptr ptr ptr
  | SW3 ptr ptr ptr
  | SU1 ptr ptr ptr
  | SU2 ptr ptr
  | SU3 ptr
  | CHead ptr usize
  | CLock1 ptr usize
  | CGot ptr usize
  | CLock2 ptr ptr usize
  | CCmp ptr ptr usize
  | CU1 ptr ptr usize
  | CU2 ptr usize

text \<open>A counting thread has its comparison, a swapping thread has none.\<close>

type_synonym role = "(nat \<Rightarrow> nat \<Rightarrow> bool) option"

definition locking :: "Node heap \<Rightarrow> ptr \<Rightarrow> pc \<Rightarrow> (pc \<times> Node heap) res option" where
  "locking h p k = wbind (mutex_lock_node h p) (\<lambda>h. Some (Inr (k, h)))"

definition unlocking :: "Node heap \<Rightarrow> ptr \<Rightarrow> pc \<Rightarrow> (pc \<times> Node heap) res option" where
  "unlocking h p k = wbind (mutex_unlock_node h p) (\<lambda>h. Some (Inr (k, h)))"

definition linking :: "Node heap \<Rightarrow> ptr \<Rightarrow> ptr \<Rightarrow> pc \<Rightarrow> (pc \<times> Node heap) res option" where
  "linking h p q k = wbind (Some (store h p (\<lambda>n. n\<lparr>nnext := q\<rparr>))) (\<lambda>h. Some (Inr (k, h)))"

definition reading :: "Node heap \<Rightarrow> ptr \<Rightarrow> (Node \<Rightarrow> (pc \<times> Node heap) res option) \<Rightarrow> (pc \<times> Node heap) res option" where
  "reading h p f = wbind (Some (deref h p)) f"

text \<open>The start of \<open>safe_swap_nodes\<close> or of a counting pass; \<open>r\<close> is what \<open>rand()\<close> returns.\<close>

definition begin_work :: "Storage \<Rightarrow> bool \<Rightarrow> nat \<Rightarrow> role \<Rightarrow> pc res" where
  "begin_work st stop r role =
     (if stop then Inr Finished
      else case role of
        Some cmp \<Rightarrow> Inr (CHead (sfirst st) 0)
      | None \<Rightarrow> if ssize st < 3 then Inr Idle
          else if ssize st - 3 = 0 then Inl DivByZero
          else Inr (SFirst (nat (int r mod (ssize st - 3) + 1))))"

text \<open>One statement of a thread; \<open>None\<close> when it has to wait for a lock.\<close>

fun tstep :: "Storage \<Rightarrow> bool \<Rightarrow> nat \<Rightarrow> role \<Rightarrow> Node heap \<Rightarrow> pc \<Rightarrow> (pc \<times> Node heap) res option" where
  "tstep st stop r role h Idle = Some (rbind (begin_work st stop r role) (\<lambda>k. Inr (k, h)))"
| "tstep st stop r role h Finished = None"
| "tstep st stop r role h (SFirst e) = locking h (sfirst st) (SWalk e 1 (sfirst st))"
| "tstep st stop r role h (SWalk e ind prev) = reading h prev (\<lambda>n.
     Some (Inr (if ind < e \<and> nnext n \<noteq> None then SLockW e ind prev (nnext n) else SCheck prev, h)))"
| "tstep st stop r role h (SLockW e ind prev q) = locking h q (SHand e ind prev q)"
| "tstep st stop r role h (SHand e ind prev q) = reading h prev (\<lambda>n. unlocking h prev (SWalk e (Suc ind) (nnext n)))"
| "tstep st stop r role h (SCheck prev) = reading h prev (\<lambda>n.
     if nnext n = None then unlocking h prev Idle
     else reading h (nnext n) (\<lambda>c.
       if nnext c = None then unlocking h prev Idle else Some (Inr (SLockC prev (nnext n), h))))"
| "tstep st stop r role h (SLockC prev q) = locking h q (SGotC prev q)"
| "tstep st stop r role h (SGotC prev q) = reading h prev (\<lambda>n.
     reading h (nnext n) (\<lambda>c. Some (Inr (SLockN prev (nnext n) (nnext c), h))))"
| "tstep st stop r role h (SLockN prev current q) = locking h q (SRead prev current q)"
| "tstep st stop r role h (SRead prev current q) = reading h current (\<lambda>c.
     reading h (nnext c) (\<lambda>n. Some (Inr (SW1 prev current (nnext c) (nnext n), h))))"
| "tstep st stop r role h (SW1 prev current next next_next) = linking h prev next (SW2 prev current next next_next)"
| "tstep st stop r role h (SW2 prev current next next_next) = linking h current next_next (SW3 prev current next)"
| "tstep st stop r role h (SW3 prev current next) = linking h next current (SU1 prev current next)"
| "tstep st stop r role h (SU1 prev current next) = unlocking h prev (SU2 current next)"
| "tstep st stop r role h (SU2 current next) = unlocking h current (SU3 next)"
| "tstep st stop r role h (SU3 next) = unlocking h next Idle"
| "tstep st stop r role h (CHead current k) =
     (if current = None then Some (Inr (Idle, h))
      else reading h current (\<lambda>n. Some (Inr (if nnext n = None \<or> stop then Idle else CLock1 current k, h))))"
| "tstep st stop r role h (CLock1 current k) = locking h current (CGot current k)"
| "tstep st stop r role h (CGot current k) = reading h current (\<lambda>n. Some (Inr (CLock2 current (nnext n) k, h)))"
| "tstep st stop r role h (CLock2 current q k) = locking h q (CCmp current q k)"
| "tstep st stop r role h (CCmp current q k) = reading h current (\<lambda>n. reading h (nnext n) (\<lambda>n2.
     Some (Inr (CU1 current (nnext n)
       (if (case role of None \<Rightarrow> False | Some cmp \<Rightarrow> cmp (length (nvalue n)) (length (nvalue n2))) then k + 1 else k), h))))"
| "tstep st stop r role h (CU1 current next k) = unlocking h current (CU2 next k)"
| "tstep st stop r role h (CU2 next k) = unlocking h next (CHead next k)"

section \<open>The system\<close>

text \<open>
  \<open>work\<close> counts what a thread has finished: \<open>swap_counters\<close> for a swapping thread, passes
  (\<open>count_asc\<close>, \<open>count_desc\<close>, \<open>count_eq\<close>) for a counting one.
\<close>

record sys =
  lheap :: "Node heap"
  pcs :: "nat \<Rightarrow> pc"
  work :: "nat \<Rightarrow> usize"
  stop :: bool

definition completes :: "pc \<Rightarrow> pc \<Rightarrow> bool" where
  "completes k k' \<longleftrightarrow> k' = Idle \<and> (case k of SU3 _ \<Rightarrow> True | CHead _ _ \<Rightarrow> True | _ \<Rightarrow> False)"

inductive sys_step :: "Storage \<Rightarrow> (nat \<Rightarrow> role) \<Rightarrow> sys \<Rightarrow> sys \<Rightarrow> bool" for st roles where
  thread: "tstep st (stop s) r (roles t) (lheap s) (pcs s t) = Some (Inr (k, h)) \<Longrightarrow>
    sys_step st roles s (s\<lparr>lheap := h, pcs := (pcs s)(t := k),
      work := (work s)(t := work s t + (if completes (pcs s t) k then 1 else 0))\<rparr>)"
| main_stop: "sys_step st roles s (s\<lparr>stop := True\<rparr>)"

inductive_cases sys_stepE: "sys_step st roles s s'"

definition sys_start :: "Node heap \<Rightarrow> sys" where
  "sys_start h = \<lparr>lheap = h, pcs = \<lambda>_. Idle, work = \<lambda>_. 0, stop = False\<rparr>"

end
