(* ===== verification/Swap_Safety.thy ===== *)
theory Swap_Safety
  imports Swap_Threads "HOL-Library.Multiset"
begin

text \<open>
  The invariant of the swapping and counting threads of \<open>Swap_Threads\<close>, its preservation by every
  statement, and the absence of deadlock. The logical list \<open>as\<close> changes when a swap writes its first
  link; the two nodes whose links are not written yet are \<open>dirty\<close> and locked by the swapping thread.
\<close>

section \<open>The invariant\<close>

fun holds :: "pc \<Rightarrow> addr set" where
  "holds (SWalk e ind p) = set_option p"
| "holds (SLockW e ind p q) = set_option p"
| "holds (SHand e ind p q) = set_option p \<union> set_option q"
| "holds (SCheck p) = set_option p"
| "holds (SLockC p q) = set_option p"
| "holds (SGotC p q) = set_option p \<union> set_option q"
| "holds (SLockN p c q) = set_option p \<union> set_option c"
| "holds (SRead p c q) = set_option p \<union> set_option c \<union> set_option q"
| "holds (SW1 p c n m) = set_option p \<union> set_option c \<union> set_option n"
| "holds (SW2 p c n m) = set_option p \<union> set_option c \<union> set_option n"
| "holds (SW3 p c n) = set_option p \<union> set_option c \<union> set_option n"
| "holds (SU1 p c n) = set_option p \<union> set_option c \<union> set_option n"
| "holds (SU2 c n) = set_option c \<union> set_option n"
| "holds (SU3 n) = set_option n"
| "holds (CGot c k) = set_option c"
| "holds (CLock2 c q k) = set_option c"
| "holds (CCmp c q k) = set_option c \<union> set_option q"
| "holds (CU1 c n k) = set_option c \<union> set_option n"
| "holds (CU2 n k) = set_option n"
| "holds _ = {}"

fun dirty :: "pc \<Rightarrow> addr set" where
  "dirty (SW2 p c n m) = set_option c \<union> set_option n"
| "dirty (SW3 p c n) = set_option n"
| "dirty _ = {}"

text \<open>What the local variables of a thread mean for the logical list.\<close>

fun pcok :: "addr list \<Rightarrow> pc \<Rightarrow> bool" where
  "pcok as (SFirst e) \<longleftrightarrow> 1 \<le> e \<and> e + 3 \<le> length as"
| "pcok as (SWalk e ind p) \<longleftrightarrow> 1 \<le> ind \<and> ind \<le> e \<and> e + 3 \<le> length as \<and> p = Some (as ! (ind - 1))"
| "pcok as (SLockW e ind p q) \<longleftrightarrow> 1 \<le> ind \<and> ind < e \<and> e + 3 \<le> length as \<and> p = Some (as ! (ind - 1)) \<and> q = Some (as ! ind)"
| "pcok as (SHand e ind p q) \<longleftrightarrow> 1 \<le> ind \<and> ind < e \<and> e + 3 \<le> length as \<and> p = Some (as ! (ind - 1)) \<and> q = Some (as ! ind)"
| "pcok as (SCheck p) \<longleftrightarrow> (\<exists>i. i + 3 < length as \<and> p = Some (as ! i))"
| "pcok as (SLockC p q) \<longleftrightarrow> (\<exists>i. i + 3 < length as \<and> p = Some (as ! i) \<and> q = Some (as ! (i + 1)))"
| "pcok as (SGotC p q) \<longleftrightarrow> (\<exists>i. i + 3 < length as \<and> p = Some (as ! i) \<and> q = Some (as ! (i + 1)))"
| "pcok as (SLockN p c q) \<longleftrightarrow> (\<exists>i. i + 3 < length as \<and> p = Some (as ! i) \<and> c = Some (as ! (i + 1)) \<and> q = Some (as ! (i + 2)))"
| "pcok as (SRead p c q) \<longleftrightarrow> (\<exists>i. i + 3 < length as \<and> p = Some (as ! i) \<and> c = Some (as ! (i + 1)) \<and> q = Some (as ! (i + 2)))"
| "pcok as (SW1 p c n m) \<longleftrightarrow> (\<exists>i. i + 3 < length as \<and> p = Some (as ! i) \<and> c = Some (as ! (i + 1)) \<and> n = Some (as ! (i + 2))
     \<and> m = Some (as ! (i + 3)))"
| "pcok as (SW2 p c n m) \<longleftrightarrow> (\<exists>i. i + 3 < length as \<and> p = Some (as ! i) \<and> n = Some (as ! (i + 1)) \<and> c = Some (as ! (i + 2))
     \<and> m = Some (as ! (i + 3)))"
| "pcok as (SW3 p c n) \<longleftrightarrow> (\<exists>i. i + 3 < length as \<and> p = Some (as ! i) \<and> n = Some (as ! (i + 1)) \<and> c = Some (as ! (i + 2)))"
| "pcok as (SU1 p c n) \<longleftrightarrow> (\<exists>x y z. p = Some x \<and> c = Some y \<and> n = Some z \<and> {x, y, z} \<subseteq> set as \<and> x \<noteq> y \<and> x \<noteq> z \<and> y \<noteq> z)"
| "pcok as (SU2 c n) \<longleftrightarrow> (\<exists>y z. c = Some y \<and> n = Some z \<and> {y, z} \<subseteq> set as \<and> y \<noteq> z)"
| "pcok as (SU3 n) \<longleftrightarrow> (\<exists>z. n = Some z \<and> z \<in> set as)"
| "pcok as (CHead c k) \<longleftrightarrow> (\<exists>x. c = Some x \<and> x \<in> set as)"
| "pcok as (CLock1 c k) \<longleftrightarrow> (\<exists>x. c = Some x \<and> x \<in> set as \<and> x \<noteq> last as)"
| "pcok as (CGot c k) \<longleftrightarrow> (\<exists>i. i + 1 < length as \<and> c = Some (as ! i))"
| "pcok as (CLock2 c q k) \<longleftrightarrow> (\<exists>i. i + 1 < length as \<and> c = Some (as ! i) \<and> q = Some (as ! (i + 1)))"
| "pcok as (CCmp c q k) \<longleftrightarrow> (\<exists>i. i + 1 < length as \<and> c = Some (as ! i) \<and> q = Some (as ! (i + 1)))"
| "pcok as (CU1 c n k) \<longleftrightarrow> (\<exists>x y. c = Some x \<and> n = Some y \<and> {x, y} \<subseteq> set as \<and> x \<noteq> y)"
| "pcok as (CU2 n k) \<longleftrightarrow> (\<exists>y. n = Some y \<and> y \<in> set as)"
| "pcok as _ \<longleftrightarrow> True"

definition succ_of :: "addr list \<Rightarrow> nat \<Rightarrow> ptr" where
  "succ_of as i = (if Suc i < length as then Some (as ! Suc i) else None)"

text \<open>
  The shared part: the nodes are those of the list, a lock is taken exactly when a thread holds it,
  every link that is not dirty is that of the logical list, and only the last node has no successor.
\<close>

definition shared_ok :: "Node heap \<Rightarrow> addr list \<Rightarrow> Node heap \<Rightarrow> (nat \<Rightarrow> pc) \<Rightarrow> bool" where
  "shared_ok h0 as h ks \<longleftrightarrow> distinct as \<and> (\<forall>a. map_option nvalue (h a) = map_option nvalue (h0 a))
     \<and> (\<forall>a \<in> set as. \<exists>n. h a = Some n \<and> (sync n \<longleftrightarrow> (\<exists>t. a \<in> holds (ks t))) \<and> (a \<noteq> last as \<longrightarrow> nnext n \<noteq> None))
     \<and> (\<forall>i < length as. (\<forall>t. as ! i \<notin> dirty (ks t)) \<longrightarrow> nnext (the (h (as ! i))) = succ_of as i)"

definition threads_ok :: "addr list \<Rightarrow> (nat \<Rightarrow> pc) \<Rightarrow> bool" where
  "threads_ok as ks \<longleftrightarrow> (\<forall>t. pcok as (ks t)) \<and> (\<forall>t u. t \<noteq> u \<longrightarrow> holds (ks t) \<inter> holds (ks u) = {})"

lemma shared_okD:
  assumes "shared_ok h0 as h ks"
  shows "distinct as" "map_option nvalue (h a) = map_option nvalue (h0 a)"
    and "a \<in> set as \<Longrightarrow> \<exists>n. h a = Some n \<and> (a \<noteq> last as \<longrightarrow> nnext n \<noteq> None)"
    and "a \<in> set as \<Longrightarrow> h a = Some n \<Longrightarrow> sync n \<longleftrightarrow> (\<exists>t. a \<in> holds (ks t))"
    and "i < length as \<Longrightarrow> (\<And>t. as ! i \<notin> dirty (ks t)) \<Longrightarrow> nnext (the (h (as ! i))) = succ_of as i"
proof -
  show "a \<in> set as \<Longrightarrow> h a = Some n \<Longrightarrow> sync n \<longleftrightarrow> (\<exists>t. a \<in> holds (ks t))"
    using assms unfolding shared_ok_def by fastforce
qed (use assms in \<open>unfold shared_ok_def, blast+\<close>)

lemma dirty_holds: "dirty k \<subseteq> holds k"
  by (cases k) auto

lemma set_option_in [simp]: "a \<in> set_option p \<longleftrightarrow> p = Some a"
  by (cases p) auto

lemma pcok_holds:
  assumes "pcok as k"
  shows "holds k \<subseteq> set as"
  using assms by (cases k) (auto intro!: nth_mem)

definition inv :: "Node heap \<Rightarrow> addr list \<Rightarrow> Node heap \<Rightarrow> (nat \<Rightarrow> pc) \<Rightarrow> bool" where
  "inv h0 as h ks \<longleftrightarrow> shared_ok h0 as h ks \<and> threads_ok as ks"

definition same_ends :: "'a list \<Rightarrow> 'a list \<Rightarrow> bool" where
  "same_ends as as' \<longleftrightarrow> mset as' = mset as \<and> hd as' = hd as \<and> last as' = last as"

text \<open>A statement of thread \<open>t\<close> that does not wait has no fault and keeps the invariant.\<close>

definition moves :: "Node heap \<Rightarrow> addr list \<Rightarrow> (nat \<Rightarrow> pc) \<Rightarrow> nat \<Rightarrow> (pc \<times> Node heap) res option \<Rightarrow> bool" where
  "moves h0 as ks t res \<longleftrightarrow> (\<exists>k h as'. res = Some (Inr (k, h)) \<and> inv h0 as' h (ks(t := k)) \<and> same_ends as as')"

lemma movesI: "inv h0 as h (ks(t := k)) \<Longrightarrow> moves h0 as ks t (Some (Inr (k, h)))"
  unfolding moves_def same_ends_def by blast

section \<open>Reading\<close>

lemma inv_node: "inv h0 as h ks \<Longrightarrow> a \<in> set as \<Longrightarrow> \<exists>n. h a = Some n \<and> (a \<noteq> last as \<longrightarrow> nnext n \<noteq> None)"
  unfolding inv_def by (blast dest: shared_okD(3))

lemma inv_link:
  assumes "inv h0 as h ks" "i < length as" "as ! i \<in> holds (ks t)" "dirty (ks t) = {}"
  shows "\<exists>n. h (as ! i) = Some n \<and> nnext n = succ_of as i"
proof -
  have "as ! i \<notin> dirty (ks u)" for u
  proof (cases "u = t")
    case False
    with assms(1,3) have "as ! i \<notin> holds (ks u)" by (auto simp: inv_def threads_ok_def)
    with dirty_holds [of "ks u"] show ?thesis by blast
  qed (use assms(4) in simp)
  with assms(1,2) have "nnext (the (h (as ! i))) = succ_of as i" unfolding inv_def by (blast intro: shared_okD(5))
  moreover from inv_node [OF assms(1), of "as ! i"] assms(2) obtain n where "h (as ! i) = Some n" by force
  ultimately show ?thesis by simp
qed

lemma reading_node [simp]: "h a = Some n \<Longrightarrow> reading h (Some a) f = f n"
  by (simp add: reading_def)

section \<open>Moves that leave the list alone\<close>

lemma holds_disjoint: "threads_ok as ks \<Longrightarrow> x \<in> holds (ks t) \<Longrightarrow> x \<in> holds (ks u) \<Longrightarrow> t = u"
  unfolding threads_ok_def by blast

lemma threads_ok_upd:
  assumes "threads_ok as ks" "pcok as k" "\<And>u. u \<noteq> t \<Longrightarrow> holds k \<inter> holds (ks u) = {}"
  shows "threads_ok as (ks(t := k))"
  using assms by (auto simp: threads_ok_def)

lemma held_upd: "(\<exists>u. a \<in> holds ((ks(t := k)) u)) \<longleftrightarrow> a \<in> holds k \<or> (\<exists>u. u \<noteq> t \<and> a \<in> holds (ks u))"
  by auto

lemma held_split: "(\<exists>u. a \<in> holds (ks u)) \<longleftrightarrow> a \<in> holds (ks t) \<or> (\<exists>u. u \<noteq> t \<and> a \<in> holds (ks u))"
  by auto

lemma shared_ok_upd:
  assumes ok: "shared_ok h0 as h ks" and d: "dirty k = dirty (ks t)"
    and v: "\<And>a. map_option nvalue (h' a) = map_option nvalue (h a)" "\<And>a. map_option nnext (h' a) = map_option nnext (h a)"
    and l: "\<And>a n. a \<in> set as \<Longrightarrow> h' a = Some n \<Longrightarrow> sync n \<longleftrightarrow> (\<exists>u. a \<in> holds ((ks(t := k)) u))"
  shows "shared_ok h0 as h' (ks(t := k))"
proof -
  have dd: "dirty ((ks(t := k)) u) = dirty (ks u)" for u using d by simp
  have "\<exists>n. h' a = Some n \<and> (sync n \<longleftrightarrow> (\<exists>u. a \<in> holds ((ks(t := k)) u))) \<and> (a \<noteq> last as \<longrightarrow> nnext n \<noteq> None)"
    if a: "a \<in> set as" for a
  proof -
    from shared_okD(3) [OF ok a] obtain n where n: "h a = Some n" "a \<noteq> last as \<longrightarrow> nnext n \<noteq> None" by blast
    with v(2) [of a] obtain n' where "h' a = Some n'" "nnext n' = nnext n" by auto
    with n l [OF a] show ?thesis by auto
  qed
  moreover have "nnext (the (h' (as ! i))) = nnext (the (h (as ! i)))" if "i < length as" for i
  proof -
    from shared_okD(3) [OF ok nth_mem [OF that]] obtain n where n: "h (as ! i) = Some n" by blast
    with v(2) [of "as ! i"] show ?thesis by auto
  qed
  ultimately show ?thesis using ok unfolding shared_ok_def dd v(1) by auto
qed

lemma move_pure:
  assumes ok: "inv h0 as h ks" and k: "holds k = holds (ks t)" "dirty k = dirty (ks t)" "pcok as k"
  shows "moves h0 as ks t (Some (Inr (k, h)))"
proof (rule movesI)
  have "holds ((ks(t := k)) u) = holds (ks u)" for u using k by simp
  then have "shared_ok h0 as h (ks(t := k))"
    using ok k(2) by (intro shared_ok_upd [where h = h]) (auto simp: inv_def shared_okD(4))
  moreover have "threads_ok as (ks(t := k))"
    using ok k by (intro threads_ok_upd) (auto simp: inv_def threads_ok_def)
  ultimately show "inv h0 as h (ks(t := k))" by (simp add: inv_def)
qed

lemma move_lock:
  assumes ok: "inv h0 as h ks" and a: "a \<in> set as"
    and k: "holds k = insert a (holds (ks t))" "dirty k = dirty (ks t)" "pcok as k"
  shows "locking h (Some a) k = None \<and> sync (the (h a)) \<or> moves h0 as ks t (locking h (Some a) k)"
proof -
  from ok have sh: "shared_ok h0 as h ks" by (simp add: inv_def)
  from inv_node [OF ok a] obtain n where n: "h a = Some n" by blast
  note lk = shared_okD(4) [OF sh a n]
  show ?thesis
  proof (cases "sync n")
    case True
    with n show ?thesis by (simp add: locking_def mutex_lock_node_def)
  next
    case False
    let ?h = "h(a \<mapsto> n\<lparr>sync := True\<rparr>)"
    from False lk have free: "a \<notin> holds (ks u)" for u by blast
    have "shared_ok h0 as ?h (ks(t := k))"
    proof (rule shared_ok_upd [where h = h])
      fix b m
      assume "b \<in> set as" "?h b = Some m"
      then show "sync m \<longleftrightarrow> (\<exists>u. b \<in> holds ((ks(t := k)) u))"
        using shared_okD(4) [OF sh, of b m] k(1) free unfolding held_upd held_split [of b ks t]
        by (cases "b = a") auto
    qed (use ok k n in \<open>auto simp: inv_def\<close>)
    moreover have "threads_ok as (ks(t := k))"
      using ok k free by (intro threads_ok_upd) (auto simp: inv_def threads_ok_def)
    moreover have "locking h (Some a) k = Some (Inr (k, ?h))"
      using n False by (simp add: locking_def mutex_lock_node_def)
    ultimately show ?thesis by (simp add: movesI inv_def)
  qed
qed

lemma move_unlock:
  assumes ok: "inv h0 as h ks" and a: "a \<in> holds (ks t)"
    and k: "holds k = holds (ks t) - {a}" "dirty k = dirty (ks t)" "pcok as k"
  shows "moves h0 as ks t (unlocking h (Some a) k)"
proof -
  have "a \<in> set as" using ok a pcok_holds [of as "ks t"] by (auto simp: inv_def threads_ok_def)
  with inv_node [OF ok] obtain n where n: "h a = Some n" by blast
  from ok have sh: "shared_ok h0 as h ks" by (simp add: inv_def)
  have free: "a \<notin> holds (ks u)" if "u \<noteq> t" for u using ok a that by (auto simp: inv_def threads_ok_def)
  let ?h = "h(a \<mapsto> n\<lparr>sync := False\<rparr>)"
  have "shared_ok h0 as ?h (ks(t := k))"
  proof (rule shared_ok_upd [where h = h])
    fix b m
    assume "b \<in> set as" "?h b = Some m"
    then show "sync m \<longleftrightarrow> (\<exists>u. b \<in> holds ((ks(t := k)) u))"
      using shared_okD(4) [OF sh, of b m] k(1) free unfolding held_upd held_split [of b ks t]
      by (cases "b = a") auto
  qed (use ok k n in \<open>auto simp: inv_def\<close>)
  moreover have "threads_ok as (ks(t := k))"
    using ok k(1,3) by (intro threads_ok_upd) (auto simp: inv_def dest: holds_disjoint)
  moreover have "unlocking h (Some a) k = Some (Inr (k, ?h))"
    using n by (simp add: unlocking_def mutex_unlock_node_def)
  ultimately show ?thesis by (simp add: movesI inv_def)
qed

section \<open>The three link writes of a swap\<close>

lemma swapped_facts:
  assumes "i + 3 < length as"
  shows "length (swapped (Suc i) as) = length as" "mset (swapped (Suc i) as) = mset as"
    and "set (swapped (Suc i) as) = set as"
    and "hd (swapped (Suc i) as) = hd as" "last (swapped (Suc i) as) = last as"
    and "swapped (Suc i) as ! (i + 1) = as ! (i + 2)" "swapped (Suc i) as ! (i + 2) = as ! (i + 1)"
    and "j \<noteq> i + 1 \<Longrightarrow> j \<noteq> i + 2 \<Longrightarrow> swapped (Suc i) as ! j = as ! j"
proof -
  show m: "mset (swapped (Suc i) as) = mset as"
    using assms unfolding swapped_def by (intro mset_swap) auto
  then show "set (swapped (Suc i) as) = set as" by (metis set_mset_mset)
  show l: "length (swapped (Suc i) as) = length as" by (simp add: swapped_def)
  show n: "j \<noteq> i + 1 \<Longrightarrow> j \<noteq> i + 2 \<Longrightarrow> swapped (Suc i) as ! j = as ! j" for j
    by (simp add: swapped_def)
  have ne: "as \<noteq> []" using assms by auto
  moreover from ne l have ne': "swapped (Suc i) as \<noteq> []" by auto
  ultimately show "hd (swapped (Suc i) as) = hd as" "last (swapped (Suc i) as) = last as"
    using n [of 0] n [of "length as - 1"] l assms by (auto simp: hd_conv_nth last_conv_nth)
  show "swapped (Suc i) as ! (i + 1) = as ! (i + 2)" "swapped (Suc i) as ! (i + 2) = as ! (i + 1)"
    using assms by (simp_all add: swapped_def)
qed

text \<open>A swap does not move the nodes that other threads hold, nor the successors of these.\<close>

lemma swapped_keeps:
  assumes "i + 3 < length as" "j < length as" "as ! j \<notin> {as ! i, as ! (i + 1), as ! (i + 2)}"
  shows "swapped (Suc i) as ! j = as ! j" "swapped (Suc i) as ! (j + 1) = as ! (j + 1)"
proof -
  from assms(3) have j: "j \<noteq> i" "j \<noteq> i + 1" "j \<noteq> i + 2" by auto
  show "swapped (Suc i) as ! j = as ! j" using swapped_facts(8) [OF assms(1) j(2,3)] .
  show "swapped (Suc i) as ! (j + 1) = as ! (j + 1)" by (rule swapped_facts(8) [OF assms(1)]) (use j in auto)
qed

text \<open>The nodes of a run stay where they are when a thread holds each but the last.\<close>

lemma swapped_run:
  assumes i: "i + 3 < length as" and H: "H \<inter> {as ! i, as ! (i + 1), as ! (i + 2)} = {}"
  shows "as ! j \<in> H \<Longrightarrow> j < length as \<Longrightarrow> swapped (Suc i) as ! j = as ! j \<and> swapped (Suc i) as ! (j + 1) = as ! (j + 1)"
    "as ! (j + 1) \<in> H \<Longrightarrow> j + 1 < length as \<Longrightarrow> swapped (Suc i) as ! (j + 2) = as ! (j + 2)"
    "as ! (j + 2) \<in> H \<Longrightarrow> j + 2 < length as \<Longrightarrow> swapped (Suc i) as ! (j + 3) = as ! (j + 3)"
proof -
  have keep: "as ! l \<in> H \<Longrightarrow> l < length as \<Longrightarrow> swapped (Suc i) as ! l = as ! l \<and> swapped (Suc i) as ! (l + 1) = as ! (l + 1)" for l
    using swapped_keeps [OF i] H by blast
  from keep [of j] show "as ! j \<in> H \<Longrightarrow> j < length as \<Longrightarrow> swapped (Suc i) as ! j = as ! j \<and> swapped (Suc i) as ! (j + 1) = as ! (j + 1)" .
  show "as ! (j + 1) \<in> H \<Longrightarrow> j + 1 < length as \<Longrightarrow> swapped (Suc i) as ! (j + 2) = as ! (j + 2)"
    "as ! (j + 2) \<in> H \<Longrightarrow> j + 2 < length as \<Longrightarrow> swapped (Suc i) as ! (j + 3) = as ! (j + 3)"
    using keep [of "j + 1"] keep [of "j + 2"] by (simp_all add: numeral_eq_Suc)
qed

text \<open>A thread that has found its nodes is well placed in a part of the list; counting threads look at two nodes.\<close>

definition found :: "pc \<Rightarrow> nat" where
  "found k = (case k of SCheck _ \<Rightarrow> 4 | SLockC _ _ \<Rightarrow> 4 | SGotC _ _ \<Rightarrow> 4 | SLockN _ _ _ \<Rightarrow> 4 | SRead _ _ _ \<Rightarrow> 4
     | SW1 _ _ _ _ \<Rightarrow> 4 | SW2 _ _ _ _ \<Rightarrow> 4 | SW3 _ _ _ \<Rightarrow> 4 | CGot _ _ \<Rightarrow> 2 | CLock2 _ _ _ \<Rightarrow> 2 | CCmp _ _ _ \<Rightarrow> 2 | _ \<Rightarrow> 0)"

lemma pcok_swapped_found:
  assumes ok: "pcok as k" "found k \<noteq> 0" and i: "i + 3 < length as" and k: "holds k \<inter> {as ! i, as ! (i + 1), as ! (i + 2)} = {}"
  shows "pcok (swapped (Suc i) as) k"
proof -
  from ok obtain j where j: "j + (found k - 1) < length as" "pcok (take (found k) (drop j as)) k" "as ! j \<in> holds k"
    by (cases k) (auto simp: found_def)
  from j ok(2) show ?thesis using swapped_run [OF i k, of j] swapped_facts(1) [OF i]
    by (cases k) (auto simp: found_def intro!: exI [of _ j])
qed

lemma pcok_swapped:
  assumes ok: "pcok as k" and i: "i + 3 < length as" and k: "holds k \<inter> {as ! i, as ! (i + 1), as ! (i + 2)} = {}"
  shows "pcok (swapped (Suc i) as) k"
proof (cases "found k = 0")
  case False
  then show ?thesis by (rule pcok_swapped_found [OF ok _ i k])
next
  case True
  note f = swapped_facts(1,3,5) [OF i] and run = swapped_run(1) [OF i k]
  show ?thesis
  proof (cases k)
    case (SWalk e ind p)
    with ok run [of "ind - 1"] f show ?thesis by auto
  next
    case (SLockW e ind p q)
    with ok run [of "ind - 1"] f show ?thesis by auto
  next
    case (SHand e ind p q)
    with ok run [of "ind - 1"] f show ?thesis by auto
  qed (use True ok f in \<open>auto simp: found_def\<close>)
qed

lemma shared_okI:
  assumes "distinct as" "\<And>a. map_option nvalue (h a) = map_option nvalue (h0 a)"
    and "\<And>a. a \<in> set as \<Longrightarrow> \<exists>n. h a = Some n \<and> (sync n \<longleftrightarrow> (\<exists>t. a \<in> holds (ks t))) \<and> (a \<noteq> last as \<longrightarrow> nnext n \<noteq> None)"
    and "\<And>i. i < length as \<Longrightarrow> (\<And>t. as ! i \<notin> dirty (ks t)) \<Longrightarrow> nnext (the (h (as ! i))) = succ_of as i"
  shows "shared_ok h0 as h ks"
  using assms unfolding shared_ok_def by blast

text \<open>Writing the link of a held node keeps locks, values and the other nodes.\<close>

lemma link_nodes:
  assumes ok: "inv h0 as h ks" and a: "h a = Some n" "q \<noteq> None" and k: "holds k = holds (ks t)" and b: "b \<in> set as"
  shows "\<exists>n'. (h(a \<mapsto> n\<lparr>nnext := q\<rparr>)) b = Some n' \<and> (sync n' \<longleftrightarrow> (\<exists>u. b \<in> holds ((ks(t := k)) u)))
    \<and> (b \<noteq> last as \<longrightarrow> nnext n' \<noteq> None)"
proof -
  have sh: "shared_ok h0 as h ks" using ok by (simp add: inv_def)
  from inv_node [OF ok b] obtain m where m: "h b = Some m" "b \<noteq> last as \<longrightarrow> nnext m \<noteq> None" by blast
  have "sync m \<longleftrightarrow> (\<exists>u. b \<in> holds ((ks(t := k)) u))"
    using shared_okD(4) [OF sh b m(1)] k unfolding held_upd held_split [of b ks t] by simp
  with m a show ?thesis by (cases "b = a") auto
qed

lemma move_link:
  assumes ok: "inv h0 as h ks" and j: "j < length as" "as ! j \<in> holds (ks t)" "q = succ_of as j" "q \<noteq> None"
    and k: "holds k = holds (ks t)" "dirty k = dirty (ks t) - {as ! j}" "pcok as k"
  shows "moves h0 as ks t (linking h (Some (as ! j)) q k)"
proof -
  have sh: "shared_ok h0 as h ks" using ok by (simp add: inv_def)
  from inv_node [OF ok nth_mem [OF j(1)]] obtain n where n: "h (as ! j) = Some n" by blast
  let ?h = "h(as ! j \<mapsto> n\<lparr>nnext := q\<rparr>)"
  have "shared_ok h0 as ?h (ks(t := k))"
  proof (rule shared_okI)
    fix i
    assume i: "i < length as" "\<And>u. as ! i \<notin> dirty ((ks(t := k)) u)"
    show "nnext (the (?h (as ! i))) = succ_of as i"
    proof (cases "i = j")
      case False
      then have ne: "as ! i \<noteq> as ! j" using shared_okD(1) [OF sh] i(1) j(1) by (simp add: nth_eq_iff_index_eq)
      have "as ! i \<notin> dirty (ks u)" for u
        using i(2) [of u] ne k(2) by (cases "u = t") auto
      with shared_okD(5) [OF sh i(1)] ne show ?thesis by simp
    qed (use j in simp)
  next
    show "map_option nvalue (?h a) = map_option nvalue (h0 a)" for a
      using n shared_okD(2) [OF sh, of a] by auto
  qed (use shared_okD(1) [OF sh] link_nodes [OF ok n j(4) k(1)] in \<open>blast+\<close>)
  moreover have "threads_ok as (ks(t := k))"
    using ok k(1,3) by (intro threads_ok_upd) (auto simp: inv_def dest: holds_disjoint)
  moreover have "linking h (Some (as ! j)) q k = Some (Inr (k, ?h))" using n by (simp add: linking_def)
  ultimately show ?thesis by (simp add: movesI inv_def)
qed

lemma threads_ok_swapped:
  assumes ok: "threads_ok as ks" and i: "i + 3 < length as" "{as ! i, as ! (i + 1), as ! (i + 2)} \<subseteq> holds (ks t)"
    and k: "holds k = holds (ks t)" "pcok (swapped (Suc i) as) k"
  shows "threads_ok (swapped (Suc i) as) (ks(t := k))"
proof -
  have "pcok (swapped (Suc i) as) (ks u)" if "u \<noteq> t" for u
  proof (rule pcok_swapped [OF _ i(1)])
    show "holds (ks u) \<inter> {as ! i, as ! (i + 1), as ! (i + 2)} = {}"
      using i(2) that holds_disjoint [OF ok] by blast
  qed (use ok in \<open>simp add: threads_ok_def\<close>)
  with ok k show ?thesis by (auto simp: threads_ok_def)
qed

lemma move_first_link:
  assumes ok: "inv h0 as h ks" and k: "ks t = SW1 p c n m"
  shows "moves h0 as ks t (linking h p n (SW2 p c n m))"
proof -
  have sh: "shared_ok h0 as h ks" and th: "threads_ok as ks" using ok by (simp_all add: inv_def)
  from th k have "pcok as (SW1 p c n m)" by (metis threads_ok_def)
  then obtain i where i: "i + 3 < length as" "p = Some (as ! i)" "c = Some (as ! (i + 1))" "n = Some (as ! (i + 2))"
    "m = Some (as ! (i + 3))" by auto
  let ?as = "swapped (Suc i) as" and ?k = "SW2 p c n m"
  note f = swapped_facts [OF i(1)]
  from inv_node [OF ok nth_mem, of i] i(1) obtain pn where pn: "h (as ! i) = Some pn" by auto
  let ?h = "h(as ! i \<mapsto> pn\<lparr>nnext := n\<rparr>)"
  have hk: "holds ?k = holds (ks t)" using k by simp
  have d: "distinct as" by (rule shared_okD(1) [OF sh])
  have "shared_ok h0 ?as ?h (ks(t := ?k))"
  proof (rule shared_okI)
    show "distinct ?as" using d f(2) mset_eq_imp_distinct_iff by blast
    show "map_option nvalue (?h a) = map_option nvalue (h0 a)" for a
      using pn shared_okD(2) [OF sh, of a] by auto
    show "\<exists>n'. ?h a = Some n' \<and> (sync n' \<longleftrightarrow> (\<exists>u. a \<in> holds ((ks(t := ?k)) u))) \<and> (a \<noteq> last ?as \<longrightarrow> nnext n' \<noteq> None)"
      if "a \<in> set ?as" for a
      using link_nodes [OF ok pn _ hk, of n a] that i(4) unfolding f(3,5) by blast
    fix j
    assume j: "j < length ?as" "\<And>u. ?as ! j \<notin> dirty ((ks(t := ?k)) u)"
    from j(2) [of t] i f(6,7) have ne: "j \<noteq> i + 1" "j \<noteq> i + 2" by auto
    have same: "?as ! j = as ! j" by (rule f(8) [OF ne])
    show "nnext (the (?h (?as ! j))) = succ_of ?as j"
    proof (cases "j = i")
      case True
      with same i f(1,6) show ?thesis by (simp add: succ_of_def)
    next
      case False
      then have "as ! j \<noteq> as ! i" using d i(1) j(1) f(1) by (simp add: nth_eq_iff_index_eq)
      moreover have "as ! j \<notin> dirty (ks u)" for u using j(2) [of u] same k by (cases "u = t") auto
      then have "nnext (the (h (as ! j))) = succ_of as j" using shared_okD(5) [OF sh] j(1) f(1) by simp
      moreover have "succ_of ?as j = succ_of as j" using f(1) f(8) [of "Suc j"] False ne by (simp add: succ_of_def)
      ultimately show ?thesis using same by simp
    qed
  qed
  moreover have "?as ! i = as ! i" "?as ! (i + 3) = as ! (i + 3)" by (rule f(8); simp)+
  then have "pcok ?as ?k" unfolding pcok.simps using i f(1,6,7) by (intro exI [of _ i]) simp
  with threads_ok_swapped [OF th i(1) _ hk] i k have "threads_ok ?as (ks(t := ?k))" by simp
  moreover have "linking h p n ?k = Some (Inr (?k, ?h))" using pn i by (simp add: linking_def)
  ultimately show ?thesis using f unfolding moves_def inv_def same_ends_def by blast
qed

section \<open>Every statement\<close>

definition storage_ok :: "Storage \<Rightarrow> addr list \<Rightarrow> bool" where
  "storage_ok st as \<longleftrightarrow> sfirst st = Some (hd as) \<and> ssize st = int (length as) \<and> 3 < length as"

text \<open>The lock a thread is about to take.\<close>

fun wants :: "Storage \<Rightarrow> pc \<Rightarrow> ptr" where
  "wants st (SFirst e) = sfirst st"
| "wants st (SLockW e ind p q) = q"
| "wants st (SLockC p q) = q"
| "wants st (SLockN p c q) = q"
| "wants st (CLock1 c k) = c"
| "wants st (CLock2 c q k) = q"
| "wants st _ = None"

definition waits :: "Storage \<Rightarrow> Node heap \<Rightarrow> pc \<Rightarrow> bool" where
  "waits st h k \<longleftrightarrow> (\<exists>a. wants st k = Some a \<and> sync (the (h a)))"

lemma thread_pcok: "inv h0 as h ks \<Longrightarrow> pcok as (ks t)"
  by (simp add: inv_def threads_ok_def)

lemma inv_distinct: "inv h0 as h ks \<Longrightarrow> distinct as"
  unfolding inv_def by (blast intro: shared_okD(1))

lemma move_lock_waits:
  assumes "inv h0 as h ks" "wants st (ks t) = Some a" "a \<in> set as"
    and "holds k = insert a (holds (ks t))" "dirty k = dirty (ks t)" "pcok as k"
  shows "waits st h (ks t) \<and> locking h (Some a) k = None \<or> moves h0 as ks t (locking h (Some a) k)"
  using move_lock [OF assms(1,3-6)] assms(2) by (auto simp: waits_def)

lemma begin_work_ok:
  assumes "storage_ok st as"
  shows "\<exists>k. begin_work st b r role = Inr k \<and> holds k = {} \<and> dirty k = {} \<and> pcok as k"
proof -
  have st: "sfirst st = Some (hd as)" "ssize st = int (length as)" "3 < length as" using assms by (simp_all add: storage_ok_def)
  have "int r mod (int (length as) - 3) < int (length as) - 3" "0 \<le> int r mod (int (length as) - 3)"
    using st(3) by simp_all
  then have "pcok as (SFirst (nat (int r mod (int (length as) - 3) + 1)))" by simp linarith
  moreover have "pcok as (CHead (sfirst st) 0)" using st by (auto intro!: hd_in_set)
  ultimately show ?thesis using st by (simp add: begin_work_def split: option.split)
qed

lemma walk_moves:
  assumes ok: "inv h0 as h ks" and st: "storage_ok st as" and k: "ks t = SWalk e ind p \<or> ks t = SHand e ind p q"
  shows "moves h0 as ks t (tstep st b r role h (ks t))"
proof -
  have ix: "1 \<le> ind" "ind \<le> e" "e + 3 \<le> length as" "p = Some (as ! (ind - 1))"
    using thread_pcok [OF ok, of t] k by auto
  have "\<exists>n. h (as ! (ind - 1)) = Some n \<and> nnext n = succ_of as (ind - 1)"
    by (rule inv_link [OF ok, where t = t]) (use ix k in auto)
  then obtain n where n: "h (as ! (ind - 1)) = Some n" "nnext n = Some (as ! ind)"
    using ix by (auto simp: succ_of_def)
  from k show ?thesis
  proof
    assume k: "ks t = SWalk e ind p"
    show ?thesis
    proof (cases "ind < e")
      case True
      with k ix n move_pure [OF ok, of "SLockW e ind p (Some (as ! ind))" t] show ?thesis by simp
    next
      case False
      with ix have "ind - 1 + 3 < length as" by simp
      then have "pcok as (SCheck p)" unfolding pcok.simps using ix(4) by blast
      with False k ix n move_pure [OF ok, of "SCheck p" t] show ?thesis by simp
    qed
  next
    assume k: "ks t = SHand e ind p q"
    then have q: "q = Some (as ! ind)" "ind < e" using thread_pcok [OF ok, of t] by auto
    have "as ! (ind - 1) \<noteq> as ! ind" using inv_distinct [OF ok] ix q by (simp add: nth_eq_iff_index_eq)
    then have "moves h0 as ks t (unlocking h (Some (as ! (ind - 1))) (SWalk e (Suc ind) (Some (as ! ind))))"
      using k q ix by (intro move_unlock [OF ok]) auto
    with k n ix show ?thesis by simp
  qed
qed

lemma check_moves:
  assumes ok: "inv h0 as h ks" and k: "ks t = SCheck p \<or> ks t = SGotC p q"
  shows "moves h0 as ks t (tstep st b r role h (ks t))"
proof -
  obtain i where i: "i + 3 < length as" "p = Some (as ! i)" using thread_pcok [OF ok, of t] k by auto
  have "\<exists>n. h (as ! i) = Some n \<and> nnext n = succ_of as i" by (rule inv_link [OF ok, where t = t]) (use i k in auto)
  then obtain n where n: "h (as ! i) = Some n" "nnext n = Some (as ! (i + 1))" using i by (auto simp: succ_of_def)
  have "last as = as ! (length as - 1)" using i by (intro last_conv_nth) auto
  then have "as ! (i + 1) \<noteq> last as" using inv_distinct [OF ok] i by (simp add: nth_eq_iff_index_eq)
  moreover have "as ! (i + 1) \<in> set as" using i by (intro nth_mem) simp
  ultimately obtain c x where c: "h (as ! (i + 1)) = Some c" "nnext c = Some x" using inv_node [OF ok, of "as ! (i + 1)"] by blast
  from k show ?thesis
  proof
    assume k: "ks t = SCheck p"
    have "pcok as (SLockC p (Some (as ! (i + 1))))" using i by auto
    with k n c i move_pure [OF ok, of "SLockC p (Some (as ! (i + 1)))" t] show ?thesis by simp
  next
    assume k: "ks t = SGotC p q"
    then obtain j where j: "j + 3 < length as" "p = Some (as ! j)" "q = Some (as ! (j + 1))"
      using thread_pcok [OF ok, of t] by auto
    then have "j = i" using i inv_distinct [OF ok] by (simp add: nth_eq_iff_index_eq)
    then have q: "q = Some (as ! (i + 1))" using j by simp
    have "\<exists>n. h (as ! (i + 1)) = Some n \<and> nnext n = succ_of as (i + 1)" by (rule inv_link [OF ok, where t = t]) (use i k q in auto)
    then have cn: "nnext c = Some (as ! (i + 2))" using c i by (auto simp: succ_of_def)
    have "pcok as (SLockN p q (nnext c))" using i q cn by auto
    with k n c i q move_pure [OF ok, of "SLockN p q (nnext c)" t] show ?thesis by simp
  qed
qed

lemma write_moves:
  assumes ok: "inv h0 as h ks" and k: "ks t = SW2 p c n m \<or> ks t = SW3 p c n"
  shows "moves h0 as ks t (tstep st b r role h (ks t))"
proof -
  obtain i where i: "i + 3 < length as" "p = Some (as ! i)" "n = Some (as ! (i + 1))" "c = Some (as ! (i + 2))"
      "ks t = SW2 p c n m \<longrightarrow> m = Some (as ! (i + 3))"
    using thread_pcok [OF ok, of t] k by auto
  have d: "as ! i \<noteq> as ! (i + 1)" "as ! i \<noteq> as ! (i + 2)" "as ! (i + 1) \<noteq> as ! (i + 2)"
    using inv_distinct [OF ok] i(1) by (simp_all add: nth_eq_iff_index_eq)
  from k show ?thesis
  proof
    assume k: "ks t = SW2 p c n m"
    have "moves h0 as ks t (linking h (Some (as ! (i + 2))) m (SW3 p c n))"
      using k i d by (intro move_link [OF ok]) (auto simp: succ_of_def numeral_eq_Suc)
    with k i show ?thesis by simp
  next
    assume k: "ks t = SW3 p c n"
    have "moves h0 as ks t (linking h (Some (as ! (i + 1))) c (SU1 p c n))"
      using k i d by (intro move_link [OF ok]) (auto simp: succ_of_def)
    with k i show ?thesis by simp
  qed
qed

lemma read_moves:
  assumes ok: "inv h0 as h ks" and k: "ks t = SRead p c q"
  shows "moves h0 as ks t (tstep st b r role h (ks t))"
proof -
  obtain i where i: "i + 3 < length as" "p = Some (as ! i)" "c = Some (as ! (i + 1))" "q = Some (as ! (i + 2))"
    using thread_pcok [OF ok, of t] k by auto
  have "\<exists>n. h (as ! (i + 1)) = Some n \<and> nnext n = succ_of as (i + 1)" by (rule inv_link [OF ok, where t = t]) (use i k in auto)
  then obtain n1 where n1: "h (as ! (i + 1)) = Some n1" "nnext n1 = Some (as ! (i + 2))" using i by (auto simp: succ_of_def)
  have "\<exists>n. h (as ! (i + 2)) = Some n \<and> nnext n = succ_of as (i + 2)" by (rule inv_link [OF ok, where t = t]) (use i k in auto)
  then obtain n2 where n2: "h (as ! (i + 2)) = Some n2" "nnext n2 = Some (as ! (i + 3))"
    using i by (auto simp: succ_of_def numeral_eq_Suc)
  have "pcok as (SW1 p c (nnext n1) (nnext n2))" using i n1 n2 by auto
  with k i n1 n2 move_pure [OF ok, of "SW1 p c (nnext n1) (nnext n2)" t] show ?thesis by simp
qed

lemma node_unlock_moves:
  assumes ok: "inv h0 as h ks" and k: "ks t = SU1 p c n \<or> ks t = SU2 c n \<or> ks t = SU3 n"
  shows "moves h0 as ks t (tstep st b r role h (ks t))"
proof -
  note pk = thread_pcok [OF ok, of t]
  from k consider "ks t = SU1 p c n" | "ks t = SU2 c n" | "ks t = SU3 n" by blast
  then show ?thesis
  proof cases
    case 1
    then show ?thesis using pk by (auto intro!: move_unlock [OF ok])
  next
    case 2
    then show ?thesis using pk by (auto intro!: move_unlock [OF ok])
  next
    case 3
    then show ?thesis using pk by (auto intro!: move_unlock [OF ok])
  qed
qed

lemma count_moves:
  assumes ok: "inv h0 as h ks" and k: "ks t = CGot c l \<or> ks t = CCmp c q l"
  shows "moves h0 as ks t (tstep st b r role h (ks t))"
proof -
  obtain i where i: "i + 1 < length as" "c = Some (as ! i)" using thread_pcok [OF ok, of t] k by auto
  have "\<exists>n. h (as ! i) = Some n \<and> nnext n = succ_of as i" by (rule inv_link [OF ok, where t = t]) (use i k in auto)
  then obtain n where n: "h (as ! i) = Some n" "nnext n = Some (as ! (i + 1))" using i by (auto simp: succ_of_def)
  from inv_node [OF ok nth_mem [OF i(1)]] obtain n2 where n2: "h (as ! (i + 1)) = Some n2" by blast
  from k show ?thesis
  proof
    assume k: "ks t = CGot c l"
    have "pcok as (CLock2 c (nnext n) l)" using i n by auto
    with k i n move_pure [OF ok, of "CLock2 c (nnext n) l" t] show ?thesis by simp
  next
    assume k: "ks t = CCmp c q l"
    then obtain j where j: "j + 1 < length as" "c = Some (as ! j)" "q = Some (as ! (j + 1))"
      using thread_pcok [OF ok, of t] by auto
    then have "j = i" using i inv_distinct [OF ok] by (simp add: nth_eq_iff_index_eq)
    moreover have "as ! i \<noteq> as ! (i + 1)" using inv_distinct [OF ok] i by (simp add: nth_eq_iff_index_eq)
    ultimately have "pcok as (CU1 c (nnext n) l')" "holds (CU1 c (nnext n) l') = holds (ks t)" for l'
      using i j n k by auto
    then have "moves h0 as ks t (Some (Inr (CU1 c (nnext n) l', h)))" for l'
      using k by (intro move_pure [OF ok]) auto
    with k i n n2 show ?thesis by simp
  qed
qed

lemma last_clean:
  assumes "pcok as k" "distinct as"
  shows "last as \<notin> dirty k"
proof -
  have "as ! j \<noteq> last as" if "j + 1 < length as" for j
    using that assms(2) last_conv_nth [of as] by (cases "as = []") (auto simp: nth_eq_iff_index_eq)
  with assms(1) show ?thesis by (cases k) auto
qed

lemma last_link:
  assumes ok: "inv h0 as h ks" and ne: "as \<noteq> []"
  shows "\<exists>n. h (last as) = Some n \<and> nnext n = None"
proof -
  have l: "last as = as ! (length as - 1)" "length as - 1 < length as" using ne by (simp_all add: last_conv_nth)
  have "last as \<notin> dirty (ks u)" for u using thread_pcok [OF ok] inv_distinct [OF ok] by (rule last_clean)
  with ok l have "nnext (the (h (last as))) = succ_of as (length as - 1)"
    unfolding inv_def by (metis shared_okD(5))
  moreover from inv_node [OF ok, of "last as"] ne obtain n where "h (last as) = Some n" by auto
  ultimately show ?thesis by (simp add: succ_of_def)
qed

lemma head_moves:
  assumes ok: "inv h0 as h ks" and k: "ks t = CHead c l \<or> ks t = CU1 c n l \<or> ks t = CU2 n l"
  shows "moves h0 as ks t (tstep st b r role h (ks t))"
proof -
  note pk = thread_pcok [OF ok, of t]
  from k consider "ks t = CHead c l" | "ks t = CU1 c n l" | "ks t = CU2 n l" by blast
  then show ?thesis
  proof cases
    case 1
    then obtain x where x: "c = Some x" "x \<in> set as" using pk by auto
    from inv_node [OF ok x(2)] obtain m where m: "h x = Some m" "x \<noteq> last as \<longrightarrow> nnext m \<noteq> None" by blast
    show ?thesis
    proof (cases "nnext m = None \<or> b")
      case True
      with 1 x m move_pure [OF ok, of Idle t] show ?thesis by simp
    next
      case False
      have "x \<noteq> last as"
      proof
        assume "x = last as"
        moreover have "as \<noteq> []" using x(2) by auto
        ultimately show False using last_link [OF ok] False m(1) by auto
      qed
      moreover from False obtain y where "nnext m = Some y" "\<not> b" by auto
      ultimately show ?thesis using 1 x m move_pure [OF ok, of "CLock1 c l" t] by simp
    qed
  next
    case 2
    then show ?thesis using pk by (auto intro!: move_unlock [OF ok])
  next
    case 3
    then show ?thesis using pk by (auto intro!: move_unlock [OF ok])
  qed
qed

lemma node_lock_moves:
  assumes ok: "inv h0 as h ks" and st: "storage_ok st as" and k: "wants st (ks t) \<noteq> None"
  shows "waits st h (ks t) \<and> tstep st b r role h (ks t) = None \<or> moves h0 as ks t (tstep st b r role h (ks t))"
proof -
  note pk = thread_pcok [OF ok, of t]
  have s0: "sfirst st = Some (as ! 0)" "as ! 0 \<in> set as" using st by (cases as; auto simp: storage_ok_def)+
  note lock = move_lock_waits [OF ok, of st t]
  show ?thesis
  proof (cases "ks t")
    case (SFirst e)
    have "pcok as (SWalk e 1 (Some (as ! 0)))" using SFirst pk by simp
    with SFirst s0 lock [of "as ! 0" "SWalk e 1 (Some (as ! 0))"] show ?thesis by simp
  next
    case (SLockW e ind p q)
    with pk have "q = Some (as ! ind)" "as ! ind \<in> set as" by auto
    with SLockW pk lock [of "as ! ind" "SHand e ind p q"] show ?thesis by auto
  next
    case (SLockC p q)
    with pk obtain i where "i + 3 < length as" "q = Some (as ! (i + 1))" "p = Some (as ! i)" by auto
    with SLockC pk lock [of "as ! (i + 1)" "SGotC p q"] show ?thesis by auto
  next
    case (SLockN p c q)
    with pk obtain i where "i + 3 < length as" "q = Some (as ! (i + 2))" by auto
    with SLockN pk lock [of "as ! (i + 2)" "SRead p c q"] show ?thesis by auto
  next
    case (CLock1 c l)
    with pk obtain x where x: "c = Some x" "x \<in> set as" "x \<noteq> last as" by auto
    then obtain i where i: "i < length as" "x = as ! i" by (auto simp: in_set_conv_nth)
    have "i + 1 \<noteq> length as"
    proof
      assume "i + 1 = length as"
      then have "length as - 1 = i" "as \<noteq> []" by auto
      with x(3) i(2) show False by (simp add: last_conv_nth)
    qed
    then have "i + 1 < length as" using i(1) by simp
    then have "pcok as (CGot c l)" using x i by auto
    with CLock1 x lock [of x "CGot c l"] show ?thesis by simp
  next
    case (CLock2 c q l)
    with pk obtain i where "i + 1 < length as" "q = Some (as ! (i + 1))" by auto
    with CLock2 pk lock [of "as ! (i + 1)" "CCmp c q l"] show ?thesis by auto
  qed (use k in simp_all)
qed

lemma first_link_moves:
  assumes ok: "inv h0 as h ks" and k: "ks t = SW1 p c n m"
  shows "moves h0 as ks t (tstep st b r role h (ks t))"
  using move_first_link [OF ok k] k by simp

text \<open>A statement that takes no lock.\<close>

lemma other_statement_moves:
  assumes ok: "inv h0 as h ks" and st: "storage_ok st as" and k: "ks t \<noteq> Finished" "ks t \<noteq> Idle" "wants st (ks t) = None"
  shows "moves h0 as ks t (tstep st b r role h (ks t))"
proof -
  have "ks t \<noteq> SFirst e" "ks t \<noteq> SLockW e ind p q" "ks t \<noteq> SLockC p q" "ks t \<noteq> SLockN p c q" "ks t \<noteq> CLock1 c l" "ks t \<noteq> CLock2 c q l"
    for e ind p c q l using k(3) st thread_pcok [OF ok, of t] by (auto simp: storage_ok_def)
  then show ?thesis
    by (cases "ks t") (blast intro: walk_moves [OF ok st] check_moves [OF ok] read_moves [OF ok] first_link_moves [OF ok]
      write_moves [OF ok] node_unlock_moves [OF ok] head_moves [OF ok] count_moves [OF ok] dest: k(1,2) [THEN notE])+
qed

lemma tstep_moves:
  assumes ok: "inv h0 as h ks" and st: "storage_ok st as" and k: "ks t \<noteq> Finished"
  shows "waits st h (ks t) \<and> tstep st b r role h (ks t) = None \<or> moves h0 as ks t (tstep st b r role h (ks t))"
proof (cases "wants st (ks t)")
  case (Some a)
  then show ?thesis using node_lock_moves [OF ok st] by simp
next
  case None
  show ?thesis
  proof (cases "ks t = Idle")
    case True
    with begin_work_ok [OF st, of b r role] obtain k where "begin_work st b r role = Inr k" "holds k = {}" "dirty k = {}" "pcok as k"
      by blast
    with True move_pure [OF ok, of k t] show ?thesis by simp
  next
    case False
    with other_statement_moves [OF ok st k _ None] show ?thesis by blast
  qed
qed

end
