(* ===== verification/Swap_Progress.thy ===== *)
theory Swap_Progress
  imports Swap_Safety
begin

text \<open>
  The threads of \<open>sync/2.3/2.3-2.4.c\<close> in every interleaving: no fault, no lost node, no deadlock.
\<close>

section \<open>Reachable states\<close>

lemma same_ends_trans: "same_ends as bs \<Longrightarrow> same_ends bs cs \<Longrightarrow> same_ends as cs"
  by (simp add: same_ends_def)

lemma storage_ok_same_ends: "storage_ok st as \<Longrightarrow> same_ends as as' \<Longrightarrow> storage_ok st as'"
  by (auto simp: storage_ok_def same_ends_def dest: mset_eq_length)

lemma sys_step_inv:
  assumes step: "sys_step st roles s s'" and ok: "inv h0 as (lheap s) (pcs s)" "storage_ok st as"
  shows "\<exists>as'. inv h0 as' (lheap s') (pcs s') \<and> same_ends as as'"
  using step
proof cases
  case (thread r t k h)
  then have "pcs s t \<noteq> Finished" by auto
  from tstep_moves [OF ok this, of "stop s" r "roles t"] thread show ?thesis by (auto simp: moves_def)
next
  case main_stop
  with ok(1) show ?thesis by (auto simp: same_ends_def)
qed

lemma reach_inv:
  assumes "(sys_step st roles)\<^sup>*\<^sup>* s s'" "inv h0 as (lheap s) (pcs s)" "storage_ok st as"
  shows "\<exists>as'. inv h0 as' (lheap s') (pcs s') \<and> same_ends as as'"
  using assms(1)
proof (induction rule: rtranclp_induct)
  case base
  with assms(2) show ?case by (auto simp: same_ends_def)
next
  case (step s1 s2)
  then obtain as1 where 1: "inv h0 as1 (lheap s1) (pcs s1)" "same_ends as as1" by blast
  from sys_step_inv [OF step.hyps(2) 1(1) storage_ok_same_ends [OF assms(3) 1(2)]] 1(2)
  show ?case by (blast intro: same_ends_trans)
qed

lemma start_inv:
  assumes "list_rep h (sfirst st) as"
  shows "inv h as (lheap (sys_start h)) (pcs (sys_start h))"
proof -
  have ch: "chain nnext h (sfirst st) as" and un: "\<And>a n. h a = Some n \<Longrightarrow> \<not> sync n" using assms by (auto simp: list_rep_def)
  have "shared_ok h as h (\<lambda>_. Idle)"
  proof (rule shared_okI)
    show "distinct as" by (rule chain_distinct [OF ch])
    fix i assume i: "i < length as"
    from chain_nth [OF ch i] show "nnext (the (h (as ! i))) = succ_of as i" by (auto simp: succ_of_def)
  next
    fix a assume "a \<in> set as"
    then obtain i where i: "i < length as" "a = as ! i" by (auto simp: in_set_conv_nth)
    from chain_nth [OF ch i(1)] obtain n where n: "h a = Some n" "nnext n = (if Suc i < length as then Some (as ! Suc i) else None)"
      using i(2) by blast
    moreover have "a = last as" if "\<not> Suc i < length as"
    proof -
      from that i(1) have "length as - 1 = i" "as \<noteq> []" by auto
      with i(2) show ?thesis by (simp add: last_conv_nth)
    qed
    ultimately show "\<exists>n. h a = Some n \<and> (sync n \<longleftrightarrow> (\<exists>t::nat. a \<in> holds Idle)) \<and> (a \<noteq> last as \<longrightarrow> nnext n \<noteq> None)"
      using un by (auto split: if_splits)
  qed simp
  moreover have "threads_ok as (\<lambda>_. Idle)" by (simp add: threads_ok_def)
  ultimately show ?thesis by (simp add: inv_def sys_start_def)
qed

section \<open>No deadlock\<close>

definition active :: "pc \<Rightarrow> bool" where
  "active k \<longleftrightarrow> k \<noteq> Idle \<and> k \<noteq> Finished"

lemma wants_node:
  assumes "pcok as k" "storage_ok st as" "wants st k = Some a"
  shows "\<exists>j < length as. a = as ! j"
proof -
  have "a \<in> set as" using assms by (cases k) (auto simp: storage_ok_def intro!: nth_mem hd_in_set)
  then show ?thesis by (auto simp: in_set_conv_nth)
qed

text \<open>Who holds a node waits only for a node further down the list.\<close>

lemma holder_wants_later:
  assumes "pcok as k" "distinct as" "storage_ok st as" "j < length as" "as ! j \<in> holds k" "wants st k = Some a"
  shows "\<exists>i > j. i < length as \<and> a = as ! i"
proof (cases k)
  case (SLockW e ind p q)
  with assms have "j = ind - 1" by (auto simp: nth_eq_iff_index_eq)
  with assms SLockW show ?thesis by (intro exI [of _ ind]) auto
next
  case (SLockC p q)
  with assms obtain i where i: "i + 3 < length as" "p = Some (as ! i)" "q = Some (as ! (i + 1))" by auto
  with assms SLockC have "j = i" by (auto simp: nth_eq_iff_index_eq)
  with assms SLockC i show ?thesis by (intro exI [of _ "i + 1"]) auto
next
  case (SLockN p c q)
  with assms obtain i where i: "i + 3 < length as" "p = Some (as ! i)" "c = Some (as ! (i + 1))" "q = Some (as ! (i + 2))" by auto
  with assms SLockN have "j = i \<or> j = i + 1" by (auto simp: nth_eq_iff_index_eq)
  with assms SLockN i show ?thesis by (intro exI [of _ "i + 2"]) auto
next
  case (CLock2 c q l)
  with assms obtain i where i: "i + 1 < length as" "c = Some (as ! i)" "q = Some (as ! (i + 1))" by auto
  with assms CLock2 have "j = i" by (auto simp: nth_eq_iff_index_eq)
  with assms CLock2 i show ?thesis by (intro exI [of _ "i + 1"]) auto
qed (use assms in auto)

definition can_go :: "Storage \<Rightarrow> (nat \<Rightarrow> role) \<Rightarrow> sys \<Rightarrow> nat \<Rightarrow> bool" where
  "can_go st roles s t \<longleftrightarrow> active (pcs s t) \<and> (\<exists>k h. tstep st (stop s) 0 (roles t) (lheap s) (pcs s t) = Some (Inr (k, h)))"

lemma not_waiting_goes:
  assumes "inv h0 as (lheap s) (pcs s)" "storage_ok st as" "active (pcs s t)" "\<not> waits st (lheap s) (pcs s t)"
  shows "can_go st roles s t"
  using tstep_moves [OF assms(1,2), of t "stop s" 0 "roles t"] assms(3,4)
  by (auto simp: can_go_def active_def moves_def)

lemma waiting_goes:
  assumes ok: "inv h0 as (lheap s) (pcs s)" "storage_ok st as"
    and j: "j < length as" "wants st (pcs s t) = Some (as ! j)" "active (pcs s t)"
  shows "\<exists>u. can_go st roles s u"
  using j
proof (induction "length as - j" arbitrary: j t rule: less_induct)
  case less
  show ?case
  proof (cases "waits st (lheap s) (pcs s t)")
    case False
    with not_waiting_goes [OF ok less.prems(3)] show ?thesis by blast
  next
    case True
    with less.prems(2) have "sync (the (lheap s (as ! j)))" by (simp add: waits_def)
    moreover from inv_node [OF ok(1) nth_mem [OF less.prems(1)]] obtain n where n: "lheap s (as ! j) = Some n" by blast
    moreover have "shared_ok h0 as (lheap s) (pcs s)" using ok(1) by (simp add: inv_def)
    ultimately obtain u where u: "as ! j \<in> holds (pcs s u)"
      using shared_okD(4) [of h0 as "lheap s" "pcs s" "as ! j" n] less.prems(1) by auto
    then have a: "active (pcs s u)" by (auto simp: active_def)
    show ?thesis
    proof (cases "wants st (pcs s u)")
      case None
      with not_waiting_goes [OF ok a] show ?thesis by (auto simp: waits_def)
    next
      case (Some b)
      from holder_wants_later [OF thread_pcok [OF ok(1)] inv_distinct [OF ok(1)] ok(2) less.prems(1) u Some]
      obtain i where "j < i" "i < length as" "b = as ! i" by blast
      with less.hyps [of i u] Some a show ?thesis by auto
    qed
  qed
qed

lemma someone_goes:
  assumes ok: "inv h0 as (lheap s) (pcs s)" "storage_ok st as" and t: "active (pcs s t)"
  shows "\<exists>u. can_go st roles s u"
proof (cases "wants st (pcs s t)")
  case None
  with not_waiting_goes [OF ok t] show ?thesis by (auto simp: waits_def)
next
  case (Some a)
  with wants_node [OF thread_pcok [OF ok(1)] ok(2) Some] waiting_goes [OF ok] t show ?thesis by blast
qed

section \<open>Properties\<close>

text \<open>The list in memory when no thread is at work.\<close>

lemma rest_list:
  assumes ok: "inv h0 as h ks" and rest: "\<And>t. \<not> active (ks t)" and d: "dom h0 = set as" and ne: "as \<noteq> []"
  shows "list_rep h (Some (hd as)) as"
proof -
  have sh: "shared_ok h0 as h ks" using ok by (simp add: inv_def)
  have none: "holds (ks t) = {}" "dirty (ks t) = {}" for t using rest [of t] by (auto simp: active_def)
  have dom: "dom h = set as"
  proof -
    have "h a = None \<longleftrightarrow> h0 a = None" for a
      using shared_okD(2) [OF sh, of a] by (cases "h a"; cases "h0 a") auto
    then show ?thesis using d by (auto simp: dom_def)
  qed
  have link: "\<exists>n. h (as ! i) = Some n \<and> nnext n = succ_of as i" if "i < length as" for i
    using shared_okD(3) [OF sh nth_mem [OF that]] shared_okD(5) [OF sh that] none by auto
  have "chain nnext h (Some (as ! i)) (drop i as)" if "i < length as" for i
    using that
  proof (induction "length as - i" arbitrary: i)
    case (Suc k)
    from link [OF Suc.prems] obtain n where n: "h (as ! i) = Some n" "nnext n = succ_of as i" by blast
    have "chain nnext h (nnext n) (drop (Suc i) as)"
      using Suc n by (cases "Suc i < length as") (auto simp: succ_of_def)
    with n Suc.prems show ?case by (simp add: Cons_nth_drop_Suc [symmetric])
  qed simp
  from this [of 0] ne have "chain nnext h (Some (hd as)) as" by (simp add: hd_conv_nth)
  moreover have "\<not> sync n" if "h a = Some n" for a n
    using that dom shared_okD(4) [OF sh, of a n] none by auto
  ultimately show ?thesis by (simp add: list_rep_def)
qed

text \<open>
  Property C4. The list program with a mutex per node is memory safe and loses nothing, in every
  interleaving of any number of swapping and counting threads over a list of more than three nodes: no
  statement dereferences \<open>NULL\<close> or a dead node or divides by zero, two threads never hold the same node, the
  strings in the nodes never change, and whenever no thread is at work the list is a permutation of the
  nodes it started with, with the same first and last node and every mutex free.
\<close>

theorem swap_threads_safe:
  assumes "list_rep h (sfirst st) as" "dom h = set as" "ssize st = int (length as)" "3 < length as"
    and "(sys_step st roles)\<^sup>*\<^sup>* (sys_start h) s"
  shows "(\<forall>t r e. tstep st (stop s) r (roles t) (lheap s) (pcs s t) \<noteq> Some (Inl e))
    \<and> (\<forall>t u. t \<noteq> u \<longrightarrow> holds (pcs s t) \<inter> holds (pcs s u) = {})
    \<and> (\<forall>a. map_option nvalue (lheap s a) = map_option nvalue (h a))
    \<and> ((\<forall>t. \<not> active (pcs s t)) \<longrightarrow>
        (\<exists>bs. list_rep (lheap s) (sfirst st) bs \<and> mset bs = mset as \<and> hd bs = hd as \<and> last bs = last as))"
proof -
  have "as \<noteq> []" using assms(4) by auto
  moreover have "chain nnext h (sfirst st) as" using assms(1) by (simp add: list_rep_def)
  ultimately have "sfirst st = Some (hd as)" by (cases as) auto
  with assms(3,4) have st: "storage_ok st as" by (simp add: storage_ok_def)
  from reach_inv [OF assms(5) start_inv [OF assms(1)] st] obtain bs where
    bs: "inv h bs (lheap s) (pcs s)" "same_ends as bs" by blast
  note st' = storage_ok_same_ends [OF st bs(2)]
  have "tstep st (stop s) r (roles t) (lheap s) (pcs s t) \<noteq> Some (Inl e)" for t r e
    using tstep_moves [OF bs(1) st', of t "stop s" r "roles t"] by (cases "pcs s t = Finished") (auto simp: moves_def)
  moreover have "t \<noteq> u \<Longrightarrow> holds (pcs s t) \<inter> holds (pcs s u) = {}" for t u
    using bs(1) by (auto simp: inv_def dest: holds_disjoint)
  moreover have "map_option nvalue (lheap s a) = map_option nvalue (h a)" for a
    using bs(1) by (auto simp: inv_def intro: shared_okD(2))
  moreover have "\<exists>bs. list_rep (lheap s) (sfirst st) bs \<and> mset bs = mset as \<and> hd bs = hd as \<and> last bs = last as"
    if "\<forall>t. \<not> active (pcs s t)"
  proof -
    have "set bs = set as" "bs \<noteq> []" using bs(2) \<open>as \<noteq> []\<close> by (auto simp: same_ends_def dest: mset_eq_setD)
    with rest_list [OF bs(1), of] that assms(2) have "list_rep (lheap s) (Some (hd bs)) bs" by simp
    with bs(2) st' show ?thesis by (auto simp: storage_ok_def same_ends_def)
  qed
  ultimately show ?thesis by blast
qed

text \<open>
  Property C18. The same program never deadlocks: in every reachable state in which some thread is in the middle
  of a swap or of a count, some such thread can execute its next statement, because a thread that holds a
  node only ever waits for a node further down the list.
\<close>

theorem swap_threads_never_deadlock:
  assumes "list_rep h (sfirst st) as" "ssize st = int (length as)" "3 < length as"
    and "(sys_step st roles)\<^sup>*\<^sup>* (sys_start h) s" "active (pcs s t)"
  shows "\<exists>u k h'. active (pcs s u) \<and> tstep st (stop s) 0 (roles u) (lheap s) (pcs s u) = Some (Inr (k, h'))"
proof -
  have "chain nnext h (sfirst st) as" "as \<noteq> []" using assms(1,3) by (auto simp: list_rep_def)
  then have "sfirst st = Some (hd as)" by (cases as) auto
  with assms(2,3) have st: "storage_ok st as" by (simp add: storage_ok_def)
  from reach_inv [OF assms(4) start_inv [OF assms(1)] st] obtain bs where
    bs: "inv h bs (lheap s) (pcs s)" "same_ends as bs" by blast
  from someone_goes [OF bs(1) storage_ok_same_ends [OF st bs(2)] assms(5)] show ?thesis
    by (auto simp: can_go_def)
qed

text \<open>Two steps of a swapping thread on the list of four nodes: it has locked the first node.\<close>

definition demo_storage :: Storage where
  "demo_storage = \<lparr>sfirst = Some 1, ssize = 4\<rparr>"

definition demo_sys :: sys where
  "demo_sys = \<lparr>lheap = locked 1 demo_list, pcs = (\<lambda>_. Idle)(0 := SWalk 1 1 (Some 1)), work = \<lambda>_. 0, stop = False\<rparr>"

lemma demo_reach: "(sys_step demo_storage (\<lambda>_. None))\<^sup>*\<^sup>* (sys_start demo_list) demo_sys"
proof -
  let ?s1 = "(sys_start demo_list)\<lparr>pcs := (\<lambda>_. Idle)(0 := SFirst 1)\<rparr>"
  have "sys_step demo_storage (\<lambda>_. None) (sys_start demo_list) ?s1"
    using sys_step.thread [of demo_storage "sys_start demo_list" 5 "\<lambda>_. None" 0 "SFirst 1" demo_list]
    by (simp add: sys_start_def demo_storage_def begin_work_def completes_def fun_upd_idem)
  moreover have "tstep demo_storage False 0 None demo_list (SFirst 1) = Some (Inr (SWalk 1 1 (Some 1), locked 1 demo_list))"
    by (simp add: demo_storage_def locking_def mutex_lock_node_def locked_def demo_list_def)
  then have "sys_step demo_storage (\<lambda>_. None) ?s1 demo_sys"
    using sys_step.thread [of demo_storage ?s1 0 "\<lambda>_. None" 0 "SWalk 1 1 (Some 1)" "locked 1 demo_list"]
    by (simp add: sys_start_def demo_sys_def completes_def fun_upd_idem)
  ultimately show ?thesis by (meson rtranclp.rtrancl_into_rtrancl rtranclp.rtrancl_refl)
qed

lemma demo_storage_rep: "list_rep demo_list (sfirst demo_storage) [1, 2, 3, 4]" "dom demo_list = set [1, 2, 3, 4]"
  using demo_list_rep by (auto simp: demo_storage_def demo_list_def)

lemma demo_size: "ssize demo_storage = int (length [1 :: addr, 2, 3, 4])" "3 < length [1 :: addr, 2, 3, 4]"
  by (simp_all add: demo_storage_def)

theorem swap_threads_safe_witness:
  "(\<forall>t r e. tstep demo_storage (stop demo_sys) r None (lheap demo_sys) (pcs demo_sys t) \<noteq> Some (Inl e))
    \<and> map_option nvalue (lheap demo_sys 1) = Some [97] \<and> 1 \<notin> holds (pcs demo_sys 3)"
proof -
  note W = swap_threads_safe [OF demo_storage_rep demo_size demo_reach]
  have "1 \<in> holds (pcs demo_sys 0)" "(0 :: nat) \<noteq> 3" by (simp_all add: demo_sys_def)
  moreover from W have "holds (pcs demo_sys 0) \<inter> holds (pcs demo_sys 3) = {}" by simp
  ultimately have "1 \<notin> holds (pcs demo_sys 3)" by blast
  moreover from W have "map_option nvalue (lheap demo_sys 1) = map_option nvalue (demo_list 1)" by blast
  then have "map_option nvalue (lheap demo_sys 1) = Some [97]" by (simp add: demo_list_def)
  moreover from W have "\<forall>t r e. tstep demo_storage (stop demo_sys) r None (lheap demo_sys) (pcs demo_sys t) \<noteq> Some (Inl e)"
    by (rule conjunct1)
  ultimately show ?thesis by blast
qed

theorem swap_threads_never_deadlock_witness:
  "\<exists>u k h'. active (pcs demo_sys u) \<and> tstep demo_storage (stop demo_sys) 0 None (lheap demo_sys) (pcs demo_sys u) = Some (Inr (k, h'))"
proof -
  have "active (pcs demo_sys 0)" by (simp add: demo_sys_def active_def)
  from swap_threads_never_deadlock [OF demo_storage_rep(1) demo_size demo_reach this] show ?thesis .
qed

end
