(* ===== verification/Swap_RW_Safety.thy ===== *)
theory Swap_RW_Safety
  imports Swap_RW_Deadlock Swap_Progress
begin

text \<open>
  The threads of \<open>sync/2.3/2.3m.c\<close> in every interleaving: although a swap lets go of its read locks before it
  takes the write locks, its test that the three nodes are still neighbours keeps the list intact. The
  invariant has the form of that of \<open>Swap_Safety\<close>, with shared read locks; between the two phases of a swap a thread
  knows of its three nodes only that they are different and that the last of them is not the end of the list.
\<close>

section \<open>The invariant\<close>

fun rholds :: "rwpc \<Rightarrow> addr set" where
  "rholds (RWalk e ind p) = set_option p"
| "rholds (RLockW e ind p q) = set_option p"
| "rholds (RHand e ind p q) = set_option p \<union> set_option q"
| "rholds (RCheck p) = set_option p"
| "rholds (RLockC p q) = set_option p"
| "rholds (RGotC p q) = set_option p \<union> set_option q"
| "rholds (RLockN p c q) = set_option p \<union> set_option c"
| "rholds (RGotN p c q) = set_option p \<union> set_option c \<union> set_option q"
| "rholds (RU1 p c n) = set_option p \<union> set_option c \<union> set_option n"
| "rholds (RU2 p c n) = set_option c \<union> set_option n"
| "rholds (RU3 p c n) = set_option n"
| "rholds (KGot c k) = set_option c"
| "rholds (KLock2 c q k) = set_option c"
| "rholds (KCmp c q k) = set_option c \<union> set_option q"
| "rholds (KU1 c n k) = set_option c \<union> set_option n"
| "rholds (KU2 n k) = set_option n"
| "rholds _ = {}"

fun wholds :: "rwpc \<Rightarrow> addr set" where
  "wholds (WL2 p c n) = set_option p"
| "wholds (WL3 p c n) = set_option p \<union> set_option c"
| "wholds (WTest p c n) = set_option p \<union> set_option c \<union> set_option n"
| "wholds (WB1 p c n) = set_option p \<union> set_option c \<union> set_option n"
| "wholds (WB2 c n) = set_option c \<union> set_option n"
| "wholds (WB3 n) = set_option n"
| "wholds (WN p c n) = set_option p \<union> set_option c \<union> set_option n"
| "wholds (WS1 p c n m) = set_option p \<union> set_option c \<union> set_option n"
| "wholds (WS2 p c n m) = set_option p \<union> set_option c \<union> set_option n"
| "wholds (WS3 p c n) = set_option p \<union> set_option c \<union> set_option n"
| "wholds (WU1 p c n) = set_option p \<union> set_option c \<union> set_option n"
| "wholds (WU2 c n) = set_option c \<union> set_option n"
| "wholds (WU3 n) = set_option n"
| "wholds _ = {}"

fun rdirty :: "rwpc \<Rightarrow> addr set" where
  "rdirty (WS2 p c n m) = set_option c \<union> set_option n"
| "rdirty (WS3 p c n) = set_option n"
| "rdirty _ = {}"

text \<open>The pointers \<open>ps\<close> are the nodes of the list from position \<open>i\<close> on.\<close>

fun run_at :: "addr list \<Rightarrow> nat \<Rightarrow> ptr list \<Rightarrow> bool" where
  "run_at as i [] \<longleftrightarrow> True"
| "run_at as i (p # ps) \<longleftrightarrow> i < length as \<and> p = Some (as ! i) \<and> run_at as (Suc i) ps"

definition inner :: "addr list \<Rightarrow> ptr list \<Rightarrow> bool" where
  "inner as ps \<longleftrightarrow> (\<exists>i. i + 3 < length as \<and> run_at as i ps)"

text \<open>Different nodes of the list; with \<open>b\<close>, none of them is the last node.\<close>

definition nodes_of :: "addr list \<Rightarrow> bool \<Rightarrow> ptr list \<Rightarrow> bool" where
  "nodes_of as b ps \<longleftrightarrow> distinct ps \<and> (\<forall>p \<in> set ps. \<exists>a \<in> set as. p = Some a) \<and> (b \<longrightarrow> Some (last as) \<notin> set ps)"

fun rpcok :: "addr list \<Rightarrow> rwpc \<Rightarrow> bool" where
  "rpcok as (RFirst e) \<longleftrightarrow> 1 \<le> e \<and> e + 3 \<le> length as"
| "rpcok as (RWalk e ind p) \<longleftrightarrow> 1 \<le> ind \<and> ind \<le> e \<and> e + 3 \<le> length as \<and> run_at as (ind - 1) [p]"
| "rpcok as (RLockW e ind p q) \<longleftrightarrow> 1 \<le> ind \<and> ind < e \<and> e + 3 \<le> length as \<and> run_at as (ind - 1) [p, q]"
| "rpcok as (RHand e ind p q) \<longleftrightarrow> 1 \<le> ind \<and> ind < e \<and> e + 3 \<le> length as \<and> run_at as (ind - 1) [p, q]"
| "rpcok as (RCheck p) \<longleftrightarrow> inner as [p]"
| "rpcok as (RLockC p q) \<longleftrightarrow> inner as [p, q]"
| "rpcok as (RGotC p q) \<longleftrightarrow> inner as [p, q]"
| "rpcok as (RLockN p c q) \<longleftrightarrow> inner as [p, c, q]"
| "rpcok as (RGotN p c q) \<longleftrightarrow> inner as [p, c, q]"
| "rpcok as (RU1 p c n) \<longleftrightarrow> nodes_of as True [p, c, n]"
| "rpcok as (RU2 p c n) \<longleftrightarrow> nodes_of as True [p, c, n]"
| "rpcok as (RU3 p c n) \<longleftrightarrow> nodes_of as True [p, c, n]"
| "rpcok as (WL1 p c n) \<longleftrightarrow> nodes_of as True [p, c, n]"
| "rpcok as (WL2 p c n) \<longleftrightarrow> nodes_of as True [p, c, n]"
| "rpcok as (WL3 p c n) \<longleftrightarrow> nodes_of as True [p, c, n]"
| "rpcok as (WTest p c n) \<longleftrightarrow> nodes_of as True [p, c, n]"
| "rpcok as (WB1 p c n) \<longleftrightarrow> nodes_of as False [p, c, n]"
| "rpcok as (WB2 c n) \<longleftrightarrow> nodes_of as False [c, n]"
| "rpcok as (WB3 n) \<longleftrightarrow> nodes_of as False [n]"
| "rpcok as (WN p c n) \<longleftrightarrow> inner as [p, c, n]"
| "rpcok as (WS1 p c n m) \<longleftrightarrow> inner as [p, c, n, m]"
| "rpcok as (WS2 p c n m) \<longleftrightarrow> inner as [p, n, c, m]"
| "rpcok as (WS3 p c n) \<longleftrightarrow> inner as [p, n, c]"
| "rpcok as (WU1 p c n) \<longleftrightarrow> nodes_of as False [p, c, n]"
| "rpcok as (WU2 c n) \<longleftrightarrow> nodes_of as False [c, n]"
| "rpcok as (WU3 n) \<longleftrightarrow> nodes_of as False [n]"
| "rpcok as (KHead c k) \<longleftrightarrow> nodes_of as False [c]"
| "rpcok as (KLock1 c k) \<longleftrightarrow> nodes_of as True [c]"
| "rpcok as (KGot c k) \<longleftrightarrow> (\<exists>i. i + 1 < length as \<and> run_at as i [c])"
| "rpcok as (KLock2 c q k) \<longleftrightarrow> (\<exists>i. run_at as i [c, q])"
| "rpcok as (KCmp c q k) \<longleftrightarrow> (\<exists>i. run_at as i [c, q])"
| "rpcok as (KU1 c n k) \<longleftrightarrow> nodes_of as False [c, n]"
| "rpcok as (KU2 n k) \<longleftrightarrow> nodes_of as False [n]"
| "rpcok as _ \<longleftrightarrow> True"

text \<open>The lock of a node knows exactly the threads that hold it, and a writer is alone.\<close>

definition node_ok :: "rwnode \<Rightarrow> addr \<Rightarrow> (nat \<Rightarrow> rwpc) \<Rightarrow> bool" where
  "node_ok n a ks \<longleftrightarrow> distinct (readers n) \<and> (\<forall>t. t \<in> set (readers n) \<longleftrightarrow> a \<in> rholds (ks t))
     \<and> (\<forall>t. writer n = Some t \<longleftrightarrow> a \<in> wholds (ks t)) \<and> (writer n = None \<or> readers n = [])"

definition rw_nodes_ok :: "addr list \<Rightarrow> rwnode heap \<Rightarrow> (nat \<Rightarrow> rwpc) \<Rightarrow> bool" where
  "rw_nodes_ok as h ks \<longleftrightarrow> (\<forall>a \<in> set as. \<exists>n. h a = Some n \<and> node_ok n a ks \<and> (a \<noteq> last as \<longrightarrow> rnext n \<noteq> None))"

definition rw_links_ok :: "addr list \<Rightarrow> rwnode heap \<Rightarrow> (nat \<Rightarrow> rwpc) \<Rightarrow> bool" where
  "rw_links_ok as h ks \<longleftrightarrow> (\<forall>i < length as. (\<forall>t. as ! i \<notin> rdirty (ks t)) \<longrightarrow> rnext (the (h (as ! i))) = succ_of as i)"

definition rinv :: "rwnode heap \<Rightarrow> addr list \<Rightarrow> rwnode heap \<Rightarrow> (nat \<Rightarrow> rwpc) \<Rightarrow> bool" where
  "rinv h0 as h ks \<longleftrightarrow> distinct as \<and> (\<forall>a. map_option rvalue (h a) = map_option rvalue (h0 a))
     \<and> rw_nodes_ok as h ks \<and> rw_links_ok as h ks \<and> (\<forall>t. rpcok as (ks t))"

definition rmoves :: "rwnode heap \<Rightarrow> addr list \<Rightarrow> (nat \<Rightarrow> rwpc) \<Rightarrow> nat \<Rightarrow> rwres \<Rightarrow> bool" where
  "rmoves h0 as ks t res \<longleftrightarrow> (\<exists>k h as'. res = Some (Inr (k, h)) \<and> rinv h0 as' h (ks(t := k)) \<and> same_ends as as')"

lemma rmovesI: "rinv h0 as h (ks(t := k)) \<Longrightarrow> rmoves h0 as ks t (goes h k)"
  unfolding rmoves_def same_ends_def goes_def by blast

lemma rdirty_holds: "rdirty k \<subseteq> wholds k"
  by (cases k) auto

lemma run_at_nodes: "run_at as i ps \<Longrightarrow> p \<in> set ps \<Longrightarrow> \<exists>a \<in> set as. p = Some a"
  by (induction ps arbitrary: i) (auto intro: nth_mem)

lemma rpcok_holds:
  assumes "rpcok as k"
  shows "rholds k \<union> wholds k \<subseteq> set as"
  using assms by (cases k) (auto simp: inner_def nodes_of_def)

section \<open>Reading\<close>

lemma rinv_node:
  assumes "rinv h0 as h ks" "a \<in> set as"
  shows "\<exists>n. h a = Some n \<and> node_ok n a ks \<and> (a \<noteq> last as \<longrightarrow> rnext n \<noteq> None)"
  using assms by (auto simp: rinv_def rw_nodes_ok_def)

text \<open>A node that a thread holds, for reading or writing, has the successor it has in the list.\<close>

lemma held_clean:
  assumes ok: "rinv h0 as h ks" and a: "a \<in> rholds (ks t) \<union> wholds (ks t)" and d: "a \<notin> rdirty (ks t)"
  shows "a \<notin> rdirty (ks u)"
proof
  assume u: "a \<in> rdirty (ks u)"
  with d have ut: "u \<noteq> t" by auto
  from u rdirty_holds have w: "a \<in> wholds (ks u)" by blast
  have "a \<in> set as" using ok a rpcok_holds [of as "ks t"] by (auto simp: rinv_def)
  from rinv_node [OF ok this] obtain n where n: "node_ok n a ks" by blast
  with w have "writer n = Some u" "readers n = []" by (auto simp: node_ok_def)
  with n ut a show False by (auto simp: node_ok_def)
qed

lemma rinv_link:
  assumes ok: "rinv h0 as h ks" and i: "i < length as" and a: "as ! i \<in> rholds (ks t) \<union> wholds (ks t)" and d: "rdirty (ks t) = {}"
  shows "\<exists>n. h (as ! i) = Some n \<and> rnext n = succ_of as i"
proof -
  have "as ! i \<notin> rdirty (ks u)" for u by (rule held_clean [OF ok a]) (simp add: d)
  with ok i have "rnext (the (h (as ! i))) = succ_of as i" by (auto simp: rinv_def rw_links_ok_def)
  with rinv_node [OF ok nth_mem [OF i]] show ?thesis by auto
qed

lemma looks_node [simp]: "h a = Some n \<Longrightarrow> looks h (Some a) f = f n"
  by (simp add: looks_def)

section \<open>Moves that leave the list alone\<close>

lemma node_ok_upd:
  assumes "node_ok n a ks" "a \<in> rholds k \<longleftrightarrow> a \<in> rholds (ks t)" "a \<in> wholds k \<longleftrightarrow> a \<in> wholds (ks t)"
  shows "node_ok n a (ks(t := k))"
  using assms by (auto simp: node_ok_def)

lemma rmove_pure:
  assumes ok: "rinv h0 as h ks"
    and k: "rholds k = rholds (ks t)" "wholds k = wholds (ks t)" "rdirty k = rdirty (ks t)" "rpcok as k"
  shows "rmoves h0 as ks t (goes h k)"
proof (rule rmovesI)
  have "rw_nodes_ok as h (ks(t := k))"
    using ok k(1,2) node_ok_upd [of _ _ ks k t] by (fastforce simp: rinv_def rw_nodes_ok_def)
  moreover have "rdirty ((ks(t := k)) u) = rdirty (ks u)" for u using k(3) by simp
  ultimately show "rinv h0 as h (ks(t := k))" using ok k(4) by (simp add: rinv_def rw_links_ok_def)
qed

text \<open>Only the lock of node \<open>a\<close> changes.\<close>

lemma rmove_relock:
  assumes ok: "rinv h0 as h ks" and n: "h a = Some n" and a: "a \<in> set as"
    and n': "rvalue n' = rvalue n" "rnext n' = rnext n" "node_ok n' a (ks(t := k))"
    and k: "\<And>b. b \<noteq> a \<Longrightarrow> b \<in> rholds k \<longleftrightarrow> b \<in> rholds (ks t)" "\<And>b. b \<noteq> a \<Longrightarrow> b \<in> wholds k \<longleftrightarrow> b \<in> wholds (ks t)"
      "rdirty k = rdirty (ks t)" "rpcok as k"
  shows "rmoves h0 as ks t (becomes (Some (Inr (h(a \<mapsto> n')))) k)"
proof -
  let ?h = "h(a \<mapsto> n')"
  have "rw_nodes_ok as ?h (ks(t := k))"
  proof (unfold rw_nodes_ok_def, rule ballI)
    fix b
    assume b: "b \<in> set as"
    from rinv_node [OF ok b] obtain m where m: "h b = Some m" "node_ok m b ks" "b \<noteq> last as \<longrightarrow> rnext m \<noteq> None" by blast
    show "\<exists>n. ?h b = Some n \<and> node_ok n b (ks(t := k)) \<and> (b \<noteq> last as \<longrightarrow> rnext n \<noteq> None)"
      using m n n' k(1,2) [of b] node_ok_upd [OF m(2), of k t] by (cases "b = a") auto
  qed
  moreover have "rdirty ((ks(t := k)) u) = rdirty (ks u)" for u using k(3) by simp
  moreover have "rnext (the (?h b)) = rnext (the (h b))" for b using n n'(2) by simp
  moreover have "map_option rvalue (?h b) = map_option rvalue (h b)" for b using n n'(1) by simp
  ultimately have "rinv h0 as ?h (ks(t := k))" using ok k(4) by (simp add: rinv_def rw_links_ok_def)
  then show ?thesis using rmovesI [of h0 as ?h ks t k] by (simp add: becomes_def goes_def)
qed

text \<open>A lock operation goes on or waits.\<close>

definition lock_res :: "rwnode heap \<Rightarrow> addr list \<Rightarrow> (nat \<Rightarrow> rwpc) \<Rightarrow> nat \<Rightarrow> rwres \<Rightarrow> bool" where
  "lock_res h0 as ks t res \<longleftrightarrow> res = None \<or> rmoves h0 as ks t res"

lemma rmove_rdlock:
  assumes ok: "rinv h0 as h ks" and a: "a \<in> set as" "a \<notin> rholds (ks t)"
    and k: "rholds k = insert a (rholds (ks t))" "wholds k = wholds (ks t)" "rdirty k = rdirty (ks t)" "rpcok as k"
  shows "lock_res h0 as ks t (becomes (rw_rdlock h t (Some a)) k)"
proof -
  from rinv_node [OF ok a(1)] obtain n where n: "h a = Some n" "node_ok n a ks" by blast
  show ?thesis
  proof (cases "writer n")
    case None
    then have "node_ok (n\<lparr>readers := t # readers n\<rparr>) a (ks(t := k))" using n(2) a(2) k(1,2) by (auto simp: node_ok_def)
    from rmove_relock [OF ok n(1) a(1) _ _ this] k None n(1) show ?thesis by (simp add: lock_res_def rw_rdlock_def)
  qed (use n in \<open>simp add: lock_res_def rw_rdlock_def becomes_def\<close>)
qed

lemma rmove_wrlock:
  assumes ok: "rinv h0 as h ks" and a: "a \<in> set as"
    and k: "wholds k = insert a (wholds (ks t))" "rholds k = rholds (ks t)" "rdirty k = rdirty (ks t)" "rpcok as k"
  shows "lock_res h0 as ks t (becomes (rw_wrlock h t (Some a)) k)"
proof -
  from rinv_node [OF ok a(1)] obtain n where n: "h a = Some n" "node_ok n a ks" by blast
  show ?thesis
  proof (cases "writer n \<noteq> None \<or> readers n \<noteq> []")
    case False
    then have "node_ok (n\<lparr>writer := Some t\<rparr>) a (ks(t := k))" using n(2) k(1,2) by (auto simp: node_ok_def)
    from rmove_relock [OF ok n(1) a(1) _ _ this] k False n(1) show ?thesis by (simp add: lock_res_def rw_wrlock_def)
  qed (use n in \<open>auto simp: lock_res_def rw_wrlock_def becomes_def\<close>)
qed

lemma rmove_unlock:
  assumes ok: "rinv h0 as h ks" and a: "a \<in> rholds (ks t) \<union> wholds (ks t)"
    and k: "rholds k = rholds (ks t) - {a}" "wholds k = wholds (ks t) - {a}" "rdirty k = rdirty (ks t)" "rpcok as k"
  shows "rmoves h0 as ks t (becomes (rw_unlock h t (Some a)) k)"
proof -
  have as: "a \<in> set as" using ok a rpcok_holds [of as "ks t"] by (auto simp: rinv_def)
  from rinv_node [OF ok this] obtain n where n: "h a = Some n" "node_ok n a ks" by blast
  let ?n = "if writer n = Some t then n\<lparr>writer := None\<rparr> else n\<lparr>readers := remove1 t (readers n)\<rparr>"
  have "a \<in> wholds (ks u) \<Longrightarrow> a \<in> wholds (ks v) \<Longrightarrow> u = v" for u v
    using n(2) unfolding node_ok_def by (metis option.inject)
  then have "node_ok ?n a (ks(t := k))" using n(2) a k(1,2) by (auto simp: node_ok_def)
  from rmove_relock [OF ok n(1) as _ _ this] k n(1) show ?thesis by (simp add: rw_unlock_def)
qed

section \<open>The three link writes of a swap\<close>

lemma run_keep:
  assumes "run_at as j ps" "length as' = length as" "as' ! j = as ! j"
    and "\<And>l. l < length as \<Longrightarrow> Some (as ! l) \<in> set (butlast ps) \<Longrightarrow> as' ! Suc l = as ! Suc l"
  shows "run_at as' j ps"
  using assms
proof (induction ps arbitrary: j)
  case (Cons p ps)
  show ?case
  proof (cases ps)
    case Nil
    with Cons.prems show ?thesis by simp
  next
    case (Cons q qs)
    have "run_at as' (Suc j) ps" using Cons Cons.prems by (intro Cons.IH) auto
    with Cons.prems show ?thesis by simp
  qed
qed simp

text \<open>The swap of another thread, which holds its three nodes for writing, does not touch what a thread knows.\<close>

lemma run_swapped:
  assumes run: "run_at as j ps" and i: "i + 3 < length as" and H: "H \<inter> {as ! i, as ! (i + 1), as ! (i + 2)} = {}"
    and ps: "ps \<noteq> []" "\<And>a. hd ps = Some a \<Longrightarrow> a \<in> H" "\<And>a. Some a \<in> set (butlast ps) \<Longrightarrow> a \<in> H"
  shows "run_at (swapped (Suc i) as) j ps"
proof (rule run_keep [OF run])
  have keep: "swapped (Suc i) as ! l = as ! l" "swapped (Suc i) as ! Suc l = as ! Suc l" if "l < length as" "as ! l \<in> H" for l
  proof -
    have "as ! l \<notin> {as ! i, as ! (i + 1), as ! (i + 2)}" using that(2) H by blast
    from swapped_keeps [OF i that(1) this] show "swapped (Suc i) as ! l = as ! l" "swapped (Suc i) as ! Suc l = as ! Suc l" by simp_all
  qed
  from run ps(1,2) have "j < length as" "as ! j \<in> H" by (cases ps; auto)+
  then show "swapped (Suc i) as ! j = as ! j" by (rule keep)
  show "swapped (Suc i) as ! Suc l = as ! Suc l" if "l < length as" "Some (as ! l) \<in> set (butlast ps)" for l
    using that ps(3) by (intro keep)
qed (simp add: swapped_facts(1) [OF i])

lemma rpcok_swapped:
  assumes ok: "rpcok as k" and i: "i + 3 < length as" and H: "(rholds k \<union> wholds k) \<inter> {as ! i, as ! (i + 1), as ! (i + 2)} = {}"
  shows "rpcok (swapped (Suc i) as) k"
proof -
  note f = swapped_facts(1,3,5) [OF i]
  have run: "run_at (swapped (Suc i) as) j ps"
    if "run_at as j ps" "ps \<noteq> []" "\<And>a. hd ps = Some a \<Longrightarrow> a \<in> rholds k \<union> wholds k" "\<And>a. Some a \<in> set (butlast ps) \<Longrightarrow> a \<in> rholds k \<union> wholds k"
    for j ps using run_swapped [OF that(1) i H that(2-4)] .
  have inn: "inner (swapped (Suc i) as) ps"
    if "inner as ps" "ps \<noteq> []" "\<And>a. hd ps = Some a \<Longrightarrow> a \<in> rholds k \<union> wholds k" "\<And>a. Some a \<in> set (butlast ps) \<Longrightarrow> a \<in> rholds k \<union> wholds k"
    for ps using that run [of _ ps] f(1) unfolding inner_def by metis
  have nod: "nodes_of (swapped (Suc i) as) b ps \<longleftrightarrow> nodes_of as b ps" for b ps by (simp add: nodes_of_def f)
  show ?thesis
  proof (cases k)
    case (KGot c l)
    with ok obtain j where "j + 1 < length as" "run_at as j [c]" by auto
    with run [of j "[c]"] KGot f(1) show ?thesis unfolding KGot rpcok.simps by (intro exI [of _ j]) auto
  next
    case (KLock2 c q l)
    with ok obtain j where "run_at as j [c, q]" by auto
    with run [of j "[c, q]"] KLock2 show ?thesis unfolding KLock2 rpcok.simps by (intro exI [of _ j]) auto
  next
    case (KCmp c q l)
    with ok obtain j where "run_at as j [c, q]" by auto
    with run [of j "[c, q]"] KCmp show ?thesis unfolding KCmp rpcok.simps by (intro exI [of _ j]) auto
  next
    case (RWalk e ind p)
    with ok run [of "ind - 1" "[p]"] f(1) show ?thesis by simp
  next
    case (RLockW e ind p q)
    with ok run [of "ind - 1" "[p, q]"] f(1) show ?thesis by auto
  next
    case (RHand e ind p q)
    with ok run [of "ind - 1" "[p, q]"] f(1) show ?thesis by auto
  qed (use ok f(1) in \<open>auto simp: nod intro!: inn\<close>)
qed

lemma becomes_links: "h a = Some n \<Longrightarrow> becomes (links h (Some a) q) k = goes (h(a \<mapsto> n\<lparr>rnext := q\<rparr>)) k"
  by (simp add: becomes_def links_def goes_def)

lemma rw_link_nodes:
  assumes ok: "rinv h0 as h ks" and a: "h a = Some n" "q \<noteq> None" and k: "rholds k = rholds (ks t)" "wholds k = wholds (ks t)"
    and as': "set as' = set as" "last as' = last as"
  shows "rw_nodes_ok as' (h(a \<mapsto> n\<lparr>rnext := q\<rparr>)) (ks(t := k))"
proof (unfold rw_nodes_ok_def, rule ballI)
  fix b
  assume "b \<in> set as'"
  then have "b \<in> set as" using as' by simp
  from rinv_node [OF ok this] as'(2) obtain m where m: "h b = Some m" "node_ok m b ks" "b \<noteq> last as' \<longrightarrow> rnext m \<noteq> None" by auto
  have "node_ok m b (ks(t := k))" using node_ok_upd [OF m(2)] k by simp
  moreover have "node_ok (m\<lparr>rnext := q\<rparr>) b ks' = node_ok m b ks'" for ks' by (simp add: node_ok_def)
  ultimately show "\<exists>n'. (h(a \<mapsto> n\<lparr>rnext := q\<rparr>)) b = Some n' \<and> node_ok n' b (ks(t := k)) \<and> (b \<noteq> last as' \<longrightarrow> rnext n' \<noteq> None)"
    using m a by (cases "b = a") auto
qed

lemma rmove_link:
  assumes ok: "rinv h0 as h ks" and j: "j < length as" "q = succ_of as j" "q \<noteq> None"
    and k: "rholds k = rholds (ks t)" "wholds k = wholds (ks t)" "rdirty k = rdirty (ks t) - {as ! j}" "rpcok as k"
  shows "rmoves h0 as ks t (becomes (links h (Some (as ! j)) q) k)"
proof -
  from rinv_node [OF ok nth_mem [OF j(1)]] obtain n where n: "h (as ! j) = Some n" by blast
  let ?h = "h(as ! j \<mapsto> n\<lparr>rnext := q\<rparr>)"
  have d: "distinct as" and pk: "\<And>u. rpcok as (ks u)" and vals: "\<And>a. map_option rvalue (h a) = map_option rvalue (h0 a)"
    using ok by (simp_all add: rinv_def)
  have "rw_links_ok as ?h (ks(t := k))"
  proof (unfold rw_links_ok_def, intro allI impI)
    fix i
    assume i: "i < length as" "\<forall>u. as ! i \<notin> rdirty ((ks(t := k)) u)"
    show "rnext (the (?h (as ! i))) = succ_of as i"
    proof (cases "i = j")
      case False
      then have ne: "as ! i \<noteq> as ! j" using d i(1) j(1) by (simp add: nth_eq_iff_index_eq)
      have "as ! i \<notin> rdirty (ks u)" for u using spec [OF i(2), of u] ne k(3) by (cases "u = t") auto
      with ok i(1) ne show ?thesis by (simp add: rinv_def rw_links_ok_def)
    qed (use j in simp)
  qed
  moreover have "map_option rvalue (?h a) = map_option rvalue (h0 a)" for a using n vals [of a] by auto
  moreover have "rw_nodes_ok as ?h (ks(t := k))" by (rule rw_link_nodes [OF ok n j(3) k(1,2)]) simp_all
  ultimately have "rinv h0 as ?h (ks(t := k))" using d pk k(4) by (simp add: rinv_def)
  then show ?thesis unfolding becomes_links [of h, OF n] by (rule rmovesI)
qed

text \<open>The first write changes the logical list; the links of the two swapped nodes are then still to be written.\<close>

lemma rw_links_first:
  assumes ok: "rinv h0 as h ks" and i: "i + 3 < length as" and k: "rdirty (ks t) = {}" "rdirty k = {as ! (i + 1), as ! (i + 2)}"
    and n: "h (as ! i) = Some pn"
  shows "rw_links_ok (swapped (Suc i) as) (h(as ! i \<mapsto> pn\<lparr>rnext := Some (as ! (i + 2))\<rparr>)) (ks(t := k))"
proof (unfold rw_links_ok_def, intro allI impI)
  let ?as = "swapped (Suc i) as"
  note f = swapped_facts [OF i]
  fix j
  assume j: "j < length ?as" "\<forall>u. ?as ! j \<notin> rdirty ((ks(t := k)) u)"
  from spec [OF j(2), of t] k(2) f(6,7) have ne: "j \<noteq> i + 1" "j \<noteq> i + 2" by auto
  have same: "?as ! j = as ! j" by (rule f(8) [OF ne])
  have d: "distinct as" using ok by (simp add: rinv_def)
  show "rnext (the ((h(as ! i \<mapsto> pn\<lparr>rnext := Some (as ! (i + 2))\<rparr>)) (?as ! j))) = succ_of ?as j"
  proof (cases "j = i")
    case True
    with same i f(1,6) show ?thesis by (simp add: succ_of_def)
  next
    case False
    then have "as ! j \<noteq> as ! i" using d i j(1) f(1) by (simp add: nth_eq_iff_index_eq)
    moreover have "as ! j \<notin> rdirty (ks u)" for u using spec [OF j(2), of u] same k(1) by (cases "u = t") auto
    then have "rnext (the (h (as ! j))) = succ_of as j" using ok j(1) f(1) by (simp add: rinv_def rw_links_ok_def)
    moreover have "succ_of ?as j = succ_of as j" using f(1) f(8) [of "Suc j"] False ne by (simp add: succ_of_def)
    ultimately show ?thesis using same by simp
  qed
qed

lemma writer_alone:
  assumes ok: "rinv h0 as h ks" and a: "a \<in> wholds (ks t)" and u: "u \<noteq> t"
  shows "a \<notin> rholds (ks u) \<union> wholds (ks u)"
proof -
  have "a \<in> set as" using ok a rpcok_holds [of as "ks t"] by (auto simp: rinv_def)
  from rinv_node [OF ok this] obtain n where n: "node_ok n a ks" by blast
  with a have "writer n = Some t" "readers n = []" by (auto simp: node_ok_def)
  with n u show ?thesis by (auto simp: node_ok_def)
qed

lemma rmove_first_link:
  assumes ok: "rinv h0 as h ks" and k: "ks t = WS1 p c n m"
  shows "rmoves h0 as ks t (becomes (links h p n) (WS2 p c n m))"
proof -
  have pk: "\<And>u. rpcok as (ks u)" and d: "distinct as" and vals: "\<And>a. map_option rvalue (h a) = map_option rvalue (h0 a)"
    using ok by (simp_all add: rinv_def)
  from pk [of t] k obtain i where i: "i + 3 < length as" and ptrs: "p = Some (as ! i)" "c = Some (as ! (i + 1))" "n = Some (as ! (i + 2))"
    "m = Some (as ! (i + 3))" by (auto simp: inner_def numeral_eq_Suc)
  let ?as = "swapped (Suc i) as" and ?k = "WS2 p c n m"
  note f = swapped_facts [OF i]
  from rinv_node [OF ok nth_mem, of i] i obtain pn where pn: "h (as ! i) = Some pn" by auto
  let ?h = "h(as ! i \<mapsto> pn\<lparr>rnext := n\<rparr>)"
  have "distinct ?as" using d f(2) mset_eq_imp_distinct_iff by blast
  moreover have "map_option rvalue (?h a) = map_option rvalue (h0 a)" for a using pn vals [of a] by auto
  moreover have "rw_nodes_ok ?as ?h (ks(t := ?k))" by (rule rw_link_nodes [OF ok pn]) (simp_all add: k ptrs f)
  moreover have "rw_links_ok ?as ?h (ks(t := ?k))"
    unfolding ptrs(3) by (rule rw_links_first [OF ok i _ _ pn]) (auto simp: k ptrs)
  moreover have "?as ! i = as ! i" "?as ! (i + 3) = as ! (i + 3)" by (rule f(8); simp)+
  then have "rpcok ?as ?k" using i ptrs f(1,6,7) by (auto simp: inner_def numeral_eq_Suc intro!: exI [of _ i])
  moreover have "rpcok ?as (ks u)" if "u \<noteq> t" for u
  proof (rule rpcok_swapped [OF pk i])
    have "{as ! i, as ! (i + 1), as ! (i + 2)} \<subseteq> wholds (ks t)" using k ptrs by auto
    with writer_alone [OF ok _ that] show "(rholds (ks u) \<union> wholds (ks u)) \<inter> {as ! i, as ! (i + 1), as ! (i + 2)} = {}" by blast
  qed
  ultimately have "rinv h0 ?as ?h (ks(t := ?k))" by (simp add: rinv_def)
  moreover have "same_ends as ?as" using f by (simp add: same_ends_def)
  moreover have "becomes (links h p n) ?k = Some (Inr (?k, ?h))" using becomes_links [of h, OF pn] ptrs(1) by (simp add: goes_def)
  ultimately show ?thesis unfolding rmoves_def by blast
qed

section \<open>Every statement\<close>

lemma rthread_ok: "rinv h0 as h ks \<Longrightarrow> rpcok as (ks t)"
  by (simp add: rinv_def)

lemma rinv_distinct: "rinv h0 as h ks \<Longrightarrow> distinct as"
  by (simp add: rinv_def)

lemma lock_resI: "rmoves h0 as ks t res \<Longrightarrow> lock_res h0 as ks t res"
  by (simp add: lock_res_def)

lemma nth_ne_last: "distinct as \<Longrightarrow> Suc i < length as \<Longrightarrow> as ! i \<noteq> last as"
  by (cases "as = []") (auto simp: last_conv_nth nth_eq_iff_index_eq)

lemma innerE:
  assumes "inner as (p # ps)"
  obtains i where "i + 3 < length as" "p = Some (as ! i)" "run_at as (Suc i) ps"
  using assms by (auto simp: inner_def)

text \<open>Neighbours that lie in front of the last two nodes are different nodes, none of them the last.\<close>

lemma inner_nodes:
  assumes "inner as [p, c, n]" "distinct as"
  shows "nodes_of as True [p, c, n]" "nodes_of as False [p, n, c]"
proof -
  from assms(1) obtain i where i: "i + 3 < length as" "p = Some (as ! i)" "c = Some (as ! Suc i)" "n = Some (as ! Suc (Suc i))"
    by (auto simp: inner_def)
  have "as ! i \<noteq> last as" "as ! Suc i \<noteq> last as" "as ! Suc (Suc i) \<noteq> last as"
    using nth_ne_last [OF assms(2)] i(1) by auto
  with i assms(2) show "nodes_of as True [p, c, n]" "nodes_of as False [p, n, c]"
    by (auto simp: nodes_of_def nth_eq_iff_index_eq)
qed

lemma rw_begin_ok:
  assumes "storage_ok st as"
  shows "\<exists>k. rw_begin st b r role = Inr k \<and> rholds k = {} \<and> wholds k = {} \<and> rdirty k = {} \<and> rpcok as k"
proof -
  have st: "sfirst st = Some (hd as)" "ssize st = int (length as)" "3 < length as" using assms by (simp_all add: storage_ok_def)
  have "int r mod (int (length as) - 3) < int (length as) - 3" "0 \<le> int r mod (int (length as) - 3)" using st(3) by simp_all
  then have "rpcok as (RFirst (nat (int r mod (int (length as) - 3) + 1)))" by simp linarith
  moreover have "rpcok as (KHead (sfirst st) 0)" using st by (auto simp: nodes_of_def intro!: hd_in_set)
  ultimately show ?thesis using st by (simp add: rw_begin_def split: option.split)
qed

lemma rw_walk_moves:
  assumes ok: "rinv h0 as h ks" and k: "ks t = RWalk e ind p \<or> ks t = RHand e ind p q"
  shows "rmoves h0 as ks t (rwstep st b r role t h (ks t))"
proof -
  note pk = rthread_ok [OF ok, of t]
  have ix: "1 \<le> ind" "ind \<le> e" "e + 3 \<le> length as" "p = Some (as ! (ind - 1))" using pk k by auto
  have "\<exists>n. h (as ! (ind - 1)) = Some n \<and> rnext n = succ_of as (ind - 1)"
    by (rule rinv_link [OF ok, where t = t]) (use ix k in auto)
  then obtain n where n: "h (as ! (ind - 1)) = Some n" "rnext n = Some (as ! ind)" using ix by (auto simp: succ_of_def)
  from k show ?thesis
  proof
    assume k: "ks t = RWalk e ind p"
    show ?thesis
    proof (cases "ind < e")
      case True
      have "rpcok as (RLockW e ind p (Some (as ! ind)))" using ix True by simp
      with k ix n True rmove_pure [OF ok, of "RLockW e ind p (Some (as ! ind))" t] show ?thesis by simp
    next
      case False
      have "rpcok as (RCheck p)" unfolding rpcok.simps inner_def using ix False by (intro exI [of _ "ind - 1"]) auto
      with False k ix n rmove_pure [OF ok, of "RCheck p" t] show ?thesis by simp
    qed
  next
    assume k: "ks t = RHand e ind p q"
    then have q: "q = Some (as ! ind)" "ind < e" using pk by auto
    have "as ! (ind - 1) \<noteq> as ! ind" using rinv_distinct [OF ok] ix q by (simp add: nth_eq_iff_index_eq)
    then have "rmoves h0 as ks t (becomes (rw_unlock h t (Some (as ! (ind - 1)))) (RWalk e (Suc ind) (Some (as ! ind))))"
      using k q ix by (intro rmove_unlock [OF ok]) auto
    with k n ix show ?thesis by simp
  qed
qed

lemma rw_find_moves:
  assumes ok: "rinv h0 as h ks" and k: "ks t = RCheck p \<or> ks t = RGotC p q"
  shows "rmoves h0 as ks t (rwstep st b r role t h (ks t))"
proof -
  note pk = rthread_ok [OF ok, of t] and d = rinv_distinct [OF ok]
  obtain i where i: "i + 3 < length as" "p = Some (as ! i)" "ks t = RGotC p q \<Longrightarrow> q = Some (as ! Suc i)"
    using pk k by (auto simp: inner_def)
  have "\<exists>n. h (as ! i) = Some n \<and> rnext n = succ_of as i" by (rule rinv_link [OF ok, where t = t]) (use i(1,2) k in auto)
  then obtain n where n: "h (as ! i) = Some n" "rnext n = Some (as ! Suc i)" using i(1) by (auto simp: succ_of_def)
  have "as ! Suc i \<in> set as" "as ! Suc i \<noteq> last as" using nth_ne_last [OF d, of "Suc i"] i(1) by auto
  then obtain c x where c: "h (as ! Suc i) = Some c" "rnext c = Some x" using rinv_node [OF ok, of "as ! Suc i"] by blast
  from k show ?thesis
  proof
    assume k: "ks t = RCheck p"
    have "rpcok as (RLockC p (Some (as ! Suc i)))" using i(1,2) by (auto simp: inner_def)
    with k n c i(2) rmove_pure [OF ok, of "RLockC p (Some (as ! Suc i))" t] show ?thesis by simp
  next
    assume k: "ks t = RGotC p q"
    note q = i(3) [OF k]
    have "\<exists>n. h (as ! Suc i) = Some n \<and> rnext n = succ_of as (Suc i)"
      by (rule rinv_link [OF ok, where t = t]) (use i(1) k q in auto)
    then have cn: "rnext c = Some (as ! Suc (Suc i))" using c i(1) by (auto simp: succ_of_def)
    have "rpcok as (RLockN p q (rnext c))" using i(1,2) q cn by (auto simp: inner_def)
    with k n c i(2) q rmove_pure [OF ok, of "RLockN p q (rnext c)" t] show ?thesis by simp
  qed
qed

lemma rw_found_moves:
  assumes ok: "rinv h0 as h ks" and k: "ks t = RGotN p c q"
  shows "rmoves h0 as ks t (rwstep st b r role t h (ks t))"
proof -
  have inn: "inner as [p, c, q]" using rthread_ok [OF ok, of t] k by simp
  then obtain i where i: "i + 3 < length as" "p = Some (as ! i)" "c = Some (as ! Suc i)" "q = Some (as ! Suc (Suc i))"
    by (auto simp: inner_def)
  have "\<exists>n. h (as ! Suc i) = Some n \<and> rnext n = succ_of as (Suc i)" by (rule rinv_link [OF ok, where t = t]) (use i k in auto)
  then obtain n where n: "h (as ! Suc i) = Some n" "rnext n = q" using i by (auto simp: succ_of_def)
  have "rpcok as (RU1 p c q)" using inner_nodes [OF inn rinv_distinct [OF ok]] by simp
  with k i n rmove_pure [OF ok, of "RU1 p c q" t] show ?thesis by simp
qed

lemma nodes_of_False: "nodes_of as b ps \<Longrightarrow> nodes_of as False ps"
  by (simp add: nodes_of_def)

lemma nodes_of_tl: "nodes_of as b (p # ps) \<Longrightarrow> nodes_of as b ps"
  by (auto simp: nodes_of_def)

lemma nodes_of_nth:
  assumes "nodes_of as b ps" "p \<in> set ps"
  obtains j where "j < length as" "p = Some (as ! j)"
  using assms unfolding nodes_of_def by (metis in_set_conv_nth)

lemma rw_test_moves:
  assumes ok: "rinv h0 as h ks" and k: "ks t = WTest p c n"
  shows "rmoves h0 as ks t (rwstep st b r role t h (ks t))"
proof -
  have nod: "nodes_of as True [p, c, n]" using rthread_ok [OF ok, of t] k by simp
  obtain i where i: "i < length as" "p = Some (as ! i)" using nodes_of_nth [OF nod, of p] by auto
  obtain j where j: "j < length as" "c = Some (as ! j)" using nodes_of_nth [OF nod, of c] by auto
  have "\<exists>n. h (as ! i) = Some n \<and> rnext n = succ_of as i" by (rule rinv_link [OF ok, where t = t]) (use i k in auto)
  then obtain pn where pn: "h (as ! i) = Some pn" "rnext pn = succ_of as i" by blast
  have "\<exists>n. h (as ! j) = Some n \<and> rnext n = succ_of as j" by (rule rinv_link [OF ok, where t = t]) (use j k in auto)
  then obtain cn where cn: "h (as ! j) = Some cn" "rnext cn = succ_of as j" by blast
  show ?thesis
  proof (cases "succ_of as i = c \<and> succ_of as j = n")
    case False
    have "rmoves h0 as ks t (goes h (WB1 p c n))"
      by (rule rmove_pure [OF ok]) (use k nodes_of_False [OF nod] in simp_all)
    with False k i j pn cn show ?thesis by auto
  next
    case True
    with j have ij: "Suc i < length as" "as ! Suc i = as ! j" by (auto simp: succ_of_def split: if_splits)
    then have "j = Suc i" using rinv_distinct [OF ok] j(1) by (simp add: nth_eq_iff_index_eq)
    moreover obtain l where l: "l < length as" "n = Some (as ! l)" using nodes_of_nth [OF nod, of n] by auto
    ultimately have n: "Suc (Suc i) < length as" "n = Some (as ! Suc (Suc i))" using True by (auto simp: succ_of_def split: if_splits)
    have "as ! Suc (Suc i) \<noteq> last as" using nod n(2) by (auto simp: nodes_of_def)
    then have "length as \<noteq> Suc (Suc (Suc i))" using last_conv_nth [of as] by (cases "as = []") auto
    then have "inner as [p, c, n]" using n i(2) j(2) \<open>j = Suc i\<close> unfolding inner_def by (intro exI [of _ i]) auto
    then have "rmoves h0 as ks t (goes h (WN p c n))" by (intro rmove_pure [OF ok]) (use k in simp_all)
    with True k i(2) j(2) pn cn show ?thesis by auto
  qed
qed

lemma rw_write_moves:
  assumes ok: "rinv h0 as h ks" and k: "ks t = WN p c n \<or> ks t = WS1 p c n m \<or> ks t = WS2 p c n m \<or> ks t = WS3 p c n"
  shows "rmoves h0 as ks t (rwstep st b r role t h (ks t))"
proof -
  note pk = rthread_ok [OF ok, of t] and d = rinv_distinct [OF ok]
  from k consider "ks t = WN p c n" | "ks t = WS1 p c n m" | "ks t = WS2 p c n m" | "ks t = WS3 p c n" by blast
  then show ?thesis
  proof cases
    case 1
    with pk obtain i where i: "i + 3 < length as" "p = Some (as ! i)" "c = Some (as ! Suc i)" "n = Some (as ! Suc (Suc i))"
      by (auto simp: inner_def)
    have "\<exists>n. h (as ! Suc (Suc i)) = Some n \<and> rnext n = succ_of as (Suc (Suc i))"
      by (rule rinv_link [OF ok, where t = t]) (use i 1 in auto)
    then obtain nn where nn: "h (as ! Suc (Suc i)) = Some nn" "rnext nn = Some (as ! Suc (Suc (Suc i)))"
      using i(1) by (auto simp: succ_of_def)
    have "inner as [p, c, n, rnext nn]" using i nn(2) by (auto simp: inner_def intro!: exI [of _ i])
    then have "rmoves h0 as ks t (goes h (WS1 p c n (rnext nn)))" by (intro rmove_pure [OF ok]) (use 1 in simp_all)
    with 1 i nn show ?thesis by simp
  next
    case 2
    with rmove_first_link [OF ok 2] show ?thesis by simp
  next
    case 3
    with pk obtain i where i: "i + 3 < length as" "p = Some (as ! i)" "n = Some (as ! Suc i)" "c = Some (as ! Suc (Suc i))"
      "m = Some (as ! Suc (Suc (Suc i)))" by (auto simp: inner_def)
    have "as ! Suc i \<noteq> as ! Suc (Suc i)" using d i(1) by (simp add: nth_eq_iff_index_eq)
    moreover have "inner as [p, n, c]" using i by (auto simp: inner_def)
    ultimately have "rmoves h0 as ks t (becomes (links h (Some (as ! Suc (Suc i))) m) (WS3 p c n))"
      using 3 i by (intro rmove_link [OF ok]) (auto simp: succ_of_def)
    with 3 i show ?thesis by simp
  next
    case 4
    with pk obtain i where i: "i + 3 < length as" "p = Some (as ! i)" "n = Some (as ! Suc i)" "c = Some (as ! Suc (Suc i))"
      by (auto simp: inner_def)
    have "nodes_of as False [p, c, n]" using inner_nodes(2) [of as p n c] pk 4 d by simp
    then have "rmoves h0 as ks t (becomes (links h (Some (as ! Suc i)) c) (WU1 p c n))"
      using 4 i by (intro rmove_link [OF ok]) (auto simp: succ_of_def)
    with 4 i show ?thesis by simp
  qed
qed

text \<open>Unlocking: the nodes still held are different from the one that is let go.\<close>

lemma rw_unlock_moves:
  assumes ok: "rinv h0 as h ks" and a: "p = Some a" "a \<in> rholds (ks t) \<union> wholds (ks t)"
    and k: "rholds k = rholds (ks t) - {a}" "wholds k = wholds (ks t) - {a}" "rdirty (ks t) = {}" "rdirty k = {}" "rpcok as k"
  shows "rmoves h0 as ks t (becomes (rw_unlock h t p) k)"
  unfolding a(1) by (rule rmove_unlock [OF ok a(2) k(1,2)]) (simp_all add: k)

lemma rw_release_moves:
  assumes ok: "rinv h0 as h ks"
    and k: "ks t \<in> {RU1 p c n, RU2 p c n, RU3 p c n, WB1 p c n, WB2 c n, WB3 n, WU1 p c n, WU2 c n, WU3 n, KU1 c n l, KU2 n l}"
  shows "rmoves h0 as ks t (rwstep st b r role t h (ks t))"
proof -
  note pk = rthread_ok [OF ok, of t]
  from k consider "ks t = RU1 p c n" | "ks t = RU2 p c n" | "ks t = RU3 p c n" | "ks t = WB1 p c n" | "ks t = WB2 c n" | "ks t = WB3 n"
    | "ks t = WU1 p c n" | "ks t = WU2 c n" | "ks t = WU3 n" | "ks t = KU1 c n l" | "ks t = KU2 n l" by auto
  then show ?thesis
    by cases (use pk in \<open>auto simp: nodes_of_def intro!: rw_unlock_moves [OF ok]\<close>)
qed

lemma rlast_clean:
  assumes "rpcok as k" "distinct as"
  shows "last as \<notin> rdirty k"
proof -
  have "as ! j \<noteq> last as" if "Suc j < length as" for j using nth_ne_last [OF assms(2) that] .
  with assms(1) show ?thesis by (cases k) (auto simp: inner_def)
qed

lemma rlast_link:
  assumes ok: "rinv h0 as h ks" and ne: "as \<noteq> []"
  shows "\<exists>n. h (last as) = Some n \<and> rnext n = None"
proof -
  have l: "last as = as ! (length as - 1)" "length as - 1 < length as" using ne by (simp_all add: last_conv_nth)
  have "last as \<notin> rdirty (ks u)" for u by (rule rlast_clean [OF rthread_ok [OF ok] rinv_distinct [OF ok]])
  with ok l have "rnext (the (h (last as))) = succ_of as (length as - 1)" unfolding rinv_def rw_links_ok_def by metis
  moreover from rinv_node [OF ok, of "last as"] ne obtain n where "h (last as) = Some n" by auto
  ultimately show ?thesis by (simp add: succ_of_def)
qed

lemma rw_head_moves:
  assumes ok: "rinv h0 as h ks" and k: "ks t = KHead c l"
  shows "rmoves h0 as ks t (rwstep st b r role t h (ks t))"
proof -
  from rthread_ok [OF ok, of t] k obtain x where x: "c = Some x" "x \<in> set as" by (auto simp: nodes_of_def)
  from rinv_node [OF ok x(2)] obtain m where m: "h x = Some m" by blast
  show ?thesis
  proof (cases "rnext m = None \<or> b")
    case True
    with k x m rmove_pure [OF ok, of RIdle t] show ?thesis by simp
  next
    case False
    have "x \<noteq> last as" using rlast_link [OF ok] False m x(2) by (cases "as = []") auto
    then have "rpcok as (KLock1 c l)" using x by (auto simp: nodes_of_def)
    with False k x m rmove_pure [OF ok, of "KLock1 c l" t] show ?thesis by auto
  qed
qed

lemma rw_count_moves:
  assumes ok: "rinv h0 as h ks" and k: "ks t = KGot c l \<or> ks t = KCmp c q l"
  shows "rmoves h0 as ks t (rwstep st b r role t h (ks t))"
proof -
  note d = rinv_distinct [OF ok]
  obtain i where i: "Suc i < length as" "c = Some (as ! i)" and q: "ks t = KCmp c q l \<Longrightarrow> q = Some (as ! Suc i)"
    using rthread_ok [OF ok, of t] k by auto
  have "\<exists>n. h (as ! i) = Some n \<and> rnext n = succ_of as i" by (rule rinv_link [OF ok, where t = t]) (use i k in auto)
  then obtain n where n: "h (as ! i) = Some n" "rnext n = Some (as ! Suc i)" using i(1) by (auto simp: succ_of_def)
  from rinv_node [OF ok nth_mem [OF i(1)]] obtain n2 where n2: "h (as ! Suc i) = Some n2" by blast
  from k show ?thesis
  proof
    assume k: "ks t = KGot c l"
    have "rpcok as (KLock2 c (rnext n) l)" using i n by (auto intro!: exI [of _ i])
    with k i(2) n rmove_pure [OF ok, of "KLock2 c (rnext n) l" t] show ?thesis by simp
  next
    assume k: "ks t = KCmp c q l"
    note q = q [OF k]
    have "as ! i \<noteq> as ! Suc i" using d i(1) by (simp add: nth_eq_iff_index_eq)
    then have "rpcok as (KU1 c q l')" for l' using i q by (auto simp: nodes_of_def)
    then have "rmoves h0 as ks t (goes h (KU1 c q l'))" for l' using k by (intro rmove_pure [OF ok]) auto
    with k i(2) n n2 q show ?thesis by simp
  qed
qed

lemma rw_rdlock_moves:
  assumes ok: "rinv h0 as h ks" and a: "p = Some a" "a \<in> set as" "a \<notin> rholds (ks t)"
    and k: "rholds k = insert a (rholds (ks t))" "wholds k = wholds (ks t)" "rdirty k = rdirty (ks t)" "rpcok as k"
  shows "lock_res h0 as ks t (becomes (rw_rdlock h t p) k)"
  unfolding a(1) by (rule rmove_rdlock [OF ok a(2,3) k])

lemma rw_search_locks:
  assumes ok: "rinv h0 as h ks" and st: "storage_ok st as"
    and k: "ks t \<in> {RFirst e, RLockW e ind p q, RLockC p q, RLockN p c q}"
  shows "lock_res h0 as ks t (rwstep st b r role t h (ks t))"
proof -
  note pk = rthread_ok [OF ok, of t] and d = rinv_distinct [OF ok]
  have s0: "sfirst st = Some (as ! 0)" "as ! 0 \<in> set as" using st by (cases as; auto simp: storage_ok_def)+
  note lock = rw_rdlock_moves [OF ok]
  from k consider "ks t = RFirst e" | "ks t = RLockW e ind p q" | "ks t = RLockC p q" | "ks t = RLockN p c q" by auto
  then show ?thesis
  proof cases
    case 1
    have "rpcok as (RWalk e 1 (Some (as ! 0)))" using 1 pk by auto
    with 1 s0 lock [of "sfirst st" "as ! 0" t "RWalk e 1 (sfirst st)"] show ?thesis by simp
  next
    case 2
    with pk have i: "p = Some (as ! (ind - 1))" "q = Some (as ! ind)" "ind < length as" "1 \<le> ind" by auto
    then have "as ! ind \<noteq> as ! (ind - 1)" using d by (simp add: nth_eq_iff_index_eq)
    with 2 i pk lock [of q "as ! ind" t "RHand e ind p q"] show ?thesis by auto
  next
    case 3
    with pk obtain i where i: "p = Some (as ! i)" "q = Some (as ! Suc i)" "Suc i < length as" by (auto simp: inner_def)
    then have "as ! Suc i \<noteq> as ! i" using d by (simp add: nth_eq_iff_index_eq)
    with 3 i pk lock [of q "as ! Suc i" t "RGotC p q"] show ?thesis by auto
  next
    case 4
    with pk obtain i where i: "p = Some (as ! i)" "c = Some (as ! Suc i)" "q = Some (as ! Suc (Suc i))" "Suc (Suc i) < length as"
      by (auto simp: inner_def)
    then have "as ! Suc (Suc i) \<noteq> as ! i" "as ! Suc (Suc i) \<noteq> as ! Suc i" using d by (simp_all add: nth_eq_iff_index_eq)
    with 4 i pk lock [of q "as ! Suc (Suc i)" t "RGotN p c q"] show ?thesis by auto
  qed
qed

lemma rw_count_locks:
  assumes ok: "rinv h0 as h ks" and k: "ks t = KLock1 c l \<or> ks t = KLock2 c q l"
  shows "lock_res h0 as ks t (rwstep st b r role t h (ks t))"
proof -
  note pk = rthread_ok [OF ok, of t] and d = rinv_distinct [OF ok]
  note lock = rw_rdlock_moves [OF ok]
  from k show ?thesis
  proof
    assume k: "ks t = KLock1 c l"
    with pk have nod: "nodes_of as True [c]" by simp
    then obtain i where i: "i < length as" "c = Some (as ! i)" by (rule nodes_of_nth) simp
    have "as ! i \<noteq> last as" using nod i(2) by (auto simp: nodes_of_def)
    then have "length as \<noteq> Suc i" using last_conv_nth [of as] by (cases "as = []") auto
    then have "rpcok as (KGot c l)" using i by (auto intro!: exI [of _ i])
    with k i lock [of c "as ! i" t "KGot c l"] show ?thesis by simp
  next
    assume k: "ks t = KLock2 c q l"
    with pk obtain i where i: "c = Some (as ! i)" "q = Some (as ! Suc i)" "Suc i < length as" by auto
    then have "as ! Suc i \<noteq> as ! i" using d by (simp add: nth_eq_iff_index_eq)
    with k i pk lock [of q "as ! Suc i" t "KCmp c q l"] show ?thesis by auto
  qed
qed

lemma rw_write_locks:
  assumes ok: "rinv h0 as h ks" and k: "ks t \<in> {WL1 p c n, WL2 p c n, WL3 p c n}"
  shows "lock_res h0 as ks t (rwstep st b r role t h (ks t))"
proof -
  have nod: "nodes_of as True [p, c, n]" using rthread_ok [OF ok, of t] k by auto
  then obtain x y z where xyz: "p = Some x" "c = Some y" "n = Some z" "{x, y, z} \<subseteq> set as" by (auto simp: nodes_of_def)
  have "lock_res h0 as ks t (becomes (rw_wrlock h t (Some a)) k)"
    if "a \<in> set as" "wholds k = insert a (wholds (ks t))" "rholds k = rholds (ks t)" "rdirty k = rdirty (ks t)" "rpcok as k" for a k
    using rmove_wrlock [OF ok that] .
  from this [of x "WL2 p c n"] this [of y "WL3 p c n"] this [of z "WTest p c n"] xyz nod k show ?thesis by auto
qed

lemma rwstep_moves:
  assumes ok: "rinv h0 as h ks" and st: "storage_ok st as" and k: "ks t \<noteq> RFinished"
  shows "lock_res h0 as ks t (rwstep st b r role t h (ks t))"
proof (cases "ks t = RIdle")
  case True
  from rw_begin_ok [OF st, of b r role] obtain k where "rw_begin st b r role = Inr k" "rholds k = {}" "wholds k = {}" "rdirty k = {}"
    "rpcok as k" by blast
  with True rmove_pure [OF ok, of k t] show ?thesis by (simp add: lock_res_def goes_def)
next
  case False
  note moves = lock_resI [OF rw_walk_moves [OF ok]] lock_resI [OF rw_find_moves [OF ok]] lock_resI [OF rw_found_moves [OF ok]]
    lock_resI [OF rw_test_moves [OF ok]] lock_resI [OF rw_write_moves [OF ok]] lock_resI [OF rw_release_moves [OF ok]]
    lock_resI [OF rw_head_moves [OF ok]] lock_resI [OF rw_count_moves [OF ok]]
  show ?thesis
    by (cases "ks t") (use False k in \<open>(blast intro: moves rw_search_locks [OF ok st] rw_count_locks [OF ok] rw_write_locks [OF ok])+\<close>)
qed

section \<open>Reachable states\<close>

lemma rw_reach_inv:
  assumes "(rw_sys_step st roles)\<^sup>*\<^sup>* s s'" "rinv h0 as (rwheap s) (rwpcs s)" "storage_ok st as"
  shows "\<exists>as'. rinv h0 as' (rwheap s') (rwpcs s') \<and> same_ends as as'"
  using assms(1)
proof (induction rule: rtranclp_induct)
  case base
  with assms(2) show ?case by (auto simp: same_ends_def)
next
  case (step s1 s2)
  then obtain as1 where 1: "rinv h0 as1 (rwheap s1) (rwpcs s1)" "same_ends as as1" by blast
  note st = storage_ok_same_ends [OF assms(3) 1(2)]
  from step.hyps(2) show ?case
  proof cases
    case (rw_thread r t k h)
    then have "rwpcs s1 t \<noteq> RFinished" by auto
    from rwstep_moves [OF 1(1) st this, of "rwstop s1" r "roles t"] rw_thread obtain as' where
      "rinv h0 as' h ((rwpcs s1)(t := k))" "same_ends as1 as'" by (auto simp: lock_res_def rmoves_def)
    moreover have "rwheap s2 = h" "rwpcs s2 = (rwpcs s1)(t := k)" using rw_thread(1) by (simp_all add: rw_move_def)
    ultimately show ?thesis using same_ends_trans [OF 1(2)] by metis
  next
    case rw_main_stop
    with 1 show ?thesis by auto
  qed
qed

definition rw_list_rep :: "rwnode heap \<Rightarrow> ptr \<Rightarrow> addr list \<Rightarrow> bool" where
  "rw_list_rep h p as \<longleftrightarrow> chain rnext h p as \<and> (\<forall>a n. h a = Some n \<longrightarrow> readers n = [] \<and> writer n = None)"

lemma rw_start_inv:
  assumes "rw_list_rep h (sfirst st) as"
  shows "rinv h as (rwheap (rw_start h)) (rwpcs (rw_start h))"
proof -
  have ch: "chain rnext h (sfirst st) as" and un: "\<And>a n. h a = Some n \<Longrightarrow> readers n = [] \<and> writer n = None"
    using assms by (auto simp: rw_list_rep_def)
  have link: "\<exists>n. h (as ! i) = Some n \<and> rnext n = succ_of as i" if "i < length as" for i
    using chain_nth [OF ch that] by (auto simp: succ_of_def)
  have "\<exists>n. h a = Some n \<and> node_ok n a (\<lambda>_. RIdle) \<and> (a \<noteq> last as \<longrightarrow> rnext n \<noteq> None)" if "a \<in> set as" for a
  proof -
    from that obtain i where i: "i < length as" "a = as ! i" by (auto simp: in_set_conv_nth)
    from link [OF i(1)] i(2) obtain n where n: "h a = Some n" "rnext n = succ_of as i" by auto
    have "Suc i < length as" if "a \<noteq> last as"
    proof -
      have "length as \<noteq> Suc i" using that i(2) last_conv_nth [of as] by (cases "as = []") auto
      with i(1) show ?thesis by simp
    qed
    with n un [OF n(1)] show ?thesis by (auto simp: node_ok_def succ_of_def)
  qed
  moreover have "rw_links_ok as h (\<lambda>_. RIdle)" using link by (fastforce simp: rw_links_ok_def)
  ultimately show ?thesis using chain_distinct [OF ch] by (simp add: rinv_def rw_nodes_ok_def rw_start_def)
qed

lemma rw_rest_list:
  assumes ok: "rinv h0 as h ks" and rest: "\<And>t. ks t \<in> {RIdle, RFinished}" and d: "dom h0 = set as" and ne: "as \<noteq> []"
  shows "rw_list_rep h (Some (hd as)) as"
proof -
  have none: "rholds (ks t) = {}" "wholds (ks t) = {}" "rdirty (ks t) = {}" for t using rest [of t] by auto
  have "h a = None \<longleftrightarrow> h0 a = None" for a
    using ok by (metis rinv_def map_option_is_None)
  then have dom: "dom h = set as" using d by (auto simp: dom_def)
  have link: "\<exists>n. h (as ! i) = Some n \<and> rnext n = succ_of as i" if "i < length as" for i
    using rinv_node [OF ok nth_mem [OF that]] ok that none by (auto simp: rinv_def rw_links_ok_def)
  have "chain rnext h (Some (as ! i)) (drop i as)" if "i < length as" for i
    using that
  proof (induction "length as - i" arbitrary: i)
    case (Suc k)
    from link [OF Suc.prems] obtain n where n: "h (as ! i) = Some n" "rnext n = succ_of as i" by blast
    have "chain rnext h (rnext n) (drop (Suc i) as)" using Suc n by (cases "Suc i < length as") (auto simp: succ_of_def)
    with n Suc.prems show ?case by (simp add: Cons_nth_drop_Suc [symmetric])
  qed simp
  from this [of 0] ne have "chain rnext h (Some (hd as)) as" by (simp add: hd_conv_nth)
  moreover have "readers n = [] \<and> writer n = None" if "h a = Some n" for a n
  proof -
    have "a \<in> set as" using that dom by auto
    from rinv_node [OF ok this] that have "node_ok n a ks" by auto
    with none show ?thesis by (cases "readers n"; cases "writer n") (auto simp: node_ok_def)
  qed
  ultimately show ?thesis by (simp add: rw_list_rep_def)
qed

section \<open>Properties\<close>

text \<open>
  Property C5. The list program with read-write locks is memory safe and loses nothing, in every interleaving of any
  number of swapping and counting threads over a list of more than three nodes: no statement dereferences \<open>NULL\<close> or a
  dead node or divides by zero, a node locked for writing is locked by no other thread, the strings in the nodes never
  change, and whenever no thread is at work the list is a permutation of the nodes it started with, with the same first and
  last node and every lock free. Its test that the nodes are still neighbours repairs what the gap between the read locks and the
  write locks would break; it does not prevent the deadlock of \<open>Swap_RW_Deadlock\<close>.
\<close>

theorem rw_swap_threads_safe:
  assumes "rw_list_rep h (sfirst st) as" "dom h = set as" "ssize st = int (length as)" "3 < length as"
    and "(rw_sys_step st roles)\<^sup>*\<^sup>* (rw_start h) s"
  shows "(\<forall>t r e. rwstep st (rwstop s) r (roles t) t (rwheap s) (rwpcs s t) \<noteq> Some (Inl e))
    \<and> (\<forall>t u. t \<noteq> u \<longrightarrow> wholds (rwpcs s t) \<inter> (rholds (rwpcs s u) \<union> wholds (rwpcs s u)) = {})
    \<and> (\<forall>a. map_option rvalue (rwheap s a) = map_option rvalue (h a))
    \<and> ((\<forall>t. rwpcs s t \<in> {RIdle, RFinished}) \<longrightarrow>
        (\<exists>bs. rw_list_rep (rwheap s) (sfirst st) bs \<and> mset bs = mset as \<and> hd bs = hd as \<and> last bs = last as))"
proof -
  have "as \<noteq> []" using assms(4) by auto
  moreover have "chain rnext h (sfirst st) as" using assms(1) by (simp add: rw_list_rep_def)
  ultimately have "sfirst st = Some (hd as)" by (cases as) auto
  with assms(3,4) have st: "storage_ok st as" by (simp add: storage_ok_def)
  from rw_reach_inv [OF assms(5) rw_start_inv [OF assms(1)] st] obtain bs where
    bs: "rinv h bs (rwheap s) (rwpcs s)" "same_ends as bs" by blast
  note st' = storage_ok_same_ends [OF st bs(2)]
  have "rwstep st (rwstop s) r (roles t) t (rwheap s) (rwpcs s t) \<noteq> Some (Inl e)" for t r e
    using rwstep_moves [OF bs(1) st', of t "rwstop s" r "roles t"]
    by (cases "rwpcs s t = RFinished") (auto simp: lock_res_def rmoves_def)
  moreover have "wholds (rwpcs s t) \<inter> (rholds (rwpcs s u) \<union> wholds (rwpcs s u)) = {}" if "t \<noteq> u" for t u
    using writer_alone [OF bs(1) _ not_sym [OF that]] by blast
  moreover have "map_option rvalue (rwheap s a) = map_option rvalue (h a)" for a using bs(1) by (simp add: rinv_def)
  moreover have "\<exists>bs. rw_list_rep (rwheap s) (sfirst st) bs \<and> mset bs = mset as \<and> hd bs = hd as \<and> last bs = last as"
    if "\<forall>t. rwpcs s t \<in> {RIdle, RFinished}"
  proof -
    have "set bs = set as" "bs \<noteq> []" using bs(2) \<open>as \<noteq> []\<close> by (auto simp: same_ends_def dest: mset_eq_setD)
    with rw_rest_list [OF bs(1)] that assms(2) have "rw_list_rep (rwheap s) (Some (hd bs)) bs" by simp
    with bs(2) st' show ?thesis by (auto simp: storage_ok_def same_ends_def)
  qed
  ultimately show ?thesis by blast
qed

text \<open>It holds in the deadlocked state, too.\<close>

lemma rw_list5_rep:
  "rw_list_rep rw_list5 (sfirst rw_storage5) [0, 1, 2, 3, 4]" "dom rw_list5 = set [0, 1, 2, 3, 4]"
  "ssize rw_storage5 = int (length [0 :: addr, 1, 2, 3, 4])" "3 < length [0 :: addr, 1, 2, 3, 4]"
  by (auto simp: rw_list_rep_def rw_list5_def rw_storage5_def split: if_splits)

theorem rw_swap_threads_safe_witness:
  "(rw_sys_step rw_storage5 (\<lambda>_. None))\<^sup>*\<^sup>* (rw_start rw_list5) (rw_stuck 0 1)
   \<and> (\<forall>t r e. rwstep rw_storage5 (rwstop (rw_stuck 0 1)) r None t (rwheap (rw_stuck 0 1)) (rwpcs (rw_stuck 0 1) t) \<noteq> Some (Inl e))
   \<and> map_option rvalue (rwheap (rw_stuck 0 1) 2) = Some [99]"
proof -
  have r: "(rw_sys_step rw_storage5 (\<lambda>_. None))\<^sup>*\<^sup>* (rw_start rw_list5) (rw_stuck 0 1)" by (rule stuck_reachable) simp_all
  note W = rw_swap_threads_safe [OF rw_list5_rep r]
  have "\<forall>t r e. rwstep rw_storage5 (rwstop (rw_stuck 0 1)) r None t (rwheap (rw_stuck 0 1)) (rwpcs (rw_stuck 0 1) t) \<noteq> Some (Inl e)"
    using W by blast
  moreover from W have "map_option rvalue (rwheap (rw_stuck 0 1) 2) = map_option rvalue (rw_list5 2)" by blast
  then have "map_option rvalue (rwheap (rw_stuck 0 1) 2) = Some [99]" by (simp add: rw_list5_def)
  ultimately show ?thesis using r by blast
qed

end
