(* ===== verification/Swap_RW_Laws.thy ===== *)
theory Swap_RW_Laws
  imports Swap_RW Swap_Laws
begin

text \<open>
  The functions of \<open>sync/2.3/2.3m.c\<close> for a thread that is not disturbed. They refine those of
  \<open>2.3-2.4.c\<close>: seen through the abstraction that forgets how a node is locked, a function with
  read-write locks does what its version with mutexes does, whenever that does not wait for ever.
\<close>

section \<open>The functions\<close>

fun rw_walk :: "nat \<Rightarrow> nat \<Rightarrow> rwnode heap \<Rightarrow> ptr \<Rightarrow> (ptr \<times> rwnode heap) res option" where
  "rw_walk t 0 h prev = Some (Inr (prev, h))"
| "rw_walk t (Suc k) h prev = wbind (Some (deref h prev)) (\<lambda>n.
     if rnext n = None then Some (Inr (prev, h))
     else wbind (rw_rdlock h t (rnext n)) (\<lambda>h.
          wbind (rw_unlock h t prev) (\<lambda>h. rw_walk t k h (rnext n))))"

text \<open>From read locks to write locks: everything is let go in between.\<close>

definition rw_relock :: "nat \<Rightarrow> rwnode heap \<Rightarrow> ptr \<Rightarrow> ptr \<Rightarrow> ptr \<Rightarrow> rwnode heap res option" where
  "rw_relock t h prev current next =
     wbind (rw_unlock h t prev) (\<lambda>h. wbind (rw_unlock h t current) (\<lambda>h. wbind (rw_unlock h t next) (\<lambda>h.
     wbind (rw_wrlock h t prev) (\<lambda>h. wbind (rw_wrlock h t current) (\<lambda>h. rw_wrlock h t next)))))"

definition rw_release :: "nat \<Rightarrow> rwnode heap \<Rightarrow> ptr \<Rightarrow> ptr \<Rightarrow> ptr \<Rightarrow> bool \<Rightarrow> (bool \<times> rwnode heap) res option" where
  "rw_release t h prev current next result =
     wbind (rw_unlock h t prev) (\<lambda>h. wbind (rw_unlock h t current) (\<lambda>h. wbind (rw_unlock h t next) (\<lambda>h. Some (Inr (result, h)))))"

text \<open>\<open>prev->next != current || current->next != next\<close>\<close>

definition rw_moved :: "rwnode heap \<Rightarrow> ptr \<Rightarrow> ptr \<Rightarrow> ptr \<Rightarrow> bool res option" where
  "rw_moved h prev current next = wbind (Some (deref h prev)) (\<lambda>p.
     if rnext p \<noteq> current then Some (Inr True)
     else wbind (Some (deref h current)) (\<lambda>c. Some (Inr (rnext c \<noteq> next))))"

text \<open>The rest of a round, once the three nodes are found, and from the node the walk has come to.\<close>

definition rw_exchange :: "nat \<Rightarrow> rwnode heap \<Rightarrow> ptr \<Rightarrow> ptr \<Rightarrow> ptr \<Rightarrow> (bool \<times> rwnode heap) res option" where
  "rw_exchange t h prev current next =
     wbind (rw_relock t h prev current next) (\<lambda>h.
     wbind (rw_moved h prev current next) (\<lambda>moved.
       if moved then rw_release t h prev current next False
       else wbind (Some (deref h next)) (\<lambda>nn.
         wbind (links h prev next) (\<lambda>h.
         wbind (links h current (rnext nn)) (\<lambda>h.
         wbind (links h next current) (\<lambda>h. rw_release t h prev current next True))))))"

definition rw_swap_at :: "nat \<Rightarrow> rwnode heap \<Rightarrow> ptr \<Rightarrow> (bool \<times> rwnode heap) res option" where
  "rw_swap_at t h prev =
     wbind (Some (deref h prev)) (\<lambda>pn.
       if rnext pn = None then wbind (rw_unlock h t prev) (\<lambda>h. Some (Inr (False, h)))
       else wbind (Some (deref h (rnext pn))) (\<lambda>cn.
         if rnext cn = None then wbind (rw_unlock h t prev) (\<lambda>h. Some (Inr (False, h)))
         else wbind (rw_rdlock h t (rnext pn)) (\<lambda>h.
           wbind (Some (deref h (rnext pn))) (\<lambda>cn.
           wbind (rw_rdlock h t (rnext cn)) (\<lambda>h. rw_exchange t h prev (rnext pn) (rnext cn))))))"

definition rw_swap_round :: "nat \<Rightarrow> rwnode heap \<Rightarrow> ptr \<Rightarrow> nat \<Rightarrow> (bool \<times> rwnode heap) res option" where
  "rw_swap_round t h first randElem =
     wbind (rw_rdlock h t first) (\<lambda>h. wbind (rw_walk t (randElem - 1) h first) (\<lambda>(prev, h). rw_swap_at t h prev))"

fun rw_swap_loop :: "nat \<Rightarrow> rwnode heap \<Rightarrow> Storage \<Rightarrow> nat list \<Rightarrow> (int \<times> rwnode heap) res option" where
  "rw_swap_loop t h st [] = Some (Inr (0, h))"
| "rw_swap_loop t h st (r # rs) =
     (if ssize st - 3 = 0 then Some (Inl DivByZero)
      else wbind (rw_swap_round t h (sfirst st) (nat (int r mod (ssize st - 3) + 1))) (\<lambda>(done, h).
        if done then Some (Inr (1, h)) else rw_swap_loop t h st rs))"

definition rw_safe_swap_nodes :: "nat \<Rightarrow> rwnode heap \<Rightarrow> Storage \<Rightarrow> nat list \<Rightarrow> (int \<times> rwnode heap) res option" where
  "rw_safe_swap_nodes t h st rs = (if ssize st < 3 then Some (Inr (0, h)) else rw_swap_loop t h st rs)"

fun rw_count_pass :: "nat \<Rightarrow> (nat \<Rightarrow> nat \<Rightarrow> bool) \<Rightarrow> nat \<Rightarrow> rwnode heap \<Rightarrow> ptr \<Rightarrow> usize \<Rightarrow> (usize \<times> rwnode heap) res option" where
  "rw_count_pass t cmp 0 h current local_count = Some (Inr (local_count, h))"
| "rw_count_pass t cmp (Suc k) h current local_count =
     (if current = None then Some (Inr (local_count, h))
      else wbind (Some (deref h current)) (\<lambda>n.
        if rnext n = None then Some (Inr (local_count, h))
        else wbind (rw_rdlock h t current) (\<lambda>h.
          wbind (Some (deref h current)) (\<lambda>n.
          wbind (rw_rdlock h t (rnext n)) (\<lambda>h.
          wbind (Some (deref h (rnext n))) (\<lambda>n2.
            let local_count = (if cmp (length (rvalue n)) (length (rvalue n2)) then local_count + 1 else local_count) in
            wbind (rw_unlock h t current) (\<lambda>h.
            wbind (rw_unlock h t (rnext n)) (\<lambda>h. rw_count_pass t cmp k h (rnext n) local_count))))))))"

definition rw_count_ascending :: "nat \<Rightarrow> nat \<Rightarrow> rwnode heap \<Rightarrow> Storage \<Rightarrow> (usize \<times> rwnode heap) res option" where
  "rw_count_ascending t k h st = rw_count_pass t (<) k h (sfirst st) 0"

definition rw_count_descending :: "nat \<Rightarrow> nat \<Rightarrow> rwnode heap \<Rightarrow> Storage \<Rightarrow> (usize \<times> rwnode heap) res option" where
  "rw_count_descending t k h st = rw_count_pass t (>) k h (sfirst st) 0"

definition rw_count_equal :: "nat \<Rightarrow> nat \<Rightarrow> rwnode heap \<Rightarrow> Storage \<Rightarrow> (usize \<times> rwnode heap) res option" where
  "rw_count_equal t k h st = rw_count_pass t (=) k h (sfirst st) 0"

section \<open>The abstraction\<close>

definition node_of :: "rwnode \<Rightarrow> Node" where
  "node_of n = \<lparr>nvalue = rvalue n, nnext = rnext n, sync = (writer n \<noteq> None \<or> readers n \<noteq> [])\<rparr>"

definition heap_of :: "rwnode heap \<Rightarrow> Node heap" where
  "heap_of h a = map_option node_of (h a)"

text \<open>No other thread has a lock, and this one locks a node once at most.\<close>

definition only :: "nat \<Rightarrow> rwnode heap \<Rightarrow> bool" where
  "only t h \<longleftrightarrow> (\<forall>a n. h a = Some n \<longrightarrow>
     (readers n, writer n) \<in> {([], None), ([t], None), ([], Some t)})"

definition hrel :: "nat \<Rightarrow> Node heap \<Rightarrow> rwnode heap \<Rightarrow> bool" where
  "hrel t h h' \<longleftrightarrow> h = heap_of h' \<and> only t h'"

text \<open>\<open>m'\<close> does what \<open>m\<close> does, unless \<open>m\<close> waits for ever.\<close>

definition sim :: "('a \<Rightarrow> 'b \<Rightarrow> bool) \<Rightarrow> 'a res option \<Rightarrow> 'b res option \<Rightarrow> bool" where
  "sim R m m' \<longleftrightarrow> (case m of None \<Rightarrow> True | Some (Inl e) \<Rightarrow> m' = Some (Inl e) | Some (Inr x) \<Rightarrow> (\<exists>y. m' = Some (Inr y) \<and> R x y))"

definition with_heap :: "nat \<Rightarrow> 'a \<times> Node heap \<Rightarrow> 'a \<times> rwnode heap \<Rightarrow> bool" where
  "with_heap t x y \<longleftrightarrow> fst x = fst y \<and> hrel t (snd x) (snd y)"

lemma sim_return [intro]: "R x y \<Longrightarrow> sim R (Some (Inr x)) (Some (Inr y))"
  by (simp add: sim_def)

lemma sim_fault [intro]: "sim R (Some (Inl e)) (Some (Inl e))"
  by (simp add: sim_def)

lemma sim_bind:
  assumes "sim R m m'" "\<And>x y. m = Some (Inr x) \<Longrightarrow> R x y \<Longrightarrow> sim S (f x) (g y)"
  shows "sim S (wbind m f) (wbind m' g)"
proof (cases "\<exists>x. m = Some (Inr x)")
  case True
  then obtain x y where "m = Some (Inr x)" "m' = Some (Inr y)" "R x y" using assms(1) by (auto simp: sim_def)
  with assms(2) show ?thesis by simp
next
  case False
  with assms(1) show ?thesis by (cases m) (auto simp: sim_def wbind_def split: sum.splits)
qed

lemma with_heapI [intro]: "hrel t h h' \<Longrightarrow> with_heap t (x, h) (x, h')"
  by (simp add: with_heap_def)

lemma with_heapE:
  assumes "with_heap t x y"
  obtains v h h' where "x = (v, h)" "y = (v, h')" "hrel t h h'"
  using assms by (cases x; cases y) (simp add: with_heap_def)

lemma sim_deref: "hrel t h h' \<Longrightarrow> sim (\<lambda>n n'. n = node_of n') (Some (deref h p)) (Some (deref h' p))"
  by (auto simp: hrel_def heap_of_def deref_def sim_def split: option.splits)

text \<open>What a pointer can point to.\<close>

lemma hrel_cases:
  assumes "hrel t h h'"
  obtains (null) "p = None"
  | (dead) a where "p = Some a" "h' a = None" "h a = None"
  | (live) a n where "p = Some a" "h' a = Some n" "h a = Some (node_of n)"
      "(readers n, writer n) \<in> {([], None), ([t], None), ([], Some t)}"
proof (cases p)
  case (Some a)
  with assms that show ?thesis by (cases "h' a") (auto simp: hrel_def heap_of_def only_def)
qed (use that in blast)

lemma hrel_upd:
  assumes "hrel t h h'" "node = node_of n" "(readers n, writer n) \<in> {([], None), ([t], None), ([], Some t)}"
  shows "hrel t (h(a \<mapsto> node)) (h'(a \<mapsto> n))"
  using assms by (auto simp: hrel_def heap_of_def only_def fun_eq_iff)

lemma sim_rdlock:
  assumes r: "hrel t h h'"
  shows "sim (hrel t) (mutex_lock_node h p) (rw_rdlock h' t p)"
  by (rule hrel_cases [OF r, of p]) (auto simp: sim_def mutex_lock_node_def rw_rdlock_def node_of_def intro!: hrel_upd [OF r])

lemma sim_wrlock:
  assumes r: "hrel t h h'"
  shows "sim (hrel t) (mutex_lock_node h p) (rw_wrlock h' t p)"
  by (rule hrel_cases [OF r, of p]) (auto simp: sim_def mutex_lock_node_def rw_wrlock_def node_of_def intro!: hrel_upd [OF r])

lemma sim_unlock:
  assumes r: "hrel t h h'"
  shows "sim (hrel t) (mutex_unlock_node h p) (rw_unlock h' t p)"
  by (rule hrel_cases [OF r, of p]) (auto simp: sim_def mutex_unlock_node_def rw_unlock_def node_of_def intro!: hrel_upd [OF r])

lemma sim_link:
  assumes r: "hrel t h h'"
  shows "sim (hrel t) (Some (store h p (\<lambda>n. n\<lparr>nnext := q\<rparr>))) (links h' p q)"
  by (rule hrel_cases [OF r, of p]) (auto simp: sim_def links_def node_of_def intro!: hrel_upd [OF r])

lemma node_of_next [simp]: "nnext (node_of n) = rnext n" "nvalue (node_of n) = rvalue n"
  by (simp_all add: node_of_def)

section \<open>Walking and counting\<close>

lemma sim_walk:
  assumes "hrel t h h'"
  shows "sim (with_heap t) (walk k h p) (rw_walk t k h' p)"
  using assms
proof (induction k arbitrary: h h' p)
  case (Suc k)
  show ?case unfolding walk.simps rw_walk.simps
    by (rule sim_bind [OF sim_deref [OF Suc.prems]])
      (auto intro!: Suc.prems Suc.IH sim_bind [OF sim_rdlock] sim_bind [OF sim_unlock])
qed auto

lemma sim_count_pass:
  assumes "hrel t h h'"
  shows "sim (with_heap t) (count_pass cmp k h p c) (rw_count_pass t cmp k h' p c)"
  using assms
proof (induction k arbitrary: h h' p c)
  case (Suc k)
  show ?case
  proof (cases "p = None")
    case False
    show ?thesis unfolding count_pass.simps rw_count_pass.simps if_not_P [OF False]
      by (rule sim_bind [OF sim_deref [OF Suc.prems]]) (auto simp: Let_def intro!: Suc.prems Suc.IH sim_bind [OF sim_deref] sim_bind [OF sim_rdlock] sim_bind [OF sim_unlock])
  qed (use Suc.prems in auto)
qed auto

section \<open>Swapping\<close>

definition is_locked :: "Node heap \<Rightarrow> ptr \<Rightarrow> bool" where
  "is_locked h p \<longleftrightarrow> (\<exists>a n. p = Some a \<and> h a = Some n \<and> sync n)"

lemma lock_nodeE:
  assumes "mutex_lock_node h p = Some (Inr h')"
  obtains a n where "p = Some a" "h a = Some n" "\<not> sync n" "h' = h(a \<mapsto> n\<lparr>sync := True\<rparr>)"
  using assms by (cases p) (auto simp: mutex_lock_node_def deref_def wbind_def store_def split: option.splits sum.splits if_splits)

lemma lock_is_locked:
  assumes "mutex_lock_node h p = Some (Inr h')"
  shows "is_locked h' p" "is_locked h q \<Longrightarrow> is_locked h' q \<and> q \<noteq> p"
  using assms by (auto simp: is_locked_def elim!: lock_nodeE)

lemma walk_locked: "is_locked h p \<Longrightarrow> walk k h p = Some (Inr (q, h')) \<Longrightarrow> is_locked h' q"
proof (induction k arbitrary: h p)
  case (Suc k)
  from Suc.prems obtain a n where a: "p = Some a" "h a = Some n" by (auto simp: is_locked_def)
  show ?case
  proof (cases "nnext n")
    case None
    with Suc.prems a show ?thesis by auto
  next
    case (Some b)
    with Suc.prems a obtain h1 where h1: "mutex_lock_node h (Some b) = Some (Inr h1)"
        "wbind (mutex_unlock_node h1 p) (\<lambda>h. walk k h (Some b)) = Some (Inr (q, h'))"
      by (auto simp: wbind_def split: option.splits sum.splits)
    have l: "is_locked h1 (Some b)" "is_locked h1 p" "p \<noteq> Some b" using lock_is_locked [OF h1(1)] Suc.prems(1) by auto
    then obtain m where m: "h1 a = Some m" using a by (auto simp: is_locked_def)
    have "is_locked (h1(a \<mapsto> m\<lparr>sync := False\<rparr>)) (Some b)" using l a(1) by (auto simp: is_locked_def)
    moreover have "walk k (h1(a \<mapsto> m\<lparr>sync := False\<rparr>)) (Some b) = Some (Inr (q, h'))"
      using h1(2) a(1) m by (simp add: mutex_unlock_node_def)
    ultimately show ?thesis by (rule Suc.IH)
  qed
qed simp

text \<open>Giving up three locks and taking them again changes nothing, when nobody comes in between.\<close>

lemma relock_same:
  assumes "is_locked h p" "is_locked h c" "is_locked h n" "p \<noteq> c" "p \<noteq> n" "c \<noteq> n"
  shows "wbind (mutex_unlock_node h p) (\<lambda>h. wbind (mutex_unlock_node h c) (\<lambda>h. wbind (mutex_unlock_node h n) (\<lambda>h.
    wbind (mutex_lock_node h p) (\<lambda>h. wbind (mutex_lock_node h c) (\<lambda>h. mutex_lock_node h n))))) = Some (Inr h)"
proof -
  from assms(1-3) obtain a b d x y z where
    n: "p = Some a" "h a = Some x" "sync x" "c = Some b" "h b = Some y" "sync y" "n = Some d" "h d = Some z" "sync z"
    unfolding is_locked_def by blast
  have r: "x\<lparr>sync := True\<rparr> = x" "y\<lparr>sync := True\<rparr> = y" "z\<lparr>sync := True\<rparr> = z"
    using n(3,6,9) by simp_all
  show ?thesis using n assms(4-6)
    by (simp add: mutex_unlock_node_def mutex_lock_node_def r fun_eq_iff)
qed

lemma sim_relock:
  assumes "hrel t h h'" "is_locked h p" "is_locked h c" "is_locked h n" "p \<noteq> c" "p \<noteq> n" "c \<noteq> n"
  obtains h'' where "rw_relock t h' p c n = Some (Inr h'')" "hrel t h h''"
proof -
  have "sim (hrel t) (Some (Inr h)) (rw_relock t h' p c n)"
    unfolding rw_relock_def relock_same [OF assms(2-7), symmetric]
    by (auto intro!: assms(1) sim_wrlock sim_bind [OF sim_unlock] sim_bind [OF sim_wrlock])
  with that show ?thesis by (auto simp: sim_def)
qed

text \<open>The rest of a round with mutexes, and its part after the three nodes are locked.\<close>

definition exchange :: "Node heap \<Rightarrow> ptr \<Rightarrow> ptr \<Rightarrow> ptr \<Rightarrow> (bool \<times> Node heap) res option" where
  "exchange h prev current next = wbind (Some (deref h next)) (\<lambda>nn.
     wbind (Some (store h prev (\<lambda>n. n\<lparr>nnext := next\<rparr>))) (\<lambda>h.
     wbind (Some (store h current (\<lambda>n. n\<lparr>nnext := nnext nn\<rparr>))) (\<lambda>h.
     wbind (Some (store h next (\<lambda>n. n\<lparr>nnext := current\<rparr>))) (\<lambda>h.
     wbind (mutex_unlock_node h prev) (\<lambda>h.
     wbind (mutex_unlock_node h current) (\<lambda>h.
     wbind (mutex_unlock_node h next) (\<lambda>h. Some (Inr (True, h)))))))))"

definition swap_at :: "Node heap \<Rightarrow> ptr \<Rightarrow> (bool \<times> Node heap) res option" where
  "swap_at h prev = wbind (Some (deref h prev)) (\<lambda>pn.
     if nnext pn = None then wbind (mutex_unlock_node h prev) (\<lambda>h. Some (Inr (False, h)))
     else wbind (Some (deref h (nnext pn))) (\<lambda>cn.
       if nnext cn = None then wbind (mutex_unlock_node h prev) (\<lambda>h. Some (Inr (False, h)))
       else wbind (mutex_lock_node h (nnext pn)) (\<lambda>h.
         wbind (Some (deref h (nnext pn))) (\<lambda>cn.
         wbind (mutex_lock_node h (nnext cn)) (\<lambda>h. exchange h prev (nnext pn) (nnext cn))))))"

lemma swap_round_at:
  "swap_round h first e = wbind (mutex_lock_node h first) (\<lambda>h. wbind (walk (e - 1) h first) (\<lambda>(prev, h). swap_at h prev))"
  unfolding swap_round_def swap_at_def exchange_def Let_def by (rule refl)

lemma not_moved:
  assumes "hrel t h h'" "h a = Some x" "nnext x = Some b" "h b = Some y"
  shows "rw_moved h' (Some a) (Some b) (nnext y) = Some (Inr False)"
  using assms by (auto simp: hrel_def heap_of_def rw_moved_def)

lemma sim_exchange:
  assumes r: "hrel t h h'" and n: "h a = Some x" "nnext x = Some b" "h b = Some y"
    and l: "is_locked h (Some a)" "is_locked h (Some b)" "is_locked h (nnext y)" "Some a \<noteq> Some b" "Some a \<noteq> nnext y" "Some b \<noteq> nnext y"
  shows "sim (with_heap t) (exchange h (Some a) (Some b) (nnext y)) (rw_exchange t h' (Some a) (Some b) (nnext y))"
proof -
  obtain h'' where h'': "rw_relock t h' (Some a) (Some b) (nnext y) = Some (Inr h'')" "hrel t h h''"
    using sim_relock [OF r l] by blast
  show ?thesis unfolding rw_exchange_def h''(1) wbind_simps not_moved [OF h''(2) n] if_False exchange_def rw_release_def
    by (rule sim_bind [OF sim_deref [OF h''(2)]])
      (auto intro!: h''(2) sim_bind [OF sim_link] sim_bind [OF sim_unlock])
qed

text \<open>Locking the second and the third node.\<close>

lemma sim_lock_two:
  assumes r: "hrel t h h'" and p: "is_locked h (Some a)" "h a = Some x" "nnext x = Some b"
  shows "sim (with_heap t)
    (wbind (mutex_lock_node h (Some b)) (\<lambda>h. wbind (Some (deref h (Some b))) (\<lambda>cn.
       wbind (mutex_lock_node h (nnext cn)) (\<lambda>h. exchange h (Some a) (Some b) (nnext cn)))))
    (wbind (rw_rdlock h' t (Some b)) (\<lambda>h. wbind (Some (deref h (Some b))) (\<lambda>cn.
       wbind (rw_rdlock h t (rnext cn)) (\<lambda>h. rw_exchange t h (Some a) (Some b) (rnext cn)))))"
proof (rule sim_bind [OF sim_rdlock [OF r]])
  fix h1 h1'
  assume l1: "mutex_lock_node h (Some b) = Some (Inr h1)" and r1: "hrel t h1 h1'"
  have k1: "is_locked h1 (Some a)" "is_locked h1 (Some b)" "a \<noteq> b" using lock_is_locked [OF l1] p(1) by auto
  have a1: "h1 a = Some x" using l1 p(2) k1(3) by (auto elim!: lock_nodeE)
  show "sim (with_heap t)
      (wbind (Some (deref h1 (Some b))) (\<lambda>cn. wbind (mutex_lock_node h1 (nnext cn)) (\<lambda>h. exchange h (Some a) (Some b) (nnext cn))))
      (wbind (Some (deref h1' (Some b))) (\<lambda>cn. wbind (rw_rdlock h1' t (rnext cn)) (\<lambda>h. rw_exchange t h (Some a) (Some b) (rnext cn))))"
  proof (rule sim_bind [OF sim_deref [OF r1]])
    fix y y'
    assume "Some (deref h1 (Some b)) = Some (Inr y)" and y': "y = node_of y'"
    then have y: "h1 b = Some y" by (simp add: deref_def split: option.splits)
    show "sim (with_heap t) (wbind (mutex_lock_node h1 (nnext y)) (\<lambda>h. exchange h (Some a) (Some b) (nnext y)))
        (wbind (rw_rdlock h1' t (rnext y')) (\<lambda>h. rw_exchange t h (Some a) (Some b) (rnext y')))"
      unfolding node_of_next(1) [of y', folded y', symmetric]
    proof (rule sim_bind [OF sim_rdlock [OF r1]])
      fix h2 h2'
      assume l2: "mutex_lock_node h1 (nnext y) = Some (Inr h2)" and r2: "hrel t h2 h2'"
      have k2: "is_locked h2 (Some a)" "is_locked h2 (Some b)" "is_locked h2 (nnext y)" "Some a \<noteq> nnext y" "Some b \<noteq> nnext y"
        using lock_is_locked [OF l2] k1 by auto
      then have "h2 a = Some x" "h2 b = Some y" using l2 a1 y by (auto elim!: lock_nodeE)
      with k1(3) k2 show "sim (with_heap t) (exchange h2 (Some a) (Some b) (nnext y)) (rw_exchange t h2' (Some a) (Some b) (nnext y))"
        by (intro sim_exchange [OF r2 _ p(3)]) simp_all
    qed
  qed
qed

lemma sim_swap_at:
  assumes r: "hrel t h h'" and p: "is_locked h (Some a)" "h a = Some x"
  shows "sim (with_heap t) (swap_at h (Some a)) (rw_swap_at t h' (Some a))"
proof -
  obtain x' where x': "h' a = Some x'" "x = node_of x'" using r p(2) by (auto simp: hrel_def heap_of_def)
  have give_up: "sim (with_heap t) (wbind (mutex_unlock_node h (Some a)) (\<lambda>h. Some (Inr (False, h))))
      (wbind (rw_unlock h' t (Some a)) (\<lambda>h. Some (Inr (False, h))))"
    by (auto intro!: r sim_bind [OF sim_unlock])
  show ?thesis
  proof (cases "nnext x")
    case None
    with p(2) x' give_up show ?thesis by (simp add: swap_at_def rw_swap_at_def)
  next
    case (Some b)
    with x' have b: "rnext x' = Some b" by simp
    note two = sim_lock_two [OF r p Some]
    show ?thesis
      by (rule hrel_cases [OF r, of "Some b"])
        (use p(2) x' Some b give_up two in \<open>auto simp: swap_at_def rw_swap_at_def\<close>)
  qed
qed

lemma sim_swap_round:
  assumes r: "hrel t h h'"
  shows "sim (with_heap t) (swap_round h first e) (rw_swap_round t h' first e)"
  unfolding swap_round_at rw_swap_round_def
proof (rule sim_bind [OF sim_rdlock [OF r]], rule sim_bind [OF sim_walk], assumption)
  fix h1 w w'
  assume l1: "mutex_lock_node h first = Some (Inr h1)" and w: "walk (e - 1) h1 first = Some (Inr w)" and ww: "with_heap t w w'"
  obtain prev h2 h2' where w2: "w = (prev, h2)" "w' = (prev, h2')" "hrel t h2 h2'"
    using with_heapE [OF ww] by blast
  have p: "is_locked h2 prev" using walk_locked [OF lock_is_locked(1) [OF l1]] w w2(1) by blast
  then obtain a x where a: "prev = Some a" "h2 a = Some x" by (auto simp: is_locked_def)
  with sim_swap_at [OF w2(3), of a x] p w2
  show "sim (with_heap t) (case w of (prev, h) \<Rightarrow> swap_at h prev) (case w' of (prev, h) \<Rightarrow> rw_swap_at t h prev)" by simp
qed

lemma sim_swap_loop:
  assumes "hrel t h h'"
  shows "sim (with_heap t) (swap_loop h st rs) (rw_swap_loop t h' st rs)"
  using assms
proof (induction rs arbitrary: h h')
  case (Cons r rs)
  show ?case
  proof (cases "ssize st - 3 = 0")
    case False
    show ?thesis unfolding swap_loop.simps rw_swap_loop.simps if_not_P [OF False]
      by (rule sim_bind [OF sim_swap_round [OF Cons.prems]]) (auto elim!: with_heapE intro!: Cons.IH sim_return with_heapI)
  qed auto
qed auto

section \<open>Building and freeing\<close>

lemma heap_of_simps [simp]:
  "h a = None \<Longrightarrow> heap_of h a = None" "h a = Some n \<Longrightarrow> heap_of h a = Some (node_of n)"
  by (simp_all add: heap_of_def)

lemma heap_of_upd: "heap_of (h(a \<mapsto> n)) = (heap_of h)(a \<mapsto> node_of n)"
  by (simp add: heap_of_def fun_eq_iff)

lemma chain_heap_of: "chain rnext h p as \<longleftrightarrow> chain nnext (heap_of h) p as"
proof (induction as arbitrary: p)
  case (Cons a as)
  then show ?case by (cases "h a") (auto simp: heap_of_def)
qed simp

lemma rw_last_node_run: "chain rnext h p as \<Longrightarrow> as \<noteq> [] \<Longrightarrow> rw_last_node h p = Some (Inr (Some (last as)))"
proof (induction as arbitrary: p)
  case (Cons a as)
  then obtain n where n: "p = Some a" "h a = Some n" "chain rnext h (rnext n) as" by auto
  show ?case
  proof (cases as)
    case Nil
    with n show ?thesis by (subst rw_last_node.simps) simp
  next
    case (Cons b bs)
    with n Cons.IH [OF n(3)] show ?thesis by (subst rw_last_node.simps) simp
  qed
qed simp

definition rw_result :: "(int \<times> rwnode heap \<times> Storage) res option \<Rightarrow> (int \<times> Node heap \<times> Storage) res option" where
  "rw_result = map_option (map_sum id (\<lambda>(r, h, st). (r, heap_of h, st)))"

lemma rw_add_node_eq:
  assumes "list_rep (heap_of h) (sfirst st) as" "h m = None"
  shows "rw_result (rw_add_node h st (Some m) v 0) = add_node (heap_of h) st (Some m) v"
proof -
  define x where "x = \<lparr>rvalue = cstr (strncpy v (MAX_STRING_LENGTH - 1)), rnext = None, readers = [], writer = None\<rparr>"
  have x: "node_of x = \<lparr>nvalue = cstr (strncpy v (MAX_STRING_LENGTH - 1)), nnext = None, sync = False\<rparr>" by (simp add: node_of_def x_def)
  have ch: "chain nnext (heap_of h) (sfirst st) as" using assms(1) by (simp add: list_rep_def)
  have c: "rw_create_node h (Some m) v 0 = (Some m, h(m \<mapsto> x))" "create_node (heap_of h) (Some m) v = (Some m, heap_of (h(m \<mapsto> x)))"
    by (simp_all add: rw_create_node_def create_node_def x heap_of_upd) (simp add: x_def)
  show ?thesis
  proof (cases "as = []")
    case True
    with ch c show ?thesis by (simp add: rw_add_node_def add_node_def rw_result_def)
  next
    case False
    then obtain b where f: "sfirst st = Some b" using chain_null_iff [OF ch] by blast
    have "m \<notin> set as" using chain_dom [OF ch] assms(2) by auto
    from chain_update_other [OF ch this] have ch': "chain nnext (heap_of (h(m \<mapsto> x))) (sfirst st) as" by (simp add: heap_of_upd)
    then obtain n' where n': "heap_of (h(m \<mapsto> x)) (last as) = Some n'" using chain_last_live [OF ch' False] by blast
    then obtain n where n: "(h(m \<mapsto> x)) (last as) = Some n" "n' = node_of n" by (auto simp: heap_of_def)
    have "(node_of n)\<lparr>nnext := Some m\<rparr> = node_of (n\<lparr>rnext := Some m\<rparr>)" by (simp add: node_of_def)
    with c f n n' last_node_run [OF ch' False] rw_last_node_run [OF _ False] ch' show ?thesis
      by (simp add: rw_add_node_def add_node_def rw_result_def chain_heap_of heap_of_upd)
  qed
qed

lemma rw_free_list_run:
  assumes "list_rep (heap_of h) (sfirst st) as" "dom h = set as"
  shows "rw_free_list h st = Some (Inr (Map.empty, st\<lparr>sfirst := None\<rparr>))"
proof -
  have "chain rnext h (sfirst st) as" using assms(1) by (simp add: list_rep_def chain_heap_of)
  from free_chain_chain [OF this] assms(2) show ?thesis by (simp add: rw_free_list_def restrict_dom_empty)
qed

text \<open>When a node cannot be allocated, \<open>main\<close> frees the nodes it has and gives up.\<close>

lemma rw_build_gives_up:
  assumes "list_rep (heap_of h) (sfirst st) as" "dom h = set as"
  shows "rw_build h st ((None, v) # vs) = Some (Inr (1, Map.empty, st\<lparr>sfirst := None\<rparr>))"
  using rw_free_list_run [OF assms] by (simp add: rw_add_node_def rw_create_node_def)

section \<open>Property\<close>

definition rw_view :: "('a \<times> rwnode heap) res option \<Rightarrow> ('a \<times> Node heap) res option" where
  "rw_view = map_option (map_sum id (map_prod id heap_of))"

lemma sim_view: "sim (with_heap t) m m' \<Longrightarrow> m = Some res \<Longrightarrow> rw_view m' = Some res"
  by (cases res) (auto simp: sim_def rw_view_def hrel_def elim!: with_heapE)

text \<open>
  Property C20. The list functions with read-write locks refine those with mutexes: for a thread that
  is alone, and seen through the abstraction of the nodes, a swap, the three counting passes, the
  insertion of a value and the freeing of the list have the result, or the fault, of their versions
  with a mutex per node, and leave the same list with the same nodes locked.
\<close>

theorem rw_functions_refine_mutex_functions:
  assumes "only t h"
  shows "(\<forall>res. safe_swap_nodes (heap_of h) st rs = Some res \<longrightarrow> rw_view (rw_safe_swap_nodes t h st rs) = Some res)
    \<and> (\<forall>res. count_ascending k (heap_of h) st = Some res \<longrightarrow> rw_view (rw_count_ascending t k h st) = Some res)
    \<and> (\<forall>res. count_descending k (heap_of h) st = Some res \<longrightarrow> rw_view (rw_count_descending t k h st) = Some res)
    \<and> (\<forall>res. count_equal k (heap_of h) st = Some res \<longrightarrow> rw_view (rw_count_equal t k h st) = Some res)
    \<and> (\<forall>as m v. list_rep (heap_of h) (sfirst st) as \<and> h m = None \<longrightarrow>
        rw_result (rw_add_node h st (Some m) v 0) = add_node (heap_of h) st (Some m) v)
    \<and> (\<forall>as. list_rep (heap_of h) (sfirst st) as \<and> dom h = set as \<longrightarrow>
        rw_free_list h st = Some (Inr (Map.empty, st\<lparr>sfirst := None\<rparr>)) \<and>
        free_list (heap_of h) st = Some (Inr (Map.empty, st\<lparr>sfirst := None\<rparr>)))"
proof -
  have r: "hrel t (heap_of h) h" using assms by (simp add: hrel_def)
  have "sim (with_heap t) (safe_swap_nodes (heap_of h) st rs) (rw_safe_swap_nodes t h st rs)"
    using sim_swap_loop [OF r, of st rs] r by (auto simp: safe_swap_nodes_def rw_safe_swap_nodes_def)
  moreover have "sim (with_heap t) (count_ascending k (heap_of h) st) (rw_count_ascending t k h st)"
    "sim (with_heap t) (count_descending k (heap_of h) st) (rw_count_descending t k h st)"
    "sim (with_heap t) (count_equal k (heap_of h) st) (rw_count_equal t k h st)"
    using sim_count_pass [OF r]
    by (simp_all add: count_ascending_def rw_count_ascending_def count_descending_def rw_count_descending_def
        count_equal_def rw_count_equal_def)
  moreover have "free_list (heap_of h) st = Some (Inr (Map.empty, st\<lparr>sfirst := None\<rparr>))"
    if "list_rep (heap_of h) (sfirst st) as" "dom h = set as" for as
    using that by (intro free_list_run) (auto simp: heap_of_def dom_def)
  ultimately show ?thesis by (intro conjI allI impI) (auto intro: sim_view rw_add_node_eq rw_free_list_run)
qed

definition demo_rw :: "rwnode heap" where
  "demo_rw = map_option (\<lambda>n. \<lparr>rvalue = nvalue n, rnext = nnext n, readers = [], writer = None\<rparr>) \<circ> demo_list"

lemma demo_rw_ok: "only t demo_rw" "heap_of demo_rw = demo_list"
proof -
  show "only t demo_rw" by (auto simp: only_def demo_rw_def)
  have "\<not> sync n" if "demo_list a = Some n" for a n using that by (auto simp: demo_list_def split: if_splits)
  then have "heap_of demo_rw a = demo_list a" for a
    by (cases "demo_list a") (auto simp: heap_of_def demo_rw_def node_of_def)
  then show "heap_of demo_rw = demo_list" by blast
qed

theorem rw_functions_refine_mutex_functions_witness:
  "rw_view (rw_count_ascending 2 4 demo_rw \<lparr>sfirst = Some 1, ssize = 4\<rparr>)
     = Some (Inr (of_nat (pairs_with (<) (values_of demo_list [1, 2, 3, 4])), demo_list))"
proof -
  have "count_ascending 4 demo_list \<lparr>sfirst = Some 1, ssize = 4\<rparr>
      = Some (Inr (of_nat (pairs_with (<) (values_of demo_list [1, 2, 3, 4])), demo_list))"
    using count_pass_run [OF demo_list_rep, of 4 "(<)" 0] by (simp add: count_ascending_def)
  with rw_functions_refine_mutex_functions [OF demo_rw_ok(1) [of 2], of "\<lparr>sfirst = Some 1, ssize = 4\<rparr>" "[]" 4]
  show ?thesis unfolding demo_rw_ok(2) by blast
qed

end
