(* ===== verification/Swap_Main.thy ===== *)
theory Swap_Main
  imports Swap_Progress
begin

text \<open>
  The whole program \<open>sync/2.3/2.3-2.4.c\<close>: \<open>main\<close> starts three counting and three swapping threads, prints
  what they have done five times, stops them, joins them and frees the list. After \<open>stop\<close> every thread has
  only a bounded number of statements left, so that \<open>main\<close> returns under every scheduler.
\<close>

section \<open>The main thread\<close>

text \<open>A value of the list: \<open>rand()\<close> gives the length, from 1 to 99, and then the letters.\<close>

definition random_value :: "nat \<Rightarrow> nat list \<Rightarrow> cstring" where
  "random_value r rs = map (\<lambda>x. 97 + of_nat (x mod 26)) (take (r mod (MAX_STRING_LENGTH - 1) + 1) rs)"

definition swap_roles :: "nat \<Rightarrow> role" where
  "swap_roles i = (if i = 0 then Some (<) else if i = 1 then Some (>) else if i = 2 then Some (=) else None)"

datatype swap_main_pc =
    MCreate nat
  | MSleep nat
  | MJoin nat nat int
  | MFree int
  | MExit int

text \<open>
  \<open>created\<close> is the number of threads that \<open>pthread_create\<close> has started, \<open>stats\<close> what
  \<open>print_stats\<close> has printed.
\<close>

record prog =
  psys :: sys
  pmain :: swap_main_pc
  created :: nat
  stats :: "(nat \<times> usize list) list"

definition print_stats :: "nat \<Rightarrow> sys \<Rightarrow> nat \<times> usize list" where
  "print_stats duration s = (duration, map (work s) [0..<6])"

inductive prog_step :: "Storage \<Rightarrow> (nat \<Rightarrow> bool) \<Rightarrow> prog \<Rightarrow> prog \<Rightarrow> bool" for st create_ok where
  statement: "t < created p \<Longrightarrow>
    tstep st (stop (psys p)) r (swap_roles t) (lheap (psys p)) (pcs (psys p) t) = Some (Inr (k, h)) \<Longrightarrow>
    prog_step st create_ok p (p\<lparr>psys := (psys p)\<lparr>lheap := h, pcs := (pcs (psys p))(t := k),
      work := (work (psys p))(t := work (psys p) t + (if completes (pcs (psys p) t) k then 1 else 0))\<rparr>\<rparr>)"
| create: "pmain p = MCreate i \<Longrightarrow> i < 6 \<Longrightarrow> create_ok i \<Longrightarrow>
    prog_step st create_ok p (p\<lparr>created := Suc i, pmain := MCreate (Suc i)\<rparr>)"
| create_failed: "pmain p = MCreate i \<Longrightarrow> i < 6 \<Longrightarrow> \<not> create_ok i \<Longrightarrow>
    prog_step st create_ok p (p\<lparr>psys := (psys p)\<lparr>stop := True\<rparr>, pmain := MJoin 0 i 1\<rparr>)"
| all_created: "pmain p = MCreate 6 \<Longrightarrow> prog_step st create_ok p (p\<lparr>pmain := MSleep 1\<rparr>)"
| second: "pmain p = MSleep i \<Longrightarrow> i \<le> 5 \<Longrightarrow>
    prog_step st create_ok p (p\<lparr>stats := stats p @ [print_stats i (psys p)], pmain := MSleep (Suc i)\<rparr>)"
| time_up: "pmain p = MSleep 6 \<Longrightarrow>
    prog_step st create_ok p (p\<lparr>psys := (psys p)\<lparr>stop := True\<rparr>, pmain := MJoin 0 6 0\<rparr>)"
| join: "pmain p = MJoin j n c \<Longrightarrow> j < n \<Longrightarrow> pcs (psys p) j = Finished \<Longrightarrow>
    prog_step st create_ok p (p\<lparr>pmain := MJoin (Suc j) n c\<rparr>)"
| joined: "pmain p = MJoin n n c \<Longrightarrow> prog_step st create_ok p (p\<lparr>pmain := MFree c\<rparr>)"
| freed: "pmain p = MFree c \<Longrightarrow> free_list (lheap (psys p)) st = Some (Inr (h, st')) \<Longrightarrow>
    prog_step st create_ok p (p\<lparr>psys := (psys p)\<lparr>lheap := h\<rparr>, pmain := MExit c\<rparr>)"

inductive_cases prog_stepE: "prog_step st create_ok p p'"

definition prog_start :: "Node heap \<Rightarrow> prog" where
  "prog_start h = \<lparr>psys = sys_start h, pmain = MCreate 0, created = 0, stats = []\<rparr>"

section \<open>Statements left\<close>

text \<open>An upper bound on the number of statements a thread still executes once it sees \<open>stop\<close>.\<close>

fun rank :: "pc \<Rightarrow> nat" where
  "rank Finished = 0"
| "rank Idle = 1"
| "rank (SFirst e) = 3 * (e - 1) + 21"
| "rank (SWalk e ind p) = 3 * (e - ind) + 20"
| "rank (SLockW e ind p q) = 3 * (e - Suc ind) + 22"
| "rank (SHand e ind p q) = 3 * (e - Suc ind) + 21"
| "rank (SCheck p) = 15"
| "rank (SLockC p q) = 14"
| "rank (SGotC p q) = 13"
| "rank (SLockN p c q) = 12"
| "rank (SRead p c q) = 11"
| "rank (SW1 p c n q) = 10"
| "rank (SW2 p c n q) = 9"
| "rank (SW3 p c n) = 8"
| "rank (SU1 p c n) = 7"
| "rank (SU2 c n) = 6"
| "rank (SU3 n) = 5"
| "rank (CHead c k) = 2"
| "rank (CLock1 c k) = 8"
| "rank (CGot c k) = 7"
| "rank (CLock2 c q k) = 6"
| "rank (CCmp c q k) = 5"
| "rank (CU1 c n k) = 4"
| "rank (CU2 n k) = 3"

lemma locking_pc: "locking h p k = Some (Inr (k', h')) \<Longrightarrow> k' = k"
  by (auto simp: locking_def wbind_def split: option.splits sum.splits)

lemma unlocking_pc: "unlocking h p k = Some (Inr (k', h')) \<Longrightarrow> k' = k"
  by (auto simp: unlocking_def wbind_def split: option.splits sum.splits)

lemma linking_pc: "linking h p q k = Some (Inr (k', h')) \<Longrightarrow> k' = k"
  by (auto simp: linking_def wbind_def split: option.splits sum.splits)

lemma reading_elim:
  assumes "reading h p f = Some (Inr x)"
  obtains n where "f n = Some (Inr x)"
  using assms by (auto simp: reading_def wbind_def split: option.splits sum.splits)

lemma stopped_rank:
  assumes "tstep st True r role h k = Some (Inr (k', h'))"
  shows "rank k' < rank k"
  using assms
  by (cases k)
    (auto simp: begin_work_def dest!: locking_pc unlocking_pc linking_pc elim!: reading_elim split: if_splits)

section \<open>The invariant of the program\<close>

text \<open>Where \<open>main\<close> is, and which threads exist and have finished.\<close>

definition main_ok :: "prog \<Rightarrow> bool" where
  "main_ok p \<longleftrightarrow> (\<forall>t \<ge> created p. pcs (psys p) t = Idle) \<and> (case pmain p of
     MCreate i \<Rightarrow> created p = i \<and> i \<le> 6 \<and> \<not> stop (psys p)
   | MSleep i \<Rightarrow> created p = 6 \<and> i \<le> 6 \<and> \<not> stop (psys p)
   | MJoin j n c \<Rightarrow> created p = n \<and> j \<le> n \<and> stop (psys p) \<and> (\<forall>t < j. pcs (psys p) t = Finished) \<and> (c = 0 \<longleftrightarrow> n = 6)
   | MFree c \<Rightarrow> stop (psys p) \<and> (\<forall>t < created p. pcs (psys p) t = Finished) \<and> (c = 0 \<longleftrightarrow> created p = 6)
   | MExit c \<Rightarrow> stop (psys p) \<and> (\<forall>t < created p. pcs (psys p) t = Finished) \<and> (c = 0 \<longleftrightarrow> created p = 6))"

definition exited :: "prog \<Rightarrow> bool" where
  "exited p \<longleftrightarrow> (case pmain p of MExit _ \<Rightarrow> True | _ \<Rightarrow> False)"

definition list_ok :: "Node heap \<Rightarrow> addr list \<Rightarrow> prog \<Rightarrow> bool" where
  "list_ok h0 as p \<longleftrightarrow> (if exited p then lheap (psys p) = Map.empty
     else \<exists>as'. inv h0 as' (lheap (psys p)) (pcs (psys p)) \<and> same_ends as as')"

lemma main_ok_step:
  assumes "prog_step st create_ok p p'" "main_ok p"
  shows "main_ok p'"
  using assms
proof cases
  case (statement t r k h)
  then have "pcs (psys p) t \<noteq> Finished" by auto
  with statement assms(2) show ?thesis by (cases "pmain p") (auto simp: main_ok_def)
qed (auto simp: main_ok_def less_Suc_eq)

lemma all_at_rest:
  assumes "main_ok p" "pmain p = MFree c"
  shows "\<not> active (pcs (psys p) t)"
  using assms by (cases "t < created p") (auto simp: main_ok_def active_def)

lemma can_free:
  assumes "main_ok p" "list_ok h0 as p" "pmain p = MFree c" "storage_ok st as" "dom h0 = set as"
  shows "free_list (lheap (psys p)) st = Some (Inr (Map.empty, st\<lparr>sfirst := None\<rparr>))"
proof -
  from assms(2,3) obtain bs where bs: "inv h0 bs (lheap (psys p)) (pcs (psys p))" "same_ends as bs"
    by (auto simp: list_ok_def exited_def)
  then have "mset bs = mset as" "hd bs = hd as" "as \<noteq> []" using assms(4) by (auto simp: same_ends_def storage_ok_def)
  then have "set bs = set as" "bs \<noteq> []" "hd bs = hd as" using mset_eq_setD by auto
  with rest_list [OF bs(1) all_at_rest [OF assms(1,3)]] assms(4,5)
  have rep: "list_rep (lheap (psys p)) (sfirst st) bs" by (simp add: storage_ok_def)
  have sh: "shared_ok h0 bs (lheap (psys p)) (pcs (psys p))" using bs(1) by (simp add: inv_def)
  have "lheap (psys p) a = None \<longleftrightarrow> h0 a = None" for a
    using shared_okD(2) [OF sh, of a] by (cases "lheap (psys p) a"; cases "h0 a") auto
  then have "dom (lheap (psys p)) = set bs" using assms(5) \<open>set bs = set as\<close> by (auto simp: dom_def)
  with rep show ?thesis by (rule free_list_run)
qed

lemma exited_no_thread: "main_ok p \<Longrightarrow> exited p \<Longrightarrow> t < created p \<Longrightarrow> pcs (psys p) t = Finished"
  by (auto simp: main_ok_def exited_def split: swap_main_pc.splits)

lemma list_ok_step:
  assumes step: "prog_step st create_ok p p'" and ok: "main_ok p" "list_ok h0 as p" and st: "storage_ok st as" "dom h0 = set as"
  shows "list_ok h0 as p'"
  using step
proof cases
  case (statement t r k h)
  then have "pcs (psys p) t \<noteq> Finished" by auto
  with exited_no_thread [OF ok(1)] statement(2) have ne: "\<not> exited p" by blast
  then obtain bs where bs: "inv h0 bs (lheap (psys p)) (pcs (psys p))" "same_ends as bs" using ok(2) by (auto simp: list_ok_def)
  have "sys_step st swap_roles (psys p) (psys p')" using statement sys_step.thread by auto
  from sys_step_inv [OF this bs(1) storage_ok_same_ends [OF st(1) bs(2)]] bs(2) ne statement(1) show ?thesis
    by (auto simp: list_ok_def exited_def intro: same_ends_trans)
next
  case (freed c h st')
  with can_free [OF ok freed(2) st] show ?thesis by (simp add: list_ok_def exited_def)
qed (use ok(2) in \<open>auto simp: list_ok_def exited_def\<close>)

lemma prog_reach:
  assumes "(prog_step st create_ok)\<^sup>*\<^sup>* (prog_start h) p" "list_rep h (sfirst st) as" "storage_ok st as" "dom h = set as"
  shows "main_ok p \<and> list_ok h as p"
  using assms(1)
proof (induction rule: rtranclp_induct)
  case base
  have "same_ends as as" by (simp add: same_ends_def)
  with start_inv [OF assms(2)] show ?case
    by (auto simp: prog_start_def main_ok_def list_ok_def exited_def sys_start_def)
next
  case (step p p')
  then show ?case using main_ok_step list_ok_step [OF _ _ _ assms(3,4)] by blast
qed

section \<open>Progress and termination\<close>

text \<open>While \<open>main\<close> waits for thread \<open>j\<close>, that thread or one it waits for can go on.\<close>

lemma join_goes:
  assumes ok: "main_ok p" "list_ok h0 as p" and st: "storage_ok st as" and main: "pmain p = MJoin j n c" "j < n"
  shows "\<exists>p'. prog_step st create_ok p p'"
proof -
  from main ok(1) have j: "created p = n" "stop (psys p)" by (auto simp: main_ok_def)
  consider (busy) "active (pcs (psys p) j)" | (over) "pcs (psys p) j = Finished" | (idle) "pcs (psys p) j = Idle"
    by (auto simp: active_def)
  then show ?thesis
  proof cases
    case busy
    from ok(2) main obtain bs where bs: "inv h0 bs (lheap (psys p)) (pcs (psys p))" "same_ends as bs"
      by (auto simp: list_ok_def exited_def)
    from someone_goes [OF bs(1) storage_ok_same_ends [OF st bs(2)] busy] obtain u k h where
      u: "active (pcs (psys p) u)" "tstep st (stop (psys p)) 0 (swap_roles u) (lheap (psys p)) (pcs (psys p) u) = Some (Inr (k, h))"
      unfolding can_go_def by blast
    have "u < created p" using u(1) ok(1) by (force simp: main_ok_def active_def not_less [symmetric])
    with u(2) show ?thesis by (blast intro: prog_step.statement)
  next
    case over
    with main show ?thesis by (blast intro: prog_step.join)
  next
    case idle
    then have "tstep st (stop (psys p)) 0 (swap_roles j) (lheap (psys p)) (pcs (psys p) j) = Some (Inr (Finished, lheap (psys p)))"
      using j(2) by (simp add: begin_work_def)
    with j(1) main(2) show ?thesis by (blast intro: prog_step.statement)
  qed
qed

lemma prog_goes:
  assumes ok: "main_ok p" "list_ok h0 as p" and st: "storage_ok st as" "dom h0 = set as" and ne: "\<not> exited p"
  shows "\<exists>p'. prog_step st create_ok p p'"
proof (cases "pmain p")
  case (MCreate i)
  then have "i < 6 \<or> i = 6" using ok(1) by (auto simp: main_ok_def)
  with MCreate show ?thesis by (blast intro: prog_step.create prog_step.create_failed prog_step.all_created)
next
  case (MSleep i)
  then have "i \<le> 5 \<or> i = 6" using ok(1) by (auto simp: main_ok_def)
  with MSleep show ?thesis by (blast intro: prog_step.second prog_step.time_up)
next
  case (MJoin j n c)
  then have "j \<le> n" using ok(1) by (auto simp: main_ok_def)
  then show ?thesis using MJoin join_goes [OF ok st(1) MJoin] by (cases "j = n") (auto intro: prog_step.joined)
next
  case (MFree c)
  with can_free [OF ok MFree st] show ?thesis by (blast intro: prog_step.freed)
next
  case (MExit c)
  with ne show ?thesis by (simp add: exited_def)
qed

text \<open>What is left of the program after \<open>stop\<close>.\<close>

fun main_rank :: "swap_main_pc \<Rightarrow> nat" where
  "main_rank (MJoin j n c) = n - j + 2"
| "main_rank (MFree c) = 1"
| "main_rank _ = 0"

definition budget :: "prog \<Rightarrow> nat" where
  "budget p = (\<Sum>t < created p. rank (pcs (psys p) t)) + main_rank (pmain p)"

lemma budget_step:
  assumes "prog_step st create_ok p p'" "main_ok p" "stop (psys p)"
  shows "budget p' < budget p \<and> stop (psys p')"
  using assms(1)
proof cases
  case (statement t r k h)
  then have "rank k < rank (pcs (psys p) t)" using assms(3) stopped_rank by simp
  moreover have "(\<Sum>u < created p. rank (((pcs (psys p))(t := k)) u)) + rank (pcs (psys p) t) = (\<Sum>u < created p. rank (pcs (psys p) u)) + rank k"
    using statement(2) by (simp add: sum.remove [of "{..<created p}" t])
  ultimately show ?thesis using statement(1) assms(3) by (simp add: budget_def)
qed (use assms(2,3) in \<open>auto simp: main_ok_def budget_def\<close>)

lemma budget_run:
  assumes "main_ok p" "stop (psys p)" "(prog_step st create_ok ^^ m) p p'"
  shows "m \<le> budget p"
  using assms
proof (induction m arbitrary: p)
  case (Suc m)
  from relpowp_Suc_D2 [OF Suc.prems(3)] obtain q where q: "prog_step st create_ok p q" "(prog_step st create_ok ^^ m) q p'" by blast
  from budget_step [OF q(1) Suc.prems(1,2)] Suc.IH [OF main_ok_step [OF q(1) Suc.prems(1)] _ q(2)] show ?case by simp
qed simp

lemma statements_never_fault:
  assumes "main_ok p" "list_ok h0 as p" "storage_ok st as" "t < created p"
  shows "tstep st (stop (psys p)) r (swap_roles t) (lheap (psys p)) (pcs (psys p) t) \<noteq> Some (Inl e)"
proof (cases "pcs (psys p) t = Finished")
  case False
  with exited_no_thread [OF assms(1) _ assms(4)] have "\<not> exited p" by blast
  with assms(2) obtain bs where bs: "inv h0 bs (lheap (psys p)) (pcs (psys p))" "same_ends as bs" by (auto simp: list_ok_def)
  from tstep_moves [OF bs(1) storage_ok_same_ends [OF assms(3) bs(2)] False, of "stop (psys p)" r "swap_roles t"]
  show ?thesis by (auto simp: moves_def)
qed simp

lemma built_list:
  assumes "build Map.empty \<lparr>sfirst = None, ssize = int (length vs)\<rparr> vs = Some (Inr (0, h, st))" "distinct (map fst vs)" "3 < length vs"
  shows "list_rep h (sfirst st) (map fst vs)" "storage_ok st (map fst vs)" "dom h = set (map fst vs)"
proof -
  have "list_rep Map.empty (sfirst \<lparr>sfirst = None, ssize = int (length vs)\<rparr>) []" by (simp add: list_rep_def)
  from build_run [OF this _ assms(2)] assms(1) have
    b: "list_rep h (sfirst st) (map fst vs)" "ssize st = int (length vs)" "dom h = set (map fst vs)" by auto
  show "list_rep h (sfirst st) (map fst vs)" "dom h = set (map fst vs)" by (rule b)+
  have "chain nnext h (sfirst st) (map fst vs)" using b(1) by (simp add: list_rep_def)
  then have "sfirst st = Some (hd (map fst vs))" using assms(3) by (cases vs) auto
  with b(2) assms(3) show "storage_ok st (map fst vs)" by (simp add: storage_ok_def)
qed

section \<open>Property\<close>

text \<open>
  Property C16. The list program ends, under every scheduler: from a list of more than three values, and
  whether or not all six threads can be created, no statement of a thread faults and the program is never
  stuck before \<open>main\<close> returns; once \<open>stop\<close> is set every run has at most \<open>budget\<close> further steps; and when
  \<open>main\<close> returns, all threads have finished, every node is freed, and the result is 0 exactly when all six
  threads were created.
\<close>

theorem swap_program_ends:
  assumes "build Map.empty \<lparr>sfirst = None, ssize = int (length vs)\<rparr> vs = Some (Inr (0, h, st))" "distinct (map fst vs)" "3 < length vs"
    and "(prog_step st create_ok)\<^sup>*\<^sup>* (prog_start h) p"
  shows "(\<forall>t < created p. \<forall>r e. tstep st (stop (psys p)) r (swap_roles t) (lheap (psys p)) (pcs (psys p) t) \<noteq> Some (Inl e))
    \<and> (\<not> exited p \<longrightarrow> (\<exists>p'. prog_step st create_ok p p'))
    \<and> (stop (psys p) \<longrightarrow> (\<forall>m p'. (prog_step st create_ok ^^ m) p p' \<longrightarrow> m \<le> budget p))
    \<and> (\<forall>c. pmain p = MExit c \<longrightarrow> (\<forall>t < created p. pcs (psys p) t = Finished) \<and> lheap (psys p) = Map.empty \<and> (c = 0 \<longleftrightarrow> created p = 6))"
proof -
  note b = built_list [OF assms(1-3)]
  from prog_reach [OF assms(4) b] have ok: "main_ok p" "list_ok h (map fst vs) p" by simp_all
  have "\<forall>c. pmain p = MExit c \<longrightarrow> (\<forall>t < created p. pcs (psys p) t = Finished) \<and> lheap (psys p) = Map.empty \<and> (c = 0 \<longleftrightarrow> created p = 6)"
    using ok by (auto simp: main_ok_def list_ok_def exited_def)
  with statements_never_fault [OF ok b(2)] prog_goes [OF ok b(2,3)] budget_run [OF ok(1)] show ?thesis by blast
qed

definition demo_values :: "(addr \<times> cstring) list" where
  "demo_values = [(1, random_value 0 [3]), (2, random_value 1 [4, 5]), (3, random_value 0 [7]), (4, random_value 2 [30, 1, 2])]"

text \<open>The first thread cannot be created: \<open>main\<close> frees the list and returns 1.\<close>

theorem swap_program_ends_witness:
  "\<exists>h st p. build Map.empty \<lparr>sfirst = None, ssize = 4\<rparr> demo_values = Some (Inr (0, h, st))
     \<and> (prog_step st (\<lambda>_. False))\<^sup>*\<^sup>* (prog_start h) p \<and> pmain p = MExit 1 \<and> lheap (psys p) = Map.empty"
proof -
  have d: "distinct (map fst demo_values)" "3 < length demo_values" "int (length demo_values) = 4" by (simp_all add: demo_values_def)
  have "list_rep Map.empty (sfirst \<lparr>sfirst = None, ssize = 4\<rparr>) []" by (simp add: list_rep_def)
  from build_run [OF this _ d(1)] obtain h st where
    b: "build Map.empty \<lparr>sfirst = None, ssize = int (length demo_values)\<rparr> demo_values = Some (Inr (0, h, st))"
      "list_rep h (sfirst st) (map fst demo_values)" "dom h = set (map fst demo_values)" unfolding d(3) by auto
  define p1 where "p1 = (prog_start h)\<lparr>psys := (sys_start h)\<lparr>stop := True\<rparr>, pmain := MJoin 0 0 1\<rparr>"
  define p2 where "p2 = p1\<lparr>pmain := MFree 1\<rparr>"
  define p3 where "p3 = p2\<lparr>psys := (psys p2)\<lparr>lheap := Map.empty\<rparr>, pmain := MExit 1\<rparr>"
  have "prog_step st (\<lambda>_. False) (prog_start h) p1"
    using prog_step.create_failed [of "prog_start h" 0 "\<lambda>_. False" st] by (simp add: prog_start_def p1_def)
  moreover have "prog_step st (\<lambda>_. False) p1 p2" unfolding p2_def by (rule prog_step.joined [of _ 0]) (simp add: p1_def)
  moreover have "prog_step st (\<lambda>_. False) p2 p3" unfolding p3_def
    by (rule prog_step.freed [of _ _ _ _ "st\<lparr>sfirst := None\<rparr>"])
      (use free_list_run [OF b(2,3)] in \<open>simp_all add: p2_def p1_def sys_start_def\<close>)
  ultimately have run: "(prog_step st (\<lambda>_. False))\<^sup>*\<^sup>* (prog_start h) p3" by (meson converse_rtranclp_into_rtranclp rtranclp.rtrancl_refl)
  have "pmain p3 = MExit 1" by (simp add: p3_def)
  moreover from this have "lheap (psys p3) = Map.empty" using swap_program_ends [OF b(1) d(1,2) run] by blast
  ultimately show ?thesis using b(1) run unfolding d(3) by blast
qed

text \<open>The values of \<open>main\<close> are stored as they are.\<close>

lemma random_value_kept: "cstr (strncpy (random_value r rs) (MAX_STRING_LENGTH - 1)) = random_value r rs"
proof -
  have nz: "\<forall>b \<in> set (random_value r rs). b \<noteq> 0"
  proof
    fix b assume "b \<in> set (random_value r rs)"
    then obtain x :: nat where "b = 97 + of_nat (x mod 26)" by (auto simp: random_value_def)
    then have "unat b = 97 + x mod 26" by (simp add: unat_word_ariths unat_of_nat)
    then show "b \<noteq> 0" by auto
  qed
  have "r mod (MAX_STRING_LENGTH - 1) < MAX_STRING_LENGTH - 1" by (simp add: MAX_STRING_LENGTH_def)
  then have "length (random_value r rs) \<le> MAX_STRING_LENGTH - 1" by (simp add: random_value_def)
  moreover have "0 \<notin> set (random_value r rs)" using nz by blast
  ultimately show ?thesis by (simp add: cstr_strncpy cstr_id)
qed

end
