(* ===== verification/Swap_RW_Main.thy ===== *)
theory Swap_RW_Main
  imports Swap_RW_Safety Swap_RW_Laws Swap_Main
begin

text \<open>
  The whole program \<open>sync/2.3/2.3m.c\<close>. Its \<open>main\<close> is that of \<open>2.3-2.4.c\<close>; the threads are those of \<open>Swap_RW\<close>. When \<open>main\<close>
  returns, it has joined everybody and freed every node; but the deadlock of \<open>Swap_RW_Deadlock\<close> can keep it from returning.
\<close>

section \<open>The main thread\<close>

definition rw_roles :: "nat \<Rightarrow> rwrole" where
  "rw_roles i = (if i = 0 then Some (<) else if i = 1 then Some (>) else if i = 2 then Some (=) else None)"

record rw_prog =
  rwsystem :: rwsys
  rwmain :: swap_main_pc
  rwcreated :: nat
  rwstats :: "(nat \<times> usize list) list"

definition rw_print_stats :: "nat \<Rightarrow> rwsys \<Rightarrow> nat \<times> usize list" where
  "rw_print_stats duration s = (duration, map (rwwork s) [0..<6])"

inductive rw_prog_step :: "Storage \<Rightarrow> (nat \<Rightarrow> bool) \<Rightarrow> rw_prog \<Rightarrow> rw_prog \<Rightarrow> bool" for st create_ok where
  rwp_statement: "t < rwcreated p \<Longrightarrow>
    rwstep st (rwstop (rwsystem p)) r (rw_roles t) t (rwheap (rwsystem p)) (rwpcs (rwsystem p) t) = Some (Inr (k, h)) \<Longrightarrow>
    rw_prog_step st create_ok p (p\<lparr>rwsystem := rw_move (rwsystem p) t k h\<rparr>)"
| rwp_create: "rwmain p = MCreate i \<Longrightarrow> i < 6 \<Longrightarrow> create_ok i \<Longrightarrow>
    rw_prog_step st create_ok p (p\<lparr>rwcreated := Suc i, rwmain := MCreate (Suc i)\<rparr>)"
| rwp_create_failed: "rwmain p = MCreate i \<Longrightarrow> i < 6 \<Longrightarrow> \<not> create_ok i \<Longrightarrow>
    rw_prog_step st create_ok p (p\<lparr>rwsystem := (rwsystem p)\<lparr>rwstop := True\<rparr>, rwmain := MJoin 0 i 1\<rparr>)"
| rwp_all_created: "rwmain p = MCreate 6 \<Longrightarrow> rw_prog_step st create_ok p (p\<lparr>rwmain := MSleep 1\<rparr>)"
| rwp_second: "rwmain p = MSleep i \<Longrightarrow> i \<le> 5 \<Longrightarrow>
    rw_prog_step st create_ok p (p\<lparr>rwstats := rwstats p @ [rw_print_stats i (rwsystem p)], rwmain := MSleep (Suc i)\<rparr>)"
| rwp_time_up: "rwmain p = MSleep 6 \<Longrightarrow>
    rw_prog_step st create_ok p (p\<lparr>rwsystem := (rwsystem p)\<lparr>rwstop := True\<rparr>, rwmain := MJoin 0 6 0\<rparr>)"
| rwp_join: "rwmain p = MJoin j n c \<Longrightarrow> j < n \<Longrightarrow> rwpcs (rwsystem p) j = RFinished \<Longrightarrow>
    rw_prog_step st create_ok p (p\<lparr>rwmain := MJoin (Suc j) n c\<rparr>)"
| rwp_joined: "rwmain p = MJoin n n c \<Longrightarrow> rw_prog_step st create_ok p (p\<lparr>rwmain := MFree c\<rparr>)"
| rwp_freed: "rwmain p = MFree c \<Longrightarrow> rw_free_list (rwheap (rwsystem p)) st = Some (Inr (h, st')) \<Longrightarrow>
    rw_prog_step st create_ok p (p\<lparr>rwsystem := (rwsystem p)\<lparr>rwheap := h\<rparr>, rwmain := MExit c\<rparr>)"

definition rw_prog_start :: "rwnode heap \<Rightarrow> rw_prog" where
  "rw_prog_start h = \<lparr>rwsystem = rw_start h, rwmain = MCreate 0, rwcreated = 0, rwstats = []\<rparr>"

section \<open>What holds when it returns\<close>

definition rw_exited :: "rw_prog \<Rightarrow> bool" where
  "rw_exited p \<longleftrightarrow> (case rwmain p of MExit _ \<Rightarrow> True | _ \<Rightarrow> False)"

definition rw_main_ok :: "rw_prog \<Rightarrow> bool" where
  "rw_main_ok p \<longleftrightarrow> (\<forall>t \<ge> rwcreated p. rwpcs (rwsystem p) t = RIdle) \<and> (case rwmain p of
     MCreate i \<Rightarrow> rwcreated p = i \<and> i \<le> 6
   | MSleep i \<Rightarrow> rwcreated p = 6
   | MJoin j n c \<Rightarrow> rwcreated p = n \<and> j \<le> n \<and> (\<forall>t < j. rwpcs (rwsystem p) t = RFinished) \<and> (c = 0 \<longleftrightarrow> n = 6)
   | MFree c \<Rightarrow> (\<forall>t < rwcreated p. rwpcs (rwsystem p) t = RFinished) \<and> (c = 0 \<longleftrightarrow> rwcreated p = 6)
   | MExit c \<Rightarrow> (\<forall>t < rwcreated p. rwpcs (rwsystem p) t = RFinished) \<and> (c = 0 \<longleftrightarrow> rwcreated p = 6))"

text \<open>Until \<open>main\<close> frees the list, its threads run as in \<open>Swap_RW\<close>.\<close>

definition rw_list_ok :: "Storage \<Rightarrow> rwnode heap \<Rightarrow> rw_prog \<Rightarrow> bool" where
  "rw_list_ok st h p \<longleftrightarrow> (if rw_exited p then rwheap (rwsystem p) = Map.empty
     else (rw_sys_step st rw_roles)\<^sup>*\<^sup>* (rw_start h) (rwsystem p))"

lemma rw_main_ok_step:
  assumes "rw_prog_step st create_ok p p'" "rw_main_ok p"
  shows "rw_main_ok p'"
  using assms
proof cases
  case (rwp_statement t r k h)
  then have "rwpcs (rwsystem p) t \<noteq> RFinished" by auto
  with rwp_statement assms(2) show ?thesis by (cases "rwmain p") (auto simp: rw_main_ok_def rw_move_def)
qed (auto simp: rw_main_ok_def less_Suc_eq)

lemma rw_at_rest:
  assumes "rw_main_ok p" "rwmain p = MFree c"
  shows "rwpcs (rwsystem p) t \<in> {RIdle, RFinished}"
  using assms by (cases "t < rwcreated p") (auto simp: rw_main_ok_def)

lemma list_rep_heap_of: "rw_list_rep h p as \<Longrightarrow> list_rep (heap_of h) p as"
  by (auto simp: rw_list_rep_def list_rep_def chain_heap_of heap_of_def node_of_def)

lemma rw_can_free:
  assumes "rw_main_ok p" "rw_list_ok st h p" "rwmain p = MFree c"
    and st: "storage_ok st as" "dom h = set as" "rw_list_rep h (sfirst st) as"
  shows "rw_free_list (rwheap (rwsystem p)) st = Some (Inr (Map.empty, st\<lparr>sfirst := None\<rparr>))"
proof -
  have "(rw_sys_step st rw_roles)\<^sup>*\<^sup>* (rw_start h) (rwsystem p)" using assms(2,3) by (simp add: rw_list_ok_def rw_exited_def)
  from rw_reach_inv [OF this rw_start_inv [OF st(3)] st(1)] obtain bs where
    bs: "rinv h bs (rwheap (rwsystem p)) (rwpcs (rwsystem p))" "same_ends as bs" by blast
  have "as \<noteq> []" using st(1) by (auto simp: storage_ok_def)
  then have same: "set bs = set as" "bs \<noteq> []" using bs(2) by (auto simp: same_ends_def dest: mset_eq_setD)
  with rw_rest_list [OF bs(1) rw_at_rest [OF assms(1,3)]] st(2) have "rw_list_rep (rwheap (rwsystem p)) (Some (hd bs)) bs" by simp
  moreover have "sfirst st = Some (hd bs)" using storage_ok_same_ends [OF st(1) bs(2)] by (simp add: storage_ok_def)
  moreover have "rwheap (rwsystem p) a = None \<longleftrightarrow> h a = None" for a using bs(1) by (metis rinv_def map_option_is_None)
  then have "dom (rwheap (rwsystem p)) = set bs" using st(2) same(1) by (auto simp: dom_def)
  ultimately show ?thesis by (intro rw_free_list_run) (simp_all add: list_rep_heap_of)
qed

lemma rw_list_ok_step:
  assumes step: "rw_prog_step st create_ok p p'" and ok: "rw_main_ok p" "rw_list_ok st h p"
    and st: "storage_ok st as" "dom h = set as" "rw_list_rep h (sfirst st) as"
  shows "rw_list_ok st h p'"
  using step
proof cases
  case (rwp_statement t r k h')
  then have "rwpcs (rwsystem p) t \<noteq> RFinished" by auto
  then have "\<not> rw_exited p" using ok(1) rwp_statement(2) by (auto simp: rw_main_ok_def rw_exited_def split: swap_main_pc.splits)
  moreover from this have "(rw_sys_step st rw_roles)\<^sup>*\<^sup>* (rw_start h) (rwsystem p)" using ok(2) by (simp add: rw_list_ok_def)
  from rtranclp.rtrancl_into_rtrancl [OF this rw_sys_step.rw_thread [of st _ _ rw_roles, OF rwp_statement(3)]]
  have "(rw_sys_step st rw_roles)\<^sup>*\<^sup>* (rw_start h) (rwsystem p')" using rwp_statement(1) by simp
  ultimately show ?thesis using rwp_statement(1) by (simp add: rw_list_ok_def rw_exited_def)
next
  case (rwp_freed c h' st')
  with rw_can_free [OF ok rwp_freed(2) st] show ?thesis by (simp add: rw_list_ok_def rw_exited_def)
qed (use ok(2) in \<open>auto simp: rw_list_ok_def rw_exited_def intro: rtranclp.rtrancl_into_rtrancl rw_sys_step.rw_main_stop\<close>)

lemma rw_prog_reach:
  assumes "(rw_prog_step st create_ok)\<^sup>*\<^sup>* (rw_prog_start h) p"
    and "storage_ok st as" "dom h = set as" "rw_list_rep h (sfirst st) as"
  shows "rw_main_ok p \<and> rw_list_ok st h p"
  using assms(1)
proof (induction rule: rtranclp_induct)
  case base
  show ?case by (simp add: rw_prog_start_def rw_main_ok_def rw_list_ok_def rw_exited_def rw_start_def)
next
  case (step p p')
  then show ?case using rw_main_ok_step rw_list_ok_step [OF _ _ _ assms(2-4)] by blast
qed

text \<open>
  When \<open>main\<close> returns, every thread it created has finished, every node is freed, and the result is 0 exactly when all six
  threads were created.
\<close>

lemma rw_main_returns_clean:
  assumes "(rw_prog_step st create_ok)\<^sup>*\<^sup>* (rw_prog_start h) p" "rwmain p = MExit c"
    and "storage_ok st as" "dom h = set as" "rw_list_rep h (sfirst st) as"
  shows "(\<forall>t < rwcreated p. rwpcs (rwsystem p) t = RFinished) \<and> rwheap (rwsystem p) = Map.empty \<and> (c = 0 \<longleftrightarrow> rwcreated p = 6)"
  using rw_prog_reach [OF assms(1,3-5)] assms(2) by (auto simp: rw_main_ok_def rw_list_ok_def rw_exited_def)

section \<open>It may not return\<close>

lemma rw_run_in_program:
  assumes "rw_run st rw_roles trs (rwsystem p) = Some s'" "\<forall>(t, r) \<in> set trs. t < rwcreated p"
  shows "(rw_prog_step st create_ok)\<^sup>*\<^sup>* p (p\<lparr>rwsystem := s'\<rparr>)"
  using assms
proof (induction trs arbitrary: p)
  case (Cons tr trs)
  obtain t r where tr: "tr = (t, r)" by (cases tr)
  from Cons.prems(1) obtain k h where
    k: "rwstep st (rwstop (rwsystem p)) r (rw_roles t) t (rwheap (rwsystem p)) (rwpcs (rwsystem p) t) = Some (Inr (k, h))"
      "rw_run st rw_roles trs (rw_move (rwsystem p) t k h) = Some s'"
    unfolding tr by (auto split: option.splits sum.splits)
  let ?p = "p\<lparr>rwsystem := rw_move (rwsystem p) t k h\<rparr>"
  have "rw_prog_step st create_ok p ?p" using k(1) Cons.prems(2) by (intro rwp_statement) (auto simp: tr)
  moreover have "(rw_prog_step st create_ok)\<^sup>*\<^sup>* ?p (?p\<lparr>rwsystem := s'\<rparr>)" using Cons.prems(2) k(2) by (intro Cons.IH) simp_all
  ultimately show ?case by (simp add: converse_rtranclp_into_rtranclp)
next
  case Nil
  then show ?case by (cases p) simp
qed

lemma rw_create_all:
  assumes "i \<le> 6"
  shows "(rw_prog_step st (\<lambda>_. True))\<^sup>*\<^sup>* (rw_prog_start h) ((rw_prog_start h)\<lparr>rwcreated := i, rwmain := MCreate i\<rparr>)"
  using assms
proof (induction i)
  case 0
  show ?case by (simp add: rw_prog_start_def)
next
  case (Suc i)
  let ?p = "(rw_prog_start h)\<lparr>rwcreated := i, rwmain := MCreate i\<rparr>"
  have "rw_prog_step st (\<lambda>_. True) ?p (?p\<lparr>rwcreated := Suc i, rwmain := MCreate (Suc i)\<rparr>)" using Suc.prems by (intro rwp_create) simp_all
  with Suc show ?case by (simp add: rtranclp.rtrancl_into_rtrancl)
qed

text \<open>The two swapping threads 3 and 4 wait for each other, and \<open>main\<close> has joined three threads at most.\<close>

definition rw_hung :: "rw_prog \<Rightarrow> bool" where
  "rw_hung p \<longleftrightarrow> rw_jammed 3 4 (rwsystem p)
     \<and> (case rwmain p of MCreate i \<Rightarrow> i = 6 | MSleep _ \<Rightarrow> True | MJoin j n _ \<Rightarrow> j \<le> 3 \<and> n = 6 | _ \<Rightarrow> False)"

lemma rw_hung_step:
  assumes "rw_prog_step rw_storage5 create_ok p p'" "rw_hung p"
  shows "rw_hung p'"
  using assms(1)
proof cases
  case (rwp_statement t r k h)
  have "rw_jammed 3 4 (rwsystem p')" using jammed_step [OF rw_sys_step.rw_thread [of rw_storage5 _ _ rw_roles, OF rwp_statement(3)]] assms(2) rwp_statement(1)
    by (simp add: rw_hung_def)
  with assms(2) rwp_statement(1) show ?thesis by (simp add: rw_hung_def)
next
  case (rwp_join j n c)
  have "rwpcs (rwsystem p) 3 \<noteq> RFinished" using assms(2) by (simp add: rw_hung_def rw_jammed_def)
  with rwp_join have "j \<noteq> 3" by auto
  with rwp_join assms(2) show ?thesis by (auto simp: rw_hung_def)
qed (use assms(2) in \<open>auto simp: rw_hung_def rw_jammed_def\<close>)

lemma rw_hung_forever: "(rw_prog_step rw_storage5 create_ok)\<^sup>*\<^sup>* p p' \<Longrightarrow> rw_hung p \<Longrightarrow> rw_hung p'"
  by (induction rule: rtranclp_induct) (auto intro: rw_hung_step)

text \<open>
  Property C35. The program with read-write locks may never return: on a list of five nodes, with all six threads created, it can
  reach a state from which, in every continuation, even after \<open>main\<close> has set \<open>stop\<close>, the first swapping thread waits for node 2
  and the second for node 1, the list never changes again, no other thread gets past the first node, and \<open>main\<close> stays in one of its first four
  \<open>pthread_join\<close> calls at the latest.
\<close>

theorem rw_program_can_hang:
  "\<exists>p. (rw_prog_step rw_storage5 (\<lambda>_. True))\<^sup>*\<^sup>* (rw_prog_start rw_list5) p \<and> rwcreated p = 6
    \<and> (\<forall>p'. (rw_prog_step rw_storage5 (\<lambda>_. True))\<^sup>*\<^sup>* p p' \<longrightarrow> \<not> rw_exited p' \<and> rwheap (rwsystem p') = rwheap (rwsystem p)
        \<and> rwpcs (rwsystem p') 3 = WL3 (Some 0) (Some 1) (Some 2) \<and> rwpcs (rwsystem p') 4 = WL2 (Some 2) (Some 1) (Some 3)
        \<and> (\<forall>t. t \<notin> {3, 4} \<longrightarrow> rwpcs (rwsystem p') t \<in> {RIdle, RFinished, KHead (Some 0) 0, KLock1 (Some 0) 0} \<union> range RFirst))"
proof -
  let ?p = "(rw_prog_start rw_list5)\<lparr>rwcreated := 6, rwmain := MCreate 6\<rparr>"
  let ?q = "?p\<lparr>rwsystem := rw_stuck 3 4\<rparr>"
  have r: "rw_roles 3 = None" "rw_roles 4 = None" "(3 :: nat) \<noteq> 4" by (simp_all add: rw_roles_def)
  have "\<forall>(t, r) \<in> set (rw_schedule 3 4). t < rwcreated ?p" by (auto simp: rw_schedule_def)
  then have "(rw_prog_step rw_storage5 (\<lambda>_. True))\<^sup>*\<^sup>* ?p ?q"
    using schedule_gets_stuck [of rw_roles, OF r] by (intro rw_run_in_program) (simp_all add: rw_prog_start_def)
  with rw_create_all [of 6 rw_storage5 rw_list5] have reach: "(rw_prog_step rw_storage5 (\<lambda>_. True))\<^sup>*\<^sup>* (rw_prog_start rw_list5) ?q" by simp
  have hung: "rw_hung ?q" using stuck_jammed [OF r(3)] by (simp add: rw_hung_def)
  have "\<not> rw_exited p' \<and> rw_jammed 3 4 (rwsystem p')" if "(rw_prog_step rw_storage5 (\<lambda>_. True))\<^sup>*\<^sup>* ?q p'" for p'
    using rw_hung_forever [OF that hung] by (auto simp: rw_hung_def rw_exited_def split: swap_main_pc.splits)
  moreover have "rwheap (rwsystem ?q) = rw_locked5 3 4" by (simp add: rw_stuck_def rw_state_def)
  ultimately show ?thesis using reach by (intro exI [of _ ?q]) (auto simp: rw_jammed_def)
qed

theorem rw_program_can_hang_witness:
  "\<exists>p. (rw_prog_step rw_storage5 (\<lambda>_. True))\<^sup>*\<^sup>* (rw_prog_start rw_list5) p \<and> \<not> rw_exited p
    \<and> rwpcs (rwsystem p) 3 = WL3 (Some 0) (Some 1) (Some 2) \<and> rwpcs (rwsystem p) 4 = WL2 (Some 2) (Some 1) (Some 3)"
  using rw_program_can_hang by (blast intro: rtranclp.rtrancl_refl)

end
