(* ===== verification/Coro_Queue.thy ===== *)
theory Coro_Queue
  imports Queue_Spec
begin

text \<open>
  The run queue of the coroutine scheduler, \<open>threads/lab1.8/coroutines/coro_queue.c\<close> with the
  structures of \<open>scheduler.h\<close>: an unbounded linked list of coroutine pointers. A coroutine
  pointer is a \<open>ptr\<close>; that \<open>coro_queue_pop\<close> uses \<open>NULL\<close> both for "empty" and for a stored
  pointer is why the representation asks for stored pointers that are not \<open>NULL\<close>.
\<close>

section \<open>The data structure and its operations\<close>

record coro_queue_node_t =
  cq_next :: ptr
  cq_coro :: ptr

record coro_queue_t =
  cq_head :: ptr
  cq_tail :: ptr
  cq_size :: usize
  cq_nodes :: "coro_queue_node_t heap"

definition NODE_MALLOC_ERR :: int where
  "NODE_MALLOC_ERR = -1"

definition coro_queue_init :: "coro_queue_t \<Rightarrow> coro_queue_t" where
  "coro_queue_init q = q\<lparr>cq_head := None, cq_tail := None, cq_size := 0\<rparr>"

text \<open>The block that \<open>malloc\<close> returned is \<open>m\<close>.\<close>

definition coro_queue_push :: "coro_queue_t \<Rightarrow> ptr \<Rightarrow> ptr \<Rightarrow> (int \<times> coro_queue_t) res" where
  "coro_queue_push q coro m = (case m of None \<Rightarrow> Inr (-1, q)
     | Some n \<Rightarrow>
         let h = (cq_nodes q)(n \<mapsto> \<lparr>cq_next = None, cq_coro = coro\<rparr>) in
         rbind (if cq_tail q = None then Inr (q\<lparr>cq_nodes := h, cq_head := Some n, cq_tail := Some n\<rparr>)
                else rbind (store h (cq_tail q) (\<lambda>c. c\<lparr>cq_next := Some n\<rparr>))
                       (\<lambda>h. Inr (q\<lparr>cq_nodes := h, cq_tail := Some n\<rparr>)))
           (\<lambda>q. Inr (0, q\<lparr>cq_size := cq_size q + 1\<rparr>)))"

definition coro_queue_pop :: "coro_queue_t \<Rightarrow> (ptr \<times> coro_queue_t) res" where
  "coro_queue_pop q =
     (if cq_head q = None then Inr (None, q)
      else let node = cq_head q in
        rbind (deref (cq_nodes q) node) (\<lambda>c.
          let q = q\<lparr>cq_head := cq_next c\<rparr>;
              q = (if cq_head q = None then q\<lparr>cq_tail := None\<rparr> else q) in
          rbind (free_at (cq_nodes q) node) (\<lambda>h.
            Inr (cq_coro c, q\<lparr>cq_nodes := h, cq_size := cq_size q - 1\<rparr>))))"

text \<open>\<open>None\<close> would be a \<open>while\<close> loop that never ends.\<close>

definition coro_queue_clear :: "coro_queue_t \<Rightarrow> coro_queue_t res option" where
  "coro_queue_clear q = map_option (\<lambda>r. rbind r
      (\<lambda>h. Inr (q\<lparr>cq_nodes := h, cq_head := None, cq_tail := None, cq_size := 0\<rparr>)))
    (free_chain cq_next (cq_nodes q) (cq_head q))"

section \<open>Representation\<close>

text \<open>
  \<open>cq_rep q vs\<close>: the nodes hold the coroutines \<open>vs\<close>, first to run first; every live node is in
  the list; \<open>tail\<close> is the last node, and \<open>NULL\<close> when there is none; \<open>size\<close> counts the nodes.
\<close>

definition coros_at :: "coro_queue_node_t heap \<Rightarrow> addr list \<Rightarrow> ptr list" where
  "coros_at h as = map (\<lambda>a. cq_coro (the (h a))) as"

lemma coros_at_simps [simp]:
  "coros_at h [] = []"
  "coros_at h (a # as) = cq_coro (the (h a)) # coros_at h as"
  "coros_at h (as @ bs) = coros_at h as @ coros_at h bs"
  "length (coros_at h as) = length as"
  by (simp_all add: coros_at_def)

lemma coros_at_eq_simps [simp]:
  "coros_at h as = [] \<longleftrightarrow> as = []"
  "coros_at h as = v # vs \<longleftrightarrow> (\<exists>b bs. as = b # bs \<and> cq_coro (the (h b)) = v \<and> coros_at h bs = vs)"
  by (auto simp: coros_at_def)

lemma coros_at_other [simp]: "a \<notin> set as \<Longrightarrow> coros_at (h(a := v)) as = coros_at h as"
  by (auto simp: coros_at_def)

lemma coros_at_relink [simp]: "h a = Some c \<Longrightarrow> cq_coro c' = cq_coro c \<Longrightarrow> coros_at (h(a \<mapsto> c')) as = coros_at h as"
  by (auto simp: coros_at_def)

definition cq_at :: "coro_queue_t \<Rightarrow> addr list \<Rightarrow> addr list \<Rightarrow> bool" where
  "cq_at q as vs \<longleftrightarrow>
     chain cq_next (cq_nodes q) (cq_head q) as \<and> dom (cq_nodes q) = set as
     \<and> coros_at (cq_nodes q) as = map Some vs
     \<and> cq_tail q = (if as = [] then None else Some (last as))
     \<and> cq_size q = of_nat (length as)"

definition cq_rep :: "coro_queue_t \<Rightarrow> addr list \<Rightarrow> bool" where
  "cq_rep q vs \<longleftrightarrow> (\<exists>as. cq_at q as vs)"

lemma cq_rep_finite: "cq_rep q vs \<Longrightarrow> finite (dom (cq_nodes q))"
  by (auto simp: cq_rep_def cq_at_def)

lemma cq_rep_size: "cq_rep q vs \<Longrightarrow> cq_size q = of_nat (length vs)"
  by (auto simp: cq_rep_def cq_at_def dest!: arg_cong [where f = length and y = "map Some vs"])

lemma cq_rep_init: "cq_nodes q = Map.empty \<Longrightarrow> cq_rep (coro_queue_init q) []"
  by (auto simp: cq_rep_def cq_at_def coro_queue_init_def intro!: exI [of _ "[]"])

lemma cq_push_rep:
  assumes "cq_rep q vs" "cq_nodes q n = None"
  shows "\<exists>q'. coro_queue_push q (Some v) (Some n) = Inr (0, q') \<and> cq_rep q' (vs @ [v])"
proof -
  from assms(1) obtain as where at: "cq_at q as vs" by (auto simp: cq_rep_def)
  let ?d = "\<lparr>cq_next = None, cq_coro = Some v\<rparr>"
  from at have c: "chain cq_next (cq_nodes q) (cq_head q) as" and d: "dom (cq_nodes q) = set as"
    by (auto simp: cq_at_def)
  from assms(2) d have n: "n \<notin> set as" by auto
  show ?thesis
  proof (cases "as = []")
    case True
    let ?q = "q\<lparr>cq_nodes := (cq_nodes q)(n \<mapsto> ?d), cq_head := Some n, cq_tail := Some n, cq_size := cq_size q + 1\<rparr>"
    from at True have "cq_at ?q [n] (vs @ [v])" by (auto simp: cq_at_def)
    moreover from at True have "coro_queue_push q (Some v) (Some n) = Inr (0, ?q)"
      by (simp add: cq_at_def coro_queue_push_def Let_def)
    ultimately show ?thesis by (auto simp: cq_rep_def)
  next
    case False
    from chain_last_live [OF c False] obtain c0 where c0: "cq_nodes q (last as) = Some c0" by auto
    from False n have l: "last as \<in> set as" "n \<noteq> last as" using last_in_set by (auto simp del: last_in_set)
    let ?h = "(cq_nodes q)(n \<mapsto> ?d, last as \<mapsto> c0\<lparr>cq_next := Some n\<rparr>)"
    let ?q = "q\<lparr>cq_nodes := ?h, cq_tail := Some n, cq_size := cq_size q + 1\<rparr>"
    have "chain cq_next ?h (cq_head q) (as @ [n])"
      by (rule chain_link_behind [OF c False c0 assms(2)]) simp_all
    moreover have "coros_at ?h as = coros_at (cq_nodes q) as"
      using n c0 l by simp
    ultimately have "cq_at ?q (as @ [n]) (vs @ [v])"
      using at l d False by (auto simp: cq_at_def algebra_simps)
    moreover have "coro_queue_push q (Some v) (Some n) = Inr (0, ?q)"
      using at False c0 l by (auto simp: cq_at_def coro_queue_push_def Let_def)
    ultimately show ?thesis by (auto simp: cq_rep_def)
  qed
qed

lemma cq_pop_empty: "cq_rep q [] \<Longrightarrow> coro_queue_pop q = Inr (None, q)"
  by (auto simp: cq_rep_def cq_at_def coro_queue_pop_def)

lemma cq_pop_rep:
  assumes "cq_rep q (v # vs)"
  shows "\<exists>q'. coro_queue_pop q = Inr (Some v, q') \<and> cq_rep q' vs"
proof -
  from assms obtain a as where at: "cq_at q (a # as) (v # vs)"
    by (auto simp: cq_rep_def cq_at_def)
  then obtain c where c: "cq_head q = Some a" "cq_nodes q a = Some c"
      "chain cq_next (cq_nodes q) (cq_head q) (a # as)" "cq_coro c = Some v"
    by (auto simp: cq_at_def)
  from chain_head_notin [OF c(3)] have na: "a \<notin> set as" .
  from chain_pop [of cq_next "cq_nodes q" a as c] c
  have ch: "chain cq_next ((cq_nodes q)(a := None)) (cq_next c) as" by auto
  then have e: "cq_next c = None \<longleftrightarrow> as = []" by (rule chain_null_iff)
  let ?q = "q\<lparr>cq_head := cq_next c, cq_tail := (if as = [] then None else cq_tail q),
              cq_nodes := (cq_nodes q)(a := None), cq_size := cq_size q - 1\<rparr>"
  have "cq_at ?q as vs" using at ch na c by (auto simp: cq_at_def)
  moreover have "coro_queue_pop q = Inr (Some v, ?q)"
    using c e by (auto simp: coro_queue_pop_def Let_def)
  ultimately show ?thesis by (auto simp: cq_rep_def)
qed

lemma cq_clear_rep:
  assumes "cq_rep q vs"
  shows "\<exists>q'. coro_queue_clear q = Some (Inr q') \<and> cq_rep q' [] \<and> cq_nodes q' = Map.empty"
  using assms
  by (auto simp: coro_queue_clear_def cq_rep_def cq_at_def free_chain_chain restrict_dom_empty
      intro!: exI [of _ "[]"])

section \<open>The coroutine queue keeps the FIFO contract\<close>

definition coro_enq :: "coro_queue_t \<Rightarrow> addr \<Rightarrow> ptr \<Rightarrow> (bool \<times> coro_queue_t) res" where
  "coro_enq q v m = rbind (coro_queue_push q (Some v) m) (\<lambda>(err, q). Inr (err = 0, q))"

interpretation coroq: fifo_queue cq_rep coro_enq coro_queue_pop "\<lambda>_. True" "\<lambda>q m. fresh (cq_nodes q) m"
proof unfold_locales
  fix q vs m v
  assume "cq_rep q vs" "fresh (cq_nodes q) m"
  then show "\<exists>q'. coro_enq q v m = Inr (True, q') \<and> cq_rep q' (vs @ [v])"
    by (auto elim!: freshE simp: coro_enq_def dest: cq_push_rep [of q vs _ v])
qed (auto simp: cq_pop_empty cq_pop_rep)

end
