(* ===== verification/Coro_Map.thy ===== *)
theory Coro_Map
  imports Prelude
begin

text \<open>
  The table of running coroutines, \<open>threads/lab1.8/coroutines/coro_map.c\<close> and \<open>coro_map.h\<close>: a
  hash table with chained buckets from thread ids to coroutine pointers, on an explicit heap of
  nodes, and its refinement of a finite map. The contract \<open>thread_table\<close> is what the scheduler
  relies on.
\<close>

section \<open>The data structure and its operations\<close>

record coro_node_t =
  cm_tid :: i32
  cm_coro :: ptr
  cm_next :: ptr

record coro_map_t =
  buckets :: "ptr list option"
  capacity :: usize
  cm_size :: usize
  cm_nodes :: "coro_node_t heap"

definition MAP_CAPACITY :: usize where
  "MAP_CAPACITY = 16"

text \<open>\<open>pid_t\<close> is converted to \<open>unsigned int\<close> and then to \<open>size_t\<close>.\<close>

definition hash_tid :: "i32 \<Rightarrow> usize \<Rightarrow> usize res" where
  "hash_tid tid cap = (if cap = 0 then Inl DivByZero else Inr (ucast tid mod cap))"

text \<open>\<open>None\<close> is a \<open>NULL\<close> map; \<open>calloc_ok\<close> says whether \<open>calloc\<close> returned a block.\<close>

definition coro_map_create :: "coro_map_t option \<Rightarrow> usize \<Rightarrow> bool \<Rightarrow> int \<times> coro_map_t option" where
  "coro_map_create mp cap calloc_ok = (case mp of None \<Rightarrow> (-1, None)
     | Some m \<Rightarrow>
         let cap = (if cap = 0 then MAP_CAPACITY else cap) in
         if \<not> calloc_ok then (-1, Some (m\<lparr>buckets := None\<rparr>))
         else (0, Some (m\<lparr>buckets := Some (replicate (unat cap) None), capacity := cap, cm_size := 0\<rparr>)))"

text \<open>The loop over \<open>buckets[i]\<close> for \<open>i < capacity\<close> of \<open>coro_map_destroy\<close>.\<close>

fun free_buckets :: "coro_node_t heap \<Rightarrow> ptr list \<Rightarrow> coro_node_t heap res option" where
  "free_buckets h [] = Some (Inr h)"
| "free_buckets h (b # bs) = (case free_chain cm_next h b of None \<Rightarrow> None
     | Some (Inl e) \<Rightarrow> Some (Inl e)
     | Some (Inr h) \<Rightarrow> free_buckets h bs)"

definition coro_map_destroy :: "coro_map_t option \<Rightarrow> coro_map_t option res option" where
  "coro_map_destroy mp = (case mp of None \<Rightarrow> Some (Inr None)
     | Some m \<Rightarrow> (case buckets m of None \<Rightarrow> Some (Inr (Some m))
         | Some bs \<Rightarrow>
             if length bs < unat (capacity m) then Some (Inl OutOfBounds)
             else map_option (\<lambda>r. rbind r (\<lambda>h.
                    Inr (Some (m\<lparr>cm_nodes := h, buckets := None, capacity := 0, cm_size := 0\<rparr>))))
                  (free_buckets (cm_nodes m) (take (unat (capacity m)) bs))))"

text \<open>
  The loop that both \<open>coro_map_add\<close> and \<open>coro_map_get\<close> run along a bucket: the first node with
  the thread id, or \<open>NULL\<close>.
\<close>

partial_function (option) node_with :: "coro_node_t heap \<Rightarrow> ptr \<Rightarrow> i32 \<Rightarrow> ptr res option" where
  "node_with h p tid = (case p of None \<Rightarrow> Some (Inr None)
     | Some a \<Rightarrow> (case h a of None \<Rightarrow> Some (Inl UseAfterFree)
         | Some c \<Rightarrow> if cm_tid c = tid then Some (Inr (Some a)) else node_with h (cm_next c) tid))"

definition bucket_at :: "ptr list \<Rightarrow> usize \<Rightarrow> ptr res" where
  "bucket_at bs i = (if unat i < length bs then Inr (bs ! unat i) else Inl OutOfBounds)"

definition coro_map_add :: "coro_map_t option \<Rightarrow> i32 \<Rightarrow> ptr \<Rightarrow> ptr \<Rightarrow> (int \<times> coro_map_t option) res option" where
  "coro_map_add mp tid coro mal = (case mp of None \<Rightarrow> Some (Inr (-1, None))
     | Some m \<Rightarrow> (case buckets m of None \<Rightarrow> Some (Inr (-1, Some m))
         | Some bs \<Rightarrow>
             if coro = None then Some (Inr (-1, Some m))
             else (case rbind (hash_tid tid (capacity m)) (\<lambda>i. rbind (bucket_at bs i) (\<lambda>b. Inr (i, b))) of
                 Inl e \<Rightarrow> Some (Inl e)
               | Inr (index, current) \<Rightarrow>
                   map_option (\<lambda>r. rbind r (\<lambda>found.
                     if found \<noteq> None then
                       rbind (store (cm_nodes m) found (\<lambda>c. c\<lparr>cm_coro := coro\<rparr>))
                         (\<lambda>h. Inr (0, Some (m\<lparr>cm_nodes := h\<rparr>)))
                     else (case mal of None \<Rightarrow> Inr (-1, Some m)
                       | Some n \<Rightarrow>
                           Inr (0, Some (m\<lparr>cm_nodes := (cm_nodes m)(n \<mapsto>
                                   \<lparr>cm_tid = tid, cm_coro = coro, cm_next = current\<rparr>),
                                 buckets := Some (bs[unat index := Some n]),
                                 cm_size := cm_size m + 1\<rparr>)))))
                   (node_with (cm_nodes m) current tid))))"

definition coro_map_get :: "coro_map_t option \<Rightarrow> i32 \<Rightarrow> ptr res option" where
  "coro_map_get mp tid = (case mp of None \<Rightarrow> Some (Inr None)
     | Some m \<Rightarrow> (case buckets m of None \<Rightarrow> Some (Inr None)
         | Some bs \<Rightarrow>
             (case rbind (hash_tid tid (capacity m)) (bucket_at bs) of
                 Inl e \<Rightarrow> Some (Inl e)
               | Inr current \<Rightarrow>
                   map_option (\<lambda>r. rbind r (\<lambda>found.
                     if found \<noteq> None then rbind (deref (cm_nodes m) found) (\<lambda>c. Inr (cm_coro c))
                     else Inr None))
                   (node_with (cm_nodes m) current tid))))"

section \<open>Representation\<close>

text \<open>The bucket of a thread id, as a number.\<close>

definition slot :: "coro_map_t \<Rightarrow> i32 \<Rightarrow> nat" where
  "slot m tid = unat ((ucast tid :: usize) mod capacity m)"

text \<open>
  \<open>cm_at m bs as f\<close>: bucket \<open>i\<close> is the chain \<open>as i\<close>, whose thread ids all hash to \<open>i\<close>; no thread
  id occurs in two nodes; every live node is in a bucket; \<open>f\<close> is the map the nodes describe and
  \<open>size\<close> the number of its keys.
\<close>

definition cm_at :: "coro_map_t \<Rightarrow> ptr list \<Rightarrow> (nat \<Rightarrow> addr list) \<Rightarrow> (i32 \<rightharpoonup> addr) \<Rightarrow> bool" where
  "cm_at m bs as f \<longleftrightarrow>
     buckets m = Some bs \<and> capacity m \<noteq> 0 \<and> length bs = unat (capacity m)
     \<and> (\<forall>i < length bs. chain cm_next (cm_nodes m) (bs ! i) (as i)
          \<and> (\<forall>a \<in> set (as i). slot m (cm_tid (the (cm_nodes m a))) = i))
     \<and> dom (cm_nodes m) = (\<Union>i < length bs. set (as i))
     \<and> inj_on (\<lambda>a. cm_tid (the (cm_nodes m a))) (dom (cm_nodes m))
     \<and> (\<forall>a c. cm_nodes m a = Some c \<longrightarrow> cm_coro c \<noteq> None \<and> f (cm_tid c) = cm_coro c)
     \<and> dom f = (\<lambda>a. cm_tid (the (cm_nodes m a))) ` dom (cm_nodes m)
     \<and> cm_size m = of_nat (card (dom f))"

lemma cm_atD:
  assumes "cm_at m bs as f"
  shows "buckets m = Some bs" "capacity m \<noteq> 0" "length bs = unat (capacity m)"
    and "i < length bs \<Longrightarrow> chain cm_next (cm_nodes m) (bs ! i) (as i)"
    and "i < length bs \<Longrightarrow> a \<in> set (as i) \<Longrightarrow> slot m (cm_tid (the (cm_nodes m a))) = i"
    and "dom (cm_nodes m) = (\<Union>i < length bs. set (as i))"
    and "cm_nodes m a = Some c \<Longrightarrow> cm_nodes m b = Some d \<Longrightarrow> cm_tid c = cm_tid d \<Longrightarrow> a = b"
    and "cm_nodes m a = Some c \<Longrightarrow> cm_coro c \<noteq> None \<and> f (cm_tid c) = cm_coro c"
    and "dom f = (\<lambda>a. cm_tid (the (cm_nodes m a))) ` dom (cm_nodes m)"
    and "cm_size m = of_nat (card (dom f))"
proof -
  obtain at: "buckets m = Some bs" "capacity m \<noteq> 0" "length bs = unat (capacity m)"
    and ch: "\<forall>i < length bs. chain cm_next (cm_nodes m) (bs ! i) (as i)
          \<and> (\<forall>a \<in> set (as i). slot m (cm_tid (the (cm_nodes m a))) = i)"
    and d: "dom (cm_nodes m) = (\<Union>i < length bs. set (as i))"
    and inj: "inj_on (\<lambda>a. cm_tid (the (cm_nodes m a))) (dom (cm_nodes m))"
    and vals: "\<forall>a c. cm_nodes m a = Some c \<longrightarrow> cm_coro c \<noteq> None \<and> f (cm_tid c) = cm_coro c"
    and rest: "dom f = (\<lambda>a. cm_tid (the (cm_nodes m a))) ` dom (cm_nodes m)"
      "cm_size m = of_nat (card (dom f))"
    using assms unfolding cm_at_def by (elim conjE) (rule that)
  show "buckets m = Some bs" "capacity m \<noteq> 0" "length bs = unat (capacity m)" by (fact at)+
  show "dom (cm_nodes m) = (\<Union>i < length bs. set (as i))" by (fact d)
  show "dom f = (\<lambda>a. cm_tid (the (cm_nodes m a))) ` dom (cm_nodes m)"
    "cm_size m = of_nat (card (dom f))" by (fact rest)+
  show "cm_nodes m a = Some c \<Longrightarrow> cm_coro c \<noteq> None \<and> f (cm_tid c) = cm_coro c" using vals by blast
  show "i < length bs \<Longrightarrow> chain cm_next (cm_nodes m) (bs ! i) (as i)"
    "i < length bs \<Longrightarrow> a \<in> set (as i) \<Longrightarrow> slot m (cm_tid (the (cm_nodes m a))) = i" using ch by blast+
  show "cm_nodes m a = Some c \<Longrightarrow> cm_nodes m b = Some d \<Longrightarrow> cm_tid c = cm_tid d \<Longrightarrow> a = b"
    by (rule inj_onD [OF inj]) auto
qed

lemma cm_atI:
  assumes "buckets m = Some bs" "capacity m \<noteq> 0" "length bs = unat (capacity m)"
    and "\<And>i. i < length bs \<Longrightarrow> chain cm_next (cm_nodes m) (bs ! i) (as i)"
    and "\<And>i a. i < length bs \<Longrightarrow> a \<in> set (as i) \<Longrightarrow> slot m (cm_tid (the (cm_nodes m a))) = i"
    and "dom (cm_nodes m) = (\<Union>i < length bs. set (as i))"
    and "\<And>a b c d. cm_nodes m a = Some c \<Longrightarrow> cm_nodes m b = Some d \<Longrightarrow> cm_tid c = cm_tid d \<Longrightarrow> a = b"
    and "\<And>a c. cm_nodes m a = Some c \<Longrightarrow> cm_coro c \<noteq> None \<and> f (cm_tid c) = cm_coro c"
    and "dom f = (\<lambda>a. cm_tid (the (cm_nodes m a))) ` dom (cm_nodes m)"
    and "cm_size m = of_nat (card (dom f))"
  shows "cm_at m bs as f"
proof -
  have "inj_on (\<lambda>a. cm_tid (the (cm_nodes m a))) (dom (cm_nodes m))"
    using assms(7) by (auto simp: inj_on_def simp del: not_None_eq)
  with assms show ?thesis unfolding cm_at_def by blast
qed

definition cm_rep :: "coro_map_t \<Rightarrow> (i32 \<rightharpoonup> addr) \<Rightarrow> bool" where
  "cm_rep m f \<longleftrightarrow> (\<exists>bs as. cm_at m bs as f)"

lemma cm_rep_finite: "cm_rep m f \<Longrightarrow> finite (dom (cm_nodes m))"
  by (auto simp: cm_rep_def cm_at_def)

lemma cm_rep_size: "cm_rep m f \<Longrightarrow> cm_size m = of_nat (card (dom f))"
  by (auto simp: cm_rep_def cm_at_def)

lemma slot_less: "capacity m \<noteq> 0 \<Longrightarrow> slot m tid < unat (capacity m)"
  by (simp add: slot_def unat_mod_distrib) (metis unat_eq_zero mod_less_divisor neq0_conv)

lemma node_with_chain:
  "chain cm_next h p as \<Longrightarrow> node_with h p tid = Some (Inr (find (\<lambda>a. cm_tid (the (h a)) = tid) as))"
proof (induction as arbitrary: p)
  case Nil
  then show ?case by (simp add: node_with.simps)
next
  case (Cons a as)
  then obtain c where "p = Some a" "h a = Some c" "chain cm_next h (cm_next c) as" by auto
  with Cons.IH show ?case by (subst node_with.simps) simp
qed

lemma cm_bucket_of:
  assumes "cm_at m bs as f"
  shows "rbind (hash_tid tid (capacity m)) (bucket_at bs) = Inr (bs ! slot m tid)"
    and "slot m tid < length bs"
    and "chain cm_next (cm_nodes m) (bs ! slot m tid) (as (slot m tid))"
    and "hash_tid tid (capacity m) = Inr (ucast tid mod capacity m)"
  using assms slot_less [of m tid]
  by (auto simp: cm_at_def hash_tid_def bucket_at_def slot_def)

text \<open>The search in the bucket of a thread id finds its node exactly when the map has the id.\<close>

lemma cm_find:
  assumes at: "cm_at m bs as f"
  shows "case find (\<lambda>a. cm_tid (the (cm_nodes m a)) = tid) (as (slot m tid)) of
      None \<Rightarrow> f tid = None
    | Some a \<Rightarrow> \<exists>c. cm_nodes m a = Some c \<and> cm_tid c = tid \<and> cm_coro c = f tid \<and> f tid \<noteq> None"
proof (cases "find (\<lambda>a. cm_tid (the (cm_nodes m a)) = tid) (as (slot m tid))")
  case None
  have "tid \<notin> dom f"
  proof
    assume "tid \<in> dom f"
    with at obtain a i where a: "i < length bs" "a \<in> set (as i)" "cm_tid (the (cm_nodes m a)) = tid"
      by (auto simp: cm_at_def)
    with at have "slot m tid = i" by (auto simp: cm_at_def)
    with a None show False by (auto simp: find_None_iff)
  qed
  with None show ?thesis by auto
next
  case (Some a)
  then have a: "a \<in> set (as (slot m tid))" "cm_tid (the (cm_nodes m a)) = tid"
    by (auto dest: find_SomeD)
  with chain_dom [OF cm_bucket_of(3) [OF at]] obtain c where "cm_nodes m a = Some c" by blast
  with a at Some show ?thesis by (auto simp: cm_at_def)
qed

lemma cm_get_rep:
  assumes "cm_rep m f"
  shows "coro_map_get (Some m) tid = Some (Inr (f tid))"
proof -
  from assms obtain bs as where at: "cm_at m bs as f" by (auto simp: cm_rep_def)
  then have "buckets m = Some bs" by (simp add: cm_at_def)
  with cm_bucket_of [OF at, of tid] cm_find [OF at, of tid] show ?thesis
    by (auto simp: coro_map_get_def node_with_chain split: option.splits)
qed

text \<open>A thread id that is in the table gets its coroutine replaced in place.\<close>

lemma cm_at_replace:
  assumes at: "cm_at m bs as f" and a: "cm_nodes m a = Some c"
  shows "cm_at (m\<lparr>cm_nodes := (cm_nodes m)(a \<mapsto> c\<lparr>cm_coro := Some v\<rparr>)\<rparr>) bs as (f(cm_tid c \<mapsto> v))"
    (is "cm_at ?m bs as ?f")
proof -
  note D = cm_atD [OF at]
  have t: "cm_tid (the (cm_nodes ?m b)) = cm_tid (the (cm_nodes m b))" for b using a by simp
  have s: "slot ?m = slot m" by (simp add: slot_def fun_eq_iff)
  have d: "dom (cm_nodes ?m) = dom (cm_nodes m)" using a by auto
  have df: "dom ?f = dom f" using D(8) [OF a] by auto
  show ?thesis
  proof (rule cm_atI)
    fix i assume "i < length bs"
    then show "chain cm_next (cm_nodes ?m) (bs ! i) (as i)"
      using D(4) a by (auto intro: chain_relink)
  next
    fix x c1 y c2
    assume "cm_nodes ?m x = Some c1" "cm_nodes ?m y = Some c2" "cm_tid c1 = cm_tid c2"
    then show "x = y" using D(7) a by (auto split: if_splits)
  next
    fix x c1
    assume "cm_nodes ?m x = Some c1"
    then show "cm_coro c1 \<noteq> None \<and> ?f (cm_tid c1) = cm_coro c1"
      using D(7,8) a by (auto split: if_splits)
  next
    fix i b
    assume "i < length bs" "b \<in> set (as i)"
    then show "slot ?m (cm_tid (the (cm_nodes ?m b))) = i" unfolding s t by (rule D(5))
  next
    show "dom (cm_nodes ?m) = (\<Union>i < length bs. set (as i))" unfolding d by (rule D(6))
  next
    show "dom ?f = (\<lambda>a. cm_tid (the (cm_nodes ?m a))) ` dom (cm_nodes ?m)"
      unfolding t d df by (rule D(9))
  next
    show "cm_size ?m = of_nat (card (dom ?f))" unfolding df using D(10) by simp
  qed (use D(1,2,3) in auto)
qed

text \<open>A new thread id gets a node in front of its bucket.\<close>

lemma cm_at_insert:
  assumes at: "cm_at m bs as f" and n: "cm_nodes m n = None" and new: "f tid = None"
  shows "cm_at (m\<lparr>cm_nodes := (cm_nodes m)(n \<mapsto> \<lparr>cm_tid = tid, cm_coro = Some v, cm_next = bs ! slot m tid\<rparr>),
                  buckets := Some (bs[slot m tid := Some n]), cm_size := cm_size m + 1\<rparr>)
           (bs[slot m tid := Some n]) (as(slot m tid := n # as (slot m tid))) (f(tid \<mapsto> v))"
    (is "cm_at ?m ?bs ?as ?f")
proof -
  note D = cm_atD [OF at]
  note b = cm_bucket_of(2,3) [OF at, of tid]
  have s: "slot ?m = slot m" by (simp add: slot_def fun_eq_iff)
  have notin: "n \<notin> set (as i)" if "i < length bs" for i
    using chain_dom [OF D(4) [OF that]] n by auto
  have newt: "cm_nodes m a = Some c \<Longrightarrow> cm_tid c \<noteq> tid" for a c
    using D(8) [of a c] new by auto
  have fin: "finite (dom f)" unfolding D(9) D(6) by blast
  show ?thesis
  proof (rule cm_atI)
    fix i assume i: "i < length ?bs"
    then show "chain cm_next (cm_nodes ?m) (?bs ! i) (?as i)"
      using D(4) [of i] b n notin [of i]
      by (cases "i = slot m tid") (auto intro!: chain_update_other)
    fix a assume "a \<in> set (?as i)"
    then show "slot ?m (cm_tid (the (cm_nodes ?m a))) = i"
      using D(5) [of i a] i notin [of i] by (auto simp: s split: if_splits)
  next
    show "dom (cm_nodes ?m) = (\<Union>i < length ?bs. set (?as i))"
      using D(6) b(1) by (auto split: if_splits)
  next
    fix x c1 y c2
    assume "cm_nodes ?m x = Some c1" "cm_nodes ?m y = Some c2" "cm_tid c1 = cm_tid c2"
    then show "x = y" using D(7) newt by (auto split: if_splits) metis
  next
    fix x c1
    assume "cm_nodes ?m x = Some c1"
    then show "cm_coro c1 \<noteq> None \<and> ?f (cm_tid c1) = cm_coro c1"
      using D(8) newt by (auto split: if_splits)
  next
    have "(\<lambda>a. cm_tid (the (cm_nodes ?m a))) ` dom (cm_nodes m) = dom f"
      unfolding D(9) using n by (intro image_cong) auto
    moreover have "dom (cm_nodes ?m) = insert n (dom (cm_nodes m))" by simp
    ultimately show "dom ?f = (\<lambda>a. cm_tid (the (cm_nodes ?m a))) ` dom (cm_nodes ?m)" by auto
  next
    show "cm_size ?m = of_nat (card (dom ?f))"
      using fin new D(10) by (simp add: card_insert_if domIff)
  qed (use D(1,2,3) in auto)
qed

lemma cm_add_rep:
  assumes "cm_rep m f" "cm_nodes m n = None"
  shows "\<exists>m'. coro_map_add (Some m) tid (Some v) (Some n) = Some (Inr (0, Some m')) \<and> cm_rep m' (f(tid \<mapsto> v))"
proof -
  from assms(1) obtain bs as where at: "cm_at m bs as f" by (auto simp: cm_rep_def)
  note b = cm_bucket_of [OF at, of tid]
  have ix: "rbind (hash_tid tid (capacity m)) (\<lambda>i. rbind (bucket_at bs i) (\<lambda>b. Inr (i, b)))
      = Inr (ucast tid mod capacity m, bs ! slot m tid)"
    using b by (simp add: bucket_at_def slot_def)
  have bk: "buckets m = Some bs" using at by (rule cm_atD)
  show ?thesis
  proof (cases "find (\<lambda>a. cm_tid (the (cm_nodes m a)) = tid) (as (slot m tid))")
    case None
    with cm_find [OF at, of tid] have "f tid = None" by simp
    from cm_at_insert [OF at assms(2) this, of v] have "cm_rep (m\<lparr>cm_nodes := (cm_nodes m)(n \<mapsto>
          \<lparr>cm_tid = tid, cm_coro = Some v, cm_next = bs ! slot m tid\<rparr>),
        buckets := Some (bs[slot m tid := Some n]), cm_size := cm_size m + 1\<rparr>) (f(tid \<mapsto> v))"
      unfolding cm_rep_def by blast
    moreover have "unat (ucast tid mod capacity m) = slot m tid" by (simp add: slot_def)
    ultimately show ?thesis
      using None ix bk by (simp add: coro_map_add_def node_with_chain [OF b(3)])
  next
    case (Some a)
    with cm_find [OF at, of tid] obtain c where c: "cm_nodes m a = Some c" "cm_tid c = tid" by auto
    from cm_at_replace [OF at c(1), of v]
    have "cm_rep (m\<lparr>cm_nodes := (cm_nodes m)(a \<mapsto> c\<lparr>cm_coro := Some v\<rparr>)\<rparr>) (f(tid \<mapsto> v))"
      unfolding cm_rep_def c(2) by blast
    then show ?thesis
      using Some ix bk c by (simp add: coro_map_add_def node_with_chain [OF b(3)])
  qed
qed

lemma cm_create_rep:
  assumes "cm_nodes m = Map.empty"
  shows "\<exists>m'. coro_map_create (Some m) cap True = (0, Some m') \<and> cm_rep m' Map.empty"
proof -
  let ?cap = "if cap = 0 then MAP_CAPACITY else cap"
  let ?m = "m\<lparr>buckets := Some (replicate (unat ?cap) None), capacity := ?cap, cm_size := 0\<rparr>"
  have "?cap \<noteq> 0" by (simp add: MAP_CAPACITY_def)
  then have "cm_at ?m (replicate (unat ?cap) None) (\<lambda>_. []) Map.empty"
    using assms by (intro cm_atI) auto
  then have "cm_rep ?m Map.empty" unfolding cm_rep_def by blast
  then show ?thesis by (simp add: coro_map_create_def Let_def)
qed

lemma free_buckets_chains:
  "\<lbrakk>\<And>i. i < length bs \<Longrightarrow> chain cm_next h (bs ! i) (as i);
    \<And>i j. i < j \<Longrightarrow> j < length bs \<Longrightarrow> set (as i) \<inter> set (as j) = {}\<rbrakk>
   \<Longrightarrow> free_buckets h bs = Some (Inr (h |` (- (\<Union>i < length bs. set (as i)))))"
proof (induction bs arbitrary: h as)
  case Nil
  then show ?case by (simp add: restrict_map_def)
next
  case (Cons b bs)
  let ?h = "h |` (- set (as 0))"
  from Cons.prems(1) [of 0] have "free_chain cm_next h b = Some (Inr ?h)"
    by (simp add: free_chain_chain)
  moreover have "free_buckets ?h bs = Some (Inr (?h |` (- (\<Union>i < length bs. set (as (Suc i))))))"
  proof (rule Cons.IH)
    fix i assume i: "i < length bs"
    with Cons.prems(2) [of 0 "Suc i"] have "a \<in> set (as (Suc i)) \<Longrightarrow> ?h a = h a" for a
      by (auto simp: restrict_map_def)
    then show "chain cm_next ?h (bs ! i) (as (Suc i))"
      using Cons.prems(1) [of "Suc i"] i chain_cong [of "as (Suc i)" ?h h] by simp
  qed (use Cons.prems(2) in auto)
  moreover have "?h |` (- (\<Union>i < length bs. set (as (Suc i)))) = h |` (- (\<Union>i < length (b # bs). set (as i)))"
    by (auto simp: restrict_map_def fun_eq_iff lessThan_Suc_eq_insert_0)
  ultimately show ?case by simp
qed

lemma cm_destroy_rep:
  assumes "cm_rep m f"
  shows "\<exists>m'. coro_map_destroy (Some m) = Some (Inr (Some m')) \<and> cm_nodes m' = Map.empty \<and> buckets m' = None"
proof -
  from assms obtain bs as where at: "cm_at m bs as f" by (auto simp: cm_rep_def)
  note D = cm_atD [OF at]
  have "free_buckets (cm_nodes m) bs = Some (Inr (cm_nodes m |` (- (\<Union>i < length bs. set (as i)))))"
  proof (rule free_buckets_chains)
    fix i j :: nat
    assume "i < j" "j < length bs"
    then show "set (as i) \<inter> set (as j) = {}" using D(5) [of i] D(5) [of j] by fastforce
  qed (rule D(4))
  moreover have "cm_nodes m |` (- (\<Union>i < length bs. set (as i))) = Map.empty"
    by (rule restrict_dom_empty) (simp add: D(6))
  ultimately show ?thesis using D(1,3) by (simp add: coro_map_destroy_def)
qed

section \<open>The contract of a table\<close>

text \<open>A series of calls.\<close>

fun add_all :: "('m \<Rightarrow> 'k \<Rightarrow> 'v \<Rightarrow> ptr \<Rightarrow> 'm res option) \<Rightarrow> ('m \<Rightarrow> ptr) \<Rightarrow> 'm \<Rightarrow> ('k \<times> 'v) list \<Rightarrow> 'm res option" where
  "add_all add alloc m [] = Some (Inr m)"
| "add_all add alloc m ((k, v) # kvs) = (case add m k v (alloc m) of
     Some (Inr m) \<Rightarrow> add_all add alloc m kvs | r \<Rightarrow> r)"

text \<open>
  \<open>rep m f\<close>: the table \<open>m\<close> describes the map \<open>f\<close>. \<open>add m k v n\<close> stores \<open>v\<close> under \<open>k\<close>, with \<open>n\<close>
  the block \<open>malloc\<close> returned, \<open>get m k\<close> looks a key up; both always return.
\<close>

locale thread_table =
  fixes rep :: "'m \<Rightarrow> ('k \<rightharpoonup> 'v) \<Rightarrow> bool"
    and add :: "'m \<Rightarrow> 'k \<Rightarrow> 'v \<Rightarrow> ptr \<Rightarrow> 'm res option"
    and get :: "'m \<Rightarrow> 'k \<Rightarrow> 'v option res option"
    and grant :: "'m \<Rightarrow> ptr \<Rightarrow> bool"
  assumes add_law: "rep m f \<Longrightarrow> grant m n \<Longrightarrow> \<exists>m'. add m k v n = Some (Inr m') \<and> rep m' (f(k \<mapsto> v))"
    and get_law: "rep m f \<Longrightarrow> get m k = Some (Inr (f k))"
begin

text \<open>Later entries for a key win, other keys are not disturbed.\<close>

lemma add_all_get:
  assumes "rep m f" "\<And>m f. rep m f \<Longrightarrow> grant m (alloc m)"
  shows "\<exists>m'. add_all add alloc m kvs = Some (Inr m') \<and> rep m' (f ++ map_of (rev kvs))
    \<and> (\<forall>k. get m' k = Some (Inr ((f ++ map_of (rev kvs)) k)))"
  using assms(1)
proof (induction kvs arbitrary: m f)
  case Nil
  then show ?case by (simp add: get_law)
next
  case (Cons kv kvs)
  obtain k v where kv: "kv = (k, v)" by (cases kv)
  from add_law [OF Cons.prems assms(2) [OF Cons.prems], of k v] obtain m1
    where m1: "add m k v (alloc m) = Some (Inr m1)" "rep m1 (f(k \<mapsto> v))" by blast
  from Cons.IH [OF m1(2)] m1(1) kv show ?case by (simp del: fun_upd_apply)
qed

end

definition table_add :: "coro_map_t \<Rightarrow> i32 \<Rightarrow> addr \<Rightarrow> ptr \<Rightarrow> coro_map_t res option" where
  "table_add m tid v n = map_option (\<lambda>r. rbind r (\<lambda>(err, m). Inr (the m))) (coro_map_add (Some m) tid (Some v) n)"

interpretation corom: thread_table cm_rep table_add "\<lambda>m. coro_map_get (Some m)" "\<lambda>m n. fresh (cm_nodes m) n"
proof unfold_locales
  fix m f n k v
  assume "cm_rep m f" "fresh (cm_nodes m) n"
  then show "\<exists>m'. table_add m k v n = Some (Inr m') \<and> cm_rep m' (f(k \<mapsto> v))"
    by (auto elim!: freshE simp: table_add_def dest: cm_add_rep [of m f _ k v])
qed (rule cm_get_rep)

section \<open>Properties\<close>

text \<open>
  Property C21. In a table made by \<open>coro_map_create\<close>, after any series of \<open>coro_map_add\<close> calls
  \<open>coro_map_get\<close> returns for every thread id the coroutine that was added last for it, and
  \<open>NULL\<close> for an id that was never added, whatever ids share a bucket; \<open>size\<close> is the number of
  different ids; \<open>coro_map_destroy\<close> then ends and frees every node. Every loop along a bucket ends
  and no call faults.
\<close>

theorem table_keeps_last_entry:
  assumes "cm_nodes m0 = Map.empty" "coro_map_create (Some m0) cap True = (0, Some m)"
    and "\<And>h. finite (dom h) \<Longrightarrow> fresh h (alloc h)"
  shows "\<exists>m' m''. add_all table_add (\<lambda>m. alloc (cm_nodes m)) m kvs = Some (Inr m')
    \<and> (\<forall>tid. coro_map_get (Some m') tid = Some (Inr (map_of (rev kvs) tid)))
    \<and> cm_size m' = of_nat (card (fst ` set kvs))
    \<and> coro_map_destroy (Some m') = Some (Inr (Some m'')) \<and> cm_nodes m'' = Map.empty"
proof -
  from cm_create_rep [OF assms(1), of cap] assms(2) have "cm_rep m Map.empty" by simp
  from corom.add_all_get [OF this, of "\<lambda>m. alloc (cm_nodes m)" kvs] assms(3) cm_rep_finite
  obtain m' where m': "add_all table_add (\<lambda>m. alloc (cm_nodes m)) m kvs = Some (Inr m')"
    "cm_rep m' (map_of (rev kvs))" "\<forall>k. coro_map_get (Some m') k = Some (Inr (map_of (rev kvs) k))"
    by auto
  from cm_rep_size [OF m'(2)] have "cm_size m' = of_nat (card (fst ` set kvs))"
    by (simp add: dom_map_of_conv_image_fst)
  with m' cm_destroy_rep [OF m'(2)] show ?thesis by blast
qed

theorem table_keeps_last_entry_witness:
  "\<exists>m m' m''. coro_map_create (Some \<lparr>buckets = None, capacity = 0, cm_size = 0, cm_nodes = Map.empty\<rparr>)
        MAP_CAPACITY True = (0, Some m)
    \<and> add_all table_add (\<lambda>m. least_free (cm_nodes m)) m [(3, 8), (19, 9), (3, 10)] = Some (Inr m')
    \<and> coro_map_get (Some m') 3 = Some (Inr (Some 10)) \<and> coro_map_get (Some m') 19 = Some (Inr (Some 9))
    \<and> coro_map_get (Some m') 35 = Some (Inr None) \<and> cm_size m' = 2
    \<and> coro_map_destroy (Some m') = Some (Inr (Some m'')) \<and> cm_nodes m'' = Map.empty"
proof -
  let ?m0 = "\<lparr>buckets = None, capacity = 0, cm_size = 0, cm_nodes = Map.empty\<rparr> :: coro_map_t"
  obtain m where m: "coro_map_create (Some ?m0) MAP_CAPACITY True = (0, Some m)"
    by (simp add: coro_map_create_def Let_def)
  from table_keeps_last_entry [OF _ m fresh_least_free, of "[(3, 8), (19, 9), (3, 10)]"]
  obtain m' m'' where r: "add_all table_add (\<lambda>m. least_free (cm_nodes m)) m [(3, 8), (19, 9), (3, 10)] = Some (Inr m')"
    "\<forall>tid. coro_map_get (Some m') tid = Some (Inr (map_of (rev [(3, 8), (19, 9), (3, 10)]) tid))"
    "cm_size m' = of_nat (card (fst ` set [(3 :: i32, 8 :: addr), (19, 9), (3, 10)]))"
    "coro_map_destroy (Some m') = Some (Inr (Some m''))" "cm_nodes m'' = Map.empty" by auto
  from r(2) have "coro_map_get (Some m') 3 = Some (Inr (Some 10))"
    "coro_map_get (Some m') 19 = Some (Inr (Some 9))" "coro_map_get (Some m') 35 = Some (Inr None)"
    by simp_all
  moreover from r(3) have "cm_size m' = 2" by (simp add: card_insert_if)
  ultimately show ?thesis using m r(1,4,5) by blast
qed

end
