(* ===== verification/Coroutine.thy ===== *)
theory Coroutine
  imports Coro_Queue Coro_Map
begin

text \<open>
  The coroutine library, \<open>threads/lab1.8/coroutines/coroutine.c\<close> with \<open>coro_core.h\<close>,
  \<open>scheduler.h\<close> and \<open>coroutine.h\<close>.

  A saved \<open>ucontext_t\<close> is the point at which its owner goes on when it is resumed; \<open>swapcontext\<close>
  stores the point in the first context and hands control to the second. The glibc calls are
  modelled as they behave when they succeed, except \<open>getcontext\<close>, whose result is an argument.
  A user routine is the list of what it does: an output or a call of \<open>yeild()\<close> that ends the
  process when \<open>yeild()\<close> fails, as \<open>count_task\<close> does.

  Code that runs on a stack that was freed is undefined behaviour; memory that was just freed is
  normally still mapped, so the model goes on and counts the \<open>swapcontext\<close> calls made on such a
  stack in the field \<open>stale\<close>.
\<close>

section \<open>State\<close>

datatype 'o act = Emit 'o | Yield

datatype 'o coro_point = Wrapper | InRoutine "'o act list" | AfterFinish

datatype sched_point = SchedStart | SchedLoop | AfterMainSwap

record 'u context_t =
  ctx_point :: 'u
  ctx_stack :: ptr

record 'o coroutine_t =
  scheduler :: ptr
  co_context :: "'o coro_point context_t"
  user_routine :: "'o act list option"

record scheduler_t =
  s_context :: "sched_point context_t"
  s_queue :: coro_queue_t
  is_done :: bool

record 'o world =
  coro_map_init_cnt :: int
  cur_coro_map :: coro_map_t
  coros :: "'o coroutine_t heap"
  scheds :: "scheduler_t heap"
  stacks :: "unit heap"
  out :: "'o list"
  stale :: nat

definition STACK_MALLOC_ERR :: int where "STACK_MALLOC_ERR = -1"
definition CONTEXT_DESTROY_ERR :: int where "CONTEXT_DESTROY_ERR = -2"
definition CREATE_CORO_ERR :: int where "CREATE_CORO_ERR = -4"
definition CORO_INIT_ERR :: int where "CORO_INIT_ERR = -6"
definition CORO_FINI_ERR :: int where "CORO_FINI_ERR = -7"

lemmas err_codes = STACK_MALLOC_ERR_def CONTEXT_DESTROY_ERR_def CREATE_CORO_ERR_def CORO_INIT_ERR_def
  CORO_FINI_ERR_def

text \<open>Where the kernel thread executes.\<close>

datatype ctrl = InMain | InSched addr | InCoro addr | ThreadExit

section \<open>Setting up\<close>

definition coro_init :: "'o world \<Rightarrow> bool \<Rightarrow> int \<times> 'o world" where
  "coro_init w calloc_ok =
     (if coro_map_init_cnt w > 0 then (CORO_INIT_ERR, w)
      else let w = w\<lparr>coro_map_init_cnt := coro_map_init_cnt w + 1\<rparr> in
        (0, w\<lparr>cur_coro_map := the (snd (coro_map_create (Some (cur_coro_map w)) MAP_CAPACITY calloc_ok))\<rparr>))"

definition coro_fini :: "'o world \<Rightarrow> (int \<times> 'o world) res option" where
  "coro_fini w =
     (if coro_map_init_cnt w \<le> 0 then Some (Inr (CORO_FINI_ERR, w))
      else let w = w\<lparr>coro_map_init_cnt := coro_map_init_cnt w - 1\<rparr> in
        tbind (coro_map_destroy (Some (cur_coro_map w)))
          (\<lambda>m. Some (Inr (0, w\<lparr>cur_coro_map := the m\<rparr>))))"

text \<open>
  \<open>m\<close> is the block of \<open>malloc(STACK_SIZE)\<close>, \<open>gerr\<close> the result of \<open>getcontext\<close>, \<open>start\<close> the entry
  point that \<open>makecontext\<close> installs.
\<close>

definition create_context ::
  "unit heap \<Rightarrow> 'u context_t \<Rightarrow> 'u \<Rightarrow> ptr \<Rightarrow> int \<Rightarrow> int \<times> 'u context_t \<times> unit heap" where
  "create_context st ctx start m gerr = (case m of None \<Rightarrow> (STACK_MALLOC_ERR, ctx, st)
     | Some a \<Rightarrow>
         let st = st(a \<mapsto> ()); ctx = ctx\<lparr>ctx_stack := Some a\<rparr> in
         if gerr \<noteq> 0 then (gerr, ctx, st) else (0, ctx\<lparr>ctx_point := start\<rparr>, st))"

definition create_scheduler :: "'o world \<Rightarrow> ptr \<Rightarrow> ptr \<Rightarrow> int \<Rightarrow> (int \<times> 'o world) res" where
  "create_scheduler w s m gerr =
     (if coro_map_init_cnt w \<le> 0 then Inr (CORO_INIT_ERR, w)
      else if s = None then Inr (CREATE_CORO_ERR, w)
      else rbind (deref (scheds w) s) (\<lambda>sc.
        let (err, ctx, st) = create_context (stacks w) (s_context sc) SchedStart m gerr;
            sc = sc\<lparr>s_context := ctx\<rparr>; w = w\<lparr>stacks := st\<rparr> in
        if err \<noteq> 0 then Inr (err, w\<lparr>scheds := (scheds w)(the s \<mapsto> sc)\<rparr>)
        else let sc = sc\<lparr>s_queue := coro_queue_init (s_queue sc), is_done := False\<rparr> in
          Inr (0, w\<lparr>scheds := (scheds w)(the s \<mapsto> sc)\<rparr>)))"

text \<open>Pushing a coroutine on the queue of the scheduler at \<open>s\<close>; \<open>m\<close> is the block for the node.\<close>

definition sched_push :: "'o world \<Rightarrow> ptr \<Rightarrow> ptr \<Rightarrow> (coro_queue_node_t heap \<Rightarrow> ptr) \<Rightarrow> (int \<times> 'o world) res" where
  "sched_push w s c qa =
     rbind (deref (scheds w) s) (\<lambda>sc.
     rbind (coro_queue_push (s_queue sc) c (qa (cq_nodes (s_queue sc)))) (\<lambda>(err, q).
       Inr (err, w\<lparr>scheds := (scheds w)(the s \<mapsto> sc\<lparr>s_queue := q\<rparr>)\<rparr>)))"

definition create_coroutine :: "'o world \<Rightarrow> ptr \<Rightarrow> ptr \<Rightarrow> 'o act list option \<Rightarrow> ptr \<Rightarrow> int
    \<Rightarrow> (coro_queue_node_t heap \<Rightarrow> ptr) \<Rightarrow> (int \<times> 'o world) res" where
  "create_coroutine w c s routine m gerr qa =
     (if coro_map_init_cnt w \<le> 0 then Inr (CORO_INIT_ERR, w)
      else if c = None \<or> s = None then Inr (CREATE_CORO_ERR, w)
      else rbind (deref (coros w) c) (\<lambda>co.
        let co = co\<lparr>scheduler := s, user_routine := routine\<rparr>;
            (err, ctx, st) = create_context (stacks w) (co_context co) Wrapper m gerr;
            w = w\<lparr>stacks := st, coros := (coros w)(the c \<mapsto> co\<lparr>co_context := ctx\<rparr>)\<rparr> in
        if err \<noteq> 0 then Inr (err, w) else sched_push w s c qa))"

section \<open>Running\<close>

text \<open>Storing the resume point of a context, the first half of \<open>swapcontext\<close>.\<close>

definition save_coro :: "'o world \<Rightarrow> ptr \<Rightarrow> 'o coro_point \<Rightarrow> 'o world res" where
  "save_coro w c p = rbind (store (coros w) c (\<lambda>co. co\<lparr>co_context := (co_context co)\<lparr>ctx_point := p\<rparr>\<rparr>))
     (\<lambda>h. Inr (w\<lparr>coros := h\<rparr>))"

text \<open>The second half, for the context of a scheduler.\<close>

definition enter_sched :: "'o world \<Rightarrow> ptr \<Rightarrow> ctrl res" where
  "enter_sched w s = rbind (deref (scheds w) s) (\<lambda>_. Inr (InSched (the s)))"

definition free_context_stack :: "'o world \<Rightarrow> 'u context_t \<Rightarrow> (int \<times> 'o world) res" where
  "free_context_stack w ctx =
     (if ctx_stack ctx = None then Inr (CONTEXT_DESTROY_ERR, w)
      else rbind (free_at (stacks w) (ctx_stack ctx)) (\<lambda>st. Inr (0, w\<lparr>stacks := st\<rparr>)))"

text \<open>\<open>finish\<close>; the wrapper ends the process with the code of a failure.\<close>

definition finish :: "'o world \<Rightarrow> addr \<Rightarrow> (ctrl \<times> 'o world) res" where
  "finish w c =
     rbind (deref (coros w) (Some c)) (\<lambda>co.
     rbind (free_context_stack w (co_context co)) (\<lambda>(err, w).
       if err \<noteq> 0 then Inl (ExitCall err)
       else rbind (save_coro w (Some c) AfterFinish) (\<lambda>w.
            rbind (enter_sched w (scheduler co)) (\<lambda>k.
              Inr (k, w\<lparr>stale := stale w + 1\<rparr>)))))"

text \<open>
  \<open>yeild\<close> called by kernel thread \<open>tid\<close>; \<open>rest\<close> is what the routine that called it does afterwards.
  The coroutine that is saved is the one the table names for the thread.
\<close>

definition yeild :: "'o world \<Rightarrow> i32 \<Rightarrow> 'o act list \<Rightarrow> (coro_queue_node_t heap \<Rightarrow> ptr)
    \<Rightarrow> (int \<times> ctrl \<times> 'o world) res option" where
  "yeild w tid rest qa =
     (if coro_map_init_cnt w \<le> 0 then Some (Inr (CORO_INIT_ERR, InMain, w))
      else tbind (coro_map_get (Some (cur_coro_map w)) tid) (\<lambda>cur. Some (
        rbind (deref (coros w) cur) (\<lambda>co.
        rbind (sched_push w (scheduler co) cur qa) (\<lambda>(err, w).
          if err \<noteq> 0 then Inr (err, InMain, w)
          else rbind (save_coro w cur (InRoutine rest)) (\<lambda>w.
               rbind (enter_sched w (scheduler co)) (\<lambda>k. Inr (0, k, w))))))))"

text \<open>The user routine of the coroutine at \<open>c\<close>, up to the next switch of context.\<close>

fun routine_turn :: "'o world \<Rightarrow> i32 \<Rightarrow> addr \<Rightarrow> (coro_queue_node_t heap \<Rightarrow> ptr) \<Rightarrow> 'o act list
    \<Rightarrow> (ctrl \<times> 'o world) res option" where
  "routine_turn w tid c qa [] = Some (finish w c)"
| "routine_turn w tid c qa (Emit o1 # r) = routine_turn (w\<lparr>out := out w @ [o1]\<rparr>) tid c qa r"
| "routine_turn w tid c qa (Yield # r) =
     tbind (yeild w tid r qa) (\<lambda>(err, k, w). if err \<noteq> 0 then Some (Inl (ExitCall err)) else Some (Inr (k, w)))"

text \<open>
  \<open>coroutine_wrapper\<close>, resumed at the point its context holds. When it returns, the thread exits:
  \<open>create_coroutine\<close> sets \<open>uc_link\<close> only after \<open>makecontext\<close> has read it as \<open>NULL\<close>.
\<close>

definition coroutine_wrapper :: "'o world \<Rightarrow> i32 \<Rightarrow> addr \<Rightarrow> (coro_queue_node_t heap \<Rightarrow> ptr)
    \<Rightarrow> (ctrl \<times> 'o world) res option" where
  "coroutine_wrapper w tid c qa =
     tbind (Some (deref (coros w) (Some c))) (\<lambda>co. case ctx_point (co_context co) of
         Wrapper \<Rightarrow> (case user_routine co of None \<Rightarrow> Some (Inr (ThreadExit, w))
           | Some r \<Rightarrow> routine_turn w tid c qa r)
       | InRoutine r \<Rightarrow> routine_turn w tid c qa r
       | AfterFinish \<Rightarrow> Some (Inr (ThreadExit, w)))"

text \<open>
  \<open>scheduler_routine\<close>, resumed at the point its context holds, up to the next switch. Resumed
  after it went back to \<open>main\<close> it goes on with \<open>coro\<close> being \<open>NULL\<close>.
\<close>

definition set_sched :: "'o world \<Rightarrow> addr \<Rightarrow> scheduler_t \<Rightarrow> 'o world" where
  "set_sched w s sc = w\<lparr>scheds := (scheds w)(s \<mapsto> sc)\<rparr>"

definition scheduler_routine :: "'o world \<Rightarrow> i32 \<Rightarrow> addr \<Rightarrow> (coro_node_t heap \<Rightarrow> ptr)
    \<Rightarrow> (ctrl \<times> 'o world) res option" where
  "scheduler_routine w tid s ma =
     tbind (Some (deref (scheds w) (Some s))) (\<lambda>sc.
       if ctx_point (s_context sc) = AfterMainSwap then
         tbind (coro_map_add (Some (cur_coro_map w)) tid None (ma (cm_nodes (cur_coro_map w))))
           (\<lambda>_. Some (Inl NullDeref))
       else if is_done sc then Some (Inr (ThreadExit, w))
       else tbind (Some (coro_queue_pop (s_queue sc))) (\<lambda>(coro, q).
         let sc = sc\<lparr>s_queue := q\<rparr> in
         case coro of None \<Rightarrow>
             tbind (Some (free_at (stacks w) (ctx_stack (s_context sc)))) (\<lambda>st.
               Some (Inr (InMain, (set_sched w s (sc\<lparr>s_context := (s_context sc)\<lparr>ctx_point := AfterMainSwap\<rparr>\<rparr>))
                                    \<lparr>stacks := st, stale := stale w + 1\<rparr>)))
           | Some c \<Rightarrow>
             tbind (coro_map_add (Some (cur_coro_map w)) tid (Some c) (ma (cm_nodes (cur_coro_map w)))) (\<lambda>(_, m).
               Some (Inr (InCoro c, (set_sched w s (sc\<lparr>s_context := (s_context sc)\<lparr>ctx_point := SchedLoop\<rparr>\<rparr>))
                                    \<lparr>cur_coro_map := the m\<rparr>)))))"

text \<open>The kernel thread, from one switch of context to the next, until it is back in \<open>main\<close>.\<close>

partial_function (option) switches :: "i32 \<Rightarrow> (coro_queue_node_t heap \<Rightarrow> ptr) \<Rightarrow> (coro_node_t heap \<Rightarrow> ptr)
    \<Rightarrow> ctrl \<Rightarrow> 'o world \<Rightarrow> (ctrl \<times> 'o world) res option" where
  "switches tid qa ma k w = (case k of
       InMain \<Rightarrow> Some (Inr (InMain, w))
     | ThreadExit \<Rightarrow> Some (Inr (ThreadExit, w))
     | InSched s \<Rightarrow> (case scheduler_routine w tid s ma of None \<Rightarrow> None
         | Some (Inl e) \<Rightarrow> Some (Inl e) | Some (Inr (k, w)) \<Rightarrow> switches tid qa ma k w)
     | InCoro c \<Rightarrow> (case coroutine_wrapper w tid c qa of None \<Rightarrow> None
         | Some (Inl e) \<Rightarrow> Some (Inl e) | Some (Inr (k, w)) \<Rightarrow> switches tid qa ma k w))"

text \<open>The result of the call is lost when the thread exits instead of returning to \<open>main\<close>.\<close>

definition run_scheduler :: "'o world \<Rightarrow> i32 \<Rightarrow> addr \<Rightarrow> (coro_queue_node_t heap \<Rightarrow> ptr) \<Rightarrow> (coro_node_t heap \<Rightarrow> ptr)
    \<Rightarrow> (int option \<times> 'o world) res option" where
  "run_scheduler w tid s qa ma =
     (if coro_map_init_cnt w \<le> 0 then Some (Inr (Some CORO_INIT_ERR, w))
      else tbind (switches tid qa ma (InSched s) w)
        (\<lambda>(k, w). Some (Inr (if k = InMain then Some 0 else None, w))))"

end
