(* ===== verification/Coroutine_Laws.thy ===== *)
theory Coroutine_Laws
  imports Coroutine
begin

text \<open>
  What the coroutine library promises: \<open>round_robin\<close> is the order in which coroutines run,
  \<open>run_at\<close> the invariant of a scheduler between two switches of context, and the lemmas follow the
  scheduler and the coroutines from switch to switch.
\<close>

section \<open>The specification\<close>

text \<open>One turn of a routine: its outputs up to the next \<open>yeild\<close>, and what is left, if anything.\<close>

fun turn :: "'o act list \<Rightarrow> 'o list \<times> 'o act list option" where
  "turn [] = ([], None)"
| "turn (Emit o1 # r) = (o1 # fst (turn r), snd (turn r))"
| "turn (Yield # r) = ([], Some r)"

lemma turn_shrinks: "snd (turn r) = Some r' \<Longrightarrow> length r' < length r"
  by (induction r rule: turn.induct) auto

function round_robin :: "'o act list list \<Rightarrow> 'o list" where
  "round_robin [] = []"
| "round_robin (r # rs) = fst (turn r) @
     (case snd (turn r) of None \<Rightarrow> round_robin rs | Some r' \<Rightarrow> round_robin (rs @ [r']))"
  by pat_completeness auto
termination
  by (relation "measure (\<lambda>rs. sum_list (map (\<lambda>r. length r + 1) rs))") (auto dest: turn_shrinks)

text \<open>
  Fairness: as long as every routine yields, a round gives each of them one turn, in order; a last
  round ends them.
\<close>

lemma round_robin_round:
  "(\<forall>r \<in> set rs. snd (turn r) \<noteq> None) \<Longrightarrow>
     round_robin (rs @ ss) = concat (map (\<lambda>r. fst (turn r)) rs) @ round_robin (ss @ map (\<lambda>r. the (snd (turn r))) rs)"
  by (induction rs arbitrary: ss) auto

lemma round_robin_last:
  "(\<forall>r \<in> set rs. snd (turn r) = None) \<Longrightarrow> round_robin rs = concat (map (\<lambda>r. fst (turn r)) rs)"
  by (induction rs) auto

section \<open>The invariant\<close>

definition resume :: "'o coroutine_t \<Rightarrow> 'o act list option" where
  "resume co = (case ctx_point (co_context co) of Wrapper \<Rightarrow> user_routine co
     | InRoutine r \<Rightarrow> Some r | AfterFinish \<Rightarrow> None)"

text \<open>A task is a coroutine, its stack and what its routine still has to do.\<close>

type_synonym 'o task = "addr \<times> addr \<times> 'o act list"

fun ready :: "'o world \<Rightarrow> addr \<Rightarrow> 'o task \<Rightarrow> bool" where
  "ready w s (c, b, r) \<longleftrightarrow> (\<exists>co. coros w c = Some co \<and> scheduler co = Some s \<and> resume co = Some r
     \<and> ctx_stack (co_context co) = Some b) \<and> stacks w b = Some ()"

abbreviation stack_of :: "'o task \<Rightarrow> addr" where
  "stack_of t \<equiv> fst (snd t)"

abbreviation left_of :: "'o task \<Rightarrow> 'o act list" where
  "left_of t \<equiv> snd (snd t)"

text \<open>The scheduler at \<open>s\<close>, with stack \<open>a\<close>, owns the tasks \<open>ts\<close>, and its queue holds \<open>q\<close>.\<close>

definition run_at :: "'o world \<Rightarrow> addr \<Rightarrow> addr \<Rightarrow> 'o task list \<Rightarrow> addr list \<Rightarrow> bool" where
  "run_at w s a ts q \<longleftrightarrow> 0 < coro_map_init_cnt w
     \<and> (\<exists>sc. scheds w s = Some sc \<and> ctx_point (s_context sc) \<noteq> AfterMainSwap \<and> \<not> is_done sc
          \<and> ctx_stack (s_context sc) = Some a \<and> cq_rep (s_queue sc) q)
     \<and> stacks w a = Some () \<and> distinct (map fst ts) \<and> distinct (a # map stack_of ts)
     \<and> (\<forall>t \<in> set ts. ready w s t)"

text \<open>Facts about the allocators that the C library promises.\<close>

definition allocs :: "('c heap \<Rightarrow> ptr) \<Rightarrow> bool" where
  "allocs f \<longleftrightarrow> (\<forall>h. finite (dom h) \<longrightarrow> fresh h (f h))"

lemma allocs_least_free: "allocs least_free"
  by (simp add: allocs_def fresh_least_free)

lemma sched_push_rep:
  assumes "scheds w s = Some sc" "cq_rep (s_queue sc) q" "allocs qa"
  shows "\<exists>q'. sched_push w (Some s) (Some c) qa = Inr (0, w\<lparr>scheds := (scheds w)(s \<mapsto> sc\<lparr>s_queue := q'\<rparr>)\<rparr>)
    \<and> cq_rep q' (q @ [c])"
proof -
  from assms(2,3) have "fresh (cq_nodes (s_queue sc)) (qa (cq_nodes (s_queue sc)))"
    by (simp add: allocs_def cq_rep_finite)
  then obtain n where "qa (cq_nodes (s_queue sc)) = Some n" "cq_nodes (s_queue sc) n = None"
    by (rule freshE)
  with cq_push_rep [OF assms(2), of n c] assms(1) show ?thesis by (auto simp: sched_push_def)
qed

section \<open>From switch to switch\<close>

lemma sched_turn_next:
  assumes ok: "run_at w s a ((c, b, r) # ts) (c # map fst ts)" and m: "cm_rep (cur_coro_map w) f"
    and ma: "allocs ma"
  shows "\<exists>w'. scheduler_routine w tid s ma = Some (Inr (InCoro c, w'))
    \<and> run_at w' s a ((c, b, r) # ts) (map fst ts) \<and> cm_rep (cur_coro_map w') (f(tid \<mapsto> c))
    \<and> out w' = out w \<and> stale w' = stale w \<and> stacks w' = stacks w \<and> coros w' = coros w"
proof -
  from ok obtain sc where sc: "scheds w s = Some sc" "ctx_point (s_context sc) \<noteq> AfterMainSwap"
    "\<not> is_done sc" "ctx_stack (s_context sc) = Some a" "cq_rep (s_queue sc) (c # map fst ts)"
    by (auto simp: run_at_def)
  from cq_pop_rep [OF sc(5)] obtain q where q: "coro_queue_pop (s_queue sc) = Inr (Some c, q)"
    "cq_rep q (map fst ts)" by blast
  from ma cm_rep_finite [OF m] have "fresh (cm_nodes (cur_coro_map w)) (ma (cm_nodes (cur_coro_map w)))"
    by (simp add: allocs_def)
  then obtain n where "ma (cm_nodes (cur_coro_map w)) = Some n" "cm_nodes (cur_coro_map w) n = None"
    by (rule freshE)
  with cm_add_rep [OF m, of n tid c] obtain m' where
    m': "coro_map_add (Some (cur_coro_map w)) tid (Some c) (ma (cm_nodes (cur_coro_map w)))
      = Some (Inr (0, Some m'))" "cm_rep m' (f(tid \<mapsto> c))" by auto
  let ?sc = "sc\<lparr>s_queue := q, s_context := (s_context sc)\<lparr>ctx_point := SchedLoop\<rparr>\<rparr>"
  let ?w = "(set_sched w s ?sc)\<lparr>cur_coro_map := m'\<rparr>"
  have "scheduler_routine w tid s ma = Some (Inr (InCoro c, ?w))"
    using sc q m' by (simp add: scheduler_routine_def set_sched_def)
  moreover have "run_at ?w s a ((c, b, r) # ts) (map fst ts)"
    using ok sc q by (auto simp: run_at_def set_sched_def)
  ultimately show ?thesis using m' by (auto simp: set_sched_def)
qed

lemma sched_turn_done:
  assumes ok: "run_at w s a [] []"
  shows "\<exists>w'. scheduler_routine w tid s ma = Some (Inr (InMain, w'))
    \<and> out w' = out w \<and> stale w' = stale w + 1 \<and> stacks w' = (stacks w)(a := None)
    \<and> coro_map_init_cnt w' = coro_map_init_cnt w \<and> cur_coro_map w' = cur_coro_map w
    \<and> (\<exists>sc. scheds w' s = Some sc \<and> ctx_point (s_context sc) = AfterMainSwap \<and> cq_rep (s_queue sc) [])"
  using ok by (auto simp: run_at_def scheduler_routine_def set_sched_def cq_pop_empty)

lemma finish_turn:
  assumes ok: "run_at w s a ((c, b, r) # ts) (map fst ts)"
  shows "\<exists>w'. finish w c = Inr (InSched s, w') \<and> run_at w' s a ts (map fst ts)
    \<and> out w' = out w \<and> stale w' = stale w + 1 \<and> stacks w' = (stacks w)(b := None)
    \<and> cur_coro_map w' = cur_coro_map w"
proof -
  from ok obtain co sc where co: "coros w c = Some co" "scheduler co = Some s"
    "ctx_stack (co_context co) = Some b" "stacks w b = Some ()" "scheds w s = Some sc"
    by (auto simp: run_at_def)
  let ?w = "w\<lparr>stacks := (stacks w)(b := None),
    coros := (coros w)(c \<mapsto> co\<lparr>co_context := (co_context co)\<lparr>ctx_point := AfterFinish\<rparr>\<rparr>),
    stale := stale w + 1\<rparr>"
  have "finish w c = Inr (InSched s, ?w)"
    using co by (simp add: finish_def free_context_stack_def save_coro_def enter_sched_def)
  moreover have "ready ?w s t" if "t \<in> set ts" for t
  proof -
    obtain c1 b1 r1 where t: "t = (c1, b1, r1)" by (cases t)
    from that ok t have "ready w s t" "c1 \<noteq> c" "b1 \<noteq> b" by (force simp: run_at_def)+
    with t show ?thesis by simp
  qed
  with ok have "run_at ?w s a ts (map fst ts)" by (auto simp: run_at_def)
  ultimately show ?thesis by auto
qed

lemma yeild_turn:
  assumes ok: "run_at w s a ((c, b, r) # ts) (map fst ts)" and m: "cm_rep (cur_coro_map w) f" "f tid = Some c"
    and qa: "allocs qa"
  shows "\<exists>w'. yeild w tid r' qa = Some (Inr (0, InSched s, w'))
    \<and> run_at w' s a (ts @ [(c, b, r')]) (map fst ts @ [c])
    \<and> out w' = out w \<and> stale w' = stale w \<and> stacks w' = stacks w \<and> cur_coro_map w' = cur_coro_map w"
proof -
  from ok obtain co sc where co: "coros w c = Some co" "scheduler co = Some s"
    "ctx_stack (co_context co) = Some b" "scheds w s = Some sc" "cq_rep (s_queue sc) (map fst ts)"
    "0 < coro_map_init_cnt w"
    by (auto simp: run_at_def)
  from sched_push_rep [OF co(4,5) qa, of c] obtain q where
    q: "sched_push w (Some s) (Some c) qa = Inr (0, w\<lparr>scheds := (scheds w)(s \<mapsto> sc\<lparr>s_queue := q\<rparr>)\<rparr>)"
      "cq_rep q (map fst ts @ [c])" by blast
  let ?w = "w\<lparr>scheds := (scheds w)(s \<mapsto> sc\<lparr>s_queue := q\<rparr>),
    coros := (coros w)(c \<mapsto> co\<lparr>co_context := (co_context co)\<lparr>ctx_point := InRoutine r'\<rparr>\<rparr>)\<rparr>"
  have "yeild w tid r' qa = Some (Inr (0, InSched s, ?w))"
    using co q m cm_get_rep [OF m(1), of tid] by (simp add: yeild_def save_coro_def enter_sched_def)
  moreover have "ready ?w s t" if "t \<in> set ts" for t
  proof -
    obtain c1 b1 r1 where t: "t = (c1, b1, r1)" by (cases t)
    from that ok t have "ready w s t" "c1 \<noteq> c" by (force simp: run_at_def)+
    with t show ?thesis by simp
  qed
  with ok co q have "run_at ?w s a (ts @ [(c, b, r')]) (map fst ts @ [c])"
    by (auto simp: run_at_def resume_def)
  ultimately show ?thesis by auto
qed

lemma run_at_out [simp]: "run_at (w\<lparr>out := x\<rparr>) s a ts q = run_at w s a ts q"
proof -
  have "ready (w\<lparr>out := x\<rparr>) s t = ready w s t" for t by (cases t) simp
  then show ?thesis by (simp add: run_at_def)
qed

text \<open>
  A turn of the coroutine at the head: its outputs are printed; it is then behind the others with
  what is left, or finished and its stack freed.
\<close>

lemma routine_turn_effect:
  assumes "run_at w s a ((c, b, r0) # ts) (map fst ts)" "cm_rep (cur_coro_map w) f" "f tid = Some c"
    and "allocs qa"
  shows "\<exists>w'. routine_turn w tid c qa r = Some (Inr (InSched s, w')) \<and> out w' = out w @ fst (turn r)
    \<and> cm_rep (cur_coro_map w') f
    \<and> (case snd (turn r) of
         None \<Rightarrow> run_at w' s a ts (map fst ts) \<and> stacks w' = (stacks w)(b := None) \<and> stale w' = stale w + 1
       | Some r' \<Rightarrow> run_at w' s a (ts @ [(c, b, r')]) (map fst ts @ [c])
           \<and> stacks w' = stacks w \<and> stale w' = stale w)"
  using assms(1,2)
proof (induction r arbitrary: w rule: turn.induct)
  case 1
  then show ?case using finish_turn [of w s a c b r0 ts] by auto
next
  case (2 o1 r)
  have "run_at (w\<lparr>out := out w @ [o1]\<rparr>) s a ((c, b, r0) # ts) (map fst ts)" using "2.prems"(1) by simp
  from "2.IH" [OF this] "2.prems"(2) show ?case by (simp cong: option.case_cong)
next
  case (3 r)
  with yeild_turn [OF "3.prems" assms(3,4), of r] show ?case by auto
qed

lemma wrapper_turn:
  assumes ok: "run_at w s a ((c, b, r) # ts) q"
  shows "coroutine_wrapper w tid c qa = routine_turn w tid c qa r"
proof -
  from ok obtain co where "coros w c = Some co" "resume co = Some r" by (auto simp: run_at_def)
  then show ?thesis
    by (cases "ctx_point (co_context co)") (auto simp: coroutine_wrapper_def resume_def)
qed

lemma switches_step:
  "scheduler_routine w tid s ma = Some (Inr (k, w')) \<Longrightarrow>
     switches tid qa ma (InSched s) w = switches tid qa ma k w'"
  "coroutine_wrapper w tid c qa = Some (Inr (k, w')) \<Longrightarrow>
     switches tid qa ma (InCoro c) w = switches tid qa ma k w'"
  "switches tid qa ma InMain w = Some (Inr (InMain, w))"
  by (subst switches.simps; simp)+

definition ends_at :: "'o world \<Rightarrow> addr \<Rightarrow> bool" where
  "ends_at w s \<longleftrightarrow> 0 < coro_map_init_cnt w \<and> (\<exists>sc. scheds w s = Some sc \<and> ctx_point (s_context sc) = AfterMainSwap \<and> cq_rep (s_queue sc) [])"

text \<open>One turn: the scheduler hands over to the first coroutine, which runs to its next yield or to its end.\<close>

lemma one_turn:
  assumes ok: "run_at w s a ((c, b, r) # us) (c # map fst us)" "cm_rep (cur_coro_map w) f" and al: "allocs qa" "allocs ma"
  obtains w2 where "switches tid qa ma (InSched s) w = switches tid qa ma (InSched s) w2" "out w2 = out w @ fst (turn r)"
    "cm_rep (cur_coro_map w2) (f(tid \<mapsto> c))"
    "case snd (turn r) of
       None \<Rightarrow> run_at w2 s a us (map fst us) \<and> stacks w2 = (stacks w)(b := None) \<and> stale w2 = stale w + 1
     | Some r' \<Rightarrow> run_at w2 s a (us @ [(c, b, r')]) (map fst us @ [c]) \<and> stacks w2 = stacks w \<and> stale w2 = stale w"
proof -
  from sched_turn_next [OF ok al(2), of tid] obtain w1 where
    w1: "scheduler_routine w tid s ma = Some (Inr (InCoro c, w1))"
      "run_at w1 s a ((c, b, r) # us) (map fst us)" "cm_rep (cur_coro_map w1) (f(tid \<mapsto> c))"
      "out w1 = out w" "stale w1 = stale w" "stacks w1 = stacks w" by auto
  from routine_turn_effect [OF w1(2,3) _ al(1), where tid = tid and r = r] obtain w2 where
    w2: "routine_turn w1 tid c qa r = Some (Inr (InSched s, w2))" "out w2 = out w1 @ fst (turn r)"
      "cm_rep (cur_coro_map w2) (f(tid \<mapsto> c))"
      "case snd (turn r) of
         None \<Rightarrow> run_at w2 s a us (map fst us) \<and> stacks w2 = (stacks w1)(b := None) \<and> stale w2 = stale w1 + 1
       | Some r' \<Rightarrow> run_at w2 s a (us @ [(c, b, r')]) (map fst us @ [c])
           \<and> stacks w2 = stacks w1 \<and> stale w2 = stale w1"
    by auto
  have "switches tid qa ma (InSched s) w = switches tid qa ma (InSched s) w2"
    using switches_step(1) [OF w1(1)] switches_step(2) [of w1 tid c qa "InSched s" w2] w2(1) wrapper_turn [OF w1(2)] by simp
  then show thesis by (rule that) (rule w2(2-4) [unfolded w1(4-6)])+
qed

lemma switches_round_robin:
  assumes "run_at w s a ts (map fst ts)" "cm_rep (cur_coro_map w) f" "allocs qa" "allocs ma"
  shows "\<exists>w' f'. switches tid qa ma (InSched s) w = Some (Inr (InMain, w'))
    \<and> out w' = out w @ round_robin (map left_of ts) \<and> cm_rep (cur_coro_map w') f'
    \<and> stale w' = stale w + length ts + 1 \<and> stacks w' = stacks w |` (- insert a (stack_of ` set ts))
    \<and> ends_at w' s"
  using assms(1,2)
proof (induction "map left_of ts" arbitrary: w ts f rule: round_robin.induct)
  case 1
  then have ts: "ts = []" by simp
  with sched_turn_done [of w s a tid ma] 1(2) obtain w' where
    w': "scheduler_routine w tid s ma = Some (Inr (InMain, w'))" "out w' = out w" "stale w' = stale w + 1"
      "stacks w' = (stacks w)(a := None)" "cur_coro_map w' = cur_coro_map w" "ends_at w' s"
    by (auto simp: ends_at_def run_at_def)
  moreover have "(stacks w)(a := None) = stacks w |` (- {a})" by (auto simp: restrict_map_def fun_eq_iff)
  ultimately show ?case using ts 1(3) switches_step(1) [OF w'(1)] by (auto simp: switches_step(3))
next
  case (2 r rs)
  then obtain c b us where ts: "ts = (c, b, r) # us" "rs = map left_of us" by (cases ts) auto
  with 2(4) have "run_at w s a ((c, b, r) # us) (c # map fst us)" by simp
  from one_turn [OF this 2(5) assms(3,4), of tid] obtain w2 where
    w2: "switches tid qa ma (InSched s) w = switches tid qa ma (InSched s) w2" "out w2 = out w @ fst (turn r)"
      "cm_rep (cur_coro_map w2) (f(tid \<mapsto> c))"
      "case snd (turn r) of
         None \<Rightarrow> run_at w2 s a us (map fst us) \<and> stacks w2 = (stacks w)(b := None) \<and> stale w2 = stale w + 1
       | Some r' \<Rightarrow> run_at w2 s a (us @ [(c, b, r')]) (map fst us @ [c]) \<and> stacks w2 = stacks w \<and> stale w2 = stale w"
    by blast
  show ?case
  proof (cases "snd (turn r)")
    case None
    have "rs = map left_of us" by (fact ts)
    from 2(1) [OF None this, of w2 "f(tid \<mapsto> c)"] w2(3,4) None obtain w' f' where
      w': "switches tid qa ma (InSched s) w2 = Some (Inr (InMain, w'))"
        "out w' = out w2 @ round_robin (map left_of us)" "cm_rep (cur_coro_map w') f'"
        "stale w' = stale w2 + length us + 1" "stacks w' = stacks w2 |` (- insert a (stack_of ` set us))"
        "ends_at w' s" by auto
    have "stacks w' = stacks w |` (- insert a (stack_of ` set ts))"
      using w'(5) w2(4) None ts by (auto simp: restrict_map_def fun_eq_iff)
    with w' w2(1,2,4) None ts show ?thesis by auto
  next
    case (Some r')
    have "rs @ [r'] = map left_of (us @ [(c, b, r')])" using ts by simp
    from 2(2) [OF Some this, of w2 "f(tid \<mapsto> c)"] w2(3,4) Some obtain w' f' where
      w': "switches tid qa ma (InSched s) w2 = Some (Inr (InMain, w'))"
        "out w' = out w2 @ round_robin (map left_of (us @ [(c, b, r')]))" "cm_rep (cur_coro_map w') f'"
        "stale w' = stale w2 + length (us @ [(c, b, r')]) + 1"
        "stacks w' = stacks w2 |` (- insert a (stack_of ` set (us @ [(c, b, r')])))"
        "ends_at w' s" by auto
    with w2(1,2,4) Some ts show ?thesis by auto
  qed
qed

text \<open>Running the scheduler again resumes it behind the swap to \<open>main\<close>, with \<open>coro\<close> being \<open>NULL\<close>.\<close>

lemma rerun_null:
  assumes "ends_at w s"
  shows "run_scheduler w tid s qa ma = Some (Inl NullDeref)"
proof -
  have "coro_map_add (Some m) tid None n = Some (Inr (-1, Some m))" for m n
    by (simp add: coro_map_add_def split: option.splits)
  with assms have "scheduler_routine w tid s ma = Some (Inl NullDeref)"
    by (auto simp: ends_at_def scheduler_routine_def)
  then have "switches tid qa ma (InSched s) w = Some (Inl NullDeref)"
    by (subst switches.simps) simp
  with assms show ?thesis by (simp add: run_scheduler_def ends_at_def)
qed

section \<open>Initialising and ending the library\<close>

lemma coro_init_first:
  assumes "coro_map_init_cnt w = 0" "cm_nodes (cur_coro_map w) = Map.empty"
  shows "\<exists>w'. coro_init w True = (0, w') \<and> coro_map_init_cnt w' = 1 \<and> cm_rep (cur_coro_map w') Map.empty
    \<and> coro_init w' ok = (CORO_INIT_ERR, w')"
  using assms cm_create_rep [OF assms(2), of MAP_CAPACITY] by (auto simp: coro_init_def Let_def)

lemma coro_fini_last:
  assumes "coro_map_init_cnt w = 1" "cm_rep (cur_coro_map w) f"
  shows "\<exists>w'. coro_fini w = Some (Inr (0, w')) \<and> cm_nodes (cur_coro_map w') = Map.empty
    \<and> coro_fini w' = Some (Inr (CORO_FINI_ERR, w'))"
  using assms cm_destroy_rep [OF assms(2)] by (auto simp: coro_fini_def Let_def)

end
