(* ===== verification/Cluster.thy ===== *)
theory Cluster
  imports Coroutine_Laws
begin

text \<open>
  The worker of \<open>threads/lab1.8/cluster.c\<close>: a kernel thread with a scheduler of its own that runs
  \<open>NUM_TASKS\<close> coroutines, and the properties of the coroutine library as this client uses it.
\<close>

section \<open>The program\<close>

definition NUM_TASKS :: nat where "NUM_TASKS = 5"

datatype message =
    WorkerStart i32
  | SchedFailed i32
  | CoroFailed i32
  | WorkerDone i32
  | TaskStart i32
  | TaskCount i32 nat
  | TaskDone i32

definition count_task :: "i32 \<Rightarrow> message act list" where
  "count_task task_id = Emit (TaskStart task_id)
     # concat (map (\<lambda>i. [Emit (TaskCount task_id i), Yield]) [1..<4]) @ [Emit (TaskDone task_id)]"

definition say :: "'o \<Rightarrow> 'o world \<Rightarrow> 'o world" where
  "say m w = w\<lparr>out := out w @ [m]\<rparr>"

text \<open>
  The loop that creates the coroutines, from number \<open>i\<close> on, for the given pairs of a \<open>coroutine_t\<close>
  and its routine. \<open>sa\<close> and \<open>qa\<close> allocate stacks and queue nodes, \<open>ge\<close> gives the result of
  each \<open>getcontext\<close>.
\<close>

fun create_tasks :: "'o world \<Rightarrow> addr \<Rightarrow> (unit heap \<Rightarrow> ptr) \<Rightarrow> (coro_queue_node_t heap \<Rightarrow> ptr) \<Rightarrow> (nat \<Rightarrow> int)
    \<Rightarrow> nat \<Rightarrow> (addr \<times> 'o act list) list \<Rightarrow> (int \<times> 'o world) res" where
  "create_tasks w s sa qa ge i [] = Inr (0, w)"
| "create_tasks w s sa qa ge i ((c, r) # crs) =
     rbind (create_coroutine w (Some c) (Some s) (Some r) (sa (stacks w)) (ge (Suc i)) qa) (\<lambda>(err, w).
       if err \<noteq> 0 then Inr (err, w) else create_tasks w s sa qa ge (Suc i) crs)"

text \<open>
  \<open>s\<close> and \<open>cs\<close> are the local variables \<open>sched\<close> and \<open>coro\<close>; \<open>tid\<close> is what \<open>gettid()\<close> returns. The
  result is the error passed to \<open>pthread_exit\<close>, or 0.
\<close>

definition thread_worker :: "message world \<Rightarrow> i32 \<Rightarrow> i32 \<Rightarrow> addr \<Rightarrow> addr list \<Rightarrow> (unit heap \<Rightarrow> ptr)
    \<Rightarrow> (coro_queue_node_t heap \<Rightarrow> ptr) \<Rightarrow> (coro_node_t heap \<Rightarrow> ptr) \<Rightarrow> (nat \<Rightarrow> int) \<Rightarrow> (int \<times> message world) res option" where
  "thread_worker w tid thread_id s cs sa qa ma ge =
     (let w = say (WorkerStart thread_id) w in
      tbind (Some (create_scheduler w (Some s) (sa (stacks w)) (ge 0))) (\<lambda>(err, w).
        if err \<noteq> 0 then Some (Inr (err, say (SchedFailed thread_id) w))
        else tbind (Some (create_tasks w s sa qa ge 0
               (zip cs (map (\<lambda>i. count_task (thread_id * 100 + of_nat i)) [0..<NUM_TASKS])))) (\<lambda>(err, w).
          if err \<noteq> 0 then Some (Inr (err, say (CoroFailed thread_id) w))
          else tbind (run_scheduler w tid s qa ma) (\<lambda>(r, w).
            if r = None then Some (Inr (0, w)) else Some (Inr (0, say (WorkerDone thread_id) w))))))"

section \<open>Creating and running\<close>

lemma create_scheduler_run_at:
  assumes "0 < coro_map_init_cnt w" "scheds w s = Some sc" "cq_nodes (s_queue sc) = Map.empty"
    and "stacks w n = None"
  shows "\<exists>w'. create_scheduler w (Some s) (Some n) 0 = Inr (0, w') \<and> run_at w' s n [] []
    \<and> stacks w' = (stacks w)(n \<mapsto> ()) \<and> out w' = out w \<and> stale w' = stale w \<and> coros w' = coros w
    \<and> cur_coro_map w' = cur_coro_map w"
  using assms cq_rep_init [OF assms(3)]
  by (auto simp: create_scheduler_def create_context_def run_at_def Let_def)

lemma create_coroutine_run_at:
  assumes ok: "run_at w s a ts (map fst ts)" and c: "coros w c = Some co" "c \<notin> set (map fst ts)"
    and n: "stacks w n = None" and qa: "allocs qa"
  shows "\<exists>w'. create_coroutine w (Some c) (Some s) (Some r) (Some n) 0 qa = Inr (0, w')
    \<and> run_at w' s a (ts @ [(c, n, r)]) (map fst ts @ [c])
    \<and> stacks w' = (stacks w)(n \<mapsto> ()) \<and> out w' = out w \<and> stale w' = stale w
    \<and> dom (coros w') = dom (coros w) \<and> cur_coro_map w' = cur_coro_map w"
proof -
  from ok obtain sc where sc: "scheds w s = Some sc" "cq_rep (s_queue sc) (map fst ts)" "0 < coro_map_init_cnt w"
    by (auto simp: run_at_def)
  let ?co = "co\<lparr>scheduler := Some s, user_routine := Some r,
    co_context := (co_context co)\<lparr>ctx_stack := Some n, ctx_point := Wrapper\<rparr>\<rparr>"
  let ?w = "w\<lparr>stacks := (stacks w)(n \<mapsto> ()), coros := (coros w)(c \<mapsto> ?co)\<rparr>"
  from sched_push_rep [of ?w s sc "map fst ts" qa c] sc qa obtain q where
    q: "sched_push ?w (Some s) (Some c) qa = Inr (0, ?w\<lparr>scheds := (scheds w)(s \<mapsto> sc\<lparr>s_queue := q\<rparr>)\<rparr>)"
      "cq_rep q (map fst ts @ [c])" by auto
  let ?w' = "?w\<lparr>scheds := (scheds w)(s \<mapsto> sc\<lparr>s_queue := q\<rparr>)\<rparr>"
  have "create_coroutine w (Some c) (Some s) (Some r) (Some n) 0 qa = Inr (0, ?w')"
    using sc c q by (simp add: create_coroutine_def create_context_def Let_def)
  moreover have t: "ready ?w' s t" "stack_of t \<noteq> n" if "t \<in> set ts" for t
  proof -
    obtain c1 b1 r1 where t: "t = (c1, b1, r1)" by (cases t)
    from that ok t c n have "ready w s t" "c1 \<noteq> c" by (force simp: run_at_def)+
    with t n show "ready ?w' s t" "stack_of t \<noteq> n" by auto
  qed
  moreover have "a \<noteq> n" "stacks ?w' a = Some ()" using ok n by (auto simp: run_at_def)
  then have "run_at ?w' s a (ts @ [(c, n, r)]) (map fst ts @ [c])"
    using ok sc q c t n by (auto simp: run_at_def resume_def)
  ultimately show ?thesis using c by auto
qed

lemma allocsD:
  assumes "allocs f" "finite (dom h)"
  obtains n where "f h = Some n" "h n = None"
  using assms by (auto simp: allocs_def elim: freshE)

lemma create_tasks_run_at:
  assumes "run_at w s a ts (map fst ts)" "distinct (map fst ts @ map fst crs)"
    and "fst ` set crs \<subseteq> dom (coros w)" "finite (dom (stacks w))" "allocs sa" "allocs qa"
  shows "\<exists>w' us. create_tasks w s sa qa (\<lambda>_. 0) i crs = Inr (0, w')
    \<and> run_at w' s a (ts @ us) (map fst (ts @ us)) \<and> map left_of us = map snd crs
    \<and> stack_of ` set us \<inter> dom (stacks w) = {}
    \<and> stacks w' = (\<lambda>b. if b \<in> stack_of ` set us then Some () else stacks w b)
    \<and> out w' = out w \<and> stale w' = stale w \<and> cur_coro_map w' = cur_coro_map w"
  using assms(1-4)
proof (induction crs arbitrary: w ts i)
  case Nil
  then show ?case by (auto intro!: exI [of _ "[]"])
next
  case (Cons cr crs)
  obtain c r where cr: "cr = (c, r)" by (cases cr)
  from allocsD [OF assms(5) Cons.prems(4)] obtain n where n: "sa (stacks w) = Some n" "stacks w n = None" .
  from Cons.prems(3) cr obtain co where co: "coros w c = Some co" by auto
  from Cons.prems(2) cr have nc: "c \<notin> set (map fst ts)" by auto
  from create_coroutine_run_at [OF Cons.prems(1) co nc n(2) assms(6), of r] obtain w1 where
    w1: "create_coroutine w (Some c) (Some s) (Some r) (Some n) 0 qa = Inr (0, w1)"
      "run_at w1 s a (ts @ [(c, n, r)]) (map fst (ts @ [(c, n, r)]))" "stacks w1 = (stacks w)(n \<mapsto> ())"
      "out w1 = out w" "stale w1 = stale w" "dom (coros w1) = dom (coros w)" "cur_coro_map w1 = cur_coro_map w"
    by auto
  from Cons.prems cr w1(3,6) have "distinct (map fst (ts @ [(c, n, r)]) @ map fst crs)"
    "fst ` set crs \<subseteq> dom (coros w1)" "finite (dom (stacks w1))" by auto
  from Cons.IH [OF w1(2) this, of "Suc i"] obtain w' us where
    w': "create_tasks w1 s sa qa (\<lambda>_. 0) (Suc i) crs = Inr (0, w')"
      "run_at w' s a ((ts @ [(c, n, r)]) @ us) (map fst ((ts @ [(c, n, r)]) @ us))" "map left_of us = map snd crs"
      "stack_of ` set us \<inter> dom (stacks w1) = {}"
      "stacks w' = (\<lambda>b. if b \<in> stack_of ` set us then Some () else stacks w1 b)"
      "out w' = out w1" "stale w' = stale w1" "cur_coro_map w' = cur_coro_map w1"
    by blast
  have "create_tasks w s sa qa (\<lambda>_. 0) i (cr # crs) = Inr (0, w')" using cr n w1(1) w'(1) by simp
  moreover have "run_at w' s a (ts @ (c, n, r) # us) (map fst (ts @ (c, n, r) # us))" using w'(2) by simp
  moreover have "stack_of ` set ((c, n, r) # us) \<inter> dom (stacks w) = {}"
    using w'(4) w1(3) n by auto
  moreover have "stacks w' = (\<lambda>b. if b \<in> stack_of ` set ((c, n, r) # us) then Some () else stacks w b)"
    using w'(5) w1(3) by (auto simp: fun_eq_iff)
  moreover have "map left_of ((c, n, r) # us) = map snd (cr # crs)" using w'(3) cr by simp
  ultimately show ?case using w'(6-8) w1(4,5,7) by (intro exI [of _ w'] exI [of _ "(c, n, r) # us"]) simp
qed

text \<open>A state in which a worker can start: its local variables exist and memory is finite.\<close>

definition worker_ready :: "'o world \<Rightarrow> addr \<Rightarrow> addr list \<Rightarrow> bool" where
  "worker_ready w s cs \<longleftrightarrow> 0 < coro_map_init_cnt w \<and> (\<exists>f. cm_rep (cur_coro_map w) f)
     \<and> (\<exists>sc. scheds w s = Some sc \<and> cq_nodes (s_queue sc) = Map.empty)
     \<and> finite (dom (stacks w)) \<and> distinct cs \<and> set cs \<subseteq> dom (coros w)"

lemma forget_blocks:
  assumes "S \<inter> dom h1 = {}" "h1 = h(n \<mapsto> x)" "h n = None"
  shows "(\<lambda>b. if b \<in> S then Some y else h1 b) |` (- insert n S) = h"
proof
  fix b
  have "b \<in> S \<Longrightarrow> h1 b = None" using assms(1) by blast
  then show "((\<lambda>b. if b \<in> S then Some y else h1 b) |` (- insert n S)) b = h b"
    using assms(2,3) by (cases "b \<in> S"; cases "b = n") (simp_all add: restrict_map_def)
qed

lemma coroutines_run:
  assumes w: "worker_ready w s (map fst crs)" and al: "allocs sa" "allocs qa" "allocs ma"
  shows "\<exists>w1 w2 w3. create_scheduler w (Some s) (sa (stacks w)) 0 = Inr (0, w1)
    \<and> create_tasks w1 s sa qa (\<lambda>_. 0) 0 crs = Inr (0, w2)
    \<and> run_scheduler w2 tid s qa ma = Some (Inr (Some 0, w3))
    \<and> out w3 = out w @ round_robin (map snd crs)
    \<and> stacks w3 = stacks w \<and> stale w3 = stale w + length crs + 1 \<and> ends_at w3 s"
proof -
  from w obtain sc f where sc: "scheds w s = Some sc" "cq_nodes (s_queue sc) = Map.empty"
    "0 < coro_map_init_cnt w" "cm_rep (cur_coro_map w) f" "finite (dom (stacks w))"
    "distinct (map fst crs)" "set (map fst crs) \<subseteq> dom (coros w)" by (auto simp: worker_ready_def)
  from allocsD [OF al(1) sc(5)] obtain n where n: "sa (stacks w) = Some n" "stacks w n = None" .
  from create_scheduler_run_at [OF sc(3,1,2) n(2)] obtain w1 where
    w1: "create_scheduler w (Some s) (Some n) 0 = Inr (0, w1)" "run_at w1 s n [] []"
      "stacks w1 = (stacks w)(n \<mapsto> ())" "out w1 = out w" "stale w1 = stale w" "coros w1 = coros w"
      "cur_coro_map w1 = cur_coro_map w" by blast
  have "\<exists>w' us. create_tasks w1 s sa qa (\<lambda>_. 0) 0 crs = Inr (0, w')
    \<and> run_at w' s n ([] @ us) (map fst ([] @ us)) \<and> map left_of us = map snd crs
    \<and> stack_of ` set us \<inter> dom (stacks w1) = {}
    \<and> stacks w' = (\<lambda>b. if b \<in> stack_of ` set us then Some () else stacks w1 b)
    \<and> out w' = out w1 \<and> stale w' = stale w1 \<and> cur_coro_map w' = cur_coro_map w1"
    by (rule create_tasks_run_at) (use w1 sc al in auto)
  then obtain w2 us where
    w2: "create_tasks w1 s sa qa (\<lambda>_. 0) 0 crs = Inr (0, w2)" "run_at w2 s n us (map fst us)"
      "map left_of us = map snd crs" "stack_of ` set us \<inter> dom (stacks w1) = {}"
      "stacks w2 = (\<lambda>b. if b \<in> stack_of ` set us then Some () else stacks w1 b)"
      "out w2 = out w1" "stale w2 = stale w1" "cur_coro_map w2 = cur_coro_map w1"
    by auto
  from switches_round_robin [OF w2(2) _ al(2,3), of f tid] w2(8) w1(7) sc(4) obtain w3 where
    w3: "switches tid qa ma (InSched s) w2 = Some (Inr (InMain, w3))"
      "out w3 = out w2 @ round_robin (map left_of us)" "stale w3 = stale w2 + length us + 1"
      "stacks w3 = stacks w2 |` (- insert n (stack_of ` set us))" "ends_at w3 s" by auto
  have "length us = length crs" using w2(3) by (metis length_map)
  moreover have "stacks w3 = stacks w"
    unfolding w3(4) w2(5) by (rule forget_blocks [OF w2(4) w1(3) n(2)])
  moreover have "run_scheduler w2 tid s qa ma = Some (Inr (Some 0, w3))"
    using w3(1) w2(2) by (simp add: run_scheduler_def run_at_def)
  moreover have "out w3 = out w @ round_robin (map snd crs)" using w3(2) w2(3,6) w1(4) by simp
  ultimately show ?thesis using n(1) w1(1,5) w2(1,7) w3(3,5) by auto
qed

section \<open>The counting tasks\<close>

lemma turn_count_task:
  "fst (turn (count_task k)) = [TaskStart k, TaskCount k 1]"
  "snd (turn (count_task k)) = Some [Emit (TaskCount k 2), Yield, Emit (TaskCount k 3), Yield, Emit (TaskDone k)]"
  by (simp_all add: count_task_def upt_rec numeral_eq_Suc)

lemma concat_single: "concat (map (\<lambda>x. [f x]) xs) = map f xs"
  by (induction xs) auto

lemma round_robin_count_tasks:
  "round_robin (map count_task ks) =
     concat (map (\<lambda>k. [TaskStart k, TaskCount k 1]) ks) @ map (\<lambda>k. TaskCount k 2) ks
     @ map (\<lambda>k. TaskCount k 3) ks @ map TaskDone ks"
proof -
  let ?r1 = "\<lambda>k. [Emit (TaskCount k 2), Yield, Emit (TaskCount k 3), Yield, Emit (TaskDone k)]"
  let ?r2 = "\<lambda>k. [Emit (TaskCount k 3), Yield, Emit (TaskDone k)]"
  let ?r3 = "\<lambda>k. [Emit (TaskDone k)]"
  have 1: "round_robin (map count_task ks) = concat (map (\<lambda>k. [TaskStart k, TaskCount k 1]) ks) @ round_robin (map ?r1 ks)"
    using round_robin_round [of "map count_task ks" "[]"] by (simp add: turn_count_task comp_def)
  have 2: "round_robin (map ?r1 ks) = map (\<lambda>k. TaskCount k 2) ks @ round_robin (map ?r2 ks)"
    using round_robin_round [of "map ?r1 ks" "[]"] by (simp add: comp_def concat_single)
  have 3: "round_robin (map ?r2 ks) = map (\<lambda>k. TaskCount k 3) ks @ round_robin (map ?r3 ks)"
    using round_robin_round [of "map ?r2 ks" "[]"] by (simp add: comp_def concat_single)
  have 4: "round_robin (map ?r3 ks) = map TaskDone ks"
    using round_robin_last [of "map ?r3 ks"] by (simp add: comp_def concat_single)
  show ?thesis by (simp add: 1 2 3 4)
qed

section \<open>Properties\<close>

text \<open>
  Property C10. Coroutines run round robin and all of them finish: whatever routines are given to
  \<open>create_coroutine\<close>, \<open>run_scheduler\<close> returns 0, the outputs are those of \<open>round_robin\<close> (turns from
  \<open>yeild\<close> to \<open>yeild\<close>, in the order of creation, a coroutine that yields going behind the others),
  every stack is freed exactly once, and other threads' entries in the shared table do no harm. But
  each coroutine that ends, and the scheduler itself, calls \<open>swapcontext\<close> on a stack that was just freed; and a scheduler can be run once only: a second
  \<open>run_scheduler\<close> resumes \<open>scheduler_routine\<close> behind its swap to \<open>main\<close> and dereferences a \<open>NULL\<close> coroutine.
\<close>

theorem coroutines_round_robin:
  assumes "worker_ready w s (map fst crs)" "allocs sa" "allocs qa" "allocs ma"
  shows "\<exists>w1 w2 w3. create_scheduler w (Some s) (sa (stacks w)) 0 = Inr (0, w1)
    \<and> create_tasks w1 s sa qa (\<lambda>_. 0) 0 crs = Inr (0, w2)
    \<and> run_scheduler w2 tid s qa ma = Some (Inr (Some 0, w3))
    \<and> out w3 = out w @ round_robin (map snd crs)
    \<and> stacks w3 = stacks w \<and> stale w3 = stale w + length crs + 1
    \<and> run_scheduler w3 tid s qa ma = Some (Inl NullDeref)"
  using coroutines_run [OF assms, of tid] rerun_null by blast

text \<open>The memory of a worker that has not started: local variables with arbitrary contents.\<close>

definition sample_world :: "message world" where
  "sample_world = \<lparr>coro_map_init_cnt = 1,
     cur_coro_map = \<lparr>buckets = Some (replicate 16 None), capacity = 16, cm_size = 0, cm_nodes = Map.empty\<rparr>,
     coros = (\<lambda>c. if c < 5 then Some \<lparr>scheduler = None, co_context = \<lparr>ctx_point = AfterFinish, ctx_stack = None\<rparr>, user_routine = None\<rparr> else None),
     scheds = [0 \<mapsto> \<lparr>s_context = \<lparr>ctx_point = SchedLoop, ctx_stack = None\<rparr>,
       s_queue = \<lparr>cq_head = Some 77, cq_tail = None, cq_size = 9, cq_nodes = Map.empty\<rparr>, is_done = True\<rparr>],
     stacks = [3 \<mapsto> ()], out = [], stale = 0\<rparr>"

lemma sample_world_fields:
  "out sample_world = []" "stale sample_world = 0"
  by (simp_all add: sample_world_def)

lemma sample_world_ready: "cs = [0, 1, 2, 3, 4] \<Longrightarrow> worker_ready sample_world 0 cs"
proof -
  let ?m = "\<lparr>buckets = Some (replicate 16 None), capacity = 16, cm_size = 0, cm_nodes = Map.empty\<rparr> :: coro_map_t"
  have "cm_at ?m (replicate 16 None) (\<lambda>_. []) Map.empty" by (rule cm_atI) auto
  then have "\<exists>f. cm_rep ?m f" unfolding cm_rep_def by blast
  moreover assume "cs = [0, 1, 2, 3, 4]"
  ultimately show ?thesis by (auto simp: worker_ready_def sample_world_def)
qed

theorem coroutines_round_robin_witness:
  "\<exists>w1 w2 w3. create_scheduler sample_world (Some 0) (least_free (stacks sample_world)) 0 = Inr (0, w1)
    \<and> create_tasks w1 0 least_free least_free (\<lambda>_. 0) 0
        [(0, [Yield, Emit (TaskDone 1)]), (1, []), (2, [Emit (TaskDone 2), Yield]), (3, [Yield, Yield, Emit (TaskDone 3)]),
         (4, [Emit (TaskDone 4)])] = Inr (0, w2)
    \<and> run_scheduler w2 55 0 least_free least_free = Some (Inr (Some 0, w3))
    \<and> out w3 = [TaskDone 2, TaskDone 4, TaskDone 1, TaskDone 3] \<and> stacks w3 = stacks sample_world \<and> stale w3 = 6
    \<and> run_scheduler w3 55 0 least_free least_free = Some (Inl NullDeref)"
proof -
  let ?crs = "[(0, [Yield, Emit (TaskDone 1)]), (1, []), (2, [Emit (TaskDone 2), Yield]),
      (3, [Yield, Yield, Emit (TaskDone 3)]), (4, [Emit (TaskDone 4)])] :: (addr \<times> message act list) list"
  have "worker_ready sample_world 0 (map fst ?crs)" by (rule sample_world_ready) simp
  moreover have "round_robin (map snd ?crs) = [TaskDone 2, TaskDone 4, TaskDone 1, TaskDone 3]" by simp
  moreover have "length ?crs = 5" by simp
  ultimately show ?thesis
    using coroutines_round_robin [of sample_world 0 ?crs least_free least_free least_free 55]
    unfolding sample_world_fields by (simp only: allocs_least_free append_Nil) simp
qed

text \<open>
  A worker of the cluster, whatever other workers have in the shared table, prints its
  five tasks in rounds: all start and count to 1 in order, then all count to 2, then to 3, then all
  finish; it returns 0 with every stack freed. The task ids are \<open>thread_id * 100 + i\<close> in 32 bits.
\<close>

lemma worker_counts_in_rounds:
  assumes "worker_ready w s cs" "length cs = NUM_TASKS" "allocs sa" "allocs qa" "allocs ma"
  shows "\<exists>w'. thread_worker w tid thread_id s cs sa qa ma (\<lambda>_. 0) = Some (Inr (0, w')) \<and> stacks w' = stacks w
    \<and> (let ks = map (\<lambda>i. thread_id * 100 + of_nat i) [0..<NUM_TASKS] in
        out w' = out w @ [WorkerStart thread_id]
          @ concat (map (\<lambda>k. [TaskStart k, TaskCount k 1]) ks) @ map (\<lambda>k. TaskCount k 2) ks
          @ map (\<lambda>k. TaskCount k 3) ks @ map TaskDone ks @ [WorkerDone thread_id])"
proof -
  let ?ks = "map (\<lambda>i. thread_id * 100 + of_nat i) [0..<NUM_TASKS]"
  let ?crs = "zip cs (map (\<lambda>i. count_task (thread_id * 100 + of_nat i)) [0..<NUM_TASKS])"
  let ?w = "say (WorkerStart thread_id) w"
  have len: "length cs = length (map (\<lambda>i. count_task (thread_id * 100 + of_nat i)) [0..<NUM_TASKS])"
    using assms(2) by simp
  have "worker_ready ?w s (map fst ?crs)" using assms(1) by (simp add: map_fst_zip [OF len] worker_ready_def say_def)
  from coroutines_run [OF this assms(3-5), of tid] obtain w1 w2 w3 where
    r: "create_scheduler ?w (Some s) (sa (stacks ?w)) 0 = Inr (0, w1)"
      "create_tasks w1 s sa qa (\<lambda>_. 0) 0 ?crs = Inr (0, w2)"
      "run_scheduler w2 tid s qa ma = Some (Inr (Some 0, w3))"
      "out w3 = out ?w @ round_robin (map snd ?crs)" "stacks w3 = stacks ?w" by blast
  have "map snd ?crs = map count_task ?ks" by (simp add: map_snd_zip [OF len] comp_def)
  with r(4) have "out w3 = out w @ [WorkerStart thread_id]
          @ concat (map (\<lambda>k. [TaskStart k, TaskCount k 1]) ?ks) @ map (\<lambda>k. TaskCount k 2) ?ks
          @ map (\<lambda>k. TaskCount k 3) ?ks @ map TaskDone ?ks"
    by (simp only: round_robin_count_tasks) (simp add: say_def)
  with r show ?thesis unfolding thread_worker_def by (simp add: Let_def) (simp add: say_def)
qed

end
