(* ===== verification/Cluster_Main.thy ===== *)
theory Cluster_Main
  imports Cluster Thread_Pool
begin

text \<open>
  \<open>main\<close> of \<open>threads/lab1.8/cluster.c\<close>: it starts three workers in the thread pool, sleeps ten seconds and takes everything
  down again. The answers of the allocator and of pthreads are fields of \<open>main_env\<close>; \<open>workers\<close> is what the workers
  that were started do to the shared state while \<open>main\<close> sleeps.
\<close>

record main_env =
  me_calloc :: bool
  me_pool_malloc :: bool
  me_mutex_err :: int
  me_deamon_err :: int
  me_ids_malloc :: bool
  me_create_err :: "nat \<Rightarrow> int"
  me_realloc :: bool
  me_tid :: "nat \<Rightarrow> pthread_t"
  me_cancel :: "pthread_t \<Rightarrow> int"

datatype main_message = AddFailed nat int | AddedTask nat

text \<open>The loop that adds the workers, for the numbers in the list; an error is only reported.\<close>

fun add_workers :: "main_env \<Rightarrow> nat list \<Rightarrow> thread_pool_t \<Rightarrow> (main_message list \<times> thread_pool_t) res option" where
  "add_workers e [] p = Some (Inr ([], p))"
| "add_workers e (i # is) p = tbind (add_thread (me_create_err e i) (me_realloc e) (me_tid e i) p) (\<lambda>(err, p).
     let m = (if err \<noteq> 0 then AddFailed i err else AddedTask (Suc i)) in
     tbind (add_workers e is p) (\<lambda>(ms, p). Some (Inr (m # ms, p))))"

text \<open>The result of \<open>destroy_thread_pool\<close> is ignored. The result here: what \<open>main\<close> returns, its reports, the pool and the shared state.\<close>

definition cluster_main :: "main_env \<Rightarrow> (message world \<Rightarrow> message world res option) \<Rightarrow> message world
    \<Rightarrow> (int \<times> main_message list \<times> thread_pool_t option \<times> message world) res option" where
  "cluster_main e workers w =
     (let (err, w) = coro_init w (me_calloc e) in
      if err \<noteq> 0 then Some (Inr (err, [], None, w))
      else let (err, pool) = create_thread_pool (me_pool_malloc e) (me_mutex_err e) (me_deamon_err e) in
        if err \<noteq> 0 then Some (Inr (err, [], None, w))
        else if \<not> me_ids_malloc e then Some (Inl NullDeref)
        else tbind (add_workers e [0..<3] (the pool)) (\<lambda>(ms, p).
          tbind (workers w) (\<lambda>w.
            case destroy_thread_pool (me_cancel e) p of None \<Rightarrow> None
            | Some (_, p) \<Rightarrow> tbind (coro_fini w) (\<lambda>(err, w).
                Some (Inr (if err \<noteq> 0 then err else 0, ms, Some p, w))))))"

section \<open>What it does\<close>

lemma add_workers_ok:
  assumes "pool_inv p" "\<not> pool_locked p" "\<And>i. me_create_err e i = 0"
  shows "\<exists>p'. add_workers e is p = Some (Inr (map (\<lambda>i. AddedTask (Suc i)) is, p')) \<and> pool_inv p' \<and> \<not> pool_locked p'"
  using assms(1,2)
proof (induction "is" arbitrary: p)
  case (Cons i "is")
  from add_thread_inv [OF Cons.prems] assms(3) obtain p1 where
    p1: "add_thread (me_create_err e i) (me_realloc e) (me_tid e i) p = Some (Inr (0, p1))" "pool_inv p1" "\<not> pool_locked p1"
    by metis
  from Cons.IH [OF p1(2,3)] p1(1) show ?case by auto
qed simp

lemma cancel_all_free: "(\<forall>t \<in> set ts. state t = THREAD_FREE) \<Longrightarrow> cancel_all cancel ts = 0"
  by (induction ts) auto

lemma destroy_free:
  assumes "pool_inv p" "\<not> pool_locked p"
  shows "\<exists>p'. destroy_thread_pool cancel p = Some (0, p') \<and> \<not> pool_live p'"
proof -
  have "cancel_all cancel (take (unat (thread_count p)) (threads p)) = 0"
    using assms(1) by (intro cancel_all_free) (auto simp: pool_inv_def dest: in_set_takeD)
  with assms(2) show ?thesis by (simp add: destroy_thread_pool_def Let_def)
qed

definition calls_succeed :: "main_env \<Rightarrow> bool" where
  "calls_succeed e \<longleftrightarrow> me_calloc e \<and> me_pool_malloc e \<and> me_mutex_err e = 0 \<and> me_deamon_err e = 0 \<and> me_ids_malloc e"

text \<open>
  When every call succeeds \<open>main\<close> reports three tasks and returns 0, with the pool and the table freed. It never
  waits for a worker nor cancels one (every slot of the pool is free): the table is destroyed ten seconds after the start, whatever the
  workers have done by then.
\<close>

lemma cluster_main_returns:
  assumes e: "calls_succeed e" "\<And>i. me_create_err e i = 0"
    and w: "coro_map_init_cnt w = 0" "cm_nodes (cur_coro_map w) = Map.empty"
    and workers: "\<And>w. coro_map_init_cnt w = 1 \<Longrightarrow> cm_rep (cur_coro_map w) Map.empty \<Longrightarrow>
      \<exists>w' f. workers w = Some (Inr w') \<and> coro_map_init_cnt w' = 1 \<and> cm_rep (cur_coro_map w') f"
  shows "\<exists>p w'. cluster_main e workers w = Some (Inr (0, [AddedTask 1, AddedTask 2, AddedTask 3], Some p, w'))
    \<and> \<not> pool_live p \<and> cm_nodes (cur_coro_map w') = Map.empty"
proof -
  from coro_init_first [OF w] obtain w1 where
    w1: "coro_init w True = (0, w1)" "coro_map_init_cnt w1 = 1" "cm_rep (cur_coro_map w1) Map.empty" by blast
  obtain p where p: "create_thread_pool True 0 0 = (0, Some p)" by (simp add: create_thread_pool_def)
  from create_thread_pool_inv [OF p] add_workers_ok [of p e "[0..<3]"] e(2) obtain p1 where
    p1: "add_workers e [0..<3] p = Some (Inr (map (\<lambda>i. AddedTask (Suc i)) [0..<3], p1))" "pool_inv p1" "\<not> pool_locked p1" by blast
  from workers [OF w1(2,3)] obtain w2 f where w2: "workers w1 = Some (Inr w2)" "coro_map_init_cnt w2 = 1" "cm_rep (cur_coro_map w2) f"
    by blast
  from destroy_free [OF p1(2,3)] obtain p2 where p2: "destroy_thread_pool (me_cancel e) p1 = Some (0, p2)" "\<not> pool_live p2" by blast
  from coro_fini_last [OF w2(2,3)] obtain w3 where w3: "coro_fini w2 = Some (Inr (0, w3))" "cm_nodes (cur_coro_map w3) = Map.empty" by blast
  have "map (\<lambda>i. AddedTask (Suc i)) [0..<3] = [AddedTask 1, AddedTask 2, AddedTask 3]" by (simp add: upt_rec)
  with e(1) w1(1) p p1(1) w2(1) p2 w3 show ?thesis by (simp add: cluster_main_def calls_succeed_def)
qed

text \<open>When \<open>pthread_create\<close> fails for the first worker, the next call of \<open>add_thread\<close> waits for ever for the mutex.\<close>

lemma cluster_main_hangs:
  assumes e: "calls_succeed e" "me_create_err e 0 \<noteq> 0" and w: "coro_map_init_cnt w = 0" "cm_nodes (cur_coro_map w) = Map.empty"
  shows "cluster_main e workers w = None"
proof -
  from coro_init_first [OF w] obtain w1 where w1: "coro_init w True = (0, w1)" by blast
  obtain p where p: "create_thread_pool True 0 0 = (0, Some p)" by (simp add: create_thread_pool_def)
  from create_thread_pool_inv [OF p] add_thread_fails [of p, OF _ _ e(2)] have
    "add_thread (me_create_err e 0) (me_realloc e) (me_tid e 0) p = Some (Inr (me_create_err e 0, p\<lparr>pool_locked := True\<rparr>))" by blast
  moreover have "add_thread err ok tid (p\<lparr>pool_locked := True\<rparr>) = None" for err ok tid by (simp add: add_thread_def)
  ultimately have "add_workers e [0..<3] p = None" by (simp add: upt_rec numeral_eq_Suc)
  with e(1) w1 p show ?thesis by (simp add: cluster_main_def calls_succeed_def)
qed

end
