(* ===== verification/Lab_Pool.thy ===== *)
theory Lab_Pool
  imports Cluster_Main
begin

text \<open>
  The copy of the thread pool that the coroutine program uses, \<open>threads/lab1.8/thread_pool/thread_pool.c\<close>,
  in action: \<open>main\<close> of \<open>cluster.c\<close> adds its three workers and destroys the pool while the daemon scans it,
  slot by slot. In this copy the daemon has a single \<open>pthread_testcancel\<close>, after it has unlocked the mutex.
\<close>

section \<open>Statements\<close>

datatype lab_deamon =
    LLock
  | LScan nat
  | LUnlock
  | LTest
  | LSleep
  | LEnded

text \<open>
  \<open>LAdd i\<close>: \<open>add_thread\<close> for worker \<open>i\<close> is about to lock; \<open>LFind i j\<close>: it looks at slot \<open>j\<close>; \<open>LGrow i\<close>: it
  found none free. \<open>LDestroy\<close> to \<open>LFree\<close> are the statements of \<open>destroy_thread_pool\<close>.
\<close>

datatype lab_main =
    LAdd nat
  | LFind nat nat
  | LGrow nat
  | LDestroy
  | LCancel
  | LJoin
  | LCancelThreads nat
  | LFree
  | LReturned int

record lab =
  lpool :: thread_pool_t
  ldpc :: lab_deamon
  lmpc :: lab_main
  lmutex :: owner
  lcancelled :: bool

text \<open>The answers of pthreads and of the allocator.\<close>

record lab_env =
  lcreate_err :: "nat \<Rightarrow> int"
  ltid :: "nat \<Rightarrow> pthread_t"
  lrealloc :: bool
  ltryjoin :: "pthread_t \<Rightarrow> int"
  lcancel_err :: "pthread_t \<Rightarrow> int"

definition slot :: "lab \<Rightarrow> nat \<Rightarrow> thread_info_t res" where
  "slot s i = (if pool_live (lpool s) \<and> i < length (threads (lpool s)) then Inr (threads (lpool s) ! i) else Inl OutOfBounds)"

definition set_slot :: "lab \<Rightarrow> nat \<Rightarrow> thread_info_t \<Rightarrow> lab" where
  "set_slot s i t = s\<lparr>lpool := (lpool s)\<lparr>threads := (threads (lpool s))[i := t]\<rparr>\<rparr>"

definition slot_count :: "lab \<Rightarrow> nat" where
  "slot_count s = unat (thread_count (lpool s))"

text \<open>One statement of the daemon; \<open>None\<close> when it waits for the mutex or has ended.\<close>

fun deamon_stmt :: "lab_env \<Rightarrow> lab \<Rightarrow> lab_deamon \<Rightarrow> lab res option" where
  "deamon_stmt e s LLock = (if lmutex s = Nobody then Some (Inr (s\<lparr>lmutex := Deamon, ldpc := LScan 0\<rparr>)) else None)"
| "deamon_stmt e s (LScan i) =
     (if i < slot_count s then Some (rbind (slot s i) (\<lambda>t.
        if state t = THREAD_FREE then Inr (s\<lparr>ldpc := LScan (Suc i)\<rparr>)
        else let result = is_thread_running (ltryjoin e (thread t)) in
          if result < 0 then Inl (ExitCall result)
          else Inr ((set_slot s i (if result = 0 then t\<lparr>state := THREAD_FREE\<rparr> else t))\<lparr>ldpc := LScan (Suc i)\<rparr>)))
      else Some (Inr (s\<lparr>ldpc := LUnlock\<rparr>)))"
| "deamon_stmt e s LUnlock = Some (Inr (s\<lparr>lmutex := Nobody, ldpc := LTest\<rparr>))"
| "deamon_stmt e s LTest = Some (Inr (s\<lparr>ldpc := (if lcancelled s then LEnded else LSleep)\<rparr>))"
| "deamon_stmt e s LSleep = Some (Inr (s\<lparr>ldpc := (if lcancelled s then LEnded else LLock)\<rparr>))"
| "deamon_stmt e s LEnded = None"

text \<open>
  Creating the thread of worker \<open>i\<close> in slot \<open>j\<close>: an error is returned with the mutex locked.
\<close>

definition create_in :: "lab_env \<Rightarrow> lab \<Rightarrow> nat \<Rightarrow> nat \<Rightarrow> lab res" where
  "create_in e s i j = rbind (slot s j) (\<lambda>t.
     let (err, t) = create_thread (lcreate_err e i) (ltid e i) t; s = set_slot s j t in
     if err \<noteq> 0 then Inr (s\<lparr>lmpc := LAdd (Suc i)\<rparr>) else Inr (s\<lparr>lmutex := Nobody, lmpc := LAdd (Suc i)\<rparr>))"

fun main_stmt :: "lab_env \<Rightarrow> lab \<Rightarrow> lab_main \<Rightarrow> lab res option" where
  "main_stmt e s (LAdd i) =
     (if i \<ge> 3 then Some (Inr (s\<lparr>lmpc := LDestroy\<rparr>))
      else if lmutex s = Nobody then Some (Inr (s\<lparr>lmutex := Main, lmpc := LFind i 0\<rparr>)) else None)"
| "main_stmt e s (LFind i j) =
     (if j < slot_count s then Some (rbind (slot s j) (\<lambda>t.
        if state t = THREAD_FREE then create_in e s i j else Inr (s\<lparr>lmpc := LFind i (Suc j)\<rparr>)))
      else Some (Inr (s\<lparr>lmpc := LGrow i\<rparr>)))"
| "main_stmt e s (LGrow i) =
     (if \<not> lrealloc e then Some (Inr (s\<lparr>lpool := (lpool s)\<lparr>threads := [], pool_live := False\<rparr>, lmutex := Nobody, lmpc := LAdd (Suc i)\<rparr>))
      else let n = slot_count s; p = lpool s;
               s = s\<lparr>lpool := p\<lparr>threads := take n (threads p) @ replicate n \<lparr>thread = 0, state = THREAD_FREE\<rparr>,
                       thread_count := thread_count p * REALLOC_MAGIC\<rparr>\<rparr>
        in Some (create_in e s i (unat (thread_count (lpool s) div REALLOC_MAGIC))))"
| "main_stmt e s LDestroy = (if lmutex s = Nobody then Some (Inr (s\<lparr>lmutex := Main, lmpc := LCancel\<rparr>)) else None)"
| "main_stmt e s LCancel = Some (Inr (s\<lparr>lcancelled := True, lmpc := LJoin\<rparr>))"
| "main_stmt e s LJoin = (if ldpc s = LEnded then Some (Inr (s\<lparr>lmpc := LCancelThreads 0\<rparr>)) else None)"
| "main_stmt e s (LCancelThreads i) =
     (if i < slot_count s then Some (rbind (slot s i) (\<lambda>t.
        if state t \<noteq> THREAD_FREE \<and> lcancel_err e (thread t) \<noteq> 0 then Inr (s\<lparr>lmpc := LReturned (lcancel_err e (thread t))\<rparr>)
        else Inr (s\<lparr>lmpc := LCancelThreads (Suc i)\<rparr>)))
      else Some (Inr (s\<lparr>lmutex := Nobody, lmpc := LFree\<rparr>)))"
| "main_stmt e s LFree = Some (Inr (s\<lparr>lpool := (lpool s)\<lparr>threads := [], pool_live := False\<rparr>, lmpc := LReturned 0\<rparr>))"
| "main_stmt e s (LReturned r) = None"

inductive lab_step :: "lab_env \<Rightarrow> lab \<Rightarrow> lab res \<Rightarrow> bool" for e where
  deamon_moves: "deamon_stmt e s (ldpc s) = Some r \<Longrightarrow> lab_step e s r"
| main_moves: "main_stmt e s (lmpc s) = Some r \<Longrightarrow> lab_step e s r"

inductive_cases lab_stepE: "lab_step e s r"

text \<open>After \<open>create_thread_pool\<close>.\<close>

definition lab_start :: "thread_pool_t \<Rightarrow> lab" where
  "lab_start p = \<lparr>lpool = p, ldpc = LLock, lmpc = LAdd 0, lmutex = Nobody, lcancelled = False\<rparr>"

inductive lab_reach :: "lab_env \<Rightarrow> thread_pool_t \<Rightarrow> lab res \<Rightarrow> bool" for e p where
  begins: "lab_reach e p (Inr (lab_start p))"
| continues: "lab_reach e p (Inr s) \<Longrightarrow> lab_step e s r \<Longrightarrow> lab_reach e p r"

section \<open>The invariant\<close>

definition deamon_holds :: "lab_deamon \<Rightarrow> bool" where
  "deamon_holds k \<longleftrightarrow> (case k of LScan _ \<Rightarrow> True | LUnlock \<Rightarrow> True | _ \<Rightarrow> False)"

definition main_holds :: "lab_main \<Rightarrow> bool" where
  "main_holds k \<longleftrightarrow> (case k of LFind _ _ \<Rightarrow> True | LCancel \<Rightarrow> True | LJoin \<Rightarrow> True | LCancelThreads _ \<Rightarrow> True | _ \<Rightarrow> False)"

text \<open>A call of \<open>pthread_create\<close> has failed before worker \<open>i\<close>: \<open>main\<close> has the mutex and never lets it go.\<close>

definition failed_at :: "lab_env \<Rightarrow> lab_main \<Rightarrow> bool" where
  "failed_at e k \<longleftrightarrow> (case k of LAdd i \<Rightarrow> 0 < i \<and> lcreate_err e (i - 1) \<noteq> 0 | LDestroy \<Rightarrow> lcreate_err e 2 \<noteq> 0 | _ \<Rightarrow> False)"

definition lab_inv :: "lab_env \<Rightarrow> lab \<Rightarrow> bool" where
  "lab_inv e s \<longleftrightarrow> (if lmpc s = LReturned 0 then ldpc s = LEnded \<and> \<not> pool_live (lpool s)
     else pool_inv (lpool s)
      \<and> (lmutex s = Deamon \<longleftrightarrow> deamon_holds (ldpc s)) \<and> (lmutex s = Main \<longleftrightarrow> main_holds (lmpc s) \<or> failed_at e (lmpc s))
      \<and> (lcancelled s \<longleftrightarrow> lmpc s \<in> {LJoin, LFree} \<or> (\<exists>i. lmpc s = LCancelThreads i))
      \<and> (ldpc s = LEnded \<longrightarrow> lcancelled s) \<and> (lmpc s = LFree \<or> (\<exists>i. lmpc s = LCancelThreads i) \<longrightarrow> ldpc s = LEnded)
      \<and> (case lmpc s of LAdd i \<Rightarrow> i \<le> 3 | LFind i j \<Rightarrow> i < 3 \<and> j = 0 | LGrow i \<Rightarrow> False | LReturned r \<Rightarrow> False | _ \<Rightarrow> True))"

lemma slot_free:
  assumes "pool_inv (lpool s)" "i < slot_count s"
  shows "slot s i = Inr (threads (lpool s) ! i)" "state (threads (lpool s) ! i) = THREAD_FREE"
  using assms by (auto simp: pool_inv_def slot_def slot_count_def)

lemma create_in_run:
  assumes "pool_inv (lpool s)"
  shows "\<exists>p. pool_inv p \<and> create_in e s i 0 = Inr (if lcreate_err e i \<noteq> 0 then s\<lparr>lpool := p, lmpc := LAdd (Suc i)\<rparr>
    else s\<lparr>lpool := p, lmutex := Nobody, lmpc := LAdd (Suc i)\<rparr>)"
proof -
  let ?t = "snd (create_thread (lcreate_err e i) (ltid e i) (threads (lpool s) ! 0))"
  let ?p = "(lpool s)\<lparr>threads := (threads (lpool s))[0 := ?t]\<rparr>"
  have "0 < slot_count s" using assms by (simp add: pool_inv_def slot_count_def)
  note sl = slot_free [OF assms this]
  have "state ?t = THREAD_FREE" using sl(2) by (simp add: create_thread_def)
  then have "pool_inv ?p" using assms set_update_subset_insert [of "threads (lpool s)" 0 ?t] by (auto simp: pool_inv_def)
  then show ?thesis using sl(1) by (intro exI [of _ ?p]) (simp add: create_in_def create_thread_def set_slot_def)
qed

lemma deamon_inv:
  assumes "lab_inv e s" "deamon_stmt e s (ldpc s) = Some r"
  shows "\<exists>s'. r = Inr s' \<and> lab_inv e s'"
proof (cases "ldpc s")
  case (LScan i)
  with assms(1) have p: "pool_inv (lpool s)" by (auto simp: lab_inv_def split: if_splits)
  show ?thesis
  proof (cases "i < slot_count s")
    case True
    note slot_free [OF p True]
    with assms LScan True show ?thesis by (auto simp: lab_inv_def deamon_holds_def split: if_splits)
  next
    case False
    with assms LScan show ?thesis by (auto simp: lab_inv_def deamon_holds_def split: if_splits)
  qed
qed (use assms in \<open>auto simp: lab_inv_def deamon_holds_def split: if_splits\<close>)

lemma main_inv:
  assumes "lab_inv e s" "main_stmt e s (lmpc s) = Some r"
  shows "\<exists>s'. r = Inr s' \<and> lab_inv e s'"
proof (cases "lmpc s")
  case (LFind i j)
  with assms(1) have p: "pool_inv (lpool s)" "j = 0" by (auto simp: lab_inv_def split: if_splits)
  then have z: "0 < slot_count s" by (simp add: pool_inv_def slot_count_def)
  from create_in_run [OF p(1), of e i] obtain q where
    "pool_inv q" "create_in e s i 0 = Inr (if lcreate_err e i \<noteq> 0 then s\<lparr>lpool := q, lmpc := LAdd (Suc i)\<rparr>
      else s\<lparr>lpool := q, lmutex := Nobody, lmpc := LAdd (Suc i)\<rparr>)" by blast
  with assms(2) LFind p(2) slot_free [OF p(1) z] z have
    r: "r = Inr (if lcreate_err e i \<noteq> 0 then s\<lparr>lpool := q, lmpc := LAdd (Suc i)\<rparr> else s\<lparr>lpool := q, lmutex := Nobody, lmpc := LAdd (Suc i)\<rparr>)"
    "pool_inv q" by auto
  show ?thesis unfolding r(1)
    by (rule exI, rule conjI [OF refl])
      (use assms(1) LFind r(2) in \<open>auto simp: lab_inv_def main_holds_def failed_at_def\<close>)
next
  case (LCancelThreads i)
  with assms(1) have p: "pool_inv (lpool s)" by (auto simp: lab_inv_def split: if_splits)
  with assms LCancelThreads slot_free [OF p, of i] show ?thesis
    by (cases "i < slot_count s") (auto simp: lab_inv_def main_holds_def failed_at_def)
next
  case (LAdd i)
  with assms show ?thesis
    by (cases "i = 3") (auto simp: lab_inv_def main_holds_def failed_at_def split: if_splits)
qed (use assms in \<open>auto simp: lab_inv_def main_holds_def failed_at_def split: if_splits\<close>)

lemma lab_reach_inv:
  assumes "pool_inv p" "lab_reach e p r"
  shows "\<exists>s. r = Inr s \<and> lab_inv e s"
  using assms(2)
proof induction
  case begins
  show ?case using assms(1) by (simp add: lab_inv_def lab_start_def deamon_holds_def main_holds_def failed_at_def)
next
  case (continues s r)
  then show ?case using deamon_inv main_inv by (auto elim!: lab_stepE)
qed

section \<open>When nothing moves any more\<close>

definition lab_deadlock :: "lab \<Rightarrow> bool" where
  "lab_deadlock s \<longleftrightarrow> ldpc s = LLock \<and> lmpc s = LJoin"

definition lab_abandoned :: "lab_env \<Rightarrow> lab \<Rightarrow> bool" where
  "lab_abandoned e s \<longleftrightarrow> ldpc s = LLock \<and> failed_at e (lmpc s) \<and> lmpc s \<noteq> LAdd 3"

lemma lab_stepI:
  "deamon_stmt e s (ldpc s) \<noteq> None \<Longrightarrow> \<exists>r. lab_step e s r" "main_stmt e s (lmpc s) \<noteq> None \<Longrightarrow> \<exists>r. lab_step e s r"
  by (auto intro: lab_step.intros)

lemma lab_stops:
  assumes inv: "lab_inv e s"
  shows "(\<nexists>r. lab_step e s r) \<longleftrightarrow> lmpc s = LReturned 0 \<or> lab_deadlock s \<or> lab_abandoned e s"
proof
  assume "lmpc s = LReturned 0 \<or> lab_deadlock s \<or> lab_abandoned e s"
  then show "\<nexists>r. lab_step e s r" using inv
    by (auto simp: lab_inv_def lab_deadlock_def lab_abandoned_def failed_at_def main_holds_def elim!: lab_stepE
        split: lab_main.splits if_splits)
next
  assume stuck: "\<nexists>r. lab_step e s r"
  then have d: "deamon_stmt e s (ldpc s) = None" and m: "main_stmt e s (lmpc s) = None" using lab_stepI by blast+
  show "lmpc s = LReturned 0 \<or> lab_deadlock s \<or> lab_abandoned e s"
  proof (cases "ldpc s = LEnded")
    case True
    with inv m show ?thesis by (cases "lmpc s") (auto simp: lab_inv_def split: if_splits)
  next
    case False
    with d have "ldpc s = LLock" "lmutex s \<noteq> Nobody" by (cases "ldpc s"; auto split: if_splits)+
    with inv m show ?thesis
      by (cases "lmpc s"; cases "lmutex s")
        (auto simp: lab_inv_def lab_deadlock_def lab_abandoned_def deamon_holds_def main_holds_def split: if_splits)
  qed
qed

section \<open>The way into the deadlock\<close>

lemma lab_main_reach:
  assumes "lab_reach e p (Inr s)" "main_stmt e s (lmpc s) = Some (Inr s')"
  shows "lab_reach e p (Inr s')"
  by (rule lab_reach.continues [OF assms(1)]) (rule lab_step.main_moves [OF assms(2)])

text \<open>\<open>main\<close> adds its workers while the daemon has not locked the pool yet.\<close>

definition before_add :: "lab_env \<Rightarrow> thread_pool_t \<Rightarrow> nat \<Rightarrow> bool" where
  "before_add e p i \<longleftrightarrow> (\<exists>s. lab_reach e p (Inr s) \<and> lmpc s = LAdd i \<and> ldpc s = LLock \<and> lmutex s = Nobody \<and> pool_inv (lpool s))"

lemma before_add_next:
  assumes "before_add e p i" "i < 3" "lcreate_err e i = 0"
  shows "before_add e p (Suc i)"
proof -
  from assms(1) obtain s where s: "lab_reach e p (Inr s)" "lmpc s = LAdd i" "ldpc s = LLock" "lmutex s = Nobody" "pool_inv (lpool s)"
    by (auto simp: before_add_def)
  let ?s = "s\<lparr>lmutex := Main, lmpc := LFind i 0\<rparr>"
  have r: "lab_reach e p (Inr ?s)" using s assms(2) by (intro lab_main_reach [OF s(1)]) simp
  have i: "pool_inv (lpool ?s)" "0 < slot_count ?s" using s(5) by (auto simp: pool_inv_def slot_count_def)
  from create_in_run [OF i(1), of e i] assms(3) obtain q where
    q: "pool_inv q" "create_in e ?s i 0 = Inr (?s\<lparr>lpool := q, lmutex := Nobody, lmpc := LAdd (Suc i)\<rparr>)" by auto
  have "main_stmt e ?s (lmpc ?s) = Some (create_in e ?s i 0)" using slot_free [OF i] i(2) by simp
  with q have "lab_reach e p (Inr (?s\<lparr>lpool := q, lmutex := Nobody, lmpc := LAdd (Suc i)\<rparr>))"
    by (intro lab_main_reach [OF r]) simp
  then show ?thesis unfolding before_add_def
    by (intro exI [of _ "?s\<lparr>lpool := q, lmutex := Nobody, lmpc := LAdd (Suc i)\<rparr>"]) (use s q in simp)
qed

lemma deadlock_reached:
  assumes "pool_inv p" "\<And>i. i < 3 \<Longrightarrow> lcreate_err e i = 0"
  shows "\<exists>s. lab_reach e p (Inr s) \<and> lab_deadlock s"
proof -
  have "before_add e p 0" unfolding before_add_def
    by (rule exI, rule conjI, rule lab_reach.begins) (use assms(1) in \<open>simp add: lab_start_def\<close>)
  then have "before_add e p 1" "before_add e p 2" "before_add e p 3"
    using before_add_next [of e p 0] before_add_next [of e p 1] before_add_next [of e p 2] assms(2) by (simp_all add: numeral_eq_Suc)
  then obtain s where s: "lab_reach e p (Inr s)" "lmpc s = LAdd 3" "ldpc s = LLock" "lmutex s = Nobody" by (auto simp: before_add_def)
  let ?s1 = "s\<lparr>lmpc := LDestroy\<rparr>" and ?s2 = "s\<lparr>lmpc := LCancel, lmutex := Main\<rparr>" and ?s3 = "s\<lparr>lmpc := LJoin, lmutex := Main, lcancelled := True\<rparr>"
  have "lab_reach e p (Inr ?s1)" using s by (intro lab_main_reach [OF s(1)]) simp
  then have "lab_reach e p (Inr ?s2)" using s by (elim lab_main_reach) simp
  then have "lab_reach e p (Inr ?s3)" by (elim lab_main_reach) simp
  moreover have "lab_deadlock ?s3" using s by (simp add: lab_deadlock_def)
  ultimately show ?thesis by blast
qed

section \<open>Property\<close>

text \<open>
  Property C29. The thread pool of the coroutine program, with \<open>main\<close> and the daemon interleaved statement by
  statement: no statement faults and the daemon never ends the process; every slot stays free and the
  pool keeps its ten slots until it is freed; the program comes to rest only when \<open>main\<close> has returned with
  the daemon ended, or in the deadlock where the daemon waits for the mutex and \<open>main\<close>, which holds it, for
  the daemon, or after a failed \<open>pthread_create\<close>, which leaves the mutex locked. The deadlock is
  reachable although every call succeeds.
\<close>

theorem lab_pool_outcome:
  assumes "create_thread_pool True 0 0 = (0, Some p)"
  shows "(\<forall>r. lab_reach e p r \<longrightarrow> (\<exists>s. r = Inr s
      \<and> (lmpc s \<noteq> LReturned 0 \<longrightarrow> slot_count s = CAPACITY \<and> (\<forall>i < CAPACITY. \<exists>t. slot s i = Inr t \<and> state t = THREAD_FREE))
      \<and> (lmpc s = LReturned 0 \<longrightarrow> ldpc s = LEnded \<and> \<not> pool_live (lpool s))
      \<and> ((\<nexists>r'. lab_step e s r') \<longleftrightarrow> lmpc s = LReturned 0 \<or> lab_deadlock s \<or> lab_abandoned e s)))
    \<and> ((\<forall>i < 3. lcreate_err e i = 0) \<longrightarrow> (\<exists>s. lab_reach e p (Inr s) \<and> lab_deadlock s))"
proof (intro conjI allI impI)
  have p: "pool_inv p" using create_thread_pool_inv [OF assms] by simp
  fix r assume "lab_reach e p r"
  from lab_reach_inv [OF p this] obtain s where s: "r = Inr s" "lab_inv e s" by blast
  have "slot_count s = CAPACITY \<and> (\<forall>i < CAPACITY. \<exists>t. slot s i = Inr t \<and> state t = THREAD_FREE)" if "lmpc s \<noteq> LReturned 0"
  proof -
    have p: "pool_inv (lpool s)" using s(2) that by (simp add: lab_inv_def)
    then have "slot_count s = CAPACITY" by (simp add: pool_inv_def slot_count_def CAPACITY_def)
    with slot_free [OF p] show ?thesis by metis
  qed
  moreover have "ldpc s = LEnded \<and> \<not> pool_live (lpool s)" if "lmpc s = LReturned 0" using s(2) that by (simp add: lab_inv_def)
  ultimately show "\<exists>s. r = Inr s
      \<and> (lmpc s \<noteq> LReturned 0 \<longrightarrow> slot_count s = CAPACITY \<and> (\<forall>i < CAPACITY. \<exists>t. slot s i = Inr t \<and> state t = THREAD_FREE))
      \<and> (lmpc s = LReturned 0 \<longrightarrow> ldpc s = LEnded \<and> \<not> pool_live (lpool s))
      \<and> ((\<nexists>r'. lab_step e s r') \<longleftrightarrow> lmpc s = LReturned 0 \<or> lab_deadlock s \<or> lab_abandoned e s)"
    using s(1) lab_stops [OF s(2)] by blast
next
  assume "\<forall>i < 3. lcreate_err e i = 0"
  then show "\<exists>s. lab_reach e p (Inr s) \<and> lab_deadlock s"
    using create_thread_pool_inv [OF assms] by (intro deadlock_reached) simp_all
qed

definition demo_lab :: lab_env where
  "demo_lab = \<lparr>lcreate_err = \<lambda>_. 0, ltid = \<lambda>i. i + 7, lrealloc = True, ltryjoin = \<lambda>_. 16, lcancel_err = \<lambda>_. 0\<rparr>"

theorem lab_pool_outcome_witness:
  "\<exists>p s. create_thread_pool True 0 0 = (0, Some p) \<and> lab_reach demo_lab p (Inr s) \<and> lab_deadlock s \<and> (\<nexists>r'. lab_step demo_lab s r')"
proof -
  obtain p where p: "create_thread_pool True 0 0 = (0, Some p)" by (simp add: create_thread_pool_def)
  note W = lab_pool_outcome [OF p, of demo_lab]
  have "\<forall>i < 3. lcreate_err demo_lab i = 0" by (simp add: demo_lab_def)
  with W obtain s where s: "lab_reach demo_lab p (Inr s)" "lab_deadlock s" by blast
  with W have "\<nexists>r'. lab_step demo_lab s r'" by blast
  with p s show ?thesis by blast
qed

end
