(* ===== verification/User_Threads.thy ===== *)
theory User_Threads
  imports Prelude
begin

text \<open>
  The user-level threads of \<open>threads/user_threads/1.7.c\<close>. The header \<open>1.7.h\<close> is not in the repository: the
  constant \<open>THREAD_LIMIT\<close>, the length of the array \<open>threads\<close>, is an argument \<open>n\<close>. A saved context is the point at which its
  owner goes on; a routine is the list of what it does, as for the coroutines. \<open>None\<close> is a loop that never ends.
\<close>

section \<open>State\<close>

datatype uact = Say | UYield

datatype upoint = UWrapper | UIn "uact list" | UFinishing

record uthread =
  start_routine :: "uact list"
  isActive :: int
  isJoinable :: int
  isJoined :: int
  isFinished :: int
  uretval :: "int option"
  utid :: nat
  ucontext :: upoint

datatype uout = Hello nat | YieldFailed | MainLine | MainGot int | JoinFailed | CreateFailed

record ustate =
  uthreads :: "uthread option list"
  cur_tid :: nat
  uout :: "uout list"

datatype uctrl = UMain | UThread nat

section \<open>Operations\<close>

definition active_at :: "uthread option list \<Rightarrow> nat \<Rightarrow> int \<Rightarrow> bool" where
  "active_at ths i a = (case ths ! i of None \<Rightarrow> False | Some t \<Rightarrow> isActive t = a)"

definition get_free_position :: "nat \<Rightarrow> uthread option list \<Rightarrow> int" where
  "get_free_position n ths = (case find (\<lambda>i. active_at ths i 0) [0..<n] of None \<Rightarrow> -1 | Some i \<Rightarrow> int i)"

text \<open>The loop of \<open>get_next_active\<close>, from \<open>i\<close> on.\<close>

partial_function (option) next_from :: "nat \<Rightarrow> uthread option list \<Rightarrow> nat \<Rightarrow> nat \<Rightarrow> int option" where
  "next_from n ths cur i =
     (let i = i mod n in
      if active_at ths i 1 then Some (int i)
      else if i = cur then Some (-1)
      else next_from n ths cur (i + 1))"

definition get_next_active :: "nat \<Rightarrow> ustate \<Rightarrow> int option" where
  "get_next_active n s = next_from n (uthreads s) (cur_tid s) (cur_tid s + 1)"

definition set_thread :: "ustate \<Rightarrow> nat \<Rightarrow> (uthread \<Rightarrow> uthread) \<Rightarrow> ustate" where
  "set_thread s i f = s\<lparr>uthreads := (uthreads s)[i := map_option f (uthreads s ! i)]\<rparr>"

definition uthread_at :: "ustate \<Rightarrow> nat \<Rightarrow> uthread res" where
  "uthread_at s i = (if i < length (uthreads s)
     then (case uthreads s ! i of None \<Rightarrow> Inl NullDeref | Some t \<Rightarrow> Inr t) else Inl OutOfBounds)"

text \<open>
  \<open>yield\<close>, called at the point \<open>p\<close> of the current thread: its result and, when it switches, the thread that
  runs next.
\<close>

definition uyield :: "nat \<Rightarrow> ustate \<Rightarrow> upoint \<Rightarrow> (int \<times> nat option \<times> ustate) option" where
  "uyield n s p = (case get_next_active n s of None \<Rightarrow> None
     | Some pos \<Rightarrow>
         if pos < 0 then Some (-1, None, s)
         else if pos = int (cur_tid s) then Some (0, None, s)
         else Some (0, Some (nat pos), (set_thread s (cur_tid s) (\<lambda>t. t\<lparr>ucontext := p\<rparr>))\<lparr>cur_tid := nat pos\<rparr>))"

text \<open>
  \<open>finish\<close>: without a switch the thread goes to \<open>main_context\<close>, by \<open>setcontext\<close> or, after an error, by
  returning from \<open>thread_wrapper\<close> whose \<open>uc_link\<close> it is.
\<close>

definition ufinish :: "nat \<Rightarrow> ustate \<Rightarrow> (uctrl \<times> ustate) option" where
  "ufinish n s =
     (let s = set_thread s (cur_tid s) (\<lambda>t. if isJoinable t = 0 then t\<lparr>isActive := 0, isFinished := 1\<rparr> else t\<lparr>isFinished := 1\<rparr>) in
      case uyield n s UFinishing of None \<Rightarrow> None
      | Some (_, None, s) \<Rightarrow> Some (UMain, s)
      | Some (_, Some i, s) \<Rightarrow> Some (UThread i, s))"

text \<open>The routine of the current thread up to the next switch; a failed \<open>yield\<close> is printed.\<close>

fun uroutine :: "nat \<Rightarrow> ustate \<Rightarrow> uact list \<Rightarrow> (uctrl \<times> ustate) option" where
  "uroutine n s [] = ufinish n s"
| "uroutine n s (Say # r) = uroutine n (s\<lparr>uout := uout s @ [Hello (cur_tid s)]\<rparr>) r"
| "uroutine n s (UYield # r) = (case uyield n s (UIn r) of None \<Rightarrow> None
     | Some (res, None, s) \<Rightarrow> uroutine n (if res < 0 then s\<lparr>uout := uout s @ [YieldFailed]\<rparr> else s) r
     | Some (_, Some i, s) \<Rightarrow> Some (UThread i, s))"

text \<open>
  \<open>thread_wrapper\<close> resumed where the context of thread \<open>i\<close> points. The return value of \<open>hello\<close> is its
  thread number when it starts; it is stored then, and not when the routine returns, which nobody can tell apart: only a join after the end reads it.
\<close>

definition thread_wrapper :: "nat \<Rightarrow> ustate \<Rightarrow> nat \<Rightarrow> (uctrl \<times> ustate) res option" where
  "thread_wrapper n s i = tbind (Some (uthread_at s i)) (\<lambda>t. case ucontext t of
       UWrapper \<Rightarrow> map_option Inr (uroutine n (set_thread s i (\<lambda>t. t\<lparr>uretval := Some (int (cur_tid s))\<rparr>)) (start_routine t))
     | UIn r \<Rightarrow> map_option Inr (uroutine n s r)
     | UFinishing \<Rightarrow> Some (Inr (UMain, s)))"

partial_function (option) uswitches :: "nat \<Rightarrow> uctrl \<Rightarrow> ustate \<Rightarrow> ustate res option" where
  "uswitches n k s = (case k of UMain \<Rightarrow> Some (Inr s)
     | UThread i \<Rightarrow> (case thread_wrapper n s i of None \<Rightarrow> None
         | Some (Inl e) \<Rightarrow> Some (Inl e) | Some (Inr (k, s)) \<Rightarrow> uswitches n k s))"

text \<open>\<open>uthread_create\<close> stores its position in \<open>*thread\<close>; nothing is created when every position is taken.\<close>

definition uthread_create :: "nat \<Rightarrow> ustate \<Rightarrow> uact list \<Rightarrow> int \<times> nat option \<times> ustate" where
  "uthread_create n s routine =
     (let pos = get_free_position n (uthreads s) in
      if pos < 0 then (-1, None, s)
      else (0, Some (nat pos), set_thread s (nat pos) (\<lambda>t. t\<lparr>start_routine := routine, isActive := 1, isJoinable := 1, isJoined := 0,
              isFinished := 0, utid := nat pos, ucontext := UWrapper\<rparr>)))"

definition uthread_start :: "nat \<Rightarrow> ustate \<Rightarrow> nat \<Rightarrow> ustate res option" where
  "uthread_start n s i = tbind (Some (uthread_at s i)) (\<lambda>t. uswitches n (UThread (utid t)) (s\<lparr>cur_tid := utid t\<rparr>))"

text \<open>
  \<open>uthread_join\<close>. The loop sleeps until the thread has finished, but no other code runs meanwhile. At its end
  the function returns nothing: \<open>junk\<close> is the value its caller then sees.
\<close>

definition uthread_join :: "ustate \<Rightarrow> nat \<Rightarrow> int \<Rightarrow> (int \<times> int option \<times> ustate) res option" where
  "uthread_join s i junk = tbind (Some (uthread_at s i)) (\<lambda>t.
     if isJoined t \<noteq> 0 then Some (Inr (-1, None, s))
     else if isJoinable t = 0 then Some (Inr (-1, None, s))
     else if isFinished t \<noteq> 1 then None
     else Some (Inr (junk, uretval t, set_thread s i (\<lambda>t. t\<lparr>isActive := 0, isJoined := 1\<rparr>))))"

text \<open>\<open>g\<close>: what \<open>malloc\<close> leaves in a new thread structure.\<close>

definition initializeThreads :: "nat \<Rightarrow> uthread \<Rightarrow> ustate" where
  "initializeThreads n g = \<lparr>uthreads = replicate n (Some (g\<lparr>isActive := 0\<rparr>)), cur_tid = 0, uout = []\<rparr>"

definition finishThreads :: "ustate \<Rightarrow> ustate" where
  "finishThreads s = s\<lparr>uthreads := map (\<lambda>_. None) (uthreads s)\<rparr>"

definition hello :: "uact list" where
  "hello = [Say, UYield, Say, UYield, Say, UYield]"

definition tell :: "uout \<Rightarrow> ustate \<Rightarrow> ustate" where
  "tell m s = s\<lparr>uout := uout s @ [m]\<rparr>"

text \<open>The second half of \<open>main\<close>, after the threads have run. The results of the later joins are not looked at.\<close>

definition join_all :: "ustate \<Rightarrow> nat \<Rightarrow> nat \<Rightarrow> int \<Rightarrow> (int \<times> ustate) res option" where
  "join_all s t1 t2 junk =
     tbind (uthread_join s t1 junk) (\<lambda>(res, ret, s).
       if res \<noteq> 0 then Some (Inr (1, tell JoinFailed s))
       else (case ret of None \<Rightarrow> Some (Inl NullDeref)
         | Some v1 \<Rightarrow> let s = tell (MainGot v1) s in
             tbind (uthread_join s t2 junk) (\<lambda>(_, ret2, s).
               let v2 = (case ret2 of None \<Rightarrow> v1 | Some v \<Rightarrow> v); s = tell (MainGot v2) s in
               tbind (uthread_join s t2 junk) (\<lambda>(_, _, s). Some (Inr (0, finishThreads s))))))"

definition umain :: "nat \<Rightarrow> uthread \<Rightarrow> int \<Rightarrow> (int \<times> ustate) res option" where
  "umain n g junk =
     (let s = initializeThreads n g in
      case uthread_create n s hello of
        (_, None, s) \<Rightarrow> Some (Inr (1, tell CreateFailed s))
      | (_, Some t1, s) \<Rightarrow> (case uthread_create n s hello of
            (_, None, s) \<Rightarrow> Some (Inr (1, tell CreateFailed s))
          | (_, Some t2, s) \<Rightarrow>
              tbind (uthread_start n s t1) (\<lambda>s. join_all (tell MainLine s) t1 t2 junk)))"

section \<open>The search for the next thread\<close>

lemma next_from_low:
  assumes "cur < n" "i \<le> cur"
  shows "next_from n ths cur i = Some (case find (\<lambda>i. active_at ths i 1) [i..<Suc cur] of None \<Rightarrow> -1 | Some i \<Rightarrow> int i)"
  using assms(2)
proof (induction "cur - i" arbitrary: i)
  case 0
  with assms(1) show ?case by (subst next_from.simps) (simp add: Let_def)
next
  case (Suc d)
  then have "i < cur" by simp
  with Suc.hyps(1) [of "Suc i"] Suc.hyps(2) assms(1) show ?case
    by (subst next_from.simps) (simp add: Let_def upt_conv_Cons [of i "Suc cur"] del: upt_Suc)
qed

lemma next_from_high:
  assumes "cur < n" "cur < i" "i \<le> n"
  shows "next_from n ths cur i =
    Some (case find (\<lambda>i. active_at ths i 1) ([i..<n] @ [0..<Suc cur]) of None \<Rightarrow> -1 | Some i \<Rightarrow> int i)"
  using assms(2,3)
proof (induction "n - i" arbitrary: i)
  case 0
  then have "next_from n ths cur i = next_from n ths cur 0"
    by (subst (1 2) next_from.simps) simp
  with 0 next_from_low [OF assms(1), of 0 ths] show ?case by simp
next
  case (Suc d)
  then have "i < n" by simp
  with Suc.hyps(1) [of "Suc i"] Suc.hyps(2) Suc.prems show ?case
    by (subst next_from.simps) (simp add: Let_def upt_conv_Cons [of i n])
qed

lemma get_next_active_spec:
  assumes "cur_tid s < n"
  shows "get_next_active n s = Some (case find (\<lambda>i. active_at (uthreads s) i 1) ([cur_tid s + 1..<n] @ [0..<Suc (cur_tid s)]) of
    None \<Rightarrow> -1 | Some i \<Rightarrow> int i)"
  unfolding get_next_active_def by (rule next_from_high) (use assms in auto)

lemma find_skip: "(\<And>x. x \<in> set xs \<Longrightarrow> \<not> P x) \<Longrightarrow> find P (xs @ ys) = find P ys"
  by (induction xs) auto

text \<open>With two active threads, at 0 and 1, each yields to the other.\<close>

definition pair_state :: "nat \<Rightarrow> uthread \<Rightarrow> uthread \<Rightarrow> uthread \<Rightarrow> nat \<Rightarrow> uout list \<Rightarrow> ustate" where
  "pair_state n g a b cur os = \<lparr>uthreads = Some a # Some b # replicate (n - 2) (Some (g\<lparr>isActive := 0\<rparr>)), cur_tid = cur, uout = os\<rparr>"

lemma pair_next:
  assumes "2 \<le> n" "isActive a = 1" "isActive b = 1"
  shows "get_next_active n (pair_state n g a b 0 os) = Some 1" "get_next_active n (pair_state n g a b (Suc 0) os) = Some 0"
proof -
  let ?ths = "Some a # Some b # replicate (n - 2) (Some (g\<lparr>isActive := 0\<rparr>))"
  have act: "active_at ?ths 0 1" "active_at ?ths 1 1" using assms(2,3) by (simp_all add: active_at_def)
  have rest: "\<not> active_at ?ths i 1" if "i \<in> set [2..<n]" for i
    using that by (auto simp: active_at_def nth_Cons split: nat.splits)
  show "get_next_active n (pair_state n g a b 0 os) = Some 1"
    using get_next_active_spec [of "pair_state n g a b 0 os" n] assms(1) act
    by (simp add: pair_state_def upt_conv_Cons [of "Suc 0" n])
  have "find (\<lambda>i. active_at ?ths i 1) ([2..<n] @ [0..<2]) = find (\<lambda>i. active_at ?ths i 1) [0..<2]"
    by (rule find_skip) (rule rest)
  then show "get_next_active n (pair_state n g a b (Suc 0) os) = Some 0"
    using get_next_active_spec [of "pair_state n g a b (Suc 0) os" n] assms(1) act
    by (simp add: pair_state_def numeral_2_eq_2 upt_conv_Cons [of 0 "Suc (Suc 0)"] del: upt_Suc)
qed

lemma pair_at:
  "uthread_at (pair_state n g a b cur os) 0 = Inr a"
  "uthread_at (pair_state n g a b cur os) (Suc 0) = Inr b"
  "set_thread (pair_state n g a b cur os) 0 f = pair_state n g (f a) b cur os"
  "set_thread (pair_state n g a b cur os) (Suc 0) f = pair_state n g a (f b) cur os"
  "cur_tid (pair_state n g a b cur os) = cur"
  "uout (pair_state n g a b cur os) = os"
  "(pair_state n g a b cur os)\<lparr>uout := os'\<rparr> = pair_state n g a b cur os'"
  "(pair_state n g a b cur os)\<lparr>cur_tid := cur'\<rparr> = pair_state n g a b cur' os"
  by (simp_all add: pair_state_def uthread_at_def set_thread_def)

lemma pair_yield:
  assumes "2 \<le> n" "isActive a = 1" "isActive b = 1"
  shows "uyield n (pair_state n g a b 0 os) p = Some (0, Some (Suc 0), pair_state n g (a\<lparr>ucontext := p\<rparr>) b (Suc 0) os)"
    and "uyield n (pair_state n g a b (Suc 0) os) p = Some (0, Some 0, pair_state n g a (b\<lparr>ucontext := p\<rparr>) 0 os)"
  using pair_next [OF assms, of g os] by (simp_all add: uyield_def pair_at)

lemma uswitches_simps:
  "uswitches n UMain s = Some (Inr s)"
  "thread_wrapper n s i = Some (Inr (k, s')) \<Longrightarrow> uswitches n (UThread i) s = uswitches n k s'"
  by (subst uswitches.simps; simp)+

definition created :: "uthread \<Rightarrow> uact list \<Rightarrow> nat \<Rightarrow> uthread" where
  "created g r i = g\<lparr>start_routine := r, isActive := 1, isJoinable := 1, isJoined := 0, isFinished := 0, utid := i, ucontext := UWrapper\<rparr>"

lemma create_pair:
  assumes "2 \<le> n"
  shows "uthread_create n (initializeThreads n g) r1 = (0, Some 0, \<lparr>uthreads = Some (created g r1 0) # replicate (n - 1) (Some (g\<lparr>isActive := 0\<rparr>)), cur_tid = 0, uout = []\<rparr>)"
    and "uthread_create n \<lparr>uthreads = Some (created g r1 0) # replicate (n - 1) (Some (g\<lparr>isActive := 0\<rparr>)), cur_tid = 0, uout = []\<rparr> r2
      = (0, Some 1, pair_state n g (created g r1 0) (created g r2 1) 0 [])"
proof -
  obtain m where n: "n = Suc (Suc m)" using assms by (auto simp: numeral_2_eq_2 Suc_le_D dest!: le_Suc_ex)
  have 1: "[0..<n] = 0 # 1 # [2..<n]" using n by (simp add: upt_conv_Cons numeral_2_eq_2 del: upt_Suc)
  show "uthread_create n (initializeThreads n g) r1 = (0, Some 0, \<lparr>uthreads = Some (created g r1 0) # replicate (n - 1) (Some (g\<lparr>isActive := 0\<rparr>)), cur_tid = 0, uout = []\<rparr>)"
    unfolding uthread_create_def get_free_position_def 1
    using n by (simp add: initializeThreads_def active_at_def set_thread_def created_def)
  show "uthread_create n \<lparr>uthreads = Some (created g r1 0) # replicate (n - 1) (Some (g\<lparr>isActive := 0\<rparr>)), cur_tid = 0, uout = []\<rparr> r2
      = (0, Some 1, pair_state n g (created g r1 0) (created g r2 1) 0 [])"
    unfolding uthread_create_def get_free_position_def 1
    using n by (simp add: active_at_def set_thread_def created_def pair_state_def)
qed

section \<open>Running two threads\<close>

text \<open>The turns of two active threads: the first turn, a later one, the last one, and one after the last.\<close>

lemma first_turn:
  assumes "2 \<le> n" "isActive a = 1" "isActive b = 1"
  shows "ucontext a = UWrapper \<Longrightarrow> start_routine a = Say # UYield # r \<Longrightarrow>
      thread_wrapper n (pair_state n g a b 0 os) 0
        = Some (Inr (UThread (Suc 0), pair_state n g (a\<lparr>uretval := Some 0, ucontext := UIn r\<rparr>) b (Suc 0) (os @ [Hello 0])))"
    and "ucontext b = UWrapper \<Longrightarrow> start_routine b = Say # UYield # r \<Longrightarrow>
      thread_wrapper n (pair_state n g a b (Suc 0) os) (Suc 0)
        = Some (Inr (UThread 0, pair_state n g a (b\<lparr>uretval := Some 1, ucontext := UIn r\<rparr>) 0 (os @ [Hello (Suc 0)])))"
  using assms by (simp_all add: thread_wrapper_def pair_at pair_yield)

lemma later_turn:
  assumes "2 \<le> n" "isActive a = 1" "isActive b = 1"
  shows "ucontext a = UIn (Say # UYield # r) \<Longrightarrow> thread_wrapper n (pair_state n g a b 0 os) 0
        = Some (Inr (UThread (Suc 0), pair_state n g (a\<lparr>ucontext := UIn r\<rparr>) b (Suc 0) (os @ [Hello 0])))"
    and "ucontext b = UIn (Say # UYield # r) \<Longrightarrow> thread_wrapper n (pair_state n g a b (Suc 0) os) (Suc 0)
        = Some (Inr (UThread 0, pair_state n g a (b\<lparr>ucontext := UIn r\<rparr>) 0 (os @ [Hello (Suc 0)])))"
  using assms by (simp_all add: thread_wrapper_def pair_at pair_yield)

lemma last_turn:
  assumes "2 \<le> n" "isActive a = 1" "isActive b = 1" "isJoinable a = 1" "isJoinable b = 1"
  shows "ucontext a = UIn [] \<Longrightarrow> thread_wrapper n (pair_state n g a b 0 os) 0
        = Some (Inr (UThread (Suc 0), pair_state n g (a\<lparr>isFinished := 1, ucontext := UFinishing\<rparr>) b (Suc 0) os))"
    and "ucontext b = UIn [] \<Longrightarrow> thread_wrapper n (pair_state n g a b (Suc 0) os) (Suc 0)
        = Some (Inr (UThread 0, pair_state n g a (b\<lparr>isFinished := 1, ucontext := UFinishing\<rparr>) 0 os))"
    and "ucontext a = UWrapper \<Longrightarrow> start_routine a = [] \<Longrightarrow> thread_wrapper n (pair_state n g a b 0 os) 0
        = Some (Inr (UThread (Suc 0), pair_state n g (a\<lparr>uretval := Some 0, isFinished := 1, ucontext := UFinishing\<rparr>) b (Suc 0) os))"
  using assms by (simp_all add: thread_wrapper_def pair_at pair_yield ufinish_def)

lemma turn_after_last:
  "ucontext a = UFinishing \<Longrightarrow> thread_wrapper n (pair_state n g a b 0 os) 0 = Some (Inr (UMain, pair_state n g a b 0 os))"
  by (simp add: thread_wrapper_def pair_at)

lemmas turns = first_turn later_turn last_turn turn_after_last uswitches_simps

lemma hello_run:
  assumes "2 \<le> n"
  shows "\<exists>a b. uthread_start n (pair_state n g (created g hello 0) (created g hello 1) 0 []) 0
      = Some (Inr (pair_state n g a b 0 [Hello 0, Hello 1, Hello 0, Hello 1, Hello 0, Hello 1]))
    \<and> isFinished a = 1 \<and> isJoined a = 0 \<and> isJoinable a = 1 \<and> uretval a = Some 0
    \<and> isFinished b = 1 \<and> isJoined b = 0 \<and> isJoinable b = 1 \<and> uretval b = Some 1"
  using assms by (simp add: uthread_start_def pair_at created_def hello_def turns) (intro exI conjI, rule refl, simp_all)

text \<open>
  Threads of different lengths: a finished thread that is joinable stays active, and resuming it goes to \<open>main\<close>.
\<close>

lemma unequal_run:
  assumes "2 \<le> n"
  shows "\<exists>s. uthread_start n (pair_state n g (created g [] 0) (created g (Say # UYield # r) 1) 0 []) 0 = Some (Inr s)
    \<and> uout s = [Hello 1] \<and> uthread_join s 1 junk = None"
  using assms by (simp add: uthread_start_def pair_at created_def turns uthread_join_def)

section \<open>Properties\<close>

text \<open>
  The search for the next thread ends whenever the current thread number is one of the array, and
  finds the first active thread after the current one in cyclic order, the current one being the last choice;
  -1 is returned exactly when no thread is active.
\<close>

theorem next_active_is_cyclic:
  assumes "cur_tid s < n"
  shows "get_next_active n s = Some (case find (\<lambda>i. active_at (uthreads s) i 1) ([cur_tid s + 1..<n] @ [0..<Suc (cur_tid s)]) of
    None \<Rightarrow> -1 | Some i \<Rightarrow> int i)"
  using assms by (rule get_next_active_spec)

theorem next_active_is_cyclic_witness:
  "get_next_active 3 \<lparr>uthreads = replicate 3 None, cur_tid = 1, uout = []\<rparr> = Some (-1)"
proof -
  have "[2..<3] = [2]" "[0..<Suc 1] = [0, 1]" by (simp_all add: upt_rec)
  then show ?thesis
    using next_active_is_cyclic [of "\<lparr>uthreads = replicate 3 None, cur_tid = 1, uout = []\<rparr>" 3]
    by (simp add: active_at_def numeral_eq_Suc)
qed

text \<open>
  Property C27. The program of \<open>1.7.c\<close>, for every \<open>THREAD_LIMIT\<close> of at least two: the two threads print
  alternately three times each, \<open>main\<close> is resumed when both have finished, joins them and prints their numbers, if the
  value that \<open>uthread_join\<close> leaves behind without a \<open>return\<close> statement happens to be 0; otherwise \<open>main\<close> reports
  that the join failed although it did not. With threads of different lengths the library hangs: when the first
  thread returns at once and the second yields, \<open>main\<close> is resumed with the second thread unfinished, and
  joining it never returns.
\<close>

theorem user_threads_alternate:
  assumes "2 \<le> n"
  shows "(\<exists>s. umain n g junk = Some (Inr (if junk = 0 then 0 else 1, s))
      \<and> uout s = [Hello 0, Hello 1, Hello 0, Hello 1, Hello 0, Hello 1, MainLine]
          @ (if junk = 0 then [MainGot 0, MainGot 1] else [JoinFailed]))
    \<and> (\<exists>s. uthread_start n (pair_state n g (created g [] 0) (created g (Say # UYield # r) 1) 0 []) 0 = Some (Inr s)
      \<and> uout s = [Hello 1] \<and> uthread_join s 1 junk = None)"
proof (rule conjI [OF _ unequal_run [OF assms]])
  from hello_run [OF assms, of g] obtain a b where
    run: "uthread_start n (pair_state n g (created g hello 0) (created g hello 1) 0 []) 0
      = Some (Inr (pair_state n g a b 0 [Hello 0, Hello 1, Hello 0, Hello 1, Hello 0, Hello 1]))"
    and f: "isFinished a = 1" "isJoined a = 0" "isJoinable a = 1" "uretval a = Some 0"
      "isFinished b = 1" "isJoined b = 0" "isJoinable b = 1" "uretval b = Some 1" by blast
  have "umain n g junk = join_all (tell MainLine (pair_state n g a b 0 [Hello 0, Hello 1, Hello 0, Hello 1, Hello 0, Hello 1])) 0 1 junk"
    unfolding umain_def Let_def create_pair(1) [OF assms] prod.case option.case create_pair(2) [OF assms] run tbind_simps ..
  with f show "\<exists>s. umain n g junk = Some (Inr (if junk = 0 then 0 else 1, s))
    \<and> uout s = [Hello 0, Hello 1, Hello 0, Hello 1, Hello 0, Hello 1, MainLine]
        @ (if junk = 0 then [MainGot 0, MainGot 1] else [JoinFailed])"
    by (simp add: join_all_def tell_def uthread_join_def pair_at Let_def finishThreads_def)
qed

theorem user_threads_alternate_witness:
  "\<exists>s. umain 2 (created undefined [] 0) 0 = Some (Inr (0, s))
    \<and> uout s = [Hello 0, Hello 1, Hello 0, Hello 1, Hello 0, Hello 1, MainLine, MainGot 0, MainGot 1]"
  using user_threads_alternate [of 2 "created undefined [] 0" 0 "[]"] by simp

end
