(* ===== verification/Ker_Threads.thy ===== *)
theory Ker_Threads
  imports Prelude
begin

text \<open>
  The kernel threads of \<open>threads/ker_threads/mythread.c\<close>: a thread made with \<open>clone\<close> on a stack from \<open>mmap\<close>, and the
  join that waits for it and unmaps its stack. What \<open>mmap\<close>, \<open>mprotect\<close>, \<open>clone\<close> and \<open>munmap\<close> return is an argument.
\<close>

section \<open>Creating a thread\<close>

definition GUARD_SIZE :: nat where "GUARD_SIZE = 4096"
definition STACK_SIZE :: nat where "STACK_SIZE = 8388608"

text \<open>\<open>routine\<close> stands for \<open>start_routine(arg)\<close>: the value it returns.\<close>

record mythread =
  mtid :: int
  routine :: int
  mretval :: "int option"
  mstack :: ptr
  stack_size :: nat
  misFinished :: int
  misJoined :: int

text \<open>The mapped regions of the process: base address and length, with the offset from which it may be written.\<close>

type_synonym regions = "addr \<rightharpoonup> nat \<times> nat"

text \<open>
  \<open>m\<close> is what \<open>mmap\<close> returns (\<open>None\<close> for \<open>MAP_FAILED\<close>), \<open>perr\<close> the result of \<open>mprotect\<close>, \<open>tid\<close> that of \<open>clone\<close>.
  A thread that was cloned starts to run; \<open>None\<close> as third result says that none was.
\<close>

definition mythread_create :: "mythread \<Rightarrow> regions \<Rightarrow> int \<Rightarrow> ptr \<Rightarrow> int \<Rightarrow> int \<Rightarrow> int \<times> mythread \<times> regions \<times> addr option" where
  "mythread_create th mm r m perr tid = (case m of None \<Rightarrow> (-1, th, mm, None)
     | Some stack \<Rightarrow>
         let mm = mm(stack \<mapsto> (STACK_SIZE + GUARD_SIZE, STACK_SIZE + GUARD_SIZE));
             th = th\<lparr>routine := r, misFinished := 0, misJoined := 0, mstack := Some stack, stack_size := STACK_SIZE\<rparr> in
         if perr \<noteq> 0 then (-1, th, mm(stack := None), None)
         else let mm = mm(stack \<mapsto> (STACK_SIZE + GUARD_SIZE, GUARD_SIZE)); th = th\<lparr>mtid := tid\<rparr> in
           if tid = -1 then (-1, th, mm(stack := None), None)
           else (0, th, mm, Some (stack + GUARD_SIZE + STACK_SIZE)))"

section \<open>The thread and its joiner\<close>

text \<open>
  \<open>start_routine_wrapper\<close> statement by statement: it calls the routine and stores the result, sets \<open>isFinished\<close>, returns
  through its stack into \<open>clone\<close>'s trampoline, and exits. \<open>mythread_join\<close>: the first test, the loop, the two assignments and
  \<open>munmap\<close>.
\<close>

datatype child_pc = KCall | KFinish | KReturn | KExited | KSegv

datatype join_pc = JTest | JWait | JMark | JUnmap | JDone int

record kstate =
  kth :: mythread
  kmem :: regions
  kchild :: child_pc
  kjoin :: join_pc
  kvar :: "int option"

text \<open>\<open>kvar\<close> is the variable of the caller that \<open>retval\<close> points to; \<open>retval = thread->retval\<close> only changes the parameter.\<close>

inductive kstep :: "int \<Rightarrow> kstate \<Rightarrow> kstate \<Rightarrow> bool" for uerr where
  k_call: "kchild s = KCall \<Longrightarrow> kstep uerr s (s\<lparr>kth := (kth s)\<lparr>mretval := Some (routine (kth s))\<rparr>, kchild := KFinish\<rparr>)"
| k_finish: "kchild s = KFinish \<Longrightarrow> kstep uerr s (s\<lparr>kth := (kth s)\<lparr>misFinished := 1\<rparr>, kchild := KReturn\<rparr>)"
| k_return: "kchild s = KReturn \<Longrightarrow> mstack (kth s) = Some a \<Longrightarrow> kmem s a \<noteq> None \<Longrightarrow>
    kstep uerr s (s\<lparr>kth := (kth s)\<lparr>mtid := 0\<rparr>, kchild := KExited\<rparr>)"
| k_segv: "kchild s = KReturn \<Longrightarrow> mstack (kth s) = Some a \<Longrightarrow> kmem s a = None \<Longrightarrow> kstep uerr s (s\<lparr>kchild := KSegv\<rparr>)"
| j_joined: "kjoin s = JTest \<Longrightarrow> misJoined (kth s) \<noteq> 0 \<Longrightarrow> kstep uerr s (s\<lparr>kjoin := JDone (-1)\<rparr>)"
| j_test: "kjoin s = JTest \<Longrightarrow> misJoined (kth s) = 0 \<Longrightarrow> kstep uerr s (s\<lparr>kjoin := JWait\<rparr>)"
| j_sleep: "kjoin s = JWait \<Longrightarrow> misFinished (kth s) \<noteq> 1 \<Longrightarrow> kstep uerr s s"
| j_wait: "kjoin s = JWait \<Longrightarrow> misFinished (kth s) = 1 \<Longrightarrow> kstep uerr s (s\<lparr>kjoin := JMark\<rparr>)"
| j_mark: "kjoin s = JMark \<Longrightarrow> kstep uerr s (s\<lparr>kth := (kth s)\<lparr>misJoined := 1\<rparr>, kjoin := JUnmap\<rparr>)"
| j_unmap: "kjoin s = JUnmap \<Longrightarrow> mstack (kth s) = Some a \<Longrightarrow> uerr = 0 \<Longrightarrow>
    kstep uerr s (s\<lparr>kmem := (kmem s)(a := None), kjoin := JDone 0\<rparr>)"
| j_unmap_fails: "kjoin s = JUnmap \<Longrightarrow> uerr \<noteq> 0 \<Longrightarrow> kstep uerr s (s\<lparr>kjoin := JDone (-1)\<rparr>)"

inductive_cases kstepE: "kstep uerr s s'"

definition kstart :: "mythread \<Rightarrow> regions \<Rightarrow> kstate" where
  "kstart th mm = \<lparr>kth = th, kmem = mm, kchild = KCall, kjoin = JTest, kvar = None\<rparr>"

section \<open>The invariant\<close>

definition kinv :: "int \<Rightarrow> addr \<Rightarrow> kstate \<Rightarrow> bool" where
  "kinv v a s \<longleftrightarrow> routine (kth s) = v \<and> mstack (kth s) = Some a \<and> kvar s = None
     \<and> (misFinished (kth s) = 1 \<longleftrightarrow> kchild s \<in> {KReturn, KExited, KSegv})
     \<and> (kchild s \<noteq> KCall \<longrightarrow> mretval (kth s) = Some v)
     \<and> (misJoined (kth s) \<noteq> 0 \<longleftrightarrow> kjoin s = JUnmap \<or> (\<exists>r. kjoin s = JDone r))
     \<and> (kjoin s \<notin> {JTest, JWait} \<longrightarrow> misFinished (kth s) = 1)
     \<and> (kmem s a = None \<longleftrightarrow> kjoin s = JDone 0)
     \<and> (kchild s = KSegv \<longrightarrow> kjoin s = JDone 0)"

lemma kstep_inv: "kstep uerr s s' \<Longrightarrow> kinv v a s \<Longrightarrow> kinv v a s'"
  by (erule kstepE) (auto simp: kinv_def)

lemma kreach_inv: "(kstep uerr)\<^sup>*\<^sup>* s s' \<Longrightarrow> kinv v a s \<Longrightarrow> kinv v a s'"
  by (induction rule: rtranclp_induct) (auto intro: kstep_inv)

lemma kstart_inv:
  assumes "mythread_create th0 mm0 v (Some a) 0 tid = (0, th, mm, tp)"
  shows "kinv v a (kstart th mm)"
  using assms by (auto simp: mythread_create_def kinv_def kstart_def Let_def split: if_splits)

lemma rtranclp_step: "r\<^sup>*\<^sup>* x y \<Longrightarrow> r y z \<Longrightarrow> r\<^sup>*\<^sup>* x z"
  by (rule rtranclp.rtrancl_into_rtrancl)

text \<open>The join overtakes the thread between its last assignment and its return.\<close>

lemma early_unmap:
  assumes "kinv v a (kstart th mm)"
  shows "\<exists>s. (kstep 0)\<^sup>*\<^sup>* (kstart th mm) s \<and> kchild s = KSegv"
proof -
  have a: "mstack th = Some a" "misJoined th = 0" using assms by (auto simp: kinv_def kstart_def)
  let ?s0 = "kstart th mm"
  let ?s1 = "?s0\<lparr>kth := th\<lparr>mretval := Some (routine th)\<rparr>, kchild := KFinish\<rparr>"
  let ?s2 = "?s1\<lparr>kth := (kth ?s1)\<lparr>misFinished := 1\<rparr>, kchild := KReturn\<rparr>"
  let ?s3 = "?s2\<lparr>kjoin := JWait\<rparr>"
  let ?s4 = "?s2\<lparr>kjoin := JMark\<rparr>"
  let ?s5 = "?s2\<lparr>kth := (kth ?s2)\<lparr>misJoined := 1\<rparr>, kjoin := JUnmap\<rparr>"
  let ?s6 = "?s5\<lparr>kmem := mm(a := None), kjoin := JDone 0\<rparr>"
  have "kstep 0 ?s0 ?s1" using kstep.k_call [of ?s0 0] by (simp add: kstart_def)
  moreover have "kstep 0 ?s1 ?s2" using kstep.k_finish [of ?s1 0] by simp
  moreover have "kstep 0 ?s2 ?s3" using kstep.j_test [of ?s2 0] a by (simp add: kstart_def)
  moreover have "kstep 0 ?s3 ?s4" using kstep.j_wait [of ?s3 0] by simp
  moreover have "kstep 0 ?s4 ?s5" using kstep.j_mark [of ?s4 0] by simp
  moreover have "kstep 0 ?s5 ?s6" using kstep.j_unmap [of ?s5 a 0] a by (simp add: kstart_def)
  moreover have "kstep 0 ?s6 (?s6\<lparr>kchild := KSegv\<rparr>)" using kstep.k_segv [of ?s6 a 0] a by simp
  ultimately have "(kstep 0)\<^sup>*\<^sup>* ?s0 (?s6\<lparr>kchild := KSegv\<rparr>)" by (meson rtranclp.rtrancl_refl rtranclp_step)
  moreover have "kchild (?s6\<lparr>kchild := KSegv\<rparr>) = KSegv" by (simp add: kstart_def)
  ultimately show ?thesis by blast
qed

section \<open>Properties\<close>

text \<open>
  Property C28. A thread from \<open>mythread_create\<close> and a join of it, in every interleaving: the join returns 0 only
  after the routine has returned and its value is in \<open>thread->retval\<close>, it marks the thread joined and unmaps its stack, and as long
  as it has not done so the stack is there for the thread; but the value never reaches the caller's variable,
  and some interleaving unmaps the stack before the thread has returned from \<open>start_routine_wrapper\<close>, which then faults.
\<close>

theorem mythread_join_outcome:
  assumes "mythread_create th0 mm0 v (Some a) 0 tid = (0, th, mm, tp)"
  shows "(\<forall>s. (kstep 0)\<^sup>*\<^sup>* (kstart th mm) s \<longrightarrow>
        kvar s = None
      \<and> (kjoin s = JDone 0 \<longrightarrow> misFinished (kth s) = 1 \<and> mretval (kth s) = Some v \<and> misJoined (kth s) \<noteq> 0 \<and> kmem s a = None)
      \<and> (kjoin s \<noteq> JDone 0 \<longrightarrow> kmem s a \<noteq> None \<and> kchild s \<noteq> KSegv))
    \<and> (\<exists>s. (kstep 0)\<^sup>*\<^sup>* (kstart th mm) s \<and> kchild s = KSegv)"
proof (intro conjI allI impI)
  have start: "kinv v a (kstart th mm)" by (rule kstart_inv [OF assms])
  then show "\<exists>s. (kstep 0)\<^sup>*\<^sup>* (kstart th mm) s \<and> kchild s = KSegv" by (rule early_unmap)
  fix s
  assume "(kstep 0)\<^sup>*\<^sup>* (kstart th mm) s"
  then have "kinv v a s" using start by (rule kreach_inv)
  then show "kvar s = None"
    and "kjoin s = JDone 0 \<Longrightarrow> misFinished (kth s) = 1" "kjoin s = JDone 0 \<Longrightarrow> mretval (kth s) = Some v"
    and "kjoin s = JDone 0 \<Longrightarrow> misJoined (kth s) \<noteq> 0" "kjoin s = JDone 0 \<Longrightarrow> kmem s a = None"
    and "kjoin s \<noteq> JDone 0 \<Longrightarrow> kmem s a \<noteq> None" "kjoin s \<noteq> JDone 0 \<Longrightarrow> kchild s \<noteq> KSegv"
    by (auto simp: kinv_def)
qed

definition blank_thread :: mythread where
  "blank_thread = \<lparr>mtid = 0, routine = 0, mretval = None, mstack = None, stack_size = 0, misFinished = 0, misJoined = 0\<rparr>"

theorem mythread_join_outcome_witness:
  "\<exists>th mm tp. mythread_create blank_thread Map.empty 7 (Some 4096) 0 33 = (0, th, mm, tp)
     \<and> (\<exists>s. (kstep 0)\<^sup>*\<^sup>* (kstart th mm) s \<and> kchild s = KSegv)"
proof -
  obtain th mm tp where c: "mythread_create blank_thread Map.empty 7 (Some 4096) 0 33 = (0, th, mm, tp)"
    by (simp add: mythread_create_def Let_def)
  with mythread_join_outcome [OF c] show ?thesis by blast
qed

end
