(* ===== verification/Thread_Demos.thy ===== *)
theory Thread_Demos
  imports Ker_Threads
begin

text \<open>
  The small programs under \<open>threads/\<close>: \<open>1.2.c\<close> and \<open>1.2d.c\<close> (a string handed to or from a thread), \<open>1.4.c\<close>
  (cancelling a thread that counts), \<open>1.5.c\<close> (signals), \<open>thread.c\<close> (local, static and global variables) and
  \<open>ker_threads/test.c\<close>. Thread numbers and addresses, which they also print, are left out.
\<close>

section \<open>Strings from and to a thread\<close>

text \<open>
  \<open>snprintf(buf, n, str)\<close> into a block of \<open>cap\<close> bytes: at most \<open>n - 1\<close> characters and a NUL. The result is the contents
  of the block as far as they were written.
\<close>

definition snprintf_str :: "nat \<Rightarrow> nat \<Rightarrow> string \<Rightarrow> string res" where
  "snprintf_str cap n str = (let out = take (n - 1) str in
     if n = 0 then Inr [] else if length out + 1 > cap then Inl OutOfBounds else Inr (out @ [CHR 0x00]))"

text \<open>\<open>1.2.c\<close>: the thread's function, and \<open>main\<close>, which prints what the join delivers. The result: what was printed after "Recieved ".\<close>

definition hello_world_thread :: "bool \<Rightarrow> string res" where
  "hello_world_thread malloc_ok = (if \<not> malloc_ok then Inl NullDeref else snprintf_str 12 12 ''hello world'')"

definition main_1_2 :: "int \<Rightarrow> bool \<Rightarrow> (int \<times> string option) res" where
  "main_1_2 create_err malloc_ok =
     (if create_err \<noteq> 0 then Inr (-1, None)
      else rbind (hello_world_thread malloc_ok) (\<lambda>s. Inr (0, Some (takeWhile (\<lambda>c. c \<noteq> CHR 0x00) s))))"

text \<open>\<open>1.2d.c\<close>: \<open>malloc(sizeof(10))\<close> is the size of an \<open>int\<close>. The two blocks may fail to be allocated.\<close>

definition sizeof_int :: nat where "sizeof_int = 4"

definition main_1_2d :: "bool \<Rightarrow> bool \<Rightarrow> int \<Rightarrow> int res" where
  "main_1_2d d_ok char_ok create_err =
     (if \<not> d_ok \<or> \<not> char_ok then Inl NullDeref
      else rbind (snprintf_str sizeof_int 10 ''hell yeah'') (\<lambda>_. Inr (if create_err \<noteq> 0 then -1 else 0)))"

lemma main_1_2_prints: "main_1_2 0 True = Inr (0, Some ''hello world'')"
  by (simp add: main_1_2_def hello_world_thread_def snprintf_str_def)

lemma main_1_2d_overflows: "main_1_2d True True e = Inl OutOfBounds"
  by (simp add: main_1_2d_def snprintf_str_def sizeof_int_def)

section \<open>Cancelling a thread that counts\<close>

text \<open>
  \<open>1.4.c\<close>. A request to cancel is acted on in a library function that is a cancellation point. The loop of the thread
  is \<open>count++\<close> and nothing else; in the source a \<open>printf\<close> after it is commented out. \<open>loop_call\<close> is the function called in the
  loop, if there is one. \<open>pthread_join\<close> stores through \<open>retval\<close>, which points nowhere: \<open>XWild\<close>.
\<close>

datatype libcall = Malloc | Snprintf | Printf

definition is_cancellation_point :: "libcall \<Rightarrow> bool" where
  "is_cancellation_point f = (case f of Malloc \<Rightarrow> False | Snprintf \<Rightarrow> False | Printf \<Rightarrow> True)"

datatype counter_pc = CMalloc | CPrint | CPush | CCount | CCall libcall

fun calls :: "counter_pc \<Rightarrow> libcall option" where
  "calls CMalloc = Some Malloc"
| "calls CPrint = Some Snprintf"
| "calls CPush = None"
| "calls CCount = None"
| "calls (CCall f) = Some f"

datatype canceller_pc = XCreate | XSleep | XShow | XCancel | XJoin | XWild | XReturn int

record cancel_demo =
  xthread :: "counter_pc option"
  xmain :: canceller_pc
  xcount :: "32 word"
  xrequested :: bool
  xpushed :: bool
  xcleaned :: bool
  xshown :: "32 word option"

inductive cancel_step :: "libcall option \<Rightarrow> int \<Rightarrow> cancel_demo \<Rightarrow> cancel_demo \<Rightarrow> bool" for loop_call create_err where
  x_malloc: "xthread s = Some CMalloc \<Longrightarrow> cancel_step loop_call create_err s (s\<lparr>xthread := Some CPrint\<rparr>)"
| x_print: "xthread s = Some CPrint \<Longrightarrow> cancel_step loop_call create_err s (s\<lparr>xthread := Some CPush\<rparr>)"
| x_push: "xthread s = Some CPush \<Longrightarrow> cancel_step loop_call create_err s (s\<lparr>xthread := Some CCount, xpushed := True\<rparr>)"
| x_count: "xthread s = Some CCount \<Longrightarrow> cancel_step loop_call create_err s
    (s\<lparr>xcount := xcount s + 1, xthread := Some (case loop_call of None \<Rightarrow> CCount | Some f \<Rightarrow> CCall f)\<rparr>)"
| x_call: "xthread s = Some (CCall f) \<Longrightarrow> \<not> (xrequested s \<and> is_cancellation_point f) \<Longrightarrow>
    cancel_step loop_call create_err s (s\<lparr>xthread := Some CCount\<rparr>)"
| x_cancelled: "xthread s = Some k \<Longrightarrow> calls k = Some f \<Longrightarrow> xrequested s \<Longrightarrow> is_cancellation_point f \<Longrightarrow>
    cancel_step loop_call create_err s (s\<lparr>xthread := None, xcleaned := xpushed s\<rparr>)"
| x_create: "xmain s = XCreate \<Longrightarrow> create_err = 0 \<Longrightarrow>
    cancel_step loop_call create_err s (s\<lparr>xthread := Some CMalloc, xmain := XSleep\<rparr>)"
| x_create_fails: "xmain s = XCreate \<Longrightarrow> create_err \<noteq> 0 \<Longrightarrow> cancel_step loop_call create_err s (s\<lparr>xmain := XReturn (-1)\<rparr>)"
| x_sleep: "xmain s = XSleep \<Longrightarrow> cancel_step loop_call create_err s (s\<lparr>xmain := XShow\<rparr>)"
| x_show: "xmain s = XShow \<Longrightarrow> cancel_step loop_call create_err s (s\<lparr>xshown := Some (xcount s), xmain := XCancel\<rparr>)"
| x_cancel: "xmain s = XCancel \<Longrightarrow> cancel_step loop_call create_err s (s\<lparr>xrequested := True, xmain := XJoin\<rparr>)"
| x_join: "xmain s = XJoin \<Longrightarrow> xthread s = None \<Longrightarrow> cancel_step loop_call create_err s (s\<lparr>xmain := XWild\<rparr>)"

inductive_cases cancel_stepE: "cancel_step loop_call create_err s s'"

definition cancel_start :: cancel_demo where
  "cancel_start = \<lparr>xthread = None, xmain = XCreate, xcount = 0, xrequested = False, xpushed = False, xcleaned = False, xshown = None\<rparr>"

text \<open>The thread goes on for ever, its clean-up handler never runs, and \<open>main\<close> never gets past the join.\<close>

definition never_ends :: "cancel_demo \<Rightarrow> bool" where
  "never_ends s \<longleftrightarrow> \<not> xcleaned s
     \<and> (case xmain s of XCreate \<Rightarrow> xthread s = None | XWild \<Rightarrow> False | XReturn _ \<Rightarrow> False | _ \<Rightarrow> xthread s \<in> Some ` {CMalloc, CPrint, CPush, CCount})"

lemma cancel_never_acted_on:
  "(cancel_step None 0)\<^sup>*\<^sup>* cancel_start s \<Longrightarrow> never_ends s"
proof (induction rule: rtranclp_induct)
  case base
  show ?case by (simp add: never_ends_def cancel_start_def)
next
  case (step s s')
  then show ?case
    by (elim cancel_stepE) (auto simp: never_ends_def is_cancellation_point_def split: canceller_pc.splits)
qed

lemma counting_goes_on: "xthread s = Some CCount \<Longrightarrow> cancel_step None 0 s (s\<lparr>xcount := xcount s + 1\<rparr>)"
  using cancel_step.x_count [of s None 0] by (cases s) simp

text \<open>With the \<open>printf\<close> of the comment the request would be acted on, and the join would then store through \<open>retval\<close>.\<close>

lemma cancel_with_printf:
  assumes "xthread s = Some (CCall Printf)" "xpushed s" "xrequested s" "xmain s = XJoin"
  shows "\<exists>s'. (cancel_step (Some Printf) 0)\<^sup>*\<^sup>* s s' \<and> xcleaned s' \<and> xmain s' = XWild"
proof -
  let ?s1 = "s\<lparr>xthread := None, xcleaned := xpushed s\<rparr>"
  have "cancel_step (Some Printf) 0 s ?s1"
    by (rule cancel_step.x_cancelled [OF assms(1) _ assms(3), of Printf]) (simp_all add: is_cancellation_point_def)
  moreover have "cancel_step (Some Printf) 0 ?s1 (?s1\<lparr>xmain := XWild\<rparr>)" by (rule cancel_step.x_join) (simp_all add: assms)
  ultimately have "(cancel_step (Some Printf) 0)\<^sup>*\<^sup>* s (?s1\<lparr>xmain := XWild\<rparr>)"
    by (meson converse_rtranclp_into_rtranclp rtranclp.rtrancl_refl)
  then show ?thesis using assms(2) by (intro exI [of _ "?s1\<lparr>xmain := XWild\<rparr>"]) simp
qed

section \<open>Signals\<close>

text \<open>
  \<open>1.5.c\<close>. Thread 0 is \<open>main\<close>; threads 1, 2 and 3 run \<open>mythread\<close> with the numbers 0, 1 and 2. A signal sent to the process is
  delivered to some thread that does not block it, or accepted by a thread that waits for it in \<open>sigwait\<close>. The default
  action of both signals ends the process; the handler for \<open>SIGINT\<close> is installed for the whole process.
\<close>

datatype sg = SIGINT | SIGQUIT

datatype sig_pc = SigOff | SigBlock | SigSleep | SigWaitInt | SigHandler | SigUnblock | SigIdle | SigHello | SigWait | SigReturned

record sig_demo =
  spc :: "nat \<Rightarrow> sig_pc"
  screated :: nat
  sjoined :: nat
  smask :: "nat \<Rightarrow> sg set"
  shandler :: bool
  salive :: bool
  scaught :: "(nat \<times> sg) list"

definition sig_entry :: "nat \<Rightarrow> sig_pc" where
  "sig_entry i = (if i = 0 then SigBlock else if i = 1 then SigWaitInt else SigHello)"

text \<open>The statements of \<open>mythread\<close> that change the state: of the masks, of the handler, and where the thread is.\<close>

fun sig_stmt :: "nat \<Rightarrow> sig_demo \<Rightarrow> sig_pc \<Rightarrow> sig_demo option" where
  "sig_stmt t s SigBlock = Some (s\<lparr>smask := (smask s)(t := UNIV), spc := (spc s)(t := SigSleep)\<rparr>)"
| "sig_stmt t s SigSleep = Some s"
| "sig_stmt t s SigWaitInt = Some (s\<lparr>spc := (spc s)(t := SigHandler)\<rparr>)"
| "sig_stmt t s SigHandler = Some (s\<lparr>shandler := True, spc := (spc s)(t := SigUnblock)\<rparr>)"
| "sig_stmt t s SigUnblock = Some (s\<lparr>smask := (smask s)(t := smask s t - {SIGINT}), spc := (spc s)(t := SigIdle)\<rparr>)"
| "sig_stmt t s SigIdle = Some s"
| "sig_stmt t s SigHello = Some (s\<lparr>spc := (spc s)(t := SigWait)\<rparr>)"
| "sig_stmt t s SigWait = None"
| "sig_stmt t s SigReturned = None"
| "sig_stmt t s SigOff = None"

text \<open>What the delivery of a signal to thread \<open>t\<close> does.\<close>

definition deliver :: "sg \<Rightarrow> nat \<Rightarrow> sig_demo \<Rightarrow> sig_demo" where
  "deliver sig t s = (if sig = SIGINT \<and> shandler s then s\<lparr>scaught := scaught s @ [(t, sig)]\<rparr> else s\<lparr>salive := False\<rparr>)"

inductive sig_step :: "sig_demo \<Rightarrow> sig_demo \<Rightarrow> bool" where
  sig_create: "salive s \<Longrightarrow> screated s < 3 \<Longrightarrow>
    sig_step s (s\<lparr>spc := (spc s)(Suc (screated s) := sig_entry (screated s)), smask := (smask s)(Suc (screated s) := smask s 0),
      screated := Suc (screated s)\<rparr>)"
| sig_run: "salive s \<Longrightarrow> sig_stmt t s (spc s t) = Some s' \<Longrightarrow> sig_step s s'"
| sig_join: "salive s \<Longrightarrow> screated s = 3 \<Longrightarrow> sjoined s < 3 \<Longrightarrow> spc s (Suc (sjoined s)) = SigReturned \<Longrightarrow>
    sig_step s (s\<lparr>sjoined := Suc (sjoined s)\<rparr>)"
| sig_delivered: "salive s \<Longrightarrow> t \<le> screated s \<Longrightarrow> spc s t \<noteq> SigReturned \<Longrightarrow> sig \<notin> smask s t \<Longrightarrow> sig_step s (deliver sig t s)"
| sig_accepted: "salive s \<Longrightarrow> spc s t = SigWait \<Longrightarrow>
    sig_step s (s\<lparr>spc := (spc s)(t := SigReturned), scaught := scaught s @ [(t, SIGQUIT)]\<rparr>)"

inductive_cases sig_stepE: "sig_step s s'"

definition sig_start :: sig_demo where
  "sig_start = \<lparr>spc = \<lambda>_. SigOff, screated = 0, sjoined = 0, smask = \<lambda>_. {}, shandler = False, salive = True, scaught = []\<rparr>"

text \<open>The statements a thread can be at.\<close>

definition sig_places :: "nat \<Rightarrow> sig_pc set" where
  "sig_places t = (if t = 1 then {SigOff, SigBlock, SigSleep} else if t = 2 then {SigOff, SigWaitInt, SigHandler, SigUnblock, SigIdle}
     else if t = 3 then {SigOff, SigHello, SigWait, SigReturned} else {SigOff})"

definition sig_inv :: "sig_demo \<Rightarrow> bool" where
  "sig_inv s \<longleftrightarrow> screated s \<le> 3 \<and> sjoined s = 0 \<and> smask s 0 = {} \<and> (\<forall>t. spc s t \<in> sig_places t)
     \<and> (spc s 2 \<in> {SigUnblock, SigIdle} \<longrightarrow> shandler s)"

lemma sig_entry_place: "i < 3 \<Longrightarrow> sig_entry i \<in> sig_places (Suc i) \<and> sig_entry i \<notin> {SigUnblock, SigIdle}"
  by (auto simp: sig_entry_def sig_places_def numeral_eq_Suc less_Suc_eq)

lemma sig_stmt_frame:
  "sig_stmt t s k = Some s' \<Longrightarrow> screated s' = screated s \<and> sjoined s' = sjoined s \<and> (shandler s \<longrightarrow> shandler s')
     \<and> (\<forall>u. u \<noteq> t \<longrightarrow> spc s' u = spc s u \<and> smask s' u = smask s u)"
  by (erule sig_stmt.elims) auto

lemma sig_stmt_next:
  assumes "sig_stmt t s k = Some s'" "spc s t = k" "k \<in> sig_places t"
  shows "spc s' t \<in> sig_places t" "spc s' t \<in> {SigUnblock, SigIdle} \<Longrightarrow> k \<in> {SigUnblock, SigIdle} \<or> shandler s'" "t \<noteq> 0"
  using assms by (erule_tac [!] sig_stmt.elims) (auto simp: sig_places_def split: if_splits)

lemma sig_inv_run:
  assumes inv: "sig_inv s" and run: "sig_stmt t s (spc s t) = Some s'"
  shows "sig_inv s'"
proof -
  have place: "\<And>u. spc s u \<in> sig_places u" using inv by (simp add: sig_inv_def)
  note f = sig_stmt_frame [OF run] and n = sig_stmt_next [OF run refl place]
  have "spc s' u \<in> sig_places u" for u using f n(1) place by (cases "u = t") auto
  moreover have "shandler s'" if "spc s' 2 \<in> {SigUnblock, SigIdle}"
  proof (cases "t = 2")
    case True
    then have "spc s 2 \<in> {SigUnblock, SigIdle} \<or> shandler s'" using n(2) that by simp
    with f inv show ?thesis by (auto simp: sig_inv_def)
  next
    case False
    then have "spc s' 2 = spc s 2" using f by simp
    with that f inv show ?thesis by (simp add: sig_inv_def)
  qed
  moreover have "smask s' 0 = {}" using f n(3) inv by (simp add: sig_inv_def)
  ultimately show ?thesis using f inv by (simp add: sig_inv_def)
qed

lemma sig_inv_step:
  assumes "sig_step s s'" "sig_inv s"
  shows "sig_inv s'"
  using assms(1)
proof cases
  case sig_create
  with assms(2) sig_entry_place [of "screated s"] show ?thesis by (simp add: sig_inv_def)
next
  case (sig_run t)
  with sig_inv_run [OF assms(2)] show ?thesis by blast
next
  case (sig_accepted t)
  have "spc s t \<in> sig_places t" using assms(2) by (simp add: sig_inv_def)
  with sig_accepted(3) have "t = 3" by (simp add: sig_places_def split: if_splits)
  moreover have "SigReturned \<in> sig_places 3" by (simp add: sig_places_def)
  ultimately show ?thesis using sig_accepted(1) assms(2) by (simp add: sig_inv_def)
next
  case sig_join
  have "spc s 1 \<in> sig_places 1" "sjoined s = 0" using assms(2) by (simp_all add: sig_inv_def)
  with sig_join show ?thesis by (simp add: sig_places_def)
next
  case (sig_delivered t sig)
  with assms(2) show ?thesis by (simp add: sig_inv_def deliver_def)
qed

lemma sig_reach_inv: "sig_step\<^sup>*\<^sup>* sig_start s \<Longrightarrow> sig_inv s"
proof (induction rule: rtranclp_induct)
  case base
  show ?case by (simp add: sig_inv_def sig_start_def sig_places_def)
qed (rule sig_inv_step)

text \<open>
  In every run: \<open>main\<close> joins nobody, because thread 1 never returns; as long as the process lives, \<open>SIGQUIT\<close> can end it, since
  \<open>main\<close> does not block it, although thread 3 waits for it; and once thread 2 has installed its handler no \<open>SIGINT\<close> ends it.
\<close>

lemma signals_in_the_process:
  assumes "sig_step\<^sup>*\<^sup>* sig_start s" "salive s"
  shows "sjoined s = 0" "\<exists>s'. sig_step s s' \<and> \<not> salive s'"
    "spc s 2 \<in> {SigUnblock, SigIdle} \<Longrightarrow> salive (deliver SIGINT t s)"
proof -
  have inv: "sig_inv s" by (rule sig_reach_inv [OF assms(1)])
  then show "sjoined s = 0" "spc s 2 \<in> {SigUnblock, SigIdle} \<Longrightarrow> salive (deliver SIGINT t s)"
    using assms(2) by (auto simp: sig_inv_def deliver_def)
  have "spc s 0 \<in> sig_places 0" "smask s 0 = {}" using inv by (simp_all add: sig_inv_def)
  then have "sig_step s (deliver SIGQUIT 0 s)" using assms(2) by (intro sig_delivered) (simp_all add: sig_places_def)
  moreover have "\<not> salive (deliver SIGQUIT 0 s)" by (simp add: deliver_def)
  ultimately show "\<exists>s'. sig_step s s' \<and> \<not> salive s'" by blast
qed

section \<open>Variables of threads\<close>

text \<open>
  \<open>thread.c\<close>: \<open>a\<close> and \<open>c\<close> are local to a call of \<open>mythread\<close>, \<open>b\<close> (static) and \<open>d\<close> (global) are shared. \<open>main\<close> starts a thread and
  sleeps a second, so that the bodies run one after the other; \<open>order\<close> is the order in which they do.
\<close>

record vars =
  var_b :: int
  var_d :: int

definition vars_start :: vars where
  "vars_start = \<lparr>var_b = 2, var_d = 4\<rparr>"

text \<open>What a thread prints (its number and the four values), and the shared variables after it.\<close>

definition vars_thread :: "nat \<Rightarrow> vars \<Rightarrow> (nat \<times> int \<times> int \<times> int \<times> int) \<times> vars" where
  "vars_thread n v = (let a = 1; c = 3 in
     ((n, a, var_b v, c, var_d v), if n = 2 then v\<lparr>var_b := 20, var_d := 40\<rparr> else v))"

fun vars_run :: "nat list \<Rightarrow> vars \<Rightarrow> (nat \<times> int \<times> int \<times> int \<times> int) list \<times> vars" where
  "vars_run [] v = ([], v)"
| "vars_run (n # ns) v = (let (p, v) = vars_thread n v; (ps, v) = vars_run ns v in (p # ps, v))"

text \<open>\<open>main\<close>: \<open>create_err i\<close> is what \<open>pthread_create\<close> returns for thread \<open>i\<close>; after an error the threads that run are joined.\<close>

definition vars_main :: "(nat \<Rightarrow> int) \<Rightarrow> int \<times> (nat \<times> int \<times> int \<times> int \<times> int) list" where
  "vars_main create_err = (let started = takeWhile (\<lambda>i. create_err i = 0) [0..<5] in
     (if started = [0..<5] then 0 else -1, fst (vars_run started vars_start)))"

lemma vars_run_unchanged: "2 \<notin> set ns \<Longrightarrow> vars_run ns v = (map (\<lambda>n. (n, 1, var_b v, 3, var_d v)) ns, v)"
  by (induction ns) (auto simp: vars_thread_def Let_def)

lemma vars_run_around:
  assumes "2 \<notin> set ns" "2 \<notin> set ms"
  shows "fst (vars_run (ns @ 2 # ms) v) = map (\<lambda>n. (n, 1, var_b v, 3, var_d v)) (ns @ [2]) @ map (\<lambda>n. (n, 1, 20, 3, 40)) ms"
  using assms(1)
proof (induction ns arbitrary: v)
  case Nil
  then show ?case using vars_run_unchanged [OF assms(2)] by (simp add: vars_thread_def)
next
  case (Cons n ns)
  then show ?case by (simp add: vars_thread_def Let_def split_beta)
qed

text \<open>The threads after thread 2 see its changes of the static and the global variable; nobody sees that of the local one.\<close>

lemma vars_main_prints:
  "vars_main (\<lambda>_. 0) = (0, [(0, 1, 2, 3, 4), (1, 1, 2, 3, 4), (2, 1, 2, 3, 4), (3, 1, 20, 3, 40), (4, 1, 20, 3, 40)])"
proof -
  have "[0..<5] = [0, 1] @ 2 # [3, 4 :: nat]" by (simp add: upt_rec)
  with vars_run_around [of "[0, 1]" "[3, 4]" vars_start] show ?thesis by (simp add: vars_main_def vars_start_def)
qed

section \<open>The test of the kernel threads\<close>

text \<open>
  \<open>mythread_join\<close> for a thread whose routine has returned or will return: its result, and what it leaves. \<open>objs\<close> are the
  \<open>mythread\<close> structures that exist, \<open>uerr\<close> is what \<open>munmap\<close> returns.
\<close>

definition join_returns :: "mythread heap \<Rightarrow> ptr \<Rightarrow> regions \<Rightarrow> int \<Rightarrow> (int \<times> mythread heap \<times> regions) res" where
  "join_returns objs p mm uerr = rbind (deref objs p) (\<lambda>th.
     if misJoined th \<noteq> 0 then Inr (-1, objs, mm)
     else rbind (store objs p (\<lambda>th. th\<lparr>mretval := Some (routine th), misFinished := 1, misJoined := 1\<rparr>)) (\<lambda>objs.
       case mstack th of None \<Rightarrow> Inr (-1, objs, mm)
       | Some a \<Rightarrow> if uerr \<noteq> 0 then Inr (-1, objs, mm) else Inr (0, objs, mm(a := None))))"

definition create_through :: "mythread heap \<Rightarrow> ptr \<Rightarrow> regions \<Rightarrow> int \<Rightarrow> ptr \<Rightarrow> int \<Rightarrow> int \<Rightarrow> (int \<times> mythread heap \<times> regions) res" where
  "create_through objs p mm r m perr tid =
     (if m = None then Inr (-1, objs, mm)
      else rbind (deref objs p) (\<lambda>th.
        case mythread_create th mm r m perr tid of (res, th, mm, _) \<Rightarrow>
          rbind (store objs p (\<lambda>_. th)) (\<lambda>objs. Inr (res, objs, mm))))"

text \<open>\<open>main\<close> of \<open>test.c\<close>; \<open>p\<close> is what the variable \<open>thread\<close>, which is never assigned, happens to hold.\<close>

definition ker_test_main :: "mythread heap \<Rightarrow> ptr \<Rightarrow> regions \<Rightarrow> ptr \<Rightarrow> ptr \<Rightarrow> int \<Rightarrow> int \<Rightarrow> int \<Rightarrow> (int \<times> int list) res" where
  "ker_test_main objs p mm m1 m2 perr tid uerr =
     rbind (create_through objs p mm 0 m1 perr tid) (\<lambda>(r1, objs, mm).
       if r1 \<noteq> 0 then Inr (1, [r1]) else
     rbind (join_returns objs p mm uerr) (\<lambda>(r2, objs, mm).
       if r2 \<noteq> 0 then Inr (1, [r1, r2]) else
     rbind (create_through objs p mm 0 m2 perr tid) (\<lambda>(r3, objs, mm).
       if r3 \<noteq> 0 then Inr (1, [r1, r2, r3]) else
     rbind (join_returns objs p mm uerr) (\<lambda>(r4, objs, mm).
       if r4 \<noteq> 0 then Inr (1, [r1, r2, r3, r4]) else
     rbind (join_returns objs p mm uerr) (\<lambda>(r5, objs, mm). Inr (0, [r1, r2, r3, r4, r5]))))))"

text \<open>
  Unless the variable happens to point to such a structure, the first \<open>mythread_create\<close> already writes through a wild pointer. If it does, the
  test would pass: two threads are created and joined, and the third join is refused.
\<close>

lemma ker_test_outcome:
  assumes "m1 \<noteq> None" "m2 \<noteq> None" "tid \<noteq> -1"
  shows "(case p of None \<Rightarrow> True | Some a \<Rightarrow> objs a = None) \<Longrightarrow> \<exists>f. ker_test_main objs p mm m1 m2 0 tid 0 = Inl f"
    "p = Some a \<Longrightarrow> objs a = Some th \<Longrightarrow> ker_test_main objs p mm m1 m2 0 tid 0 = Inr (0, [0, 0, 0, 0, -1])"
  using assms
  by (auto simp: ker_test_main_def create_through_def join_returns_def mythread_create_def Let_def split: option.splits)

end
