(* ===== verification/Spec2Isabelle.thy ===== *)
theory Spec2Isabelle
  imports Queue_Threads Queue_Blocking_Laws Cache_Calls Cache_Races Proxy_Serves Backend_Loop Master Lock_Tests Swap_RW_Main Lab_Pool User_Threads Thread_Demos
begin

text \<open>
  A verification library for the course programs of \<open>src/\<close>: a caching HTTP proxy (\<open>proxy/\<close>), studies of
  synchronisation (\<open>sync/\<close>) and of threads (\<open>threads/\<close>), all in C.

  \<^bold>\<open>The programs and how their parts interact.\<close>

  \<^item> \<^emph>\<open>Proxy.\<close> \<open>main.c\<close> starts the master thread (\<open>domain/master.c\<close>). It accepts connections and hands
    each to a backend thread (\<open>domain/backend.c\<close>), which it starts in the thread pool
    (\<open>lib/thread_pool\<close>). A backend parses the request (\<open>net/http.c\<close>), builds a key and looks it up in
    the response cache (\<open>cache/cache.c\<close>) that all threads share. An unknown key starts a background
    worker (\<open>domain/background_worker.c\<close>), which loads the response with libcurl and appends it to a cache
    entry chunk by chunk. The backend streams the entry to its client packet by packet while it is still
    growing; with nothing to send it registers the client as a waiter, and the worker's next append
    wakes it. A garbage collector of the cache removes expired entries.
  \<^item> \<^emph>\<open>Queues.\<close> \<open>queue.h\<close> has five implementations: without a lock (\<open>queue.c\<close> and its copy
    \<open>2.1a.c\<close>), with a spin lock (\<open>2.2a-c.c\<close>), a mutex (\<open>2.2e.c\<close>), condition variables (\<open>2.2f.c\<close>) and
    semaphores (\<open>2.2g.c\<close>). Reader and writer threads (\<open>queue-threads.c\<close>, \<open>2.1b.c\<close>, \<open>2.2d.c\<close>) use them.
  \<^item> \<^emph>\<open>Lists.\<close> \<open>2.3/2.3-2.4.c\<close> and \<open>2.3/2.3m.c\<close>: threads that count and threads that swap neighbours of a linked
    list with a mutex or a read-write lock in every node.
  \<^item> \<^emph>\<open>Locks.\<close> \<open>2.4\<close>: a spin lock and a futex mutex with their tests.
  \<^item> \<^emph>\<open>Coroutines.\<close> \<open>lab1.8\<close>: a scheduler (\<open>coroutine.c\<close>) with a run queue (\<open>coro_queue.c\<close>) and a
    table of the running coroutine of every kernel thread (\<open>coro_map.c\<close>), used by \<open>cluster.c\<close>.
  \<^item> \<^emph>\<open>Threads.\<close> \<open>user_threads/1.7.c\<close>, threads on \<open>swapcontext\<close>; \<open>ker_threads/mythread.c\<close>, threads
    on \<open>clone\<close>, with \<open>test.c\<close>; the small programs \<open>1.2.c\<close>, \<open>1.2d.c\<close>, \<open>1.4.c\<close>, \<open>1.5.c\<close> and \<open>thread.c\<close> on POSIX threads.

  \<^bold>\<open>How C is modelled.\<close> (theory \<open>Prelude\<close>) A function is a function of the state it uses. A result of type
  \<open>'a res\<close> is a \<open>fault\<close> (a read or write through \<open>NULL\<close> or freed memory, a double free, an access out
  of bounds, a division by zero) or a value, so that a theorem that a result is \<open>Inr\<close> states memory safety.
  Linked structures live in an explicit heap of typed cells; the block \<open>malloc\<close> returns is an argument
  constrained by \<open>fresh\<close>, and the results of most other calls that may fail are arguments (for those that are not, see the end). \<open>size_t\<close> and counters are
  64-bit words. \<open>option\<close> around a result (\<open>None\<close>) is a call that waits for ever or a loop that does not end; loops over
  linked lists are \<open>partial_function (option)\<close>, and the theorems show that the result is \<open>Some\<close>: no bound on
  steps is chosen anywhere. Threads are step relations whose steps are single accesses to shared memory or single
  lock operations; the theorems hold for all reachable states. Code outside the repository is a parameter: picohttpparser
  (\<open>Http\<close>), libcurl (\<open>perform\<close> of \<open>Background_Worker\<close>, its documented calling convention), libuv (its results, and its
  callbacks as the operations of \<open>Backend\<close> and \<open>Master\<close>), \<open>rand\<close> and \<open>time\<close>.

  \<^bold>\<open>Theories.\<close>

  \<^item> \<open>Queue_Spec\<close>: the locale \<open>fifo_queue\<close>, the contract of a bounded queue on a heap, and what follows for every
    sequence of calls. \<open>Queue_Plain\<close> (\<open>queue.c\<close>, \<open>queue-example.c\<close>) and \<open>Coro_Queue\<close> (\<open>coro_queue.c\<close>) interpret it.
    \<open>Queue_Sync\<close>: the four synchronised queues, equal to the plain one where their locks are free.
    \<open>Locked_Threads\<close>: threads over an object with one lock, a locale with a reduction theorem (what whole calls
    keep holds in all interleavings). \<open>Queue_Threads\<close>: its interpretation by the reader, writer and monitor threads,
    and the use after free of the program without a lock. \<open>Queue_Blocking\<close>, \<open>Queue_Blocking_Laws\<close>: any number of threads over the queues
    with condition variables and with semaphores, which both satisfy the locale \<open>blocking_queue\<close>: first in first out, and no lost wake-up.
  \<^item> \<open>Cache\<close>: every function of \<open>cache.c\<close> and its invariant; \<open>Cache_Laws\<close>, \<open>Cache_Waiters\<close>, \<open>Cache_Sweep\<close>: each
    operation keeps the invariant, and its effect on the map from keys to responses, on the waiting clients and on the buckets;
    \<open>Cache_Store\<close>: the locale \<open>response_store\<close>, which worker and backend use, its interpretation, and the properties of the cache;
    \<open>Cache_Calls\<close>: sequences of calls by callers that keep the entry pointer they were given, as the workers do. The calls that break the
    rules of the cache are named one by one (a pointer used after its entry was freed, a failed \<open>malloc\<close>, an empty finish before a
    free): a sequence without them keeps the invariant and does not fault, and one with them can. In these theories a call is one step;
    \<open>Cache_Threads\<close> takes an entry apart into single accesses and lock operations of its worker, its readers and the sweeper,
    \<open>Cache_Threads_Laws\<close> has their invariant (with the time of the latest access to the entry as a ghost), and \<open>Cache_Races\<close> shows that a lookup is atomic all the same, where memory faults can
    happen and do, and that the locks never block each other.
  \<^item> \<open>Http\<close>, \<open>Background_Worker\<close> (with what two loads of one key do to each other), \<open>Backend\<close>: the other functions of the
    proxy's data path. \<open>Backend_Stream\<close>: a connection with other threads acting between any two cache
    operations. Its callbacks never fault, whatever the others do; when they let the entry only grow (locale \<open>surroundings\<close>), a client is passed a prefix
    of the response, in the end all of it, and is never forgotten, except for what \<open>uv_write\<close> refuses, which the code loses. The
    locale \<open>notifying\<close> adds that registered clients are woken. \<open>Proxy_Serves\<close>: worker and connection put together, the operations of a load, with the
    wake-ups they send, interleaved with those of the client it is
    for (locale \<open>proxy\<close>, which discharges the laws of \<open>notifying\<close>): the client gets the whole response, or hangs in one interleaving of the first packet. \<open>Backend_Loop\<close>: the buffers and the loop of \<open>run_backend\<close>.
  \<^item> \<open>Thread_Pool\<close> and \<open>Master\<close>: the pool with its daemon, start-up and the dispatch of connections. \<open>Lab_Pool\<close>: the pool of
    \<open>lab1.8\<close>, whose daemon differs, with the thread that adds threads and destroys the pool, statement by statement.
  \<^item> \<open>Lock_Counter\<close>: the locale \<open>lock_algorithm\<close> and the counting threads of \<open>tests.c\<close> over any such lock; \<open>Spinlock\<close>
    and \<open>Futex_Mutex\<close> interpret it; \<open>Lock_Tests\<close>: the tests pass.
  \<^item> \<open>Swap_List\<close>, \<open>Swap_Laws\<close>: the list functions of one thread. \<open>Swap_Threads\<close>, \<open>Swap_Safety\<close>, \<open>Swap_Progress\<close>:
    all threads interleaved, their invariant, memory safety and the absence of deadlock. \<open>Swap_Main\<close>: the whole program with
    \<open>main\<close>, which ends under every scheduler. \<open>Swap_RW\<close>, \<open>Swap_RW_Laws\<close>: the functions with read-write locks, which refine those with
    mutexes. \<open>Swap_RW_Safety\<close>, \<open>Swap_RW_Deadlock\<close>, \<open>Swap_RW_Main\<close>: their program keeps the list intact in every interleaving, and what
    it leaves when it returns, but it can deadlock and then never returns.
  \<^item> \<open>Coro_Map\<close> (locale \<open>thread_table\<close>), \<open>Coroutine\<close>, \<open>Coroutine_Laws\<close>, \<open>Cluster\<close>: coroutines run round robin; the
    scheduler and its coroutines are followed from one switch of context to the next. \<open>Cluster_Main\<close>: \<open>main\<close> of \<open>cluster.c\<close> over the thread pool.
  \<^item> \<open>User_Threads\<close>, \<open>Ker_Threads\<close>: creation, switching, termination and join. \<open>Thread_Demos\<close>: the small programs on threads, what they print,
    and the cancellation, the signals and the pointers they get wrong.

  \<^bold>\<open>Not modelled.\<close> The text written to the terminal where it is not the point of the program (\<open>printf\<close>; the numbers that
  \<open>print_stats\<close> prints are kept), process and thread numbers and addresses, CPU affinity (\<open>set_cpu\<close>) and how long a thread sleeps;
  the failure of the untested allocations of a request in \<open>backend.c\<close> (\<open>alloc_write_req_t\<close>, \<open>read_client\<close>), of \<open>strdup\<close> in \<open>cache_register_waiter\<close>, and
  of \<open>malloc\<close> in the lookups of \<open>Cache_Threads\<close> and of \<open>Proxy_Serves\<close>; the copies \<open>2.1a.c\<close> and \<open>2.1b.c\<close> of the queue and its test beyond what their originals show; functions that \<open>cache.h\<close> declares and no file
  defines; the loop of the detached thread of \<open>1.2d.c\<close>, which is only reached past an overflow. Weak memory is not modelled: accesses to
  shared memory are sequentially consistent.
\<close>

end
